(* ===== verification/Prelude.thy ===== *)
theory Prelude
  imports Main "HOL-Library.Word" "HOL-Library.Monad_Syntax"
begin

text \<open>
  Shared ground of the development.

  \<^item> C integers: bytes and machine words, and \<open>int_ok\<close>, the range of a 32-bit \<open>int\<close>.
  \<^item> Pointers: \<open>Null\<close> or \<open>Ptr p\<close> for a pointer value \<open>p\<close>.
  \<^item> C strings: the bytes before the terminator, ordered by \<open>strcmp\<close> (the instance
    of \<open>linorder\<close> below is the order the libraries sort and search by).
  \<^item> Linked lists: \<open>chain\<close> says that following a link field from a pointer visits
    exactly the given cells; its frame lemmas serve the channel and the LRU list.

  A function that models C code whose execution may have no result (undefined behaviour
  such as a dereference of a null or freed pointer or an access out of bounds, an
  assertion that fails, or a call that never returns) has type \<open>'a option\<close>: \<open>None\<close>
  stands for "no defined result" and \<open>Some r\<close> for a return with result \<open>r\<close>.
\<close>

named_theorems codes \<open>the values of return codes, attributes and magic numbers\<close>

section \<open>Integers and pointers\<close>

type_synonym byte = "8 word"
type_synonym u32 = "32 word"
type_synonym u64 = "64 word"

definition int_ok :: "int \<Rightarrow> bool" where
  "int_ok x \<longleftrightarrow> - 2147483648 \<le> x \<and> x \<le> 2147483647"

datatype 'p ptr = Null | Ptr 'p

section \<open>Results of possibly undefined computations\<close>

lemma bind_Some_iff:
  "Option.bind m f = Some y \<longleftrightarrow> (\<exists>x. m = Some x \<and> f x = Some y)"
  by (cases m) auto

lemma bind_SomeE:
  assumes "Option.bind m f = Some y"
  obtains x where "m = Some x" and "f x = Some y"
  using assms by (auto simp: bind_Some_iff)

definition assert_opt :: "bool \<Rightarrow> unit option" where
  "assert_opt b = (if b then Some () else None)"

lemma assert_opt_simps [simp]:
  "assert_opt True = Some ()"
  "assert_opt False = None"
  "assert_opt b = Some u \<longleftrightarrow> b"
  by (simp_all add: assert_opt_def)

section \<open>Lists updated by index\<close>

lemma take_Suc_update:
  "i < length xs \<Longrightarrow> take (Suc i) (xs[i := x]) = take i xs @ [x]"
  by (simp add: take_Suc_conv_app_nth)

lemma nth_remove_at:
  assumes "i < length xs" and "j < length xs - 1"
  shows "(take i xs @ drop (Suc i) xs) ! j = (if j < i then xs ! j else xs ! Suc j)"
  using assms by (auto simp: nth_append min_def)

lemma set_remove_at: "set (take i xs @ drop (Suc i) xs) \<subseteq> set xs"
  by (auto dest: in_set_takeD in_set_dropD)

section \<open>C strings and \<open>strcmp\<close>\<close>

text \<open>
  A C string is the bytes before its terminator. \<open>strcmp\<close> compares bytes as unsigned
  values; the C standard fixes only the sign of its result, so the model returns
  \<open>-1\<close>, \<open>0\<close> or \<open>1\<close>.
\<close>

datatype cstr = CStr (cbytes: "byte list")

fun bytes_cmp :: "byte list \<Rightarrow> byte list \<Rightarrow> int" where
  "bytes_cmp [] [] = 0"
| "bytes_cmp [] (b # bs) = -1"
| "bytes_cmp (a # as) [] = 1"
| "bytes_cmp (a # as) (b # bs) =
     (if a = b then bytes_cmp as bs else if a < b then -1 else 1)"

definition strcmp :: "cstr \<Rightarrow> cstr \<Rightarrow> int" where
  "strcmp a b = bytes_cmp (cbytes a) (cbytes b)"

definition strlen :: "cstr \<Rightarrow> nat" where
  "strlen s = length (cbytes s)"

lemma bytes_cmp_eq_0 [simp]: "bytes_cmp a b = 0 \<longleftrightarrow> a = b"
  by (induction a b rule: bytes_cmp.induct) auto

lemma bytes_cmp_swap: "bytes_cmp b a = - bytes_cmp a b"
  by (induction a b rule: bytes_cmp.induct) auto

lemma bytes_cmp_trans:
  "bytes_cmp a b \<le> 0 \<Longrightarrow> bytes_cmp b c \<le> 0 \<Longrightarrow> bytes_cmp a c \<le> 0"
proof (induction a b arbitrary: c rule: bytes_cmp.induct)
  case (1 c)
  then show ?case by simp
next
  case (2 b bs c)
  then show ?case by (cases c) auto
next
  case (3 a as c)
  then show ?case by simp
next
  case (4 a as b bs c)
  then show ?case by (cases c) (auto split: if_splits)
qed

lemma strcmp_eq_0 [simp]: "strcmp a b = 0 \<longleftrightarrow> a = b"
  by (cases a; cases b) (simp add: strcmp_def)

lemma strcmp_self [simp]: "strcmp a a = 0"
  by simp

lemma strcmp_swap: "strcmp b a = - strcmp a b"
  unfolding strcmp_def by (rule bytes_cmp_swap)

instantiation cstr :: linorder
begin

definition less_eq_cstr :: "cstr \<Rightarrow> cstr \<Rightarrow> bool" where
  "less_eq_cstr a b \<longleftrightarrow> strcmp a b \<le> 0"

definition less_cstr :: "cstr \<Rightarrow> cstr \<Rightarrow> bool" where
  "less_cstr a b \<longleftrightarrow> strcmp a b < 0"

instance
proof
  fix a b c :: cstr
  show "(a < b) = (a \<le> b \<and> \<not> b \<le> a)"
    using strcmp_swap [of a b] by (auto simp: less_eq_cstr_def less_cstr_def)
  show "a \<le> a"
    by (simp add: less_eq_cstr_def)
  show "a \<le> b \<Longrightarrow> b \<le> c \<Longrightarrow> a \<le> c"
    unfolding less_eq_cstr_def strcmp_def by (rule bytes_cmp_trans)
  show "a \<le> b \<Longrightarrow> b \<le> a \<Longrightarrow> a = b"
    unfolding less_eq_cstr_def
    by (metis strcmp_eq_0 strcmp_swap neg_le_0_iff_le order_antisym)
  show "a \<le> b \<or> b \<le> a"
    unfolding less_eq_cstr_def by (metis strcmp_swap linear neg_le_0_iff_le)
qed

end

lemma strcmp_neg_iff [simp]: "strcmp a b < 0 \<longleftrightarrow> a < b"
  by (simp add: less_cstr_def)

lemma strcmp_pos_iff [simp]: "0 < strcmp a b \<longleftrightarrow> b < a"
  by (metis less_cstr_def neg_less_0_iff_less strcmp_swap)

section \<open>Linked lists\<close>

text \<open>
  \<open>chain nxt p xs\<close>: starting at pointer \<open>p\<close> and following the link field \<open>nxt\<close>,
  the cells met before the null pointer are exactly \<open>xs\<close>, in this order.
\<close>

primrec chain :: "('a \<Rightarrow> 'a option) \<Rightarrow> 'a option \<Rightarrow> 'a list \<Rightarrow> bool" where
  "chain nxt p [] \<longleftrightarrow> p = None"
| "chain nxt p (x # xs) \<longleftrightarrow> p = Some x \<and> chain nxt (nxt x) xs"

lemma chain_None [simp]: "chain nxt None xs \<longleftrightarrow> xs = []"
  by (cases xs) auto

lemma chain_Some_conv:
  "chain nxt (Some x) xs \<longleftrightarrow> (\<exists>ys. xs = x # ys \<and> chain nxt (nxt x) ys)"
  by (cases xs) auto

lemma chain_cong:
  "(\<And>x. x \<in> set xs \<Longrightarrow> f x = g x) \<Longrightarrow> chain f p xs \<longleftrightarrow> chain g p xs"
  by (induction xs arbitrary: p) auto

lemma chain_frame [simp]:
  "a \<notin> set xs \<Longrightarrow> chain (nxt(a := q)) p xs \<longleftrightarrow> chain nxt p xs"
  by (rule chain_cong) auto

lemma chain_unique: "chain nxt p xs \<Longrightarrow> chain nxt p ys \<Longrightarrow> xs = ys"
proof (induction xs arbitrary: p ys)
  case Nil
  then show ?case by (cases ys) auto
next
  case (Cons x xs)
  then show ?case by (cases ys) auto
qed

lemma chain_append:
  "chain nxt p (xs @ y # ys) \<longleftrightarrow>
     chain (nxt(y := None)) p (xs @ [y]) \<and> chain nxt (nxt y) ys"
  if "y \<notin> set xs"
  using that by (induction xs arbitrary: p) auto

section \<open>Data refinement\<close>

text \<open>
  A component is a state with a step per operation call: \<open>step s a = Some (r, s')\<close> when
  the call \<open>a\<close> returns \<open>r\<close> in state \<open>s'\<close>. Its specification is a total step on
  abstract states. \<open>run\<close> and \<open>spec_run\<close> make a sequence of calls and collect what
  they return; \<open>guarded\<close> says that every call of the sequence is made where the
  specification allows it.
\<close>

primrec run :: "('s \<Rightarrow> 'o \<Rightarrow> ('r \<times> 's) option) \<Rightarrow> 's \<Rightarrow> 'o list \<Rightarrow> ('r list \<times> 's) option" where
  "run step s [] = Some ([], s)"
| "run step s (a # as) =
     do { (r, s1) \<leftarrow> step s a;
          (rs, s2) \<leftarrow> run step s1 as;
          Some (r # rs, s2) }"

primrec spec_run :: "('a \<Rightarrow> 'o \<Rightarrow> 'r \<times> 'a) \<Rightarrow> 'a \<Rightarrow> 'o list \<Rightarrow> 'r list \<times> 'a" where
  "spec_run step s [] = ([], s)"
| "spec_run step s (a # as) =
     (let (r, s1) = step s a; (rs, s2) = spec_run step s1 as in (r # rs, s2))"

primrec guarded :: "('a \<Rightarrow> 'o \<Rightarrow> bool) \<Rightarrow> ('a \<Rightarrow> 'o \<Rightarrow> 'r \<times> 'a) \<Rightarrow> 'a \<Rightarrow> 'o list \<Rightarrow> bool" where
  "guarded guard step s [] = True"
| "guarded guard step s (a # as) = (guard s a \<and> guarded guard step (snd (step s a)) as)"

locale simulation =
  fixes step :: "'s \<Rightarrow> 'o \<Rightarrow> ('r \<times> 's) option"
    and spec :: "'a \<Rightarrow> 'o \<Rightarrow> 'r \<times> 'a"
    and guard :: "'a \<Rightarrow> 'o \<Rightarrow> bool"
    and abs :: "'s \<Rightarrow> 'a"
    and inv :: "'s \<Rightarrow> bool"
  assumes sim: "inv s \<Longrightarrow> guard (abs s) a \<Longrightarrow>
    \<exists>s'. step s a = Some (fst (spec (abs s) a), s') \<and> inv s' \<and> abs s' = snd (spec (abs s) a)"
begin

lemma run_simulates:
  assumes "inv s" and "guarded guard spec (abs s) as"
  shows "\<exists>s'. run step s as = Some (fst (spec_run spec (abs s) as), s') \<and> inv s' \<and>
    abs s' = snd (spec_run spec (abs s) as)"
  using assms
proof (induction as arbitrary: s)
  case Nil
  then show ?case by simp
next
  case (Cons a as)
  from Cons.prems have "guard (abs s) a" by simp
  with sim Cons.prems(1) obtain s1
    where s1: "step s a = Some (fst (spec (abs s) a), s1)" "inv s1" "abs s1 = snd (spec (abs s) a)"
    by blast
  with Cons.prems(2) have "guarded guard spec (abs s1) as" by simp
  with Cons.IH s1(2) obtain s2
    where s2: "run step s1 as = Some (fst (spec_run spec (abs s1) as), s2)" "inv s2"
      "abs s2 = snd (spec_run spec (abs s1) as)"
    by blast
  from s1 s2 show ?case by (simp add: case_prod_beta Let_def)
qed

lemma run_defined:
  assumes "inv s" and "guarded guard spec (abs s) as"
  shows "run step s as \<noteq> None"
  using run_simulates [OF assms] by auto

end

end
