(* ===== verification/Vector.thy ===== *)
theory Vector
  imports Prelude
begin

text \<open>
  The dynamic vector (\<^verbatim>\<open>libvector/vector.c\<close>). A vector holds \<open>void *\<close> items in
  a heap block of \<open>capacity\<close> cells, of which the first \<open>total\<close> are in use; a cell
  is \<open>None\<close> while its contents are indeterminate (fresh from \<open>malloc\<close>). The model
  keeps the block, so that an access past its end has no result. The \<open>bool\<close>
  arguments say whether the allocations of the call succeed.
\<close>

section \<open>State\<close>

record 'p vec =
  items :: "'p ptr option list option"
  capacity :: int
  total :: int
  allocated :: bool
  v_locked :: bool

definition VECTOR_INIT_CAPACITY :: int where
  "VECTOR_INIT_CAPACITY = 20"

section \<open>Operations\<close>

definition v_lock :: "'p vec \<Rightarrow> 'p vec option" where
  "v_lock v = (if v_locked v then None else Some (v\<lparr>v_locked := True\<rparr>))"

definition v_unlock :: "'p vec \<Rightarrow> 'p vec" where
  "v_unlock v = v\<lparr>v_locked := False\<rparr>"

definition cell_write :: "'p vec \<Rightarrow> int \<Rightarrow> 'p ptr option \<Rightarrow> 'p vec option" where
  "cell_write v i c =
     (case items v of
        None \<Rightarrow> None
      | Some xs \<Rightarrow>
          if 0 \<le> i \<and> i < int (length xs) then Some (v\<lparr>items := Some (xs[nat i := c])\<rparr>) else None)"

definition cell_read :: "'p vec \<Rightarrow> int \<Rightarrow> 'p ptr option option" where
  "cell_read v i =
     (case items v of
        None \<Rightarrow> None
      | Some xs \<Rightarrow> if 0 \<le> i \<and> i < int (length xs) then Some (xs ! nat i) else None)"

definition v_create :: "'p vec option \<Rightarrow> int \<Rightarrow> bool \<Rightarrow> bool \<Rightarrow> 'p vec option" where
  "v_create vh dim handle_ok items_ok =
     (let cap = (if VECTOR_INIT_CAPACITY < dim then dim else VECTOR_INIT_CAPACITY);
          block = (if items_ok then Some (replicate (nat cap) None) else None)
      in case vh of
           None \<Rightarrow>
             if handle_ok
             then Some \<lparr>items = block, capacity = cap, total = 0, allocated = True, v_locked = False\<rparr>
             else None
         | Some _ \<Rightarrow>
             Some \<lparr>items = block, capacity = cap, total = 0, allocated = False, v_locked = False\<rparr>)"

definition v_len :: "'p vec \<Rightarrow> (int \<times> 'p vec) option" where
  "v_len v =
     do { v1 \<leftarrow> v_lock v;
          let rc = total v1;
          Some (rc, v_unlock v1) }"

definition v_resize :: "'p vec \<Rightarrow> int \<Rightarrow> bool \<Rightarrow> 'p vec" where
  "v_resize v cap ok =
     (if ok then
        let old = (case items v of None \<Rightarrow> [] | Some xs \<Rightarrow> xs)
        in v\<lparr>items := Some (take (nat cap) old @ replicate (nat cap - length old) None),
             capacity := cap\<rparr>
      else v)"

definition v_add :: "'p vec \<Rightarrow> 'p ptr \<Rightarrow> bool \<Rightarrow> 'p vec option" where
  "v_add v item ok =
     do { v1 \<leftarrow> v_lock v;
          v2 \<leftarrow> (if capacity v1 = total v1
                then (if int_ok (capacity v1 * 2) then Some (v_resize v1 (capacity v1 * 2) ok) else None)
                else Some v1);
          v3 \<leftarrow> cell_write v2 (total v2) (Some item);
          Some (v_unlock (v3\<lparr>total := total v3 + 1\<rparr>)) }"

definition v_set :: "'p vec \<Rightarrow> int \<Rightarrow> 'p ptr \<Rightarrow> 'p vec option" where
  "v_set v index item =
     do { v1 \<leftarrow> v_lock v;
          v2 \<leftarrow> (if 0 \<le> index \<and> index < total v1 then cell_write v1 index (Some item) else Some v1);
          Some (v_unlock v2) }"

definition v_get :: "'p vec \<Rightarrow> int \<Rightarrow> ('p ptr \<times> 'p vec) option" where
  "v_get v index =
     do { v1 \<leftarrow> v_lock v;
          if 0 \<le> index \<and> index < total v1
          then do { c \<leftarrow> cell_read v1 index;
                    rc \<leftarrow> c;
                    Some (rc, v_unlock v1) }
          else Some (Null, v_unlock v1) }"

text \<open>The loop of \<open>v_delete\<close> that moves every later item one cell down.\<close>

function v_shift :: "'p vec \<Rightarrow> int \<Rightarrow> int \<Rightarrow> 'p vec option" where
  "v_shift v i n =
     (if i < n - 1
      then do { c \<leftarrow> cell_read v (i + 1);
                v1 \<leftarrow> cell_write v i c;
                v2 \<leftarrow> cell_write v1 (i + 1) (Some Null);
                v_shift v2 (i + 1) n }
      else Some v)"
  by pat_completeness auto
termination
  by (relation "measure (\<lambda>(v, i, n). nat (n - i))") auto

declare v_shift.simps [simp del]

definition v_shrink :: "'p vec \<Rightarrow> bool \<Rightarrow> 'p vec" where
  "v_shrink v ok =
     (if 0 < total v \<and> total v = capacity v div 4
      then v_resize v (capacity v div 2) ok else v)"

definition v_delete :: "'p vec \<Rightarrow> int \<Rightarrow> bool \<Rightarrow> 'p vec option" where
  "v_delete v index ok =
     do { v1 \<leftarrow> v_lock v;
          if index < 0 \<or> total v1 \<le> index then Some (v_unlock v1)
          else do {
            v2 \<leftarrow> cell_write v1 index (Some Null);
            v3 \<leftarrow> v_shift v2 index (total v2);
            let v4 = v3\<lparr>total := total v3 - 1\<rparr>;
            Some (v_unlock (v_shrink v4 ok)) } }"

text \<open>
  \<open>v_destroy\<close> frees the block, and the handle when the library allocated it; what is
  left is the caller's storage, if the handle was the caller's.
\<close>

definition v_destroy :: "'p vec \<Rightarrow> 'p vec option" where
  "v_destroy v = (if allocated v then None else Some (v\<lparr>items := None\<rparr>))"

section \<open>Invariant and abstraction\<close>

text \<open>
  \<open>v_items v\<close> is the sequence the vector stands for. The invariant: the block has
  \<open>capacity\<close> cells, the first \<open>total\<close> are determinate, the capacity stays at least 2
  (so doubling it makes room), and no thread is inside.
\<close>

definition v_block :: "'p vec \<Rightarrow> 'p ptr option list" where
  "v_block v = (case items v of None \<Rightarrow> [] | Some xs \<Rightarrow> xs)"

definition v_items :: "'p vec \<Rightarrow> 'p ptr list" where
  "v_items v = map the (take (nat (total v)) (v_block v))"

definition vec_inv :: "'p vec \<Rightarrow> bool" where
  "vec_inv v \<longleftrightarrow>
     items v = Some (v_block v) \<and> int (length (v_block v)) = capacity v \<and>
     0 \<le> total v \<and> total v \<le> capacity v \<and> 2 \<le> capacity v \<and> int_ok (capacity v) \<and>
     None \<notin> set (take (nat (total v)) (v_block v)) \<and> \<not> v_locked v"

lemma v_unlock_idle: "\<not> v_locked v \<Longrightarrow> v\<lparr>v_locked := False\<rparr> = v"
  by simp

lemma v_frame_lock [simp]:
  "v_block (v\<lparr>v_locked := b\<rparr>) = v_block v"
  "v_items (v\<lparr>v_locked := b\<rparr>) = v_items v"
  by (simp_all add: v_block_def v_items_def)

lemmas v_op_defs = v_lock_def v_unlock_def cell_write_def cell_read_def v_resize_def

lemma v_items_length: "vec_inv v \<Longrightarrow> int (length (v_items v)) = total v"
  by (auto simp: vec_inv_def v_items_def)

lemma vec_invI:
  assumes "items v = Some xs" and "int (length xs) = capacity v"
    and "xs = map Some ys @ zs" and "total v = int (length ys)"
    and "2 \<le> capacity v" and "int_ok (capacity v)" and "\<not> v_locked v"
  shows "vec_inv v \<and> v_items v = ys"
  using assms by (auto simp: vec_inv_def v_items_def v_block_def comp_def)

lemma vec_invE:
  assumes "vec_inv v"
  obtains ys zs where "items v = Some (map Some ys @ zs)" and "v_items v = ys"
    and "total v = int (length ys)" and "capacity v = int (length ys + length zs)"
    and "2 \<le> capacity v" and "int_ok (capacity v)" and "\<not> v_locked v"
proof
  let ?b = "v_block v" and ?n = "nat (total v)"
  from assms have *: "items v = Some ?b" "int (length ?b) = capacity v" "?n \<le> length ?b"
    "None \<notin> set (take ?n ?b)"
    by (auto simp: vec_inv_def)
  have "take ?n ?b = map Some (v_items v)"
    unfolding v_items_def map_map
    by (rule map_idI [symmetric]) (use *(4) in \<open>metis comp_apply not_None_eq option.sel\<close>)
  then have "?b = map Some (v_items v) @ drop ?n ?b"
    by (metis append_take_drop_id)
  with *(1) show "items v = Some (map Some (v_items v) @ drop ?n ?b)" by simp
  show "v_items v = v_items v" ..
  show "total v = int (length (v_items v))" using v_items_length [OF assms] by simp
  show "capacity v = int (length (v_items v) + length (drop ?n ?b))"
    using * v_items_length [OF assms] by (simp add: v_items_def)
qed (use assms in \<open>auto simp: vec_inv_def\<close>)

section \<open>Correctness of the operations\<close>

lemma v_create_inv:
  assumes "v_create vh dim ok1 True = Some v" and "int_ok dim"
  shows "vec_inv v \<and> v_items v = [] \<and> (allocated v \<longleftrightarrow> vh = None)"
proof -
  have "vec_inv v \<and> v_items v = []"
    using assms
    by (intro vec_invI [where zs = "replicate (nat (capacity v)) None"])
      (auto simp: v_create_def VECTOR_INIT_CAPACITY_def Let_def int_ok_def
        split: option.splits if_splits)
  then show ?thesis
    using assms by (auto simp: v_create_def Let_def split: option.splits if_splits)
qed

lemma v_resize_grow:
  "items v = Some xs \<Longrightarrow> length xs \<le> n \<Longrightarrow>
   v_resize v (int n) True =
     v\<lparr>items := Some (xs @ replicate (n - length xs) None), capacity := int n\<rparr>"
  by (simp add: v_resize_def)

lemma v_resize_shrink:
  "items v = Some xs \<Longrightarrow> n \<le> length xs \<Longrightarrow>
   v_resize v (int n) True = v\<lparr>items := Some (take n xs), capacity := int n\<rparr>"
  by (simp add: v_resize_def)

lemma v_resize_fails [simp]: "v_resize v c False = v"
  by (simp add: v_resize_def)

lemma cell_write_append:
  "items v = Some (xs @ z # zs) \<Longrightarrow>
   cell_write v (int (length xs)) c = Some (v\<lparr>items := Some (xs @ c # zs)\<rparr>)"
  by (simp add: cell_write_def)

lemma cell_write_past_end:
  "items v = Some xs \<Longrightarrow> int (length xs) \<le> i \<Longrightarrow> cell_write v i c = None"
  by (simp add: cell_write_def)

lemma v_add_spec:
  assumes "vec_inv v" and "total v < capacity v \<or> int_ok (2 * capacity v)"
  shows "\<exists>v'. v_add v x True = Some v' \<and> vec_inv v' \<and> v_items v' = v_items v @ [x]"
proof -
  from assms(1) obtain ys zs where v:
    "items v = Some (map Some ys @ zs)" "v_items v = ys" "total v = int (length ys)"
    "capacity v = int (length ys + length zs)" "2 \<le> capacity v" "int_ok (capacity v)" "\<not> v_locked v"
    by (rule vec_invE)
  let ?v1 = "v\<lparr>v_locked := True\<rparr>"
  have "\<exists>v2 z r. (if capacity ?v1 = total ?v1
            then if int_ok (capacity ?v1 * 2) then Some (v_resize ?v1 (capacity ?v1 * 2) True) else None
            else Some ?v1) = Some v2 \<and>
       items v2 = Some (map Some ys @ z # r) \<and> total v2 = int (length ys) \<and>
       capacity v2 = int (length ys + 1 + length r) \<and> 2 \<le> capacity v2 \<and> int_ok (capacity v2)"
  proof (cases zs)
    case Nil
    with v(4,5) obtain k where k: "length ys = Suc k" by (cases "length ys") auto
    have "capacity v * 2 = int (2 * length ys)" using v Nil by simp
    then have "v_resize ?v1 (capacity ?v1 * 2) True =
        ?v1\<lparr>items := Some (map Some ys @ None # replicate k None), capacity := int (2 * length ys)\<rparr>"
      using v_resize_grow [of ?v1 "map Some ys" "2 * length ys"] v(1) Nil k by simp
    with v Nil k assms(2) show ?thesis by (auto simp: mult.commute)
  next
    case (Cons z r)
    with v show ?thesis by simp
  qed
  then obtain v2 z r where v2: "(if capacity ?v1 = total ?v1
            then if int_ok (capacity ?v1 * 2) then Some (v_resize ?v1 (capacity ?v1 * 2) True) else None
            else Some ?v1) = Some v2"
       "items v2 = Some (map Some ys @ z # r)" "total v2 = int (length ys)"
       "capacity v2 = int (length ys + 1 + length r)" "2 \<le> capacity v2" "int_ok (capacity v2)"
    by blast
  have cw: "cell_write v2 (total v2) (Some x) =
      Some (v2\<lparr>items := Some (map Some ys @ Some x # r)\<rparr>)"
    using cell_write_append [of v2 "map Some ys" z r "Some x"] v2(2,3) by simp
  let ?v' = "v2\<lparr>items := Some (map Some ys @ Some x # r), total := total v2 + 1, v_locked := False\<rparr>"
  have "v_add v x True = Some ?v'"
    unfolding v_add_def v_lock_def using v(7) v2(1) cw by (simp add: v_unlock_def)
  moreover have "vec_inv ?v' \<and> v_items ?v' = ys @ [x]"
    by (rule vec_invI [where zs = r]) (use v2 in auto)
  ultimately show ?thesis using v(2) by blast
qed

text \<open>A full vector whose reallocation fails is written past its end.\<close>

lemma v_add_no_memory:
  assumes "vec_inv v" and "total v = capacity v"
  shows "v_add v x False = None"
proof -
  from assms have "items v = Some (v_block v)" "int (length (v_block v)) = capacity v"
    by (auto simp: vec_inv_def)
  with assms(2) show ?thesis
    by (auto simp: v_add_def v_lock_def cell_write_past_end bind_eq_None_conv)
qed

lemma v_get_spec:
  assumes "vec_inv v"
  shows "v_get v i =
    Some (if 0 \<le> i \<and> i < total v then v_items v ! nat i else Null, v)"
proof -
  from assms obtain ys zs where v:
    "items v = Some (map Some ys @ zs)" "v_items v = ys" "total v = int (length ys)"
    "\<not> v_locked v"
    by (rule vec_invE)
  then show ?thesis
    by (auto simp: v_get_def v_op_defs v_unlock_idle nth_append)
qed

lemma v_set_spec:
  assumes "vec_inv v"
  shows "\<exists>v'. v_set v i x = Some v' \<and> vec_inv v' \<and> capacity v' = capacity v \<and>
    v_items v' = (if 0 \<le> i \<and> i < total v then (v_items v)[nat i := x] else v_items v)"
proof (cases "0 \<le> i \<and> i < total v")
  case True
  from assms(1) obtain ys zs where v:
    "items v = Some (map Some ys @ zs)" "v_items v = ys" "total v = int (length ys)"
    "capacity v = int (length ys + length zs)" "2 \<le> capacity v" "int_ok (capacity v)" "\<not> v_locked v"
    by (rule vec_invE)
  let ?v' = "v\<lparr>items := Some (map Some (ys[nat i := x]) @ zs), v_locked := False\<rparr>"
  have "v_set v i x = Some ?v'"
    using v True by (auto simp: v_set_def v_op_defs list_update_append map_update)
  moreover have "vec_inv ?v' \<and> v_items ?v' = ys[nat i := x]"
    by (rule vec_invI [where zs = zs]) (use v in auto)
  ultimately show ?thesis using True v by fastforce
next
  case False
  with assms show ?thesis by (auto simp: v_set_def v_lock_def v_unlock_def vec_inv_def)
qed

lemma v_shift_done: "i + 1 \<ge> n \<Longrightarrow> v_shift v i n = Some v"
  by (subst v_shift.simps) simp

lemma v_shift_spec:
  assumes "items v = Some (xs @ Some Null # ys @ zs)"
  shows "v_shift v (int (length xs)) (int (length xs + 1 + length ys)) =
    Some (v\<lparr>items := Some (xs @ ys @ Some Null # zs)\<rparr>)"
  using assms
proof (induction ys arbitrary: xs v)
  case Nil
  then show ?case by (simp add: v_shift_done)
next
  case (Cons y ys)
  let ?i = "int (length xs)" and ?n = "int (length xs + 1 + length (y # ys))"
  let ?v1 = "v\<lparr>items := Some (xs @ y # y # ys @ zs)\<rparr>"
  let ?v2 = "v\<lparr>items := Some (xs @ y # Some Null # ys @ zs)\<rparr>"
  have rd: "cell_read v (?i + 1) = Some y"
    using Cons.prems by (auto simp: cell_read_def nth_append nat_add_distrib)
  have w1: "cell_write v ?i y = Some ?v1"
    using cell_write_append [of v xs "Some Null" "y # ys @ zs" y] Cons.prems by simp
  have w2: "cell_write ?v1 (?i + 1) (Some Null) = Some ?v2"
    using cell_write_append [of ?v1 "xs @ [y]" y "ys @ zs" "Some Null"] by (simp add: add.commute)
  have "v_shift v ?i ?n = v_shift ?v2 (?i + 1) ?n"
    by (subst v_shift.simps) (simp add: rd w1 w2)
  also have "\<dots> = Some (v\<lparr>items := Some (xs @ (y # ys) @ Some Null # zs)\<rparr>)"
    using Cons.IH [of ?v2 "xs @ [y]"] by (simp add: algebra_simps)
  finally show ?case .
qed

lemma v_shrink_lock:
  "v_shrink (v\<lparr>v_locked := b, items := xs, total := n\<rparr>) ok =
   (v_shrink (v\<lparr>items := xs, total := n\<rparr>) ok)\<lparr>v_locked := b\<rparr>"
  by (simp add: v_shrink_def v_resize_def Let_def)

lemma v_halve_spec:
  assumes "vec_inv v" and "0 < total v" and "total v = capacity v div 4"
  shows "vec_inv (v_resize v (capacity v div 2) ok) \<and>
    v_items (v_resize v (capacity v div 2) ok) = v_items v \<and>
    capacity (v_resize v (capacity v div 2) ok) \<le> capacity v"
proof (cases ok)
  case True
  from assms(1) obtain ys zs where v:
    "items v = Some (map Some ys @ zs)" "v_items v = ys" "total v = int (length ys)"
    "capacity v = int (length ys + length zs)" "2 \<le> capacity v" "int_ok (capacity v)" "\<not> v_locked v"
    by (rule vec_invE)
  define c where "c = nat (capacity v div 2)"
  have c: "capacity v div 2 = int c" "length ys \<le> c" "c \<le> length ys + length zs" "2 \<le> c" "int_ok (int c)"
  proof -
    have "4 \<le> capacity v" using assms(2,3) by simp
    then show "capacity v div 2 = int c" "2 \<le> c" by (simp_all add: c_def)
    with assms(2,3) v(3,4,6) show "length ys \<le> c" "c \<le> length ys + length zs" "int_ok (int c)"
      by (auto simp: int_ok_def)
  qed
  have r: "v_resize v (capacity v div 2) ok =
      v\<lparr>items := Some (map Some ys @ take (c - length ys) zs), capacity := int c\<rparr>"
    using True v_resize_shrink [OF v(1), of c] c by simp
  have "vec_inv (v_resize v (capacity v div 2) ok) \<and> v_items (v_resize v (capacity v div 2) ok) = ys"
    unfolding r by (rule vec_invI [where zs = "take (c - length ys) zs"]) (use v c in simp_all)
  with r v(2,5) c(1) show ?thesis by simp
qed (use assms(1) in simp)

lemma v_shrink_spec:
  assumes "vec_inv v"
  shows "vec_inv (v_shrink v ok) \<and> v_items (v_shrink v ok) = v_items v \<and>
    capacity (v_shrink v ok) \<le> capacity v"
  using assms v_halve_spec [OF assms, of ok] by (simp add: v_shrink_def)

lemma v_delete_spec:
  assumes "vec_inv v" and "0 \<le> i" and "i < total v"
  shows "\<exists>v'. v_delete v i ok = Some v' \<and> vec_inv v' \<and> capacity v' \<le> capacity v \<and>
    v_items v' = take (nat i) (v_items v) @ drop (Suc (nat i)) (v_items v)"
proof -
  from assms(1) obtain ys zs where v:
    "items v = Some (map Some ys @ zs)" "v_items v = ys" "total v = int (length ys)"
    "capacity v = int (length ys + length zs)" "2 \<le> capacity v" "int_ok (capacity v)" "\<not> v_locked v"
    by (rule vec_invE)
  define as where "as = take (nat i) ys"
  define bs where "bs = drop (Suc (nat i)) ys"
  have i: "nat i < length ys" "i = int (length as)" "length ys = length as + 1 + length bs"
    using assms v by (auto simp: as_def bs_def)
  have "ys = as @ ys ! nat i # bs"
    unfolding as_def bs_def using i(1) by (rule id_take_nth_drop)
  then have "map Some ys = map Some as @ Some (ys ! nat i) # map Some bs"
    by (metis list.simps(9) map_append)
  then have "items (v\<lparr>v_locked := True\<rparr>) =
      Some (map Some as @ Some (ys ! nat i) # map Some bs @ zs)"
    using v(1) by simp
  from cell_write_append [OF this, of "Some Null"] i(2)
  have w: "cell_write (v\<lparr>v_locked := True\<rparr>) i (Some Null) =
      Some (v\<lparr>v_locked := True, items := Some (map Some as @ Some Null # map Some bs @ zs)\<rparr>)"
    (is "_ = Some ?v2") by simp
  have sh: "v_shift ?v2 i (total v) =
      Some (v\<lparr>v_locked := True, items := Some (map Some as @ map Some bs @ Some Null # zs)\<rparr>)"
    using v_shift_spec [of ?v2 "map Some as" "map Some bs" zs] i v(3) by simp
  let ?v4 = "v\<lparr>items := Some (map Some as @ map Some bs @ Some Null # zs), total := total v - 1\<rparr>"
  have "v_delete v i ok = Some ((v_shrink ?v4 ok)\<lparr>v_locked := False\<rparr>)"
    unfolding v_delete_def v_lock_def
    using v(7) assms w sh v_shrink_lock [where v = v] by (simp add: Let_def v_unlock_def)
  moreover have "vec_inv ?v4 \<and> v_items ?v4 = as @ bs"
    by (rule vec_invI [where zs = "Some Null # zs"]) (use v i in auto)
  with v_shrink_spec [of ?v4 ok] have *: "vec_inv (v_shrink ?v4 ok)"
    "v_items (v_shrink ?v4 ok) = as @ bs" "capacity (v_shrink ?v4 ok) \<le> capacity v"
    by auto
  moreover have "(v_shrink ?v4 ok)\<lparr>v_locked := False\<rparr> = v_shrink ?v4 ok"
    using *(1) by (intro v_unlock_idle) (simp add: vec_inv_def)
  ultimately show ?thesis unfolding v(2) as_def bs_def by simp
qed

lemma v_delete_out_of_range:
  assumes "vec_inv v" and "i < 0 \<or> total v \<le> i"
  shows "v_delete v i ok = Some v"
  using assms by (auto simp: v_delete_def v_lock_def v_unlock_def v_unlock_idle vec_inv_def)

lemma v_len_spec: "vec_inv v \<Longrightarrow> v_len v = Some (int (length (v_items v)), v)"
  using v_items_length [of v] by (auto simp: v_len_def v_lock_def v_unlock_def v_unlock_idle vec_inv_def)

section \<open>The vector as a list\<close>

text \<open>
  Calls on a vector, what they return, and the same calls on a plain list. The flag of a
  deletion is the outcome of its reallocation, which does not change what it means.
\<close>

datatype 'p vec_call =
    Add "'p ptr" | SetAt int "'p ptr" | GetAt int | DeleteAt int bool | Len

datatype 'p vec_result = Done | Item "'p ptr" | Count int

definition vec_step :: "'p vec \<Rightarrow> 'p vec_call \<Rightarrow> ('p vec_result \<times> 'p vec) option" where
  "vec_step v c =
     (case c of
        Add x \<Rightarrow> map_option (\<lambda>v. (Done, v)) (v_add v x True)
      | SetAt i x \<Rightarrow> map_option (\<lambda>v. (Done, v)) (v_set v i x)
      | GetAt i \<Rightarrow> map_option (\<lambda>(x, v). (Item x, v)) (v_get v i)
      | DeleteAt i ok \<Rightarrow> map_option (\<lambda>v. (Done, v)) (v_delete v i ok)
      | Len \<Rightarrow> map_option (\<lambda>(n, v). (Count n, v)) (v_len v))"

definition list_step :: "'p ptr list \<Rightarrow> 'p vec_call \<Rightarrow> 'p vec_result \<times> 'p ptr list" where
  "list_step xs c =
     (let within = (\<lambda>i. 0 \<le> i \<and> i < int (length xs)) in
      case c of
        Add x \<Rightarrow> (Done, xs @ [x])
      | SetAt i x \<Rightarrow> (Done, if within i then xs[nat i := x] else xs)
      | GetAt i \<Rightarrow> (Item (if within i then xs ! nat i else Null), xs)
      | DeleteAt i ok \<Rightarrow> (Done, if within i then take (nat i) xs @ drop (Suc (nat i)) xs else xs)
      | Len \<Rightarrow> (Count (int (length xs)), xs))"

text \<open>Room for the next item: below this length no capacity ever overflows an \<open>int\<close>.\<close>

definition list_room :: "'p ptr list \<Rightarrow> 'p vec_call \<Rightarrow> bool" where
  "list_room xs c \<longleftrightarrow> (case c of Add x \<Rightarrow> length xs < 2 ^ 29 | _ \<Rightarrow> True)"

definition vec_sized :: "'p vec \<Rightarrow> bool" where
  "vec_sized v \<longleftrightarrow> vec_inv v \<and> capacity v \<le> 2 ^ 30"

lemma v_add_capacity:
  assumes "v_add v x True = Some v'"
  shows "capacity v' = (if capacity v = total v then 2 * capacity v else capacity v)"
  using assms
  by (auto simp: v_add_def v_op_defs bind_Some_iff Let_def split: if_splits option.splits)

lemma vec_step_simulates:
  assumes "vec_sized v" and "list_room (v_items v) c"
  shows "\<exists>v'. vec_step v c = Some (fst (list_step (v_items v) c), v') \<and> vec_sized v' \<and>
    v_items v' = snd (list_step (v_items v) c)"
proof -
  from assms(1) have v: "vec_inv v" "capacity v \<le> 2 ^ 30" by (auto simp: vec_sized_def)
  note n = v_items_length [OF v(1)]
  show ?thesis
  proof (cases c)
    case (Add x)
    with assms(2) n have "total v < 2 ^ 29" by (simp add: list_room_def)
    then have room: "total v < capacity v \<or> int_ok (2 * capacity v)"
      using v by (auto simp: vec_inv_def int_ok_def)
    from v_add_spec [OF v(1) room, of x] obtain v' where
      v': "v_add v x True = Some v'" "vec_inv v'" "v_items v' = v_items v @ [x]"
      by blast
    from v_add_capacity [OF v'(1)] v(2) \<open>total v < 2 ^ 29\<close> have "capacity v' \<le> 2 ^ 30"
      by (auto split: if_splits)
    with v' Add show ?thesis by (simp add: vec_step_def list_step_def vec_sized_def)
  next
    case (SetAt i x)
    with v_set_spec [OF v(1), of i x] v(2) n show ?thesis
      by (fastforce simp: vec_step_def list_step_def vec_sized_def)
  next
    case (GetAt i)
    with v_get_spec [OF v(1), of i] assms(1) n show ?thesis
      by (simp add: vec_step_def list_step_def)
  next
    case (DeleteAt i ok)
    with v_delete_spec [OF v(1), of i ok] v_delete_out_of_range [OF v(1), of i ok] v n show ?thesis
      by (cases "0 \<le> i \<and> i < total v")
        (fastforce simp: vec_step_def list_step_def vec_sized_def)+
  next
    case Len
    with v_len_spec [OF v(1)] assms(1) show ?thesis
      by (simp add: vec_step_def list_step_def)
  qed
qed

interpretation vl: simulation vec_step list_step list_room v_items vec_sized
  by unfold_locales (rule vec_step_simulates)

section \<open>Properties\<close>


text \<open>Deleting an item in range moves the later items down by one, keeps the invariant
  and never grows the block; an index out of range changes nothing.\<close>

theorem v_delete_correct:
  assumes "vec_inv v"
  shows "\<exists>v'. v_delete v i ok = Some v' \<and> vec_inv v' \<and> capacity v' \<le> capacity v \<and>
    v_items v' = (if 0 \<le> i \<and> i < total v
                  then take (nat i) (v_items v) @ drop (Suc (nat i)) (v_items v) else v_items v)"
proof (cases "0 \<le> i \<and> i < total v")
  case True
  with v_delete_spec [OF assms, of i ok] show ?thesis by simp
next
  case False
  then have "i < 0 \<or> total v \<le> i" by linarith
  with v_delete_out_of_range [OF assms this] assms False show ?thesis by auto
qed

text \<open>When the block is full and the reallocation fails, \<open>v_add\<close> writes past the end of
  the block: the call has no defined result.\<close>

theorem v_add_realloc_failure_overruns:
  assumes "vec_inv v" and "total v = capacity v"
  shows "v_add v x False = None"
  using assms by (rule v_add_no_memory)

text \<open>\<open>v_create\<close> makes an empty valid vector with room for at least \<open>dim\<close> items, which
  \<open>v_destroy\<close> frees with its handle exactly when the library allocated the handle.\<close>

theorem v_create_destroy:
  assumes "v_create vh dim hok True = Some v" and "int_ok dim"
  shows "vec_inv v \<and> v_items v = [] \<and> dim \<le> capacity v \<and> (v_destroy v = None \<longleftrightarrow> vh = None)"
  using assms v_create_inv [OF assms]
  by (auto simp: v_create_def v_destroy_def Let_def VECTOR_INIT_CAPACITY_def split: option.splits if_splits)

section \<open>Witnesses\<close>

definition ex_vec :: "nat vec" where
  "ex_vec = \<lparr>items = Some [Some (Ptr 5), Some (Ptr 6)], capacity = 2, total = 2,
             allocated = False, v_locked = False\<rparr>"

lemma ex_vec_inv: "vec_inv ex_vec" and ex_vec_items: "v_items ex_vec = [Ptr 5, Ptr 6]"
  using vec_invI [of ex_vec "map Some [Ptr 5, Ptr 6]" "[Ptr 5, Ptr 6]" "[]"]
  by (simp_all add: ex_vec_def int_ok_def)


theorem v_delete_correct_witness:
  "\<exists>v'. v_delete ex_vec 0 True = Some v' \<and> v_items v' = [Ptr 6]"
proof -
  have "total ex_vec = 2" by (simp add: ex_vec_def)
  with v_delete_correct [OF ex_vec_inv, of 0 True] ex_vec_items show ?thesis by auto
qed

theorem v_add_realloc_failure_overruns_witness: "v_add ex_vec (Ptr 9) False = None"
  by (rule v_add_realloc_failure_overruns [OF ex_vec_inv]) (simp add: ex_vec_def)

theorem v_create_destroy_witness:
  "\<exists>v :: nat vec. v_create None 0 True True = Some v \<and> vec_inv v \<and> v_items v = [] \<and> v_destroy v = None"
proof -
  obtain v :: "nat vec" where v: "v_create None 0 True True = Some v"
    by (simp add: v_create_def Let_def)
  from v_create_destroy [OF v] v show ?thesis by (auto simp: int_ok_def)
qed

end
