(* ===== verification/StrMem.thy ===== *)
theory StrMem
  imports Prelude
begin

text \<open>
  The part of the C heap that holds key strings: a map from addresses to live strings and
  the next fresh address. \<open>strdup\<close> takes a fresh address, which is never reused, so a
  pointer to a freed string stays dangling; reading through it, and freeing it again,
  has no result.
\<close>

record strmem =
  strs :: "nat \<rightharpoonup> cstr"
  brk :: nat

definition str_at :: "strmem \<Rightarrow> nat ptr \<Rightarrow> cstr option" where
  "str_at m p = (case p of Null \<Rightarrow> None | Ptr a \<Rightarrow> strs m a)"

definition mem_strcmp :: "strmem \<Rightarrow> nat ptr \<Rightarrow> nat ptr \<Rightarrow> int option" where
  "mem_strcmp m p q = do { a \<leftarrow> str_at m p; b \<leftarrow> str_at m q; Some (strcmp a b) }"

definition mem_add :: "strmem \<Rightarrow> cstr \<Rightarrow> strmem" where
  "mem_add m s = m\<lparr>strs := (strs m)(brk m \<mapsto> s), brk := Suc (brk m)\<rparr>"

definition mem_strdup :: "strmem \<Rightarrow> nat ptr \<Rightarrow> bool \<Rightarrow> (strmem \<times> nat ptr) option" where
  "mem_strdup m p ok =
     do { s \<leftarrow> str_at m p;
          Some (if ok then (mem_add m s, Ptr (brk m)) else (m, Null)) }"

definition mem_del :: "strmem \<Rightarrow> nat ptr \<Rightarrow> strmem" where
  "mem_del m p = (case p of Null \<Rightarrow> m | Ptr a \<Rightarrow> m\<lparr>strs := (strs m)(a := None)\<rparr>)"

definition mem_free :: "strmem \<Rightarrow> nat ptr \<Rightarrow> strmem option" where
  "mem_free m p =
     (case p of
        Null \<Rightarrow> Some m
      | Ptr a \<Rightarrow> if strs m a = None then None else Some (mem_del m p))"

definition mem_ok :: "strmem \<Rightarrow> bool" where
  "mem_ok m \<longleftrightarrow> (\<forall>a \<in> dom (strs m). a < brk m)"

lemma str_at_simps [simp]:
  "str_at m Null = None"
  "str_at m (Ptr a) = strs m a"
  by (simp_all add: str_at_def)

lemma str_at_add [simp]:
  "mem_ok m \<Longrightarrow> str_at m p = Some s \<Longrightarrow> str_at (mem_add m t) p = Some s"
  "strs (mem_add m t) (brk m) = Some t"
  by (auto simp: mem_ok_def mem_add_def str_at_def split: ptr.splits)

lemma str_at_del:
  "str_at (mem_del m p) q = (if q = p then None else str_at m q)"
  by (cases p; cases q) (auto simp: mem_del_def)

lemma str_at_brk: "mem_ok m \<Longrightarrow> str_at m (Ptr (brk m)) = None"
  by (auto simp: mem_ok_def)

lemma mem_ok_add [simp]: "mem_ok m \<Longrightarrow> mem_ok (mem_add m s)"
  by (auto simp: mem_ok_def mem_add_def less_Suc_eq)

lemma mem_ok_del [simp]: "mem_ok m \<Longrightarrow> mem_ok (mem_del m p)"
  by (cases p) (auto simp: mem_ok_def mem_del_def)

lemma brk_add [simp]: "brk (mem_add m s) = Suc (brk m)"
  by (simp add: mem_add_def)

lemma brk_del [simp]: "brk (mem_del m p) = brk m"
  by (cases p) (simp_all add: mem_del_def)

lemma mem_strcmp_Some [simp]:
  "str_at m p = Some a \<Longrightarrow> str_at m q = Some b \<Longrightarrow> mem_strcmp m p q = Some (strcmp a b)"
  by (simp add: mem_strcmp_def)

lemma mem_strcmp_dangling:
  "str_at m p = None \<or> str_at m q = None \<Longrightarrow> mem_strcmp m p q = None"
  by (auto simp: mem_strcmp_def bind_eq_None_conv)

lemma mem_strdup_ok [simp]:
  "str_at m p = Some s \<Longrightarrow> mem_strdup m p True = Some (mem_add m s, Ptr (brk m))"
  by (simp add: mem_strdup_def)

lemma mem_free_live [simp]: "str_at m p = Some s \<Longrightarrow> mem_free m p = Some (mem_del m p)"
  by (cases p) (auto simp: mem_free_def)

lemma mem_free_dangling: "str_at m (Ptr a) = None \<Longrightarrow> mem_free m (Ptr a) = None"
  by (simp add: mem_free_def)

end
