(* ===== verification/Avl.thy ===== *)
theory Avl
  imports StrMem
begin

text \<open>
  The AVL tree (\<^verbatim>\<open>libavl/avl.c\<close>, \<^verbatim>\<open>libavl/avl_internal.c\<close>). Nodes are owned by
  their parents and never shared, so a tree of nodes is a value of a datatype; the key of
  a node is a pointer into the string memory, because the operations copy, free and
  (in \<open>avl_delete_node\<close>) overwrite key pointers, and whether a key is still live is
  part of what has to be shown. The \<open>bool\<close> arguments are the outcomes of the
  allocations of a call.
\<close>

section \<open>State\<close>

datatype 'p avl_node =
    NilNode
  | AvlNode (akey: "nat ptr") (adata: "'p ptr") (aheight: int)
      (aleft: "'p avl_node") (aright: "'p avl_node")

text \<open>\<open>h_allocated\<close> is the raw value of the field: \<open>avl_create\<close> does not always set it.\<close>

record 'p avl_h =
  root :: "'p avl_node"
  h_allocated :: int

section \<open>Heights and rotations\<close>

definition avl_get_height :: "'p avl_node \<Rightarrow> int" where
  "avl_get_height n = (case n of NilNode \<Rightarrow> 0 | AvlNode k d h l r \<Rightarrow> h)"

definition avl_update_height :: "'p avl_node \<Rightarrow> int" where
  "avl_update_height n =
     (case n of
        NilNode \<Rightarrow> 0
      | AvlNode k d h l r \<Rightarrow>
          let left_height = avl_get_height l; right_height = avl_get_height r
          in 1 + (if right_height < left_height then left_height else right_height))"

definition avl_get_balance :: "'p avl_node \<Rightarrow> int" where
  "avl_get_balance n =
     (case n of NilNode \<Rightarrow> 0 | AvlNode k d h l r \<Rightarrow> avl_get_height l - avl_get_height r)"

definition set_height :: "'p avl_node \<Rightarrow> 'p avl_node" where
  "set_height n =
     (case n of
        NilNode \<Rightarrow> NilNode
      | AvlNode k d h l r \<Rightarrow> AvlNode k d (avl_update_height n) l r)"

fun avl_rotate_right :: "'p avl_node \<Rightarrow> 'p avl_node option" where
  "avl_rotate_right (AvlNode ky dy hy (AvlNode kx dx hx lx t2) ry) =
     (let y = set_height (AvlNode ky dy hy t2 ry);
          x = set_height (AvlNode kx dx hx lx y)
      in Some x)"
| "avl_rotate_right _ = None"

fun avl_rotate_left :: "'p avl_node \<Rightarrow> 'p avl_node option" where
  "avl_rotate_left (AvlNode kx dx hx lx (AvlNode ky dy hy t2 ry)) =
     (let x = set_height (AvlNode kx dx hx lx t2);
          y = set_height (AvlNode ky dy hy x ry)
      in Some y)"
| "avl_rotate_left _ = None"

definition avl_new_node ::
  "strmem \<Rightarrow> nat ptr \<Rightarrow> 'p ptr \<Rightarrow> bool \<Rightarrow> bool \<Rightarrow> (strmem \<times> 'p avl_node) option" where
  "avl_new_node m key data node_ok key_ok =
     (if node_ok
      then do { (m1, k) \<leftarrow> mem_strdup m key key_ok;
                Some (m1, AvlNode k data 1 NilNode NilNode) }
      else None)"

section \<open>Insertion and search\<close>

text \<open>The end of \<open>avl_insert_node\<close>: the height of the node, its balance, the rotations.\<close>

definition avl_insert_fix :: "strmem \<Rightarrow> nat ptr \<Rightarrow> 'p avl_node \<Rightarrow> 'p avl_node option" where
  "avl_insert_fix m key n0 =
     (let node = set_height n0; balance = avl_get_balance node in
      if 1 < balance then
        (case aleft node of
           NilNode \<Rightarrow> None
         | AvlNode lk ld lh ll lr \<Rightarrow>
             do { c \<leftarrow> mem_strcmp m key lk;
                  if c < 0 then avl_rotate_right node
                  else if 0 < c
                  then do { l \<leftarrow> avl_rotate_left (aleft node);
                            avl_rotate_right (AvlNode (akey node) (adata node) (aheight node) l (aright node)) }
                  else Some node })
      else if balance < -1 then
        (case aright node of
           NilNode \<Rightarrow> None
         | AvlNode rk rd rh rl rr \<Rightarrow>
             do { c \<leftarrow> mem_strcmp m key rk;
                  if 0 < c then avl_rotate_left node
                  else if c < 0
                  then do { r \<leftarrow> avl_rotate_right (aright node);
                            avl_rotate_left (AvlNode (akey node) (adata node) (aheight node) (aleft node) r) }
                  else Some node })
      else Some node)"

fun avl_insert_node ::
  "strmem \<Rightarrow> 'p avl_node \<Rightarrow> nat ptr \<Rightarrow> 'p ptr \<Rightarrow> bool \<Rightarrow> bool \<Rightarrow> (strmem \<times> 'p avl_node) option" where
  "avl_insert_node m NilNode key data nok kok = avl_new_node m key data nok kok"
| "avl_insert_node m (AvlNode k d h l r) key data nok kok =
     do { c \<leftarrow> mem_strcmp m key k;
          if c < 0
          then do { (m1, l1) \<leftarrow> avl_insert_node m l key data nok kok;
                    n \<leftarrow> avl_insert_fix m1 key (AvlNode k d h l1 r);
                    Some (m1, n) }
          else if 0 < c
          then do { (m1, r1) \<leftarrow> avl_insert_node m r key data nok kok;
                    n \<leftarrow> avl_insert_fix m1 key (AvlNode k d h l r1);
                    Some (m1, n) }
          else Some (m, AvlNode k d h l r) }"

fun avl_search_node :: "strmem \<Rightarrow> 'p avl_node \<Rightarrow> nat ptr \<Rightarrow> 'p ptr option" where
  "avl_search_node m NilNode key = Some Null"
| "avl_search_node m (AvlNode k d h l r) key =
     do { c \<leftarrow> mem_strcmp m key k;
          if c = 0 then Some d
          else if c < 0 then avl_search_node m l key
          else avl_search_node m r key }"

section \<open>Deletion\<close>

fun avl_min_value_node :: "'p avl_node \<Rightarrow> (nat ptr \<times> 'p ptr) option" where
  "avl_min_value_node NilNode = None"
| "avl_min_value_node (AvlNode k d h l r) =
     (case l of NilNode \<Rightarrow> Some (k, d) | AvlNode k' d' h' l' r' \<Rightarrow> avl_min_value_node l)"

text \<open>The end of \<open>avl_delete_node\<close>: height, balance, rotations by the balance of the child.\<close>

definition avl_delete_fix :: "'p avl_node \<Rightarrow> 'p avl_node option" where
  "avl_delete_fix n0 =
     (let node = set_height n0; balance = avl_get_balance node in
      if 1 < balance then
        (if 0 \<le> avl_get_balance (aleft node) then avl_rotate_right node
         else do { l \<leftarrow> avl_rotate_left (aleft node);
                   avl_rotate_right (AvlNode (akey node) (adata node) (aheight node) l (aright node)) })
      else if balance < -1 then
        (if avl_get_balance (aright node) \<le> 0 then avl_rotate_left node
         else do { r \<leftarrow> avl_rotate_right (aright node);
                   avl_rotate_left (AvlNode (akey node) (adata node) (aheight node) (aleft node) r) })
      else Some node)"

text \<open>
  \<open>avl_delete_node m root key ok\<close> returns the memory, the new root and what was written
  through the out parameter \<open>data\<close> (\<open>None\<close>: nothing). A node with one child is
  overwritten with the contents of the child (its own key pointer is lost), and the key
  of the child is then freed. For a node with two children the call on the right subtree
  writes through a pointer into the successor, which that call removes.
\<close>

fun avl_delete_node ::
  "strmem \<Rightarrow> 'p avl_node \<Rightarrow> nat ptr \<Rightarrow> bool \<Rightarrow> (strmem \<times> 'p avl_node \<times> 'p ptr option) option" where
  "avl_delete_node m NilNode key ok = Some (m, NilNode, None)"
| "avl_delete_node m (AvlNode k d h l r) key ok =
     do { c \<leftarrow> mem_strcmp m key k;
          if c < 0
          then do { (m1, l1, out) \<leftarrow> avl_delete_node m l key ok;
                    n \<leftarrow> avl_delete_fix (AvlNode k d h l1 r);
                    Some (m1, n, out) }
          else if 0 < c
          then do { (m1, r1, out) \<leftarrow> avl_delete_node m r key ok;
                    n \<leftarrow> avl_delete_fix (AvlNode k d h l r1);
                    Some (m1, n, out) }
          else (case (l, r) of
              (NilNode, NilNode) \<Rightarrow>
                do { m1 \<leftarrow> mem_free m k; Some (m1, NilNode, Some d) }
            | (AvlNode ck cd ch cl cr, NilNode) \<Rightarrow>
                do { m1 \<leftarrow> mem_free m ck;
                     n \<leftarrow> avl_delete_fix (AvlNode ck cd ch cl cr);
                     Some (m1, n, Some d) }
            | (NilNode, AvlNode ck cd ch cl cr) \<Rightarrow>
                do { m1 \<leftarrow> mem_free m ck;
                     n \<leftarrow> avl_delete_fix (AvlNode ck cd ch cl cr);
                     Some (m1, n, Some d) }
            | (AvlNode _ _ _ _ _, AvlNode _ _ _ _ _) \<Rightarrow>
                do { (tk, td) \<leftarrow> avl_min_value_node r;
                     m1 \<leftarrow> mem_free m k;
                     (m2, k1) \<leftarrow> mem_strdup m1 tk ok;
                     (m3, r1, _) \<leftarrow> avl_delete_node m2 r tk ok;
                     n \<leftarrow> avl_delete_fix (AvlNode k1 td h l r1);
                     Some (m3, n, Some d) }) }"

section \<open>The handle\<close>

definition avl_create :: "'p avl_h option \<Rightarrow> bool \<Rightarrow> 'p avl_h option" where
  "avl_create static_handle ok =
     (case static_handle of
        None \<Rightarrow> if ok then Some \<lparr>root = NilNode, h_allocated = 1\<rparr> else None
      | Some h \<Rightarrow> Some (h\<lparr>root := NilNode\<rparr>))"

fun avl_destroy_node :: "strmem \<Rightarrow> 'p avl_node \<Rightarrow> strmem option" where
  "avl_destroy_node m NilNode = Some m"
| "avl_destroy_node m (AvlNode k d h l r) =
     do { m1 \<leftarrow> avl_destroy_node m l;
          m2 \<leftarrow> avl_destroy_node m1 r;
          mem_free m2 k }"

text \<open>\<open>avl_destroy\<close> returns the memory and whether it also freed the handle itself.\<close>

definition avl_destroy :: "strmem \<Rightarrow> 'p avl_h option \<Rightarrow> (strmem \<times> bool) option" where
  "avl_destroy m ah =
     (case ah of
        None \<Rightarrow> Some (m, False)
      | Some h \<Rightarrow> do { m1 \<leftarrow> avl_destroy_node m (root h); Some (m1, h_allocated h = 1) })"

definition avl_insert ::
  "strmem \<Rightarrow> 'p avl_h option \<Rightarrow> nat ptr \<Rightarrow> 'p ptr \<Rightarrow> bool \<Rightarrow> bool
     \<Rightarrow> (int \<times> strmem \<times> 'p avl_h option) option" where
  "avl_insert m ah key data nok kok =
     (case ah of
        None \<Rightarrow> Some (-1, m, None)
      | Some h \<Rightarrow>
          do { (m1, t) \<leftarrow> avl_insert_node m (root h) key data nok kok;
               Some (0, m1, Some (h\<lparr>root := t\<rparr>)) })"

definition avl_search :: "strmem \<Rightarrow> 'p avl_h option \<Rightarrow> nat ptr \<Rightarrow> 'p ptr option" where
  "avl_search m ah key =
     (case ah of
        None \<Rightarrow> Some Null
      | Some h \<Rightarrow> if root h = NilNode then Some Null else avl_search_node m (root h) key)"

definition avl_del ::
  "strmem \<Rightarrow> 'p avl_h option \<Rightarrow> nat ptr \<Rightarrow> bool \<Rightarrow> ('p ptr \<times> strmem \<times> 'p avl_h option) option" where
  "avl_del m ah key ok =
     (case ah of
        None \<Rightarrow> Some (Null, m, None)
      | Some h \<Rightarrow>
          if root h = NilNode then Some (Null, m, Some h)
          else do { (m1, t, out) \<leftarrow> avl_delete_node m (root h) key ok;
                    Some (case out of None \<Rightarrow> Null | Some d \<Rightarrow> d, m1, Some (h\<lparr>root := t\<rparr>)) })"

section \<open>Invariant and abstraction\<close>

fun inorder :: "'p avl_node \<Rightarrow> (nat ptr \<times> 'p ptr) list" where
  "inorder NilNode = []"
| "inorder (AvlNode k d h l r) = inorder l @ (k, d) # inorder r"

text \<open>Balance: stored heights are the heights, and siblings differ by at most one.\<close>

fun avl_bal :: "'p avl_node \<Rightarrow> bool" where
  "avl_bal NilNode = True"
| "avl_bal (AvlNode k d h l r) \<longleftrightarrow>
     h = 1 + max (avl_get_height l) (avl_get_height r) \<and>
     \<bar>avl_get_height l - avl_get_height r\<bar> \<le> 1 \<and> avl_bal l \<and> avl_bal r"

abbreviation key_str :: "strmem \<Rightarrow> nat ptr \<Rightarrow> cstr" where
  "key_str m p \<equiv> the (str_at m p)"

definition avl_list :: "strmem \<Rightarrow> 'p avl_node \<Rightarrow> (cstr \<times> 'p ptr) list" where
  "avl_list m t = map (\<lambda>(p, d). (key_str m p, d)) (inorder t)"

definition avl_map :: "strmem \<Rightarrow> 'p avl_node \<Rightarrow> cstr \<rightharpoonup> 'p ptr" where
  "avl_map m t = map_of (avl_list m t)"

definition live_keys :: "strmem \<Rightarrow> 'p avl_node \<Rightarrow> bool" where
  "live_keys m t \<longleftrightarrow> (\<forall>p \<in> fst ` set (inorder t). str_at m p \<noteq> None)"

definition avl_ok :: "strmem \<Rightarrow> 'p avl_node \<Rightarrow> bool" where
  "avl_ok m t \<longleftrightarrow> mem_ok m \<and> live_keys m t \<and> sorted_wrt (<) (map fst (avl_list m t)) \<and> avl_bal t"

lemma avl_get_height_simps [simp]:
  "avl_get_height NilNode = 0"
  "avl_get_height (AvlNode k d h l r) = h"
  by (simp_all add: avl_get_height_def)

lemma avl_get_balance_simps [simp]:
  "avl_get_balance NilNode = 0"
  "avl_get_balance (AvlNode k d h l r) = avl_get_height l - avl_get_height r"
  by (simp_all add: avl_get_balance_def)

lemma set_height_simps [simp]:
  "set_height (AvlNode k d h l r) = AvlNode k d (1 + max (avl_get_height l) (avl_get_height r)) l r"
  by (simp add: set_height_def avl_update_height_def max_def)

lemma avl_height_ge_0: "avl_bal t \<Longrightarrow> 0 \<le> avl_get_height t"
  by (induction t) auto

lemma avl_height_0: "avl_bal t \<Longrightarrow> avl_get_height t = 0 \<longleftrightarrow> t = NilNode"
  using avl_height_ge_0 by (cases t) fastforce+

lemma avl_height_pos: "avl_bal t \<Longrightarrow> 0 < avl_get_height t \<Longrightarrow> \<exists>k d l r. t = AvlNode k d (avl_get_height t) l r"
  by (cases t) auto

lemma live_keys_simps [simp]:
  "live_keys m NilNode"
  "live_keys m (AvlNode k d h l r) \<longleftrightarrow> str_at m k \<noteq> None \<and> live_keys m l \<and> live_keys m r"
  by (auto simp: live_keys_def)

lemma avl_list_simps [simp]:
  "avl_list m NilNode = []"
  "avl_list m (AvlNode k d h l r) = avl_list m l @ (key_str m k, d) # avl_list m r"
  by (simp_all add: avl_list_def)

section \<open>Rebalancing\<close>

text \<open>
  After one subtree has changed, \<open>avl_insert_fix\<close> and \<open>avl_delete_fix\<close> restore the
  balance and keep the sequence of entries. Insertion decides between the single and the
  double rotation by comparing the key with the root of the subtree, so it needs to know
  that the inserted key made that side of the subtree the higher one.
\<close>

definition grown_at :: "strmem \<Rightarrow> cstr \<Rightarrow> 'p avl_node \<Rightarrow> bool" where
  "grown_at m s t \<longleftrightarrow>
     (case t of
        NilNode \<Rightarrow> False
      | AvlNode k d h l r \<Rightarrow>
          \<exists>ks. str_at m k = Some ks \<and>
            (s < ks \<and> avl_get_height l = avl_get_height r + 1 \<or>
             ks < s \<and> avl_get_height r = avl_get_height l + 1))"

lemma avl_insert_fix_left:
  assumes "avl_bal l" and "avl_bal r" and "str_at m key = Some s"
    and "avl_get_height r - 1 \<le> avl_get_height l" and "avl_get_height l \<le> avl_get_height r + 2"
    and "avl_get_height l = avl_get_height r + 2 \<Longrightarrow> grown_at m s l"
  shows "\<exists>n. avl_insert_fix m key (AvlNode k d h l r) = Some n \<and> avl_bal n \<and>
    inorder n = inorder l @ (k, d) # inorder r \<and>
    (if avl_get_height l = avl_get_height r + 2 then avl_get_height n = avl_get_height r + 2
     else n = AvlNode k d (1 + max (avl_get_height l) (avl_get_height r)) l r)"
proof (cases "avl_get_height l = avl_get_height r + 2")
  case False
  with assms show ?thesis by (auto simp: avl_insert_fix_def Let_def)
next
  case True
  with assms(6) obtain lk ld lh ll lr ks where l: "l = AvlNode lk ld lh ll lr" "str_at m lk = Some ks"
    and side: "s < ks \<and> avl_get_height ll = avl_get_height lr + 1 \<or>
      ks < s \<and> avl_get_height lr = avl_get_height ll + 1"
    by (auto simp: grown_at_def split: avl_node.splits)
  from side show ?thesis
  proof
    assume "s < ks \<and> avl_get_height ll = avl_get_height lr + 1"
    with True l assms(1-3) show ?thesis
      by (auto simp: avl_insert_fix_def Let_def)
  next
    assume side: "ks < s \<and> avl_get_height lr = avl_get_height ll + 1"
    with assms(1) l have "0 < avl_get_height lr" using avl_height_ge_0 [of ll] by simp
    with assms(1) l obtain k2 d2 h2 l2 r2 where "lr = AvlNode k2 d2 h2 l2 r2"
      by (cases lr) auto
    with True l assms(1-3) side show ?thesis
      by (auto simp: avl_insert_fix_def Let_def)
  qed
qed

lemma avl_insert_fix_right:
  assumes "avl_bal l" and "avl_bal r" and "str_at m key = Some s"
    and "avl_get_height l - 1 \<le> avl_get_height r" and "avl_get_height r \<le> avl_get_height l + 2"
    and "avl_get_height r = avl_get_height l + 2 \<Longrightarrow> grown_at m s r"
  shows "\<exists>n. avl_insert_fix m key (AvlNode k d h l r) = Some n \<and> avl_bal n \<and>
    inorder n = inorder l @ (k, d) # inorder r \<and>
    (if avl_get_height r = avl_get_height l + 2 then avl_get_height n = avl_get_height l + 2
     else n = AvlNode k d (1 + max (avl_get_height l) (avl_get_height r)) l r)"
proof (cases "avl_get_height r = avl_get_height l + 2")
  case False
  with assms show ?thesis by (auto simp: avl_insert_fix_def Let_def)
next
  case True
  with assms(6) obtain rk rd rh rl rr ks where r: "r = AvlNode rk rd rh rl rr" "str_at m rk = Some ks"
    and side: "s < ks \<and> avl_get_height rl = avl_get_height rr + 1 \<or>
      ks < s \<and> avl_get_height rr = avl_get_height rl + 1"
    by (auto simp: grown_at_def split: avl_node.splits)
  from side show ?thesis
  proof
    assume side: "s < ks \<and> avl_get_height rl = avl_get_height rr + 1"
    with assms(2) r have "0 < avl_get_height rl" using avl_height_ge_0 [of rr] by simp
    with assms(2) r obtain k2 d2 h2 l2 r2 where "rl = AvlNode k2 d2 h2 l2 r2"
      by (cases rl) auto
    with True r assms(1-3) side show ?thesis
      by (auto simp: avl_insert_fix_def Let_def)
  next
    assume "ks < s \<and> avl_get_height rr = avl_get_height rl + 1"
    with True r assms(1-3) show ?thesis
      by (auto simp: avl_insert_fix_def Let_def)
  qed
qed

lemma avl_delete_fix_spec:
  assumes "avl_bal l" and "avl_bal r" and "\<bar>avl_get_height l - avl_get_height r\<bar> \<le> 2"
  shows "\<exists>n. avl_delete_fix (AvlNode k d h l r) = Some n \<and> avl_bal n \<and>
    inorder n = inorder l @ (k, d) # inorder r \<and>
    max (avl_get_height l) (avl_get_height r) \<le> avl_get_height n \<and>
    avl_get_height n \<le> 1 + max (avl_get_height l) (avl_get_height r) \<and>
    (\<bar>avl_get_height l - avl_get_height r\<bar> \<le> 1 \<longrightarrow>
       avl_get_height n = 1 + max (avl_get_height l) (avl_get_height r))"
proof -
  consider (high) "avl_get_height l = avl_get_height r + 2" | (low) "avl_get_height r = avl_get_height l + 2"
    | (even) "\<bar>avl_get_height l - avl_get_height r\<bar> \<le> 1"
    using assms(3) by linarith
  then show ?thesis
  proof cases
    case high
    with assms(1,2) obtain lk ld ll lr where l: "l = AvlNode lk ld (avl_get_height l) ll lr"
      using avl_height_pos [of l] avl_height_ge_0 [of r] by auto
    show ?thesis
    proof (cases "avl_get_height lr \<le> avl_get_height ll")
      case True
      with l high assms(1,2) show ?thesis
        by (cases l) (auto simp: avl_delete_fix_def Let_def)
    next
      case False
      with assms(1) l have "0 < avl_get_height lr"
        using avl_height_ge_0 [of ll] by (cases l) auto
      then obtain k2 d2 h2 l2 r2 where "lr = AvlNode k2 d2 h2 l2 r2" by (cases lr) auto
      with False l high assms(1,2) show ?thesis
        by (cases l) (auto simp: avl_delete_fix_def Let_def)
    qed
  next
    case low
    with assms(1,2) obtain rk rd rl rr where r: "r = AvlNode rk rd (avl_get_height r) rl rr"
      using avl_height_pos [of r] avl_height_ge_0 [of l] by auto
    show ?thesis
    proof (cases "avl_get_height rl \<le> avl_get_height rr")
      case True
      with r low assms(1,2) show ?thesis
        by (cases r) (auto simp: avl_delete_fix_def Let_def)
    next
      case False
      with assms(2) r have "0 < avl_get_height rl"
        using avl_height_ge_0 [of rr] by (cases r) auto
      then obtain k2 d2 h2 l2 r2 where "rl = AvlNode k2 d2 h2 l2 r2" by (cases rl) auto
      with False r low assms(1,2) show ?thesis
        by (cases r) (auto simp: avl_delete_fix_def Let_def)
    qed
  next
    case even
    with assms show ?thesis by (auto simp: avl_delete_fix_def Let_def)
  qed
qed

end
