(* ===== verification/AvlInsert.thy ===== *)
theory AvlInsert
  imports Avl
begin

text \<open>
  Insertion into and search in the AVL tree: \<open>avl_insert_node\<close> puts the entry of a new
  key in its sorted place and rebalances, leaves the tree alone when the key is present,
  and \<open>avl_search_node\<close> is the lookup in the map the tree stands for.
\<close>

section \<open>Insertion\<close>

lemma avl_list_eq: "avl_list m t = map (\<lambda>(p, d). (key_str m p, d)) (inorder t)"
  by (simp add: avl_list_def)

lemma set_avl_list: "fst ` set (avl_list m t) = key_str m ` fst ` set (inorder t)"
  by (force simp: avl_list_def image_iff)

text \<open>
  \<open>inserted m s d t t'\<close>: the entries of \<open>t'\<close> are those of \<open>t\<close> with the entry of
  the fresh key put in its sorted place; the tree is balanced again; and if it has grown,
  then on the side of the new key.
\<close>

definition inserted :: "strmem \<Rightarrow> cstr \<Rightarrow> 'p ptr \<Rightarrow> 'p avl_node \<Rightarrow> 'p avl_node \<Rightarrow> bool" where
  "inserted m s d t t' \<longleftrightarrow>
     avl_bal t' \<and>
     (\<exists>xs ys. inorder t = xs @ ys \<and> inorder t' = xs @ (Ptr (brk m), d) # ys \<and>
        (\<forall>p \<in> fst ` set xs. key_str m p < s) \<and> (\<forall>p \<in> fst ` set ys. s < key_str m p)) \<and>
     (avl_get_height t' = avl_get_height t \<or>
      avl_get_height t' = avl_get_height t + 1 \<and> (t = NilNode \<or> grown_at (mem_add m s) s t'))"

lemma insertedI:
  assumes "avl_bal t'" and "inorder t = xs @ ys" and "inorder t' = xs @ (Ptr (brk m), d) # ys"
    and "\<forall>p \<in> fst ` set xs. key_str m p < s" and "\<forall>p \<in> fst ` set ys. s < key_str m p"
    and "avl_get_height t' = avl_get_height t \<or>
      avl_get_height t' = avl_get_height t + 1 \<and> (t = NilNode \<or> grown_at (mem_add m s) s t')"
  shows "inserted m s d t t'"
  unfolding inserted_def using assms by blast

lemma avl_new_node_ok:
  "str_at m key = Some s \<Longrightarrow>
   avl_new_node m key d True True = Some (mem_add m s, AvlNode (Ptr (brk m)) d 1 NilNode NilNode)"
  by (simp add: avl_new_node_def)

lemma inserted_left:
  assumes "inserted m s d l l1" and "avl_bal (AvlNode k kd h l r)"
    and "mem_ok m" and "str_at m k = Some ks" and "s < ks"
    and "\<forall>p \<in> fst ` set (inorder r). ks < key_str m p" and "str_at m key = Some s"
  shows "\<exists>n. avl_insert_fix (mem_add m s) key (AvlNode k kd h l1 r) = Some n \<and>
    inserted m s d (AvlNode k kd h l r) n"
proof -
  let ?m = "mem_add m s"
  from assms(1) obtain xs ys where ord: "inorder l = xs @ ys" "inorder l1 = xs @ (Ptr (brk m), d) # ys"
      "\<forall>p \<in> fst ` set xs. key_str m p < s" "\<forall>p \<in> fst ` set ys. s < key_str m p"
    and bal1: "avl_bal l1"
    and grow: "avl_get_height l1 = avl_get_height l \<or>
      avl_get_height l1 = avl_get_height l + 1 \<and> (l = NilNode \<or> grown_at ?m s l1)"
    by (auto simp: inserted_def)
  from assms(2) have bal: "avl_bal l" "avl_bal r" "\<bar>avl_get_height l - avl_get_height r\<bar> \<le> 1"
      "h = 1 + max (avl_get_height l) (avl_get_height r)"
    by auto
  have "\<exists>n. avl_insert_fix ?m key (AvlNode k kd h l1 r) = Some n \<and> avl_bal n \<and>
    inorder n = inorder l1 @ (k, kd) # inorder r \<and>
    (if avl_get_height l1 = avl_get_height r + 2 then avl_get_height n = avl_get_height r + 2
     else n = AvlNode k kd (1 + max (avl_get_height l1) (avl_get_height r)) l1 r)"
    by (rule avl_insert_fix_left [OF bal1 bal(2), where s = s])
      (use assms(3,7) bal grow avl_height_ge_0 [of r] in auto)
  then obtain n where n: "avl_insert_fix ?m key (AvlNode k kd h l1 r) = Some n" "avl_bal n"
    "inorder n = inorder l1 @ (k, kd) # inorder r"
    "if avl_get_height l1 = avl_get_height r + 2 then avl_get_height n = avl_get_height r + 2
     else n = AvlNode k kd (1 + max (avl_get_height l1) (avl_get_height r)) l1 r"
    by blast
  have "\<forall>p \<in> fst ` set (ys @ (k, kd) # inorder r). s < key_str m p"
    using ord(4) assms(4-6) by auto
  moreover have "inorder (AvlNode k kd h l r) = xs @ (ys @ (k, kd) # inorder r)"
    "inorder n = xs @ (Ptr (brk m), d) # (ys @ (k, kd) # inorder r)"
    using ord(1,2) n(3) by simp_all
  moreover have "avl_get_height n = h \<or>
      avl_get_height n = h + 1 \<and> grown_at ?m s n"
    using n(4) bal(3,4) grow assms(3-5) by (auto simp: grown_at_def split: if_splits)
  ultimately have "inserted m s d (AvlNode k kd h l r) n"
    using n(2) ord(3) by (intro insertedI) auto
  with n(1) show ?thesis by blast
qed

lemma inserted_right:
  assumes "inserted m s d r r1" and "avl_bal (AvlNode k kd h l r)"
    and "mem_ok m" and "str_at m k = Some ks" and "ks < s"
    and "\<forall>p \<in> fst ` set (inorder l). key_str m p < ks" and "str_at m key = Some s"
  shows "\<exists>n. avl_insert_fix (mem_add m s) key (AvlNode k kd h l r1) = Some n \<and>
    inserted m s d (AvlNode k kd h l r) n"
proof -
  let ?m = "mem_add m s"
  from assms(1) obtain xs ys where ord: "inorder r = xs @ ys" "inorder r1 = xs @ (Ptr (brk m), d) # ys"
      "\<forall>p \<in> fst ` set xs. key_str m p < s" "\<forall>p \<in> fst ` set ys. s < key_str m p"
    and bal1: "avl_bal r1"
    and grow: "avl_get_height r1 = avl_get_height r \<or>
      avl_get_height r1 = avl_get_height r + 1 \<and> (r = NilNode \<or> grown_at ?m s r1)"
    by (auto simp: inserted_def)
  from assms(2) have bal: "avl_bal l" "avl_bal r" "\<bar>avl_get_height l - avl_get_height r\<bar> \<le> 1"
      "h = 1 + max (avl_get_height l) (avl_get_height r)"
    by auto
  have "\<exists>n. avl_insert_fix ?m key (AvlNode k kd h l r1) = Some n \<and> avl_bal n \<and>
    inorder n = inorder l @ (k, kd) # inorder r1 \<and>
    (if avl_get_height r1 = avl_get_height l + 2 then avl_get_height n = avl_get_height l + 2
     else n = AvlNode k kd (1 + max (avl_get_height l) (avl_get_height r1)) l r1)"
    by (rule avl_insert_fix_right [OF bal(1) bal1, where s = s])
      (use assms(3,7) bal grow avl_height_ge_0 [of l] in auto)
  then obtain n where n: "avl_insert_fix ?m key (AvlNode k kd h l r1) = Some n" "avl_bal n"
    "inorder n = inorder l @ (k, kd) # inorder r1"
    "if avl_get_height r1 = avl_get_height l + 2 then avl_get_height n = avl_get_height l + 2
     else n = AvlNode k kd (1 + max (avl_get_height l) (avl_get_height r1)) l r1"
    by blast
  have "\<forall>p \<in> fst ` set (inorder l @ (k, kd) # xs). key_str m p < s"
    using ord(3) assms(4-6) by auto
  moreover have "inorder (AvlNode k kd h l r) = (inorder l @ (k, kd) # xs) @ ys"
    "inorder n = (inorder l @ (k, kd) # xs) @ (Ptr (brk m), d) # ys"
    using ord(1,2) n(3) by simp_all
  moreover have "avl_get_height n = h \<or>
      avl_get_height n = h + 1 \<and> grown_at ?m s n"
    using n(4) bal(3,4) grow assms(3-5) by (auto simp: grown_at_def split: if_splits)
  ultimately have "inserted m s d (AvlNode k kd h l r) n"
    using n(2) ord(4) by (intro insertedI) auto
  with n(1) show ?thesis by blast
qed

lemma avl_ok_Node:
  assumes "avl_ok m (AvlNode k d h l r)"
  obtains ks where "str_at m k = Some ks" and "avl_ok m l" and "avl_ok m r"
    and "\<forall>p \<in> fst ` set (inorder l). key_str m p < ks"
    and "\<forall>p \<in> fst ` set (inorder r). ks < key_str m p"
proof -
  from assms obtain ks where k: "str_at m k = Some ks" by (auto simp: avl_ok_def)
  from assms k have *: "sorted_wrt (<) (map fst (avl_list m l) @ ks # map fst (avl_list m r))"
    by (simp add: avl_ok_def)
  then have s: "\<forall>x \<in> fst ` set (avl_list m l). x < ks" "\<forall>x \<in> fst ` set (avl_list m r). ks < x"
    by (auto simp: sorted_wrt_append)
  from * assms have "avl_ok m l" "avl_ok m r"
    by (auto simp: avl_ok_def sorted_wrt_append)
  from that [OF k this] s show thesis by (simp add: set_avl_list)
qed

lemma avl_insert_node_new:
  assumes "avl_ok m t" and "str_at m key = Some s"
    and "\<forall>p \<in> fst ` set (inorder t). key_str m p \<noteq> s"
  shows "\<exists>t'. avl_insert_node m t key d True True = Some (mem_add m s, t') \<and> inserted m s d t t'"
  using assms
proof (induction t)
  case NilNode
  then show ?case by (simp add: avl_new_node_ok inserted_def)
next
  case (AvlNode k kd h l r)
  from AvlNode.prems(1) obtain ks where k: "str_at m k = Some ks" "avl_ok m l" "avl_ok m r"
    "\<forall>p \<in> fst ` set (inorder l). key_str m p < ks" "\<forall>p \<in> fst ` set (inorder r). ks < key_str m p"
    by (rule avl_ok_Node)
  from AvlNode.prems(1) have ok: "avl_bal (AvlNode k kd h l r)" "mem_ok m"
    by (auto simp: avl_ok_def)
  from AvlNode.prems(3) k(1) have "s \<noteq> ks" by auto
  then consider (lt) "s < ks" | (gt) "ks < s" by (rule neqE)
  then show ?case
  proof cases
    case lt
    from AvlNode.IH(1) [OF k(2) AvlNode.prems(2)] AvlNode.prems(3) obtain l1 where
      l1: "avl_insert_node m l key d True True = Some (mem_add m s, l1)" "inserted m s d l l1"
      by auto
    from inserted_left [OF l1(2) ok k(1) lt k(5) AvlNode.prems(2)] obtain n where
      "avl_insert_fix (mem_add m s) key (AvlNode k kd h l1 r) = Some n"
      "inserted m s d (AvlNode k kd h l r) n"
      by blast
    with lt l1(1) k(1) AvlNode.prems(2) show ?thesis by simp
  next
    case gt
    from AvlNode.IH(2) [OF k(3) AvlNode.prems(2)] AvlNode.prems(3) obtain r1 where
      r1: "avl_insert_node m r key d True True = Some (mem_add m s, r1)" "inserted m s d r r1"
      by auto
    from inserted_right [OF r1(2) ok k(1) gt k(4) AvlNode.prems(2)] obtain n where
      "avl_insert_fix (mem_add m s) key (AvlNode k kd h l r1) = Some n"
      "inserted m s d (AvlNode k kd h l r) n"
      by blast
    with r1(1) k(1) AvlNode.prems(2) gt less_not_sym [OF gt] show ?thesis by simp
  qed
qed

lemma avl_insert_node_present:
  assumes "avl_ok m t" and "str_at m key = Some s"
    and "s \<in> key_str m ` fst ` set (inorder t)"
  shows "avl_insert_node m t key d nok kok = Some (m, t)"
  using assms
proof (induction t)
  case NilNode
  then show ?case by simp
next
  case (AvlNode k kd h l r)
  from AvlNode.prems(1) obtain ks where k: "str_at m k = Some ks" "avl_ok m l" "avl_ok m r"
    "\<forall>p \<in> fst ` set (inorder l). key_str m p < ks" "\<forall>p \<in> fst ` set (inorder r). ks < key_str m p"
    by (rule avl_ok_Node)
  from AvlNode.prems(1) have ok: "avl_bal (AvlNode k kd h l r)" by (simp add: avl_ok_def)
  have unchanged: "avl_insert_fix m key (AvlNode k kd h l r) = Some (AvlNode k kd h l r)"
    using ok by (auto simp: avl_insert_fix_def Let_def)
  show ?case
  proof (cases s ks rule: linorder_cases)
    case equal
    with k(1) AvlNode.prems(2) show ?thesis by simp
  next
    case less
    with k(5) have "s \<notin> key_str m ` fst ` set (inorder r)" by fastforce
    with AvlNode.prems(3) k(1) less have "s \<in> key_str m ` fst ` set (inorder l)" by auto
    from AvlNode.IH(1) [OF k(2) AvlNode.prems(2) this] less k(1) AvlNode.prems(2) unchanged
    show ?thesis by simp
  next
    case greater
    with k(4) have "s \<notin> key_str m ` fst ` set (inorder l)" by fastforce
    with AvlNode.prems(3) k(1) greater have "s \<in> key_str m ` fst ` set (inorder r)" by auto
    from AvlNode.IH(2) [OF k(3) AvlNode.prems(2) this] less_not_sym [OF greater] greater
      k(1) AvlNode.prems(2) unchanged
    show ?thesis by simp
  qed
qed

lemma avl_list_cong:
  "(\<And>p. p \<in> fst ` set (inorder t) \<Longrightarrow> str_at m' p = str_at m p) \<Longrightarrow> avl_list m' t = avl_list m t"
  by (force simp: avl_list_def)

lemma avl_ok_cong:
  assumes "\<And>p. p \<in> fst ` set (inorder t) \<Longrightarrow> str_at m' p = str_at m p"
    and "mem_ok m'" and "avl_ok m t"
  shows "avl_ok m' t" and "avl_list m' t = avl_list m t"
proof -
  show eq: "avl_list m' t = avl_list m t" using assms(1) by (rule avl_list_cong)
  show "avl_ok m' t"
    using assms by (auto simp: avl_ok_def eq live_keys_def)
qed

lemma avl_ok_live: "avl_ok m t \<Longrightarrow> p \<in> fst ` set (inorder t) \<Longrightarrow> str_at m p \<noteq> None"
  by (simp only: avl_ok_def live_keys_def) blast

lemma avl_map_dom: "dom (avl_map m t) = key_str m ` fst ` set (inorder t)"
  by (simp add: avl_map_def dom_map_of_conv_image_fst set_avl_list)

lemma inserted_ok:
  assumes "avl_ok m t" and "inserted m s d t t'"
  shows "avl_ok (mem_add m s) t'" and "avl_map (mem_add m s) t' = (avl_map m t)(s \<mapsto> d)"
proof -
  let ?m = "mem_add m s"
  from assms(2) obtain xs ys where ord: "inorder t = xs @ ys" "inorder t' = xs @ (Ptr (brk m), d) # ys"
      "\<forall>p \<in> fst ` set xs. key_str m p < s" "\<forall>p \<in> fst ` set ys. s < key_str m p" and bal: "avl_bal t'"
    by (auto simp: inserted_def)
  from assms(1) have ok: "mem_ok m" "live_keys m t" "sorted_wrt (<) (map fst (avl_list m t))"
    by (auto simp: avl_ok_def)
  have same: "str_at ?m p = str_at m p" if "p \<in> fst ` set (inorder t)" for p
    using ok(1,2) that by (auto simp: live_keys_def)
  let ?f = "\<lambda>(p, d). (key_str m p, d)"
  have lists: "avl_list m t = map ?f xs @ map ?f ys"
    "avl_list ?m t' = map ?f xs @ (s, d) # map ?f ys"
  proof -
    have "\<forall>(p, b) \<in> set xs \<union> set ys. key_str ?m p = key_str m p"
      using same by (force simp: ord(1))
    then show "avl_list m t = map ?f xs @ map ?f ys" "avl_list ?m t' = map ?f xs @ (s, d) # map ?f ys"
      by (auto simp: avl_list_def ord(1,2))
  qed
  have keys: "\<forall>x \<in> fst ` set (map ?f xs). x < s" "\<forall>x \<in> fst ` set (map ?f ys). s < x"
    using ord(3,4) by auto
  have "live_keys ?m t'"
    using ok(2) same by (auto simp: live_keys_def ord(1,2))
  moreover have "sorted_wrt (<) (map fst (avl_list ?m t'))"
    using ok(3) keys by (auto simp: lists sorted_wrt_append)
  ultimately show "avl_ok ?m t'"
    using ok(1) bal by (simp add: avl_ok_def)
  have "map_of (map ?f xs) s = None"
    using keys(1) by (auto simp: map_of_eq_None_iff)
  then show "avl_map ?m t' = (avl_map m t)(s \<mapsto> d)"
    by (auto simp: avl_map_def lists map_add_def fun_eq_iff split: option.split)
qed

lemma avl_insert_node_spec:
  assumes "avl_ok m t" and "str_at m key = Some s"
  shows "\<exists>m' t'. avl_insert_node m t key d True True = Some (m', t') \<and> avl_ok m' t' \<and>
    avl_map m' t' = (if s \<in> dom (avl_map m t) then avl_map m t else (avl_map m t)(s \<mapsto> d)) \<and>
    (\<forall>p x. str_at m p = Some x \<longrightarrow> str_at m' p = Some x) \<and>
    fst ` set (inorder t') \<subseteq> insert (Ptr (brk m)) (fst ` set (inorder t))"
proof (cases "s \<in> dom (avl_map m t)")
  case True
  with assms avl_insert_node_present [OF assms, of d True True] show ?thesis
    by (auto simp: avl_map_dom)
next
  case False
  then have "\<forall>p \<in> fst ` set (inorder t). key_str m p \<noteq> s" by (auto simp: avl_map_dom)
  from avl_insert_node_new [OF assms this] obtain t' where
    t': "avl_insert_node m t key d True True = Some (mem_add m s, t')" "inserted m s d t t'"
    by blast
  then have "fst ` set (inorder t') \<subseteq> insert (Ptr (brk m)) (fst ` set (inorder t))"
    by (auto simp: inserted_def)
  moreover from assms(1) have "mem_ok m" by (simp add: avl_ok_def)
  ultimately show ?thesis
    using False t'(1) inserted_ok [OF assms(1) t'(2)] by simp
qed

lemma avl_insert_nodeE:
  fixes d :: "'p ptr"
  assumes "avl_ok m t" and "str_at m key = Some s"
  obtains m' t' where "avl_insert_node m t key d True True = Some (m', t')" and "avl_ok m' t'"
    and "avl_map m' t' = (if s \<in> dom (avl_map m t) then avl_map m t else (avl_map m t)(s \<mapsto> d))"
    and "\<forall>p x. str_at m p = Some x \<longrightarrow> str_at m' p = Some x"
    and "fst ` set (inorder t') \<subseteq> insert (Ptr (brk m)) (fst ` set (inorder t))"
  using avl_insert_node_spec [OF assms, of d] by blast

section \<open>Search\<close>

lemma map_of_middle:
  assumes "\<forall>x \<in> fst ` set xs. x < k" and "\<forall>x \<in> fst ` set ys. (k :: 'k :: linorder) < x"
  shows "map_of (xs @ (k, d) # ys) s =
    (if s = k then Some d else if s < k then map_of xs s else map_of ys s)"
proof -
  have "map_of xs s = None" if "\<not> s < k"
    using assms(1) that by (auto simp: map_of_eq_None_iff)
  moreover have "map_of ys s = None" if "\<not> k < s"
    using assms(2) that by (auto simp: map_of_eq_None_iff)
  ultimately show ?thesis by (auto simp: map_add_def split: option.split)
qed

lemma avl_map_Node:
  assumes "avl_ok m (AvlNode k d h l r)" and "str_at m k = Some ks"
  shows "avl_map m (AvlNode k d h l r) s =
    (if s = ks then Some d else if s < ks then avl_map m l s else avl_map m r s)"
proof -
  from assms have "\<forall>x \<in> fst ` set (avl_list m l). x < ks" "\<forall>x \<in> fst ` set (avl_list m r). ks < x"
    by (auto simp: avl_ok_def sorted_wrt_append)
  from map_of_middle [OF this, of d s] assms(2) show ?thesis by (simp add: avl_map_def)
qed

lemma avl_search_node_spec:
  assumes "avl_ok m t" and "str_at m key = Some s"
  shows "avl_search_node m t key = Some (case avl_map m t s of None \<Rightarrow> Null | Some d \<Rightarrow> d)"
  using assms
proof (induction t)
  case NilNode
  then show ?case by (simp add: avl_map_def)
next
  case (AvlNode k kd h l r)
  from AvlNode.prems(1) obtain ks where k: "str_at m k = Some ks" "avl_ok m l" "avl_ok m r"
    by (rule avl_ok_Node)
  with AvlNode.IH AvlNode.prems avl_map_Node [OF AvlNode.prems(1) k(1), of s] show ?case by auto
qed

end
