(* ===== verification/AvlDelete.thy ===== *)
theory AvlDelete
  imports AvlInsert
begin

text \<open>
  Deletion from the AVL tree and its destruction. A deletion that takes a leaf out of the
  tree is right; any other leaves a pointer to a freed key in the tree.
\<close>

section \<open>Deletion\<close>

text \<open>
  \<open>removes_leaf m t s\<close>: deleting the key string \<open>s\<close> takes a leaf out of the tree, the
  node of \<open>s\<close> itself or its in-order successor. This is the case in which
  \<open>avl_delete_node\<close> is right.
\<close>

fun min_is_leaf :: "'p avl_node \<Rightarrow> bool" where
  "min_is_leaf NilNode = False"
| "min_is_leaf (AvlNode k d h l r) = (if l = NilNode then r = NilNode else min_is_leaf l)"

fun removes_leaf :: "strmem \<Rightarrow> 'p avl_node \<Rightarrow> cstr \<Rightarrow> bool" where
  "removes_leaf m NilNode s = True"
| "removes_leaf m (AvlNode k d h l r) s =
     (if s < key_str m k then removes_leaf m l s
      else if key_str m k < s then removes_leaf m r s
      else l = NilNode \<and> r = NilNode \<or> l \<noteq> NilNode \<and> min_is_leaf r)"

lemma avl_min_value_node_spec:
  "t \<noteq> NilNode \<Longrightarrow> \<exists>k d ps. avl_min_value_node t = Some (k, d) \<and> inorder t = (k, d) # ps"
proof (induction t)
  case (AvlNode k d h l r)
  show ?case
  proof (cases l)
    case (AvlNode lk ld lh ll lr)
    then have "l \<noteq> NilNode" by simp
    from AvlNode.IH(1) [OF this] obtain k2 d2 ps where
      "avl_min_value_node l = Some (k2, d2)" "inorder l = (k2, d2) # ps"
      by blast
    with AvlNode show ?thesis by simp
  qed simp
qed simp

lemma removes_leaf_min:
  "avl_ok m t \<Longrightarrow> avl_min_value_node t = Some (k, d) \<Longrightarrow>
   removes_leaf m t (key_str m k) \<longleftrightarrow> min_is_leaf t"
proof (induction t)
  case (AvlNode nk nd h l r)
  show ?case
  proof (cases l)
    case NilNode
    with AvlNode.prems show ?thesis by simp
  next
    case (AvlNode lk ld lh ll lr)
    then have ne: "l \<noteq> NilNode" by simp
    from avl_min_value_node_spec [OF ne] AvlNode.prems(2) AvlNode obtain ps
      where "inorder l = (k, d) # ps" by auto
    moreover from AvlNode.prems(1) obtain ks where ks: "str_at m nk = Some ks" "avl_ok m l"
      "\<forall>p \<in> fst ` set (inorder l). key_str m p < ks"
      by (rule avl_ok_Node)
    ultimately have "key_str m k < key_str m nk" by simp
    with AvlNode.IH(1) [OF ks(2)] AvlNode.prems(2) AvlNode show ?thesis by simp
  qed
qed simp

text \<open>
  What a deletion that takes out a leaf leaves behind: the entry is gone and the others are
  kept, in a balanced tree at most one lower; no other string is touched, and key pointers
  are old ones or fresh.
\<close>

definition deleted ::
  "strmem \<Rightarrow> cstr \<Rightarrow> 'p avl_node \<Rightarrow> strmem \<Rightarrow> 'p avl_node \<Rightarrow> bool" where
  "deleted m s t m' t' \<longleftrightarrow>
     avl_ok m' t' \<and> avl_list m' t' = filter (\<lambda>e. fst e \<noteq> s) (avl_list m t) \<and>
     avl_get_height t - 1 \<le> avl_get_height t' \<and> avl_get_height t' \<le> avl_get_height t \<and>
     (\<forall>p. p \<notin> fst ` set (inorder t) \<longrightarrow> str_at m p \<noteq> None \<longrightarrow> str_at m' p = str_at m p)"

lemma deleted_str:
  "deleted m s t m' t' \<Longrightarrow> p \<notin> fst ` set (inorder t) \<Longrightarrow> str_at m p \<noteq> None \<Longrightarrow>
   str_at m' p = str_at m p"
  unfolding deleted_def by blast

lemma deleted_frame:
  assumes "deleted m s t m' t'" and "avl_ok m u"
    and "fst ` set (inorder t) \<inter> fst ` set (inorder u) = {}"
  shows "avl_ok m' u" and "avl_list m' u = avl_list m u"
proof -
  have "str_at m' p = str_at m p" if "p \<in> fst ` set (inorder u)" for p
  proof -
    from that assms(3) have "p \<notin> fst ` set (inorder t)" by blast
    moreover have "str_at m p \<noteq> None" using assms(2) that by (rule avl_ok_live)
    ultimately show ?thesis using assms(1) by (simp add: deleted_def)
  qed
  then show "avl_ok m' u" "avl_list m' u = avl_list m u"
    using avl_ok_cong [of u m' m] assms by (auto simp: deleted_def avl_ok_def)
qed

lemma filter_keys_id:
  "s \<notin> fst ` set xs \<Longrightarrow> filter (\<lambda>e. fst e \<noteq> s) xs = xs"
  by (induction xs) auto

lemma avl_ok_NodeI:
  assumes "avl_ok m l" and "avl_ok m r" and "str_at m k = Some ks"
    and "\<forall>x \<in> fst ` set (avl_list m l). x < ks" and "\<forall>x \<in> fst ` set (avl_list m r). ks < x"
    and "avl_bal n" and "inorder n = inorder l @ (k, d) # inorder r"
  shows "avl_ok m n" and "avl_list m n = avl_list m l @ (ks, d) # avl_list m r"
proof -
  show eq: "avl_list m n = avl_list m l @ (ks, d) # avl_list m r"
    using assms(3,7) by (simp add: avl_list_def)
  have "\<forall>x \<in> fst ` set (avl_list m l). \<forall>y \<in> fst ` set (avl_list m r). x < y"
    using assms(4,5) less_trans by blast
  then show "avl_ok m n"
    using assms by (auto simp: avl_ok_def live_keys_def eq sorted_wrt_append)
qed

lemma map_of_filter_key: "map_of (filter (\<lambda>e. fst e \<noteq> s) xs) = (map_of xs)(s := None)"
  by (induction xs) (auto simp: fun_eq_iff)

text \<open>Rebuilding a node around a subtree a leaf was deleted from.\<close>

lemma deleted_left:
  assumes "avl_ok m (AvlNode k d h l r)" and "str_at m k = Some ks" and "s < ks"
    and "deleted m s l m' l1"
  shows "\<exists>n. avl_delete_fix (AvlNode k d h l1 r) = Some n \<and> deleted m s (AvlNode k d h l r) m' n"
proof -
  from assms(1,2) have ok: "avl_ok m l" "avl_ok m r" "avl_bal (AvlNode k d h l r)"
    and lt: "\<forall>x \<in> fst ` set (avl_list m l). x < ks" and gt: "\<forall>x \<in> fst ` set (avl_list m r). ks < x"
    by (auto simp: avl_ok_def sorted_wrt_append)
  have disj: "fst ` set (inorder l) \<inter> fst ` set (inorder r) = {}" "k \<notin> fst ` set (inorder l)"
    using lt gt assms(2) unfolding set_avl_list by (fastforce dest: less_not_sym)+
  note r = deleted_frame [OF assms(4) ok(2) disj(1)]
  have k': "str_at m' k = Some ks" using assms(2,4) disj(2) by (auto simp: deleted_def)
  from assms(4) have l1: "avl_ok m' l1" "avl_list m' l1 = filter (\<lambda>e. fst e \<noteq> s) (avl_list m l)"
    "avl_get_height l - 1 \<le> avl_get_height l1" "avl_get_height l1 \<le> avl_get_height l"
    by (auto simp: deleted_def)
  have "\<exists>n. avl_delete_fix (AvlNode k d h l1 r) = Some n \<and> avl_bal n \<and>
    inorder n = inorder l1 @ (k, d) # inorder r \<and>
    max (avl_get_height l1) (avl_get_height r) \<le> avl_get_height n \<and>
    avl_get_height n \<le> 1 + max (avl_get_height l1) (avl_get_height r) \<and>
    (\<bar>avl_get_height l1 - avl_get_height r\<bar> \<le> 1 \<longrightarrow>
       avl_get_height n = 1 + max (avl_get_height l1) (avl_get_height r))"
    by (rule avl_delete_fix_spec) (use l1 ok r(1) in \<open>auto simp: avl_ok_def\<close>)
  then obtain n where n: "avl_delete_fix (AvlNode k d h l1 r) = Some n" "avl_bal n"
    "inorder n = inorder l1 @ (k, d) # inorder r"
    "avl_get_height n \<le> h" "h - 1 \<le> avl_get_height n"
    using l1(3,4) ok(3) by fastforce
  have s: "s \<notin> fst ` set (avl_list m r)" using gt assms(3) less_not_sym by blast
  have n': "avl_ok m' n" "avl_list m' n = avl_list m' l1 @ (ks, d) # avl_list m' r"
    by (rule avl_ok_NodeI [OF l1(1) r(1) k' _ _ n(2,3)]; use lt gt l1(2) r(2) in auto)+
  have "avl_list m' n = filter (\<lambda>e. fst e \<noteq> s) (avl_list m (AvlNode k d h l r))"
    using n'(2) l1(2) r(2) s assms(2,3) by (simp add: filter_keys_id)
  with n n'(1) assms(4) show ?thesis by (auto simp: deleted_def)
qed

lemma deleted_right:
  assumes "avl_ok m (AvlNode k d h l r)" and "str_at m k = Some ks" and "ks < s"
    and "deleted m s r m' r1"
  shows "\<exists>n. avl_delete_fix (AvlNode k d h l r1) = Some n \<and> deleted m s (AvlNode k d h l r) m' n"
proof -
  from assms(1,2) have ok: "avl_ok m l" "avl_ok m r" "avl_bal (AvlNode k d h l r)"
    and lt: "\<forall>x \<in> fst ` set (avl_list m l). x < ks" and gt: "\<forall>x \<in> fst ` set (avl_list m r). ks < x"
    by (auto simp: avl_ok_def sorted_wrt_append)
  have disj: "fst ` set (inorder r) \<inter> fst ` set (inorder l) = {}" "k \<notin> fst ` set (inorder r)"
    using lt gt assms(2) unfolding set_avl_list by (fastforce dest: less_not_sym)+
  note l = deleted_frame [OF assms(4) ok(1) disj(1)]
  have k': "str_at m' k = Some ks" using assms(2,4) disj(2) by (auto simp: deleted_def)
  from assms(4) have r1: "avl_ok m' r1" "avl_list m' r1 = filter (\<lambda>e. fst e \<noteq> s) (avl_list m r)"
    "avl_get_height r - 1 \<le> avl_get_height r1" "avl_get_height r1 \<le> avl_get_height r"
    by (auto simp: deleted_def)
  have "\<exists>n. avl_delete_fix (AvlNode k d h l r1) = Some n \<and> avl_bal n \<and>
    inorder n = inorder l @ (k, d) # inorder r1 \<and>
    max (avl_get_height l) (avl_get_height r1) \<le> avl_get_height n \<and>
    avl_get_height n \<le> 1 + max (avl_get_height l) (avl_get_height r1) \<and>
    (\<bar>avl_get_height l - avl_get_height r1\<bar> \<le> 1 \<longrightarrow>
       avl_get_height n = 1 + max (avl_get_height l) (avl_get_height r1))"
    by (rule avl_delete_fix_spec) (use r1 ok l(1) in \<open>auto simp: avl_ok_def\<close>)
  then obtain n where n: "avl_delete_fix (AvlNode k d h l r1) = Some n" "avl_bal n"
    "inorder n = inorder l @ (k, d) # inorder r1"
    "avl_get_height n \<le> h" "h - 1 \<le> avl_get_height n"
    using r1(3,4) ok(3) by fastforce
  have s: "s \<notin> fst ` set (avl_list m l)" using lt assms(3) less_not_sym by blast
  have n': "avl_ok m' n" "avl_list m' n = avl_list m' l @ (ks, d) # avl_list m' r1"
    by (rule avl_ok_NodeI [OF l(1) r1(1) k' _ _ n(2,3)]; use lt gt r1(2) l(2) in auto)+
  have "avl_list m' n = filter (\<lambda>e. fst e \<noteq> s) (avl_list m (AvlNode k d h l r))"
    using n'(2) r1(2) l(2) s assms(2,3) by (simp add: filter_keys_id)
  with n n'(1) assms(4) show ?thesis by (auto simp: deleted_def)
qed

text \<open>A node with two children: its key is replaced by a copy of the key of its successor.\<close>

lemma deleted_both:
  assumes "avl_ok m (AvlNode k d h l r)" and "str_at m k = Some ks"
    and "avl_min_value_node r = Some (tk, td)" and "r \<noteq> NilNode"
    and "deleted (mem_add (mem_del m k) (key_str m tk)) (key_str m tk) r m' r1"
  shows "\<exists>n. avl_delete_fix (AvlNode (Ptr (brk m)) td h l r1) = Some n \<and>
    deleted m ks (AvlNode k d h l r) m' n"
proof -
  let ?ts = "key_str m tk" and ?m2 = "mem_add (mem_del m k) (key_str m tk)"
  from assms(1,2) have ok: "avl_ok m l" "avl_ok m r" "avl_bal (AvlNode k d h l r)" "mem_ok m"
    and lt: "\<forall>x \<in> fst ` set (avl_list m l). x < ks" and gt: "\<forall>x \<in> fst ` set (avl_list m r). ks < x"
    by (auto simp: avl_ok_def sorted_wrt_append)
  have disj: "fst ` set (inorder r) \<inter> fst ` set (inorder l) = {}"
    "k \<notin> fst ` set (inorder l)" "k \<notin> fst ` set (inorder r)"
    using lt gt assms(2) unfolding set_avl_list by (fastforce dest: less_not_sym)+
  have m2: "str_at ?m2 p = str_at m p" if "p \<noteq> k" "str_at m p \<noteq> None" for p
    using that ok(4) by (auto simp: str_at_del)
  have "str_at ?m2 p = str_at m p" if "p \<in> fst ` set (inorder l) \<union> fst ` set (inorder r)" for p
    using that disj ok(1,2) by (intro m2) (auto simp: avl_ok_def live_keys_def)
  with avl_ok_cong [of l ?m2 m] avl_ok_cong [of r ?m2 m] ok(1,2,4)
  have ok2: "avl_ok ?m2 l" "avl_list ?m2 l = avl_list m l" "avl_list ?m2 r = avl_list m r"
    by auto
  note l = deleted_frame [OF assms(5) ok2(1) disj(1)]
  from avl_min_value_node_spec [OF assms(4)] assms(3) obtain ps where "inorder r = (tk, td) # ps" by auto
  then have rl: "avl_list m r = (?ts, td) # map (\<lambda>(p, d). (key_str m p, d)) ps"
    by (simp add: avl_list_def)
  define rest where "rest = map (\<lambda>(p, d). (key_str m p, d)) ps"
  have rest: "\<forall>x \<in> fst ` set rest. ?ts < x" "avl_list m r = (?ts, td) # rest"
    using ok(2) rl by (auto simp: avl_ok_def rest_def)
  then have "?ts \<notin> fst ` set rest" by blast
  with assms(5) rest(2) ok2(3) have r1: "avl_ok m' r1" "avl_list m' r1 = rest"
    "avl_get_height r - 1 \<le> avl_get_height r1" "avl_get_height r1 \<le> avl_get_height r"
    by (auto simp: deleted_def filter_keys_id)
  have "str_at m (Ptr (brk m)) = None" using ok(4) by (rule str_at_brk)
  then have "Ptr (brk m) \<notin> fst ` set (inorder r)"
    using avl_ok_live [OF ok(2)] by blast
  moreover have "str_at ?m2 (Ptr (brk m)) = Some ?ts"
    by (simp add: mem_add_def)
  ultimately have k1: "str_at m' (Ptr (brk m)) = Some ?ts"
    using deleted_str [OF assms(5), of "Ptr (brk m)"] by simp
  have "\<exists>n. avl_delete_fix (AvlNode (Ptr (brk m)) td h l r1) = Some n \<and> avl_bal n \<and>
    inorder n = inorder l @ (Ptr (brk m), td) # inorder r1 \<and>
    max (avl_get_height l) (avl_get_height r1) \<le> avl_get_height n \<and>
    avl_get_height n \<le> 1 + max (avl_get_height l) (avl_get_height r1) \<and>
    (\<bar>avl_get_height l - avl_get_height r1\<bar> \<le> 1 \<longrightarrow>
       avl_get_height n = 1 + max (avl_get_height l) (avl_get_height r1))"
    by (rule avl_delete_fix_spec) (use r1 ok l(1) in \<open>auto simp: avl_ok_def\<close>)
  then obtain n where n: "avl_delete_fix (AvlNode (Ptr (brk m)) td h l r1) = Some n" "avl_bal n"
    "inorder n = inorder l @ (Ptr (brk m), td) # inorder r1"
    "avl_get_height n \<le> h" "h - 1 \<le> avl_get_height n"
    using r1(3,4) ok(3) by fastforce
  have ts: "ks < ?ts" using gt rest(2) by simp
  have n': "avl_ok m' n" "avl_list m' n = avl_list m' l @ (?ts, td) # avl_list m' r1"
    by (rule avl_ok_NodeI [OF l(1) r1(1) k1 _ _ n(2,3)];
        use lt ts rest(1) r1(2) l(2) ok2(2) in \<open>auto dest: less_trans\<close>)+
  have "ks \<notin> fst ` set (avl_list m l)" "ks \<notin> fst ` set (avl_list m r)" using lt gt by blast+
  then have "avl_list m' n = filter (\<lambda>e. fst e \<noteq> ks) (avl_list m (AvlNode k d h l r))"
    using n'(2) r1(2) l(2) ok2(2) assms(2) rest(2) filter_keys_id [of ks "avl_list m r"]
    by (simp add: filter_keys_id)
  moreover have "str_at m' p = str_at m p"
    if "p \<notin> fst ` set (inorder (AvlNode k d h l r))" "str_at m p \<noteq> None" for p
    using deleted_str [OF assms(5), of p] that m2 [of p] by auto
  ultimately show ?thesis using n n'(1) by (auto simp: deleted_def)
qed

lemma avl_delete_node_two:
  assumes "mem_strcmp m key k = Some 0" and "l \<noteq> NilNode" and "r \<noteq> NilNode"
  shows "avl_delete_node m (AvlNode k d h l r) key ok =
    do { (tk, td) \<leftarrow> avl_min_value_node r;
         m1 \<leftarrow> mem_free m k;
         (m2, k1) \<leftarrow> mem_strdup m1 tk ok;
         (m3, r1, _) \<leftarrow> avl_delete_node m2 r tk ok;
         n \<leftarrow> avl_delete_fix (AvlNode k1 td h l r1);
         Some (m3, n, Some d) }"
  using assms by (cases l; cases r) (simp_all split del: if_split)

lemma avl_ok_successor:
  assumes "avl_ok m (AvlNode k d h l r)" and "str_at m k = Some ks"
    and "avl_min_value_node r = Some (tk, td)" and "inorder r = (tk, td) # ps"
  shows "avl_ok (mem_add (mem_del m k) (key_str m tk)) r"
    and "str_at (mem_add (mem_del m k) (key_str m tk)) tk = Some (key_str m tk)"
    and "key_str (mem_add (mem_del m k) (key_str m tk)) tk = key_str m tk"
    and "str_at (mem_del m k) tk = Some (key_str m tk)"
proof -
  let ?m2 = "mem_add (mem_del m k) (key_str m tk)"
  from assms(1,2) have ok: "avl_ok m r" "mem_ok m" and gt: "\<forall>x \<in> fst ` set (avl_list m r). ks < x"
    by (auto simp: avl_ok_def sorted_wrt_append)
  have k: "k \<notin> fst ` set (inorder r)"
    using gt assms(2) unfolding set_avl_list by fastforce
  have m2: "str_at (mem_del m k) p = str_at m p \<and> str_at ?m2 p = str_at m p"
    if "p \<in> fst ` set (inorder r)" for p
    using that k ok by (auto simp: str_at_del avl_ok_def live_keys_def)
  with avl_ok_cong(1) [of r ?m2 m] ok show "avl_ok ?m2 r" by simp
  have "tk \<in> fst ` set (inorder r)" using assms(4) by simp
  with m2 [OF this] ok(1) show "str_at ?m2 tk = Some (key_str m tk)" "key_str ?m2 tk = key_str m tk"
    "str_at (mem_del m k) tk = Some (key_str m tk)"
    by (auto simp: avl_ok_def live_keys_def)
qed

lemma avl_delete_node_spec:
  assumes "avl_ok m t" and "str_at m key = Some s" and "removes_leaf m t s"
  shows "\<exists>m' t'. avl_delete_node m t key True = Some (m', t', avl_map m t s) \<and> deleted m s t m' t'"
  using assms
proof (induction t arbitrary: m key s)
  case NilNode
  then show ?case by (simp add: deleted_def avl_map_def)
next
  case (AvlNode k d h l r)
  from AvlNode.prems(1) obtain ks where k: "str_at m k = Some ks" "avl_ok m l" "avl_ok m r"
    by (rule avl_ok_Node)
  note map = avl_map_Node [OF AvlNode.prems(1) k(1), of s]
  show ?case
  proof (cases s ks rule: linorder_cases)
    case less
    with AvlNode.IH(1) [OF k(2) AvlNode.prems(2)] AvlNode.prems(3) k(1) obtain m' l1 where
      l1: "avl_delete_node m l key True = Some (m', l1, avl_map m l s)" "deleted m s l m' l1"
      by auto
    from deleted_left [OF AvlNode.prems(1) k(1) less l1(2)] l1(1) less k(1) AvlNode.prems(2) map
    show ?thesis by auto
  next
    case greater
    with AvlNode.IH(2) [OF k(3) AvlNode.prems(2)] AvlNode.prems(3) k(1) obtain m' r1 where
      r1: "avl_delete_node m r key True = Some (m', r1, avl_map m r s)" "deleted m s r m' r1"
      by auto
    from deleted_right [OF AvlNode.prems(1) k(1) greater r1(2)] r1(1) greater less_not_sym [OF greater]
      k(1) AvlNode.prems(2) map
    show ?thesis by auto
  next
    case equal
    show ?thesis
    proof (cases "l = NilNode")
      case True
      with AvlNode.prems(3) equal k(1) have "r = NilNode" by simp
      with True equal k(1) AvlNode.prems map show ?thesis
        by (auto simp: deleted_def avl_ok_def str_at_del)
    next
      case False
      with AvlNode.prems(3) equal k(1) have leaf: "min_is_leaf r" by simp
      then have r: "r \<noteq> NilNode" by auto
      from avl_min_value_node_spec [OF r] obtain tk td ps where
        min: "avl_min_value_node r = Some (tk, td)" "inorder r = (tk, td) # ps" by blast
      let ?ts = "key_str m tk" and ?m2 = "mem_add (mem_del m k) (key_str m tk)"
      have r2: "avl_ok ?m2 r" "removes_leaf ?m2 r ?ts" "str_at ?m2 tk = Some ?ts"
        using avl_ok_successor [OF AvlNode.prems(1) k(1) min] removes_leaf_min [OF _ min(1), of ?m2] leaf
        by simp_all
      from AvlNode.IH(2) [OF r2(1,3,2)] obtain m' r1 where
        r1: "avl_delete_node ?m2 r tk True = Some (m', r1, avl_map ?m2 r ?ts)" "deleted ?m2 ?ts r m' r1"
        by blast
      from deleted_both [OF AvlNode.prems(1) k(1) min(1) r r1(2)] obtain n where
        n: "avl_delete_fix (AvlNode (Ptr (brk m)) td h l r1) = Some n"
          "deleted m ks (AvlNode k d h l r) m' n" by blast
      have tk: "str_at (mem_del m k) tk = Some ?ts"
        using avl_ok_successor(4) [OF AvlNode.prems(1) k(1) min] .
      have "mem_strcmp m key k = Some 0" using k(1) equal AvlNode.prems(2) by simp
      from avl_delete_node_two [OF this False r] n r1(1) tk k(1) min(1) map equal show ?thesis
        by simp
    qed
  qed
qed

text \<open>
  The other deletions: the node that is overwritten by its only child keeps the pointer to
  the child's key, which is freed. The call returns, with a dangling key in the tree.
\<close>

definition dangling :: "'p avl_node \<Rightarrow> strmem \<Rightarrow> 'p avl_node \<Rightarrow> bool" where
  "dangling t m' t' \<longleftrightarrow> \<not> live_keys m' t' \<and> avl_bal t' \<and>
     avl_get_height t - 1 \<le> avl_get_height t' \<and> avl_get_height t' \<le> avl_get_height t"

lemma dangling_left:
  assumes "avl_bal (AvlNode k d h l r)" and "dangling l m' l1"
  shows "\<exists>n. avl_delete_fix (AvlNode k2 d2 h l1 r) = Some n \<and> dangling (AvlNode k d h l r) m' n"
proof -
  from assms have "\<bar>avl_get_height l1 - avl_get_height r\<bar> \<le> 2" "avl_bal l1" "avl_bal r"
    by (auto simp: dangling_def)
  from avl_delete_fix_spec [OF this(2,3,1), of k2 d2 h] assms show ?thesis
    by (fastforce simp: dangling_def live_keys_def)
qed

lemma dangling_right:
  assumes "avl_bal (AvlNode k d h l r)" and "dangling r m' r1"
  shows "\<exists>n. avl_delete_fix (AvlNode k2 d2 h l r1) = Some n \<and> dangling (AvlNode k d h l r) m' n"
proof -
  from assms have "\<bar>avl_get_height l - avl_get_height r1\<bar> \<le> 2" "avl_bal l" "avl_bal r1"
    by (auto simp: dangling_def)
  from avl_delete_fix_spec [OF this(2,3,1), of k2 d2 h] assms show ?thesis
    by (fastforce simp: dangling_def live_keys_def)
qed

lemma dangling_one_child:
  assumes "avl_ok m (AvlNode k d h l r)" and "mem_strcmp m key k = Some 0"
    and "(l = NilNode) \<noteq> (r = NilNode)"
  shows "\<exists>m' n. avl_delete_node m (AvlNode k d h l r) key ok = Some (m', n, Some d) \<and>
    dangling (AvlNode k d h l r) m' n"
proof -
  from assms(3) obtain ck cd ch cl cr where c:
    "l = AvlNode ck cd ch cl cr \<and> r = NilNode \<or> l = NilNode \<and> r = AvlNode ck cd ch cl cr"
    by (cases l; cases r) auto
  from assms(1) have top: "avl_bal (AvlNode k d h l r)" "live_keys m (AvlNode k d h l r)"
    by (simp_all only: avl_ok_def)
  with c have bal: "avl_bal (AvlNode ck cd ch cl cr)" and live: "str_at m ck \<noteq> None" by auto
  have "h = ch + 1"
    using top(1) c avl_height_ge_0 [OF bal] by (elim disjE) simp_all
  moreover from bal have "avl_delete_fix (AvlNode ck cd ch cl cr) = Some (AvlNode ck cd ch cl cr)"
    by (auto simp: avl_delete_fix_def Let_def)
  moreover from live obtain cs where "str_at m ck = Some cs" by auto
  ultimately show ?thesis
    using c assms(2) bal by (elim disjE) (auto simp: dangling_def str_at_del)
qed

lemma avl_delete_node_dangling:
  assumes "avl_ok m t" and "str_at m key = Some s" and "\<not> removes_leaf m t s"
  shows "\<exists>m' t' out. avl_delete_node m t key True = Some (m', t', out) \<and> dangling t m' t'"
  using assms
proof (induction t arbitrary: m key s)
  case NilNode
  then show ?case by simp
next
  case (AvlNode k d h l r)
  from AvlNode.prems(1) obtain ks where k: "str_at m k = Some ks" "avl_ok m l" "avl_ok m r"
    by (rule avl_ok_Node)
  from AvlNode.prems(1) have bal: "avl_bal (AvlNode k d h l r)" by (simp only: avl_ok_def)
  show ?case
  proof (cases s ks rule: linorder_cases)
    case less
    with AvlNode.IH(1) [OF k(2) AvlNode.prems(2)] AvlNode.prems(3) k(1) obtain m' l1 out where
      l1: "avl_delete_node m l key True = Some (m', l1, out)" "dangling l m' l1"
      by auto
    from dangling_left [OF bal l1(2), of k d] l1(1) less k(1) AvlNode.prems(2)
    show ?thesis by auto
  next
    case greater
    with AvlNode.prems(3) k(1) less_not_sym [OF greater] have "\<not> removes_leaf m r s" by simp
    from AvlNode.IH(2) [OF k(3) AvlNode.prems(2) this] obtain m' r1 out where
      r1: "avl_delete_node m r key True = Some (m', r1, out)" "dangling r m' r1"
      by auto
    from dangling_right [OF bal r1(2), of k d] r1(1) greater less_not_sym [OF greater]
      k(1) AvlNode.prems(2)
    show ?thesis by auto
  next
    case equal
    then have cmp: "mem_strcmp m key k = Some 0" using k(1) AvlNode.prems(2) by simp
    show ?thesis
    proof (cases "l \<noteq> NilNode \<and> r \<noteq> NilNode")
      case False
      with AvlNode.prems(3) equal k(1) have "(l = NilNode) \<noteq> (r = NilNode)" by auto
      from dangling_one_child [OF AvlNode.prems(1) cmp this] show ?thesis by blast
    next
      case True
      from avl_min_value_node_spec [of r] True obtain tk td ps where
        min: "avl_min_value_node r = Some (tk, td)" "inorder r = (tk, td) # ps" by blast
      let ?ts = "key_str m tk" and ?m2 = "mem_add (mem_del m k) (key_str m tk)"
      note succ = avl_ok_successor [OF AvlNode.prems(1) k(1) min]
      from True AvlNode.prems(3) equal k(1) have "\<not> min_is_leaf r" by simp
      with removes_leaf_min [OF succ(1) min(1)] succ(3) have "\<not> removes_leaf ?m2 r ?ts" by simp
      from AvlNode.IH(2) [OF succ(1,2) this] obtain m' r1 out where
        r1: "avl_delete_node ?m2 r tk True = Some (m', r1, out)" "dangling r m' r1"
        by blast
      from dangling_right [OF bal r1(2), of "Ptr (brk m)" td] r1(1) succ(4) k(1) min(1)
        avl_delete_node_two [OF cmp, of l r d h True] True
      show ?thesis by auto
    qed
  qed
qed

section \<open>Destruction\<close>

lemma avl_destroy_node_spec:
  assumes "live_keys m t" and "distinct (map fst (inorder t))"
  shows "\<exists>m'. avl_destroy_node m t = Some m' \<and> brk m' = brk m \<and>
    (\<forall>p. str_at m' p = (if p \<in> fst ` set (inorder t) then None else str_at m p))"
  using assms
proof (induction t arbitrary: m)
  case NilNode
  then show ?case by simp
next
  case (AvlNode k d h l r)
  from AvlNode.prems have dist: "distinct (map fst (inorder l))" "distinct (map fst (inorder r))"
    "k \<notin> fst ` set (inorder l) \<union> fst ` set (inorder r)"
    "fst ` set (inorder l) \<inter> fst ` set (inorder r) = {}"
    by auto
  from AvlNode.IH(1) [OF _ dist(1), of m] AvlNode.prems(1) obtain m1 where
    m1: "avl_destroy_node m l = Some m1" "brk m1 = brk m"
    "\<forall>p. str_at m1 p = (if p \<in> fst ` set (inorder l) then None else str_at m p)" by auto
  have "live_keys m1 r"
    using AvlNode.prems(1) m1(3) dist(4) unfolding live_keys_def by auto
  from AvlNode.IH(2) [OF this dist(2)] obtain m2 where
    m2: "avl_destroy_node m1 r = Some m2" "brk m2 = brk m1"
    "\<forall>p. str_at m2 p = (if p \<in> fst ` set (inorder r) then None else str_at m1 p)" by auto
  from AvlNode.prems(1) obtain ks where "str_at m k = Some ks" by auto
  with m1(3) m2(3) dist(3) have "str_at m2 k = Some ks" by auto
  with m1 m2 show ?case by (auto simp: str_at_del)
qed

lemma strict_sorted_imp_distinct_key:
  "sorted_wrt (<) (xs :: 'k :: linorder list) \<Longrightarrow> distinct xs"
  by (induction xs) auto

lemma avl_ok_distinct: "avl_ok m t \<Longrightarrow> distinct (map fst (inorder t))"
proof -
  assume "avl_ok m t"
  then have "sorted_wrt (<) (map fst (avl_list m t))" by (simp add: avl_ok_def)
  then have "distinct (map fst (avl_list m t))"
    by (rule strict_sorted_imp_distinct_key)
  then have "distinct (map (key_str m) (map fst (inorder t)))"
    by (simp add: avl_list_def case_prod_beta comp_def)
  then show ?thesis by (simp only: distinct_map)
qed

end
