(* ===== verification/Dictionary.thy ===== *)
theory Dictionary
  imports Prelude
begin

text \<open>
  The interface of the containers that map keys to values (the AVL tree, the hash table):
  insertion never replaces an entry, and a container that can also delete gives the
  extended interface. What a client may conclude from sequences of calls is proved here
  once, from the laws alone.
\<close>

primrec put_all :: "('s \<Rightarrow> 'k \<Rightarrow> 'v \<Rightarrow> 's option) \<Rightarrow> 's \<Rightarrow> ('k \<times> 'v) list \<Rightarrow> 's option" where
  "put_all put s [] = Some s"
| "put_all put s (kv # kvs) = do { s1 \<leftarrow> put s (fst kv) (snd kv); put_all put s1 kvs }"

primrec remove_all :: "('s \<Rightarrow> 'k \<Rightarrow> 's option) \<Rightarrow> 's \<Rightarrow> 'k list \<Rightarrow> 's option" where
  "remove_all rem s [] = Some s"
| "remove_all rem s (k # ks) = do { s1 \<leftarrow> rem s k; remove_all rem s1 ks }"

locale dictionary =
  fixes lookup :: "'s \<Rightarrow> 'k \<rightharpoonup> 'v"
    and put :: "'s \<Rightarrow> 'k \<Rightarrow> 'v \<Rightarrow> 's option"
    and inv :: "'s \<Rightarrow> bool"
  assumes put_law: "inv s \<Longrightarrow> \<exists>s'. put s k v = Some s' \<and> inv s' \<and>
    lookup s' = (if k \<in> dom (lookup s) then lookup s else (lookup s)(k \<mapsto> v))"
begin

lemma put_all_lookup:
  assumes "inv s"
  shows "\<exists>s'. put_all put s kvs = Some s' \<and> inv s' \<and> lookup s' = map_of kvs ++ lookup s"
  using assms
proof (induction kvs arbitrary: s)
  case Nil
  then show ?case by simp
next
  case (Cons kv kvs)
  from put_law [OF Cons.prems, of "fst kv" "snd kv"] obtain s1 where
    s1: "put s (fst kv) (snd kv) = Some s1" "inv s1"
      "lookup s1 = (if fst kv \<in> dom (lookup s) then lookup s else (lookup s)(fst kv \<mapsto> snd kv))"
    by blast
  from Cons.IH [OF s1(2)] obtain s2 where
    s2: "put_all put s1 kvs = Some s2" "inv s2" "lookup s2 = map_of kvs ++ lookup s1"
    by blast
  have "map_of kvs ++ lookup s1 = map_of (kv # kvs) ++ lookup s"
    by (rule ext) (auto simp: s1(3) map_add_def split: option.split)
  with s1(1) s2 show ?case by (simp del: map_of.simps)
qed

lemma put_get: "inv s \<Longrightarrow> put s k v = Some s' \<Longrightarrow> k \<notin> dom (lookup s) \<Longrightarrow> lookup s' k = Some v"
  using put_law [of s k v] by auto

lemma put_keeps: "inv s \<Longrightarrow> put s k v = Some s' \<Longrightarrow> lookup s k2 = Some w \<Longrightarrow> lookup s' k2 = Some w"
  using put_law [of s k v] by (auto split: if_splits)

end

locale dictionary_del = dictionary +
  fixes rem :: "'a \<Rightarrow> 'b \<Rightarrow> 'a option"
  assumes rem_law: "inv s \<Longrightarrow> \<exists>s'. rem s k = Some s' \<and> inv s' \<and> lookup s' = (lookup s)(k := None)"
begin

lemma remove_all_lookup:
  assumes "inv s"
  shows "\<exists>s'. remove_all rem s ks = Some s' \<and> inv s' \<and> lookup s' = lookup s |` (- set ks)"
  using assms
proof (induction ks arbitrary: s)
  case Nil
  then show ?case by (simp add: restrict_map_def)
next
  case (Cons k ks)
  from rem_law [OF Cons.prems, of k] obtain s1 where
    s1: "rem s k = Some s1" "inv s1" "lookup s1 = (lookup s)(k := None)" by blast
  from Cons.IH [OF s1(2)] obtain s2 where
    s2: "remove_all rem s1 ks = Some s2" "inv s2" "lookup s2 = lookup s1 |` (- set ks)" by blast
  have "lookup s1 |` (- set ks) = lookup s |` (- set (k # ks))"
    by (rule ext) (auto simp: s1(3) restrict_map_def)
  with s1 s2 show ?case by simp
qed

lemma put_then_rem:
  assumes "inv s" and "put s k v = Some s1" and "k \<notin> dom (lookup s)"
  shows "\<exists>s2. rem s1 k = Some s2 \<and> inv s2 \<and> lookup s2 = lookup s"
proof -
  from put_law [OF assms(1), of k v] assms(2,3) have s1: "inv s1" "lookup s1 = (lookup s)(k \<mapsto> v)"
    by auto
  have "(lookup s)(k := None) = lookup s" using assms(3) by (auto simp: fun_eq_iff)
  with rem_law [OF s1(1), of k] s1(2) show ?thesis by simp
qed

text \<open>Putting a set of new keys and removing them again restores the contents.\<close>

lemma put_all_remove_all:
  assumes "inv s" and "fst ` set kvs \<inter> dom (lookup s) = {}"
  shows "\<exists>s1 s2. put_all put s kvs = Some s1 \<and> remove_all rem s1 (map fst kvs) = Some s2 \<and>
    inv s2 \<and> lookup s2 = lookup s"
proof -
  from put_all_lookup [OF assms(1), of kvs] obtain s1 where
    s1: "put_all put s kvs = Some s1" "inv s1" "lookup s1 = map_of kvs ++ lookup s" by blast
  from remove_all_lookup [OF s1(2), of "map fst kvs"] obtain s2 where
    s2: "remove_all rem s1 (map fst kvs) = Some s2" "inv s2"
      "lookup s2 = lookup s1 |` (- set (map fst kvs))" by blast
  have "lookup s2 k = lookup s k" for k
  proof (cases "k \<in> fst ` set kvs")
    case True
    with assms(2) have "lookup s k = None" by blast
    with True show ?thesis by (simp add: s2(3) restrict_map_def)
  next
    case False
    then have "map_of kvs k = None" by (simp add: map_of_eq_None_iff)
    with False show ?thesis
      by (simp add: s2(3) s1(3) restrict_map_def map_add_def split: option.split)
  qed
  then have "lookup s2 = lookup s" by (rule ext)
  with s1 s2 show ?thesis by blast
qed

end

end
