(* ===== verification/AvlSpec.thy ===== *)
theory AvlSpec
  imports AvlDelete Dictionary
begin

text \<open>
  The AVL tree as its callers see it: the dictionary interface, the height bound, and the
  properties of the operations on a handle with their witnesses.
\<close>

section \<open>The tree as a dictionary\<close>

text \<open>
  A client call that passes the key in a buffer of its own, frees the buffer afterwards
  and keeps the memory and the handle: the tree has copied the key.
\<close>

definition avl_put :: "strmem \<times> 'p avl_h \<Rightarrow> cstr \<Rightarrow> 'p ptr \<Rightarrow> (strmem \<times> 'p avl_h) option" where
  "avl_put st s d =
     (let (m, h) = st; key = Ptr (brk m) in
      do { (rc, m1, h1) \<leftarrow> avl_insert (mem_add m s) (Some h) key d True True;
           m2 \<leftarrow> mem_free m1 key;
           h2 \<leftarrow> h1;
           Some (m2, h2) })"

definition avl_lookup :: "strmem \<times> 'p avl_h \<Rightarrow> cstr \<rightharpoonup> 'p ptr" where
  "avl_lookup st = avl_map (fst st) (root (snd st))"

definition avl_st_ok :: "strmem \<times> 'p avl_h \<Rightarrow> bool" where
  "avl_st_ok st \<longleftrightarrow> avl_ok (fst st) (root (snd st))"

lemma avl_put_law:
  fixes st :: "strmem \<times> 'p avl_h"
  assumes "avl_st_ok st"
  shows "\<exists>st'. avl_put st s d = Some st' \<and> avl_st_ok st' \<and>
    avl_lookup st' = (if s \<in> dom (avl_lookup st) then avl_lookup st else (avl_lookup st)(s \<mapsto> d))"
proof -
  obtain m h where st: "st = (m, h)" by (cases st)
  let ?k = "Ptr (brk m) :: nat ptr" and ?m0 = "mem_add m s"
  from assms st have ok: "avl_ok m (root h)" by (simp add: avl_st_ok_def)
  then have mem: "mem_ok m" by (simp add: avl_ok_def)
  have new: "p \<noteq> ?k" "str_at ?m0 p = str_at m p" if "p \<in> fst ` set (inorder (root h))" for p
    using avl_ok_live [OF ok that] str_at_brk [OF mem] mem by auto
  have ok0: "avl_ok ?m0 (root h)" "avl_list ?m0 (root h) = avl_list m (root h)"
    using avl_ok_cong [OF new(2) _ ok] mem by auto
  have k0: "str_at ?m0 ?k = Some s" by simp
  from ok0(1) k0 obtain m1 t where
    ins: "avl_insert_node ?m0 (root h) ?k d True True = Some (m1, t)" "avl_ok m1 t"
      "avl_map m1 t = (if s \<in> dom (avl_map ?m0 (root h)) then avl_map ?m0 (root h)
        else (avl_map ?m0 (root h))(s \<mapsto> d))"
      "\<forall>p x. str_at ?m0 p = Some x \<longrightarrow> str_at m1 p = Some x"
      "fst ` set (inorder t) \<subseteq> insert (Ptr (brk ?m0)) (fst ` set (inorder (root h)))"
    by (rule avl_insert_nodeE [where d = d])
  have kept: "str_at m1 ?k = Some s" using k0 ins(4) by blast
  have "?k \<notin> fst ` set (inorder (root h))" using new(1) by blast
  then have "?k \<notin> insert (Ptr (brk ?m0)) (fst ` set (inorder (root h)))" by simp
  with ins(5) have "?k \<notin> fst ` set (inorder t)" by blast
  then have "p \<noteq> ?k" if "p \<in> fst ` set (inorder t)" for p
    using that by blast
  then have "str_at (mem_del m1 ?k) p = str_at m1 p" if "p \<in> fst ` set (inorder t)" for p
    using that by (simp add: str_at_del)
  with avl_ok_cong [of t "mem_del m1 ?k" m1] ins(2) have
    "avl_ok (mem_del m1 ?k) t" "avl_list (mem_del m1 ?k) t = avl_list m1 t"
    by (auto simp: avl_ok_def)
  with ins(1-3) kept ok0(2) st show ?thesis
    by (simp add: avl_put_def avl_insert_def avl_st_ok_def avl_lookup_def avl_map_def)
qed

interpretation avl_dict: dictionary avl_lookup avl_put avl_st_ok
  by unfold_locales (rule avl_put_law)

section \<open>Height\<close>

lemma avl_height_size:
  "avl_bal t \<Longrightarrow> 2 ^ (nat (avl_get_height t) div 2) \<le> length (inorder t) + 1"
proof (induction t)
  case NilNode
  then show ?case by simp
next
  case (AvlNode k d h l r)
  have ge: "0 \<le> avl_get_height l" "0 \<le> avl_get_height r"
    using AvlNode.prems avl_height_ge_0 by auto
  define n where "n = nat h - 2"
  have le: "n \<le> nat (avl_get_height l)" "n \<le> nat (avl_get_height r)"
    using AvlNode.prems ge by (auto simp: n_def)
  have "2 ^ (n div 2) \<le> length (inorder l) + 1" "2 ^ (n div 2) \<le> length (inorder r) + 1"
    using AvlNode le by (auto intro: order_trans [OF power_increasing] div_le_mono)
  then have "2 ^ (n div 2 + 1) \<le> length (inorder (AvlNode k d h l r)) + 1" by simp
  moreover have "nat h div 2 \<le> n div 2 + 1" unfolding n_def by linarith
  then have "(2::nat) ^ (nat h div 2) \<le> 2 ^ (n div 2 + 1)" by (intro power_increasing) simp_all
  ultimately show ?case by simp
qed

section \<open>Properties\<close>


text \<open>C22: \<open>avl_search\<close> on a valid tree returns the data of the key, and the null pointer
  when the key is absent.\<close>

theorem avl_search_correct:
  assumes "avl_ok m (root h)" and "str_at m key = Some s"
  shows "avl_search m (Some h) key =
    Some (case avl_map m (root h) s of None \<Rightarrow> Null | Some d \<Rightarrow> d)"
  using avl_search_node_spec [OF assms] by (simp add: avl_search_def avl_map_def)



text \<open>C33: after deleting the key at a root with one child, no search and no insertion on the
  handle has a defined result any more, whatever the key.\<close>

theorem avl_del_one_child_use_after_free:
  assumes "avl_ok m (AvlNode k d hh l r)" and "root h = AvlNode k d hh l r"
    and "(l = NilNode) \<noteq> (r = NilNode)" and "str_at m key = str_at m k"
  shows "\<exists>m' h'. avl_del m (Some h) key ok = Some (d, m', Some h') \<and>
    (\<forall>key2. avl_search m' (Some h') key2 = None) \<and>
    (\<forall>key2 d2 nok kok. avl_insert m' (Some h') key2 d2 nok kok = None)"
proof -
  from assms(1) obtain ks where ks: "str_at m k = Some ks" by (rule avl_ok_Node)
  with assms(4) have cmp: "mem_strcmp m key k = Some 0" by simp
  from assms(3) obtain ck cd ch cl cr where c:
    "l = AvlNode ck cd ch cl cr \<and> r = NilNode \<or> l = NilNode \<and> r = AvlNode ck cd ch cl cr"
    by (cases l; cases r) auto
  from assms(1) have "live_keys m (AvlNode k d hh l r)" "avl_bal (AvlNode k d hh l r)"
    by (simp_all only: avl_ok_def)
  with c obtain cs where "str_at m ck = Some cs" and bal: "avl_bal (AvlNode ck cd ch cl cr)" by auto
  moreover from bal have "avl_delete_fix (AvlNode ck cd ch cl cr) = Some (AvlNode ck cd ch cl cr)"
    by (auto simp: avl_delete_fix_def Let_def)
  ultimately have del: "avl_delete_node m (AvlNode k d hh l r) key ok =
      Some (mem_del m ck, AvlNode ck cd ch cl cr, Some d)"
    using c cmp by (elim disjE) simp_all
  have "mem_strcmp (mem_del m ck) key2 ck = None" for key2
    by (rule mem_strcmp_dangling) (simp add: str_at_del)
  with del assms(2) show ?thesis
    by (auto simp: avl_del_def avl_search_def avl_insert_def)
qed

text \<open>\<open>avl_destroy\<close> on a valid tree frees exactly the key strings of the tree, each
  once, and frees the handle exactly when its \<open>allocated\<close> field holds 1.\<close>

theorem avl_destroy_frees_keys:
  assumes "avl_ok m (root h)"
  shows "\<exists>m'. avl_destroy m (Some h) = Some (m', h_allocated h = 1) \<and>
    (\<forall>p. str_at m' p = (if p \<in> fst ` set (inorder (root h)) then None else str_at m p))"
proof -
  from assms have "live_keys m (root h)" by (simp add: avl_ok_def)
  from avl_destroy_node_spec [OF this avl_ok_distinct [OF assms]] show ?thesis
    by (auto simp: avl_destroy_def)
qed

text \<open>\<open>avl_create\<close> never writes the \<open>allocated\<close> field of a handle the caller provides,
  so \<open>avl_destroy\<close> frees the caller's storage whenever that storage happened to hold 1
  there.\<close>

theorem avl_create_keeps_garbage:
  "avl_create (Some garbage) ok = Some h \<Longrightarrow>
   avl_destroy m (Some h) = Some (m, h_allocated garbage = 1)"
  by (auto simp: avl_create_def avl_destroy_def)


text \<open>Putting a list of entries into an empty tree never fails, and afterwards the tree
  maps every key to the data of its first entry in the list.\<close>

theorem avl_put_all_first_wins:
  assumes "mem_ok m"
  shows "\<exists>st. put_all avl_put (m, \<lparr>root = NilNode, h_allocated = a\<rparr>) kvs = Some st \<and>
    avl_st_ok st \<and> avl_lookup st = map_of kvs"
  using avl_dict.put_all_lookup [of "(m, \<lparr>root = NilNode, h_allocated = a\<rparr>)" kvs] assms
  by (simp add: avl_st_ok_def avl_ok_def avl_lookup_def avl_map_def)

section \<open>Witnesses\<close>

text \<open>A tree with the keys \<open>b\<close> and \<open>c\<close>, the second a right child, and a caller's buffer.\<close>

definition ex_mem :: strmem where
  "ex_mem = \<lparr>strs = [0 \<mapsto> CStr [98], 1 \<mapsto> CStr [99], 2 \<mapsto> CStr [98], 3 \<mapsto> CStr [99]], brk = 4\<rparr>"

definition ex_tree :: "nat avl_node" where
  "ex_tree = AvlNode (Ptr 0) (Ptr 20) 2 NilNode (AvlNode (Ptr 1) (Ptr 30) 1 NilNode NilNode)"

abbreviation ex_handle :: "nat avl_h" where
  "ex_handle \<equiv> \<lparr>root = ex_tree, h_allocated = 1\<rparr>"

lemma ex_ok: "avl_ok ex_mem ex_tree"
  by (auto simp: avl_ok_def mem_ok_def ex_mem_def ex_tree_def less_cstr_def strcmp_def
      split: if_splits)

lemma ex_keys: "str_at ex_mem (Ptr 2) = Some (CStr [98])" "str_at ex_mem (Ptr 3) = Some (CStr [99])"
  by (simp_all add: ex_mem_def)


theorem avl_search_correct_witness:
  "avl_search ex_mem (Some ex_handle) (Ptr 3) = Some (Ptr 30)"
  using avl_search_correct [of ex_mem ex_handle "Ptr 3" "CStr [99]"] ex_ok ex_keys(2)
  by (simp add: avl_map_def ex_tree_def ex_mem_def)



theorem avl_del_one_child_use_after_free_witness:
  "\<exists>m' h'. avl_del ex_mem (Some ex_handle) (Ptr 2) True = Some (Ptr 20, m', Some h') \<and>
    (\<forall>key2. avl_search m' (Some h') key2 = None)"
  using avl_del_one_child_use_after_free [of ex_mem "Ptr 0" "Ptr 20" 2 NilNode
      "AvlNode (Ptr 1) (Ptr 30) 1 NilNode NilNode" ex_handle "Ptr 2" True] ex_ok ex_keys(1)
  by (fastforce simp: ex_tree_def ex_mem_def)

theorem avl_destroy_frees_keys_witness:
  "\<exists>m'. avl_destroy ex_mem (Some ex_handle) = Some (m', True) \<and>
    str_at m' (Ptr 0) = None \<and> str_at m' (Ptr 1) = None \<and> str_at m' (Ptr 2) = Some (CStr [98])"
proof -
  have "avl_ok ex_mem (root ex_handle)" using ex_ok by simp
  from avl_destroy_frees_keys [OF this] obtain m' where
    "avl_destroy ex_mem (Some ex_handle) = Some (m', True)"
    "\<forall>p. str_at m' p = (if p \<in> {Ptr 0, Ptr 1} then None else str_at ex_mem p)"
    by (auto simp: ex_tree_def)
  with ex_keys(1) show ?thesis by (simp del: str_at_simps)
qed

theorem avl_create_keeps_garbage_witness:
  "avl_destroy ex_mem (avl_create (Some \<lparr>root = ex_tree, h_allocated = 1\<rparr>) True) = Some (ex_mem, True)"
  using avl_create_keeps_garbage [of "\<lparr>root = ex_tree, h_allocated = 1\<rparr>" True _ ex_mem]
  by (simp add: avl_create_def)


theorem avl_put_all_first_wins_witness:
  "\<exists>st. put_all avl_put (ex_mem, \<lparr>root = NilNode, h_allocated = 0\<rparr>)
      [(CStr [97], Ptr (1::nat)), (CStr [97], Ptr 2)] = Some st \<and>
    avl_lookup st (CStr [97]) = Some (Ptr 1)"
proof -
  have "mem_ok ex_mem" using ex_ok by (simp add: avl_ok_def)
  from avl_put_all_first_wins [OF this, of 0 "[(CStr [97], Ptr (1::nat)), (CStr [97], Ptr 2)]"]
  show ?thesis by auto
qed

end
