(* ===== verification/Channel.thy ===== *)
theory Channel
  imports Prelude
begin

unbundle bit_operations_syntax

text \<open>
  The channel of libchannel/ch.c and ch.h: a queue of blocks, linked from \<open>head\<close> (the next
  block to get) through the \<open>prev\<close> fields to \<open>tail\<close>.

  The handle is the record \<open>ch\<close> with the fields of \<open>ch_h\<close>, the heap of its elements
  (\<open>elems\<close>, with the next fresh address \<open>el_brk\<close>) and whether its mutex is held. A handle
  argument is an option: \<open>None\<close> is the null pointer. The block argument of a put is the
  null pointer, the constant \<open>CH_ENDOFTRANSMISSION\<close>, or an address with the bytes that can
  be read from it. The destination of a get is \<open>None\<close> (null) or the number of bytes that
  can be written there. Boolean arguments are the outcomes of \<open>malloc\<close>.

  This theory is about one thread: a call that would wait on a condition variable never
  returns, so its result is \<open>None\<close>. Several threads are the subject of ChannelThreads,
  which uses the same pieces of \<open>ch_put\<close> and \<open>ch_get\<close>.
\<close>

section \<open>Data\<close>

definition CH_MAGIC_ID :: int where "CH_MAGIC_ID = 3274"
definition CH_OK :: int where "CH_OK = 1"
definition CH_BAD_HANDLE :: int where "CH_BAD_HANDLE = -1"
definition CH_NO_MEMORY :: int where "CH_NO_MEMORY = -2"
definition CH_WRONG_ATTR :: int where "CH_WRONG_ATTR = -3"
definition CH_WRONG_VALUE :: int where "CH_WRONG_VALUE = -4"
definition CH_WRONG_PARAM :: int where "CH_WRONG_PARAM = -5"
definition CH_GET_NODATA :: int where "CH_GET_NODATA = -6"
definition CH_GET_ENDOFTRANSMISSION :: int where "CH_GET_ENDOFTRANSMISSION = -7"
definition CH_FREE_NOT_REQUESTED :: int where "CH_FREE_NOT_REQUESTED = -8"
definition CH_PUT_CHANNEL_FULL :: int where "CH_PUT_CHANNEL_FULL = -9"
definition CH_DATALEN_STRING :: int where "CH_DATALEN_STRING = -1"
definition CH_DATALEN_VOIDP :: int where "CH_DATALEN_VOIDP = 0"
definition CH_BLOCKING_MODE :: int where "CH_BLOCKING_MODE = 100"
definition CH_COUNT :: int where "CH_COUNT = 200"
definition CH_FIXED_SIZE :: int where "CH_FIXED_SIZE = 300"
definition CH_ATTR_NON_BLOCKING_GETPUT :: u32 where "CH_ATTR_NON_BLOCKING_GETPUT = 0"
definition CH_ATTR_BLOCKING_GETPUT :: u32 where "CH_ATTR_BLOCKING_GETPUT = 1"

lemmas ch_code_defs [codes] =
  CH_MAGIC_ID_def CH_OK_def CH_BAD_HANDLE_def CH_NO_MEMORY_def CH_WRONG_ATTR_def
  CH_WRONG_VALUE_def CH_WRONG_PARAM_def CH_GET_NODATA_def CH_GET_ENDOFTRANSMISSION_def
  CH_FREE_NOT_REQUESTED_def CH_PUT_CHANNEL_FULL_def CH_DATALEN_STRING_def
  CH_DATALEN_VOIDP_def CH_BLOCKING_MODE_def CH_COUNT_def CH_FIXED_SIZE_def
  CH_ATTR_NON_BLOCKING_GETPUT_def CH_ATTR_BLOCKING_GETPUT_def

text \<open>What a put is given, what an element holds, and what a call hands back to the caller.\<close>

datatype 'p arg = ArgNull | ArgEot | ArgPtr 'p "byte list"

datatype 'p blk = BUninit | BEot | BPtr 'p | BCopy "byte list"

datatype 'p out = NoOut | OutPtr 'p | OutBytes "byte list" | OutInt int | OutDeleted "'p list"

record 'p elem =
  block :: "'p blk"
  prev :: "nat option"

record 'p ch =
  magic :: int
  ch_allocated :: bool
  datalen :: int
  count :: int
  max_size :: int
  attr :: u32
  head :: "nat option"
  tail :: "nat option"
  get_waiting_threads :: int
  put_waiting_threads :: int
  ch_locked :: bool
  elems :: "nat \<rightharpoonup> 'p elem"
  el_brk :: nat

definition ch_lock :: "'p ch \<Rightarrow> 'p ch option" where
  "ch_lock c = (if ch_locked c then None else Some (c\<lparr>ch_locked := True\<rparr>))"

definition ch_unlock :: "'p ch \<Rightarrow> 'p ch" where
  "ch_unlock c = c\<lparr>ch_locked := False\<rparr>"

definition ch_blocking :: "'p ch \<Rightarrow> bool" where
  "ch_blocking c \<longleftrightarrow> attr c AND CH_ATTR_BLOCKING_GETPUT = CH_ATTR_BLOCKING_GETPUT"

section \<open>Creation\<close>

definition ch_create :: "'p ch option \<Rightarrow> int \<Rightarrow> bool \<Rightarrow> 'p ch option" where
  "ch_create ch dl ok =
     (if ch = None \<and> \<not> ok then None
      else Some \<lparr>magic = CH_MAGIC_ID, ch_allocated = (ch = None), datalen = dl, count = 0,
                 max_size = 0, attr = 0 OR CH_ATTR_BLOCKING_GETPUT, head = None, tail = None,
                 get_waiting_threads = 0, put_waiting_threads = 0, ch_locked = False,
                 elems = Map.empty, el_brk = 0\<rparr>)"

section \<open>Put\<close>

definition el_alloc :: "'p ch \<Rightarrow> 'p ch \<times> nat" where
  "el_alloc c =
     (c\<lparr>elems := (elems c)(el_brk c \<mapsto> \<lparr>block = BUninit, prev = None\<rparr>), el_brk := Suc (el_brk c)\<rparr>,
      el_brk c)"

definition el_free :: "'p ch \<Rightarrow> nat \<Rightarrow> 'p ch" where
  "el_free c a = c\<lparr>elems := (elems c)(a := None)\<rparr>"

definition set_block :: "'p ch \<Rightarrow> nat \<Rightarrow> 'p blk \<Rightarrow> 'p ch" where
  "set_block c a b = c\<lparr>elems := (elems c)(a := map_option (block_update (\<lambda>_. b)) (elems c a))\<rparr>"

definition set_prev :: "'p ch \<Rightarrow> nat \<Rightarrow> nat option \<Rightarrow> 'p ch option" where
  "set_prev c a p =
     (case elems c a of
        None \<Rightarrow> None
      | Some e \<Rightarrow> Some (c\<lparr>elems := (elems c)(a \<mapsto> e\<lparr>prev := p\<rparr>)\<rparr>))"

text \<open>The block an element is given: a copy of \<open>datalen\<close> bytes, of a string with its
  terminator, or the pointer itself; \<open>Some None\<close> when the copy cannot be allocated.\<close>

definition ch_block_of :: "int \<Rightarrow> 'p arg \<Rightarrow> bool \<Rightarrow> 'p blk option option" where
  "ch_block_of dl b ok =
     (case b of
        ArgNull \<Rightarrow> None
      | ArgEot \<Rightarrow> Some (Some BEot)
      | ArgPtr p mem \<Rightarrow>
          if 0 < dl then
            (if \<not> ok then Some None
             else if dl \<le> int (length mem) then Some (Some (BCopy (take (nat dl) mem)))
             else None)
          else if dl = CH_DATALEN_VOIDP then Some (Some (BPtr p))
          else if dl = CH_DATALEN_STRING then
            (if 0 \<notin> set mem then None
             else if \<not> ok then Some None
             else Some (Some (BCopy (takeWhile (\<lambda>x. x \<noteq> 0) mem @ [0]))))
          else Some (Some BUninit))"

text \<open>The link-in part of \<open>_ch_put\<close>, at the end of the queue or at its head, with the
  mutex held.\<close>

definition CH_PUT_STD :: int where "CH_PUT_STD = 1"
definition CH_PUT_TOP :: int where "CH_PUT_TOP = 2"

definition ch_link :: "'p ch \<Rightarrow> nat \<Rightarrow> int \<Rightarrow> 'p ch option" where
  "ch_link c a w =
     (if w = CH_PUT_STD then
        do { c1 \<leftarrow> (if count c = 0 then Some (c\<lparr>head := Some a\<rparr>)
                   else do { t \<leftarrow> tail c; set_prev c t (Some a) });
             Some (c1\<lparr>tail := Some a\<rparr>) }
      else
        do { c1 \<leftarrow> (if count c = 0 then Some (c\<lparr>tail := Some a\<rparr>)
                   else set_prev c a (head c));
             Some (c1\<lparr>head := Some a\<rparr>) })"

definition ch_enqueue :: "'p ch \<Rightarrow> nat \<Rightarrow> int \<Rightarrow> 'p ch option" where
  "ch_enqueue c a w =
     do { c1 \<leftarrow> ch_link c a w;
          assert_opt (int_ok (count c1 + 1));
          Some (c1\<lparr>count := count c1 + 1\<rparr>) }"

definition ch_full :: "'p ch \<Rightarrow> bool" where
  "ch_full c \<longleftrightarrow> 0 < max_size c \<and> max_size c \<le> count c"

text \<open>The part of \<open>_ch_put\<close> before the mutex is taken: a code to return at once, or the
  address of the new element.\<close>

definition ch_put_enter ::
  "'p ch \<Rightarrow> 'p arg \<Rightarrow> bool \<Rightarrow> bool \<Rightarrow> ((int + nat) \<times> 'p ch) option" where
  "ch_put_enter c b elem_ok block_ok =
     (if b = ArgNull \<or> magic c \<noteq> CH_MAGIC_ID then Some (Inl CH_WRONG_PARAM, c)
      else if \<not> elem_ok then Some (Inl CH_NO_MEMORY, c)
      else
        (let (c1, a) = el_alloc c in
         do { blk \<leftarrow> ch_block_of (datalen c1) b block_ok;
              Some (case blk of
                      None \<Rightarrow> (Inl CH_NO_MEMORY, c1)
                    | Some x \<Rightarrow> (Inr a, set_block c1 a x)) }))"

definition ch_put_at ::
  "'p ch option \<Rightarrow> 'p arg \<Rightarrow> int \<Rightarrow> bool \<Rightarrow> bool \<Rightarrow> (int \<times> 'p ch option) option" where
  "ch_put_at ch b w elem_ok block_ok =
     (case ch of
        None \<Rightarrow> Some (CH_WRONG_PARAM, None)
      | Some c \<Rightarrow>
          do { (r, c1) \<leftarrow> ch_put_enter c b elem_ok block_ok;
               case r of
                 Inl rc \<Rightarrow> Some (rc, Some c1)
               | Inr a \<Rightarrow>
                   do { c2 \<leftarrow> ch_lock c1;
                        if ch_full c2 \<and> \<not> ch_blocking c2 then
                          do { e \<leftarrow> elems c2 a;
                               assert_opt (datalen c2 = CH_DATALEN_VOIDP \<or> b = ArgEot \<or>
                                           block e \<noteq> BUninit);
                               Some (CH_PUT_CHANNEL_FULL, Some (ch_unlock (el_free c2 a))) }
                        else if ch_full c2 then None
                        else
                          do { c3 \<leftarrow> ch_enqueue c2 a w;
                               Some (count c3, Some (ch_unlock c3)) } } })"

definition ch_put :: "'p ch option \<Rightarrow> 'p arg \<Rightarrow> bool \<Rightarrow> bool \<Rightarrow> (int \<times> 'p ch option) option" where
  "ch_put ch b elem_ok block_ok = ch_put_at ch b CH_PUT_STD elem_ok block_ok"

definition ch_put_head :: "'p ch option \<Rightarrow> 'p arg \<Rightarrow> bool \<Rightarrow> bool \<Rightarrow> (int \<times> 'p ch option) option" where
  "ch_put_head ch b elem_ok block_ok = ch_put_at ch b CH_PUT_TOP elem_ok block_ok"

section \<open>Get and peek\<close>

text \<open>The copy into the destination, which holds \<open>cap\<close> bytes; a pointer takes 8.\<close>

definition ch_copy_out :: "int \<Rightarrow> 'p blk \<Rightarrow> nat \<Rightarrow> 'p out option" where
  "ch_copy_out dl b cap =
     (if 0 < dl then
        (case b of
           BCopy bs \<Rightarrow> if nat dl \<le> length bs \<and> nat dl \<le> cap then Some (OutBytes (take (nat dl) bs)) else None
         | _ \<Rightarrow> None)
      else if dl = CH_DATALEN_VOIDP then
        (case b of BPtr p \<Rightarrow> if 8 \<le> cap then Some (OutPtr p) else None | _ \<Rightarrow> None)
      else if dl = CH_DATALEN_STRING then
        (case b of
           BCopy bs \<Rightarrow> if length bs \<le> cap then Some (OutBytes bs) else None
         | _ \<Rightarrow> None)
      else Some NoOut)"

definition ch_detach :: "'p ch \<Rightarrow> nat \<Rightarrow> 'p elem \<Rightarrow> 'p ch" where
  "ch_detach c a e =
     (el_free c a)\<lparr>head := prev e, tail := (if prev e = None then None else tail c),
                   count := count c - 1\<rparr>"

text \<open>The part of \<open>ch_get\<close> after the waiting loop, with the mutex held.\<close>

definition ch_take :: "'p ch \<Rightarrow> nat \<Rightarrow> (int \<times> 'p out \<times> 'p ch) option" where
  "ch_take c cap =
     do { a \<leftarrow> head c;
          e \<leftarrow> elems c a;
          assert_opt (block e \<noteq> BUninit);
          if block e = BEot then Some (CH_GET_ENDOFTRANSMISSION, NoOut, ch_detach c a e)
          else do { out \<leftarrow> ch_copy_out (datalen c) (block e) cap;
                    Some (CH_OK, out, ch_detach c a e) } }"

definition ch_get ::
  "'p ch option \<Rightarrow> nat option \<Rightarrow> (int \<times> 'p out \<times> 'p ch option) option" where
  "ch_get ch dest =
     (case (ch, dest) of
        (Some c, Some cap) \<Rightarrow>
          if magic c \<noteq> CH_MAGIC_ID then Some (CH_WRONG_PARAM, NoOut, ch)
          else
            do { c1 \<leftarrow> ch_lock c;
                 if count c1 = 0 \<and> \<not> ch_blocking c1
                 then Some (CH_GET_NODATA, NoOut, Some (ch_unlock c1))
                 else if count c1 = 0 then None
                 else do { (rc, out, c2) \<leftarrow> ch_take c1 cap;
                           Some (rc, out, Some (ch_unlock c2)) } }
      | _ \<Rightarrow> Some (CH_WRONG_PARAM, NoOut, ch))"

definition ch_peek ::
  "'p ch option \<Rightarrow> nat option \<Rightarrow> (int \<times> 'p out \<times> 'p ch option) option" where
  "ch_peek ch dest =
     (case (ch, dest) of
        (Some c, Some cap) \<Rightarrow>
          if magic c \<noteq> CH_MAGIC_ID then Some (CH_WRONG_PARAM, NoOut, ch)
          else
            do { c1 \<leftarrow> ch_lock c;
                 if count c1 = 0 then Some (CH_GET_NODATA, NoOut, Some (ch_unlock c1))
                 else
                   do { a \<leftarrow> head c1;
                        e \<leftarrow> elems c1 a;
                        assert_opt (block e \<noteq> BUninit);
                        if block e = BEot
                        then Some (CH_GET_ENDOFTRANSMISSION, NoOut,
                                   Some (ch_unlock (c1\<lparr>count := count c1 - 1\<rparr>)))
                        else do { out \<leftarrow> ch_copy_out (datalen c1) (block e) cap;
                                  Some (CH_OK, out, Some (ch_unlock c1)) } } }
      | _ \<Rightarrow> Some (CH_WRONG_PARAM, NoOut, ch))"

section \<open>Attributes\<close>

definition ch_setattr :: "'p ch option \<Rightarrow> int \<Rightarrow> int \<Rightarrow> int \<times> 'p ch option" where
  "ch_setattr ch atr val =
     (case ch of
        None \<Rightarrow> (CH_BAD_HANDLE, ch)
      | Some c \<Rightarrow>
          if magic c \<noteq> CH_MAGIC_ID then (CH_BAD_HANDLE, ch)
          else if atr = CH_BLOCKING_MODE then
            (if val \<noteq> uint CH_ATTR_NON_BLOCKING_GETPUT \<and> val \<noteq> uint CH_ATTR_BLOCKING_GETPUT
             then (CH_WRONG_VALUE, ch)
             else if val = uint CH_ATTR_BLOCKING_GETPUT
             then (CH_OK, Some (c\<lparr>attr := attr c OR CH_ATTR_BLOCKING_GETPUT\<rparr>))
             else (CH_OK, Some (c\<lparr>attr := attr c AND CH_ATTR_NON_BLOCKING_GETPUT\<rparr>)))
          else if atr = CH_FIXED_SIZE then
            (CH_OK, Some (if 0 \<le> val then c\<lparr>max_size := val\<rparr> else c))
          else (CH_WRONG_ATTR, ch))"

definition ch_getattr :: "'p ch option \<Rightarrow> int \<Rightarrow> (int \<times> 'p out \<times> 'p ch option) option" where
  "ch_getattr ch atr =
     (case ch of
        None \<Rightarrow> Some (CH_BAD_HANDLE, NoOut, ch)
      | Some c \<Rightarrow>
          if magic c \<noteq> CH_MAGIC_ID then Some (CH_BAD_HANDLE, NoOut, ch)
          else if atr = CH_BLOCKING_MODE then Some (CH_OK, OutInt (sint (attr c)), ch)
          else if atr = CH_COUNT then
            do { c1 \<leftarrow> ch_lock c; Some (CH_OK, OutInt (count c1), Some (ch_unlock c1)) }
          else if atr = CH_FIXED_SIZE then Some (CH_OK, OutInt (max_size c), ch)
          else Some (CH_WRONG_ATTR, NoOut, ch))"

section \<open>Clean and destroy\<close>

text \<open>
  The loop of \<open>ch_clean\<close>: \<open>a\<close> is \<open>element\<close>, \<open>cur\<close> is \<open>cur_element\<close>, \<open>del\<close> says whether a
  delete function was given, and \<open>acc\<close> collects the pointers it was called on.
\<close>

partial_function (option) ch_clean_loop ::
  "bool \<Rightarrow> 'p ch \<Rightarrow> nat \<Rightarrow> nat option \<Rightarrow> 'p list \<Rightarrow> ('p ch \<times> 'p list) option" where
  "ch_clean_loop del c a cur acc =
     do { e \<leftarrow> elems c a;
          assert_opt (block e \<noteq> BUninit);
          let acc1 = (case block e of
                        BPtr p \<Rightarrow> if datalen c = CH_DATALEN_VOIDP \<and> del then acc @ [p] else acc
                      | _ \<Rightarrow> acc);
              c1 = (el_free c a)\<lparr>count := count c - 1\<rparr>
          in case cur of
               Some b \<Rightarrow> do { eb \<leftarrow> elems c1 b; ch_clean_loop del c1 b (prev eb) acc1 }
             | None \<Rightarrow> Some (c1\<lparr>head := None, tail := None\<rparr>, acc1) }"

definition ch_clean :: "'p ch option \<Rightarrow> bool \<Rightarrow> (int \<times> 'p out \<times> 'p ch option) option" where
  "ch_clean ch del =
     (case ch of
        None \<Rightarrow> Some (CH_BAD_HANDLE, NoOut, ch)
      | Some c \<Rightarrow>
          if magic c \<noteq> CH_MAGIC_ID then Some (CH_BAD_HANDLE, NoOut, ch)
          else if del \<and> datalen c \<noteq> CH_DATALEN_VOIDP then Some (CH_FREE_NOT_REQUESTED, NoOut, ch)
          else
            do { c1 \<leftarrow> ch_lock c;
                 if count c1 \<noteq> 0 then
                   do { a \<leftarrow> head c1;
                        e \<leftarrow> elems c1 a;
                        (c2, dels) \<leftarrow> ch_clean_loop del c1 a (prev e) [];
                        Some (CH_OK, OutDeleted dels, Some (ch_unlock c2)) }
                 else Some (CH_OK, OutDeleted [], Some (ch_unlock c1)) })"

text \<open>\<open>ch_destroy\<close> spins while threads wait in \<open>ch_get\<close>, which only they can end. It
  returns the handle, or \<open>None\<close> when it freed it.\<close>

definition ch_destroy :: "'p ch option \<Rightarrow> (int \<times> 'p ch option) option" where
  "ch_destroy ch =
     (case ch of
        None \<Rightarrow> Some (CH_BAD_HANDLE, ch)
      | Some c \<Rightarrow>
          if magic c \<noteq> CH_MAGIC_ID then Some (CH_BAD_HANDLE, ch)
          else
            do { (rc, out, ch1) \<leftarrow> ch_clean ch False;
                 c1 \<leftarrow> ch1;
                 let c2 = c1\<lparr>magic := 13\<rparr> in
                 do { assert_opt (\<not> (ch_blocking c2 \<and> 0 < get_waiting_threads c2));
                      Some (CH_OK, if ch_allocated c2 then None else Some c2) } })"

end
