(* ===== verification/ChannelInv.thy ===== *)
theory ChannelInv
  imports Channel
begin

text \<open>
  The channel invariant, its abstraction to the list of queued blocks, and what every
  operation of one thread does in these terms.

  \<open>cells c\<close> walks \<open>count c\<close> elements from the head; \<open>linked c as\<close> says that the elements
  \<open>as\<close> are linked from \<open>head\<close> to \<open>tail\<close>, end with a null \<open>prev\<close>, and are as many as
  \<open>count\<close> says.
\<close>

section \<open>Walking the queue\<close>

primrec walk :: "('a \<Rightarrow> 'a option) \<Rightarrow> nat \<Rightarrow> 'a option \<Rightarrow> 'a list" where
  "walk f 0 p = []"
| "walk f (Suc n) p = (case p of None \<Rightarrow> [] | Some a \<Rightarrow> a # walk f n (f a))"

lemma walk_chain: "chain f p xs \<Longrightarrow> walk f (length xs) p = xs"
  by (induction xs arbitrary: p) auto

definition nxt :: "('a \<rightharpoonup> 'p elem) \<Rightarrow> 'a \<Rightarrow> nat option" where
  "nxt h a = (case h a of None \<Rightarrow> None | Some e \<Rightarrow> prev e)"

lemma nxt_upd [simp]:
  "nxt (h(a \<mapsto> e)) = (nxt h)(a := prev e)"
  "nxt (h(a := None)) = (nxt h)(a := None)"
  by (auto simp: nxt_def fun_eq_iff)

definition cells :: "'p ch \<Rightarrow> nat list" where
  "cells c = walk (nxt (elems c)) (nat (count c)) (head c)"

definition ch_items :: "'p ch \<Rightarrow> 'p blk list" where
  "ch_items c = map (\<lambda>a. block (the (elems c a))) (cells c)"

definition linked :: "'p ch \<Rightarrow> nat list \<Rightarrow> bool" where
  "linked c as \<longleftrightarrow>
     chain (nxt (elems c)) (head c) as \<and> distinct as \<and>
     tail c = (if as = [] then None else Some (last as)) \<and>
     count c = int (length as) \<and> set as \<subseteq> dom (elems c) \<and> (\<forall>a \<in> dom (elems c). a < el_brk c)"

lemma linked_cells: "linked c as \<Longrightarrow> cells c = as"
  by (simp add: linked_def cells_def walk_chain)

text \<open>What kind of block a channel of a given \<open>datalen\<close> holds.\<close>

definition blk_ok :: "int \<Rightarrow> 'p blk \<Rightarrow> bool" where
  "blk_ok dl b =
     (case b of
        BUninit \<Rightarrow> False
      | BEot \<Rightarrow> True
      | BPtr p \<Rightarrow> dl = CH_DATALEN_VOIDP
      | BCopy bs \<Rightarrow>
          0 < dl \<and> int (length bs) = dl \<or>
          dl = CH_DATALEN_STRING \<and> (\<exists>s. bs = s @ [0] \<and> 0 \<notin> set s))"

definition ch_inv :: "'p ch \<Rightarrow> bool" where
  "ch_inv c \<longleftrightarrow>
     magic c = CH_MAGIC_ID \<and> \<not> ch_locked c \<and> CH_DATALEN_STRING \<le> datalen c \<and>
     0 \<le> max_size c \<and> (attr c = 0 \<or> attr c = 1) \<and> int_ok (count c) \<and>
     linked c (cells c) \<and> list_all (blk_ok (datalen c)) (ch_items c)"

text \<open>No element is allocated that is not queued.\<close>

definition ch_tight :: "'p ch \<Rightarrow> bool" where
  "ch_tight c \<longleftrightarrow> dom (elems c) = set (cells c)"

lemma linked_items:
  "linked c as \<Longrightarrow> ch_items c = map (\<lambda>a. block (the (elems c a))) as"
  by (simp add: ch_items_def linked_cells)

lemma ch_invI:
  assumes "linked c as" and "magic c = CH_MAGIC_ID" and "\<not> ch_locked c"
    and "CH_DATALEN_STRING \<le> datalen c" and "0 \<le> max_size c" and "attr c = 0 \<or> attr c = 1"
    and "int_ok (count c)" and "list_all (blk_ok (datalen c)) (map (\<lambda>a. block (the (elems c a))) as)"
  shows "ch_inv c"
  using assms linked_cells [OF assms(1)] linked_items [OF assms(1)] by (simp add: ch_inv_def)

lemma ch_invE:
  assumes "ch_inv c"
  obtains as where "linked c as" and "cells c = as"
    and "ch_items c = map (\<lambda>a. block (the (elems c a))) as"
    and "list_all (blk_ok (datalen c)) (map (\<lambda>a. block (the (elems c a))) as)"
  using assms linked_items [of c "cells c"] by (auto simp: ch_inv_def)

lemma ch_items_length: "ch_inv c \<Longrightarrow> count c = int (length (ch_items c))"
  by (auto simp: ch_inv_def linked_def ch_items_def)

text \<open>The configuration of a channel: what no put, get or peek changes.\<close>

definition ch_conf :: "'p ch \<Rightarrow> int \<times> bool \<times> int \<times> int \<times> u32 \<times> int \<times> int \<times> bool" where
  "ch_conf c = (magic c, ch_allocated c, datalen c, max_size c, attr c,
                get_waiting_threads c, put_waiting_threads c, ch_locked c)"

lemma ch_conf_eq:
  "ch_conf c = ch_conf c' \<longleftrightarrow>
     magic c = magic c' \<and> ch_allocated c = ch_allocated c' \<and> datalen c = datalen c' \<and>
     max_size c = max_size c' \<and> attr c = attr c' \<and>
     get_waiting_threads c = get_waiting_threads c' \<and>
     put_waiting_threads c = put_waiting_threads c' \<and> ch_locked c = ch_locked c'"
  by (auto simp: ch_conf_def)

section \<open>Elements linked in and detached\<close>

lemma chain_snoc:
  assumes "chain f p xs" and "distinct xs" and "a \<notin> set xs" and "f a = None"
  shows "chain (if xs = [] then f else f(last xs := Some a)) (if xs = [] then Some a else p) (xs @ [a])"
  using assms
proof (induction xs arbitrary: p)
  case Nil
  then show ?case by simp
next
  case (Cons x xs)
  from Cons.prems have x: "p = Some x" "chain f (f x) xs" "distinct xs" "a \<notin> set xs" "a \<noteq> x" "x \<notin> set xs"
    by auto
  show ?case
  proof (cases "xs = []")
    case True
    with x Cons.prems(4) show ?thesis by simp
  next
    case False
    with x(6) have "x \<noteq> last xs" by (metis last_in_set)
    with Cons.IH [OF x(2-4) Cons.prems(4)] x(1) False show ?thesis by simp
  qed
qed

lemma ch_enqueue_std:
  assumes l: "linked c as" and a: "elems c a = Some \<lparr>block = b, prev = None\<rparr>" "a \<notin> set as"
    and ok: "int_ok (count c + 1)"
  shows "\<exists>c'. ch_enqueue c a CH_PUT_STD = Some c' \<and> linked c' (as @ [a]) \<and>
    ch_conf c' = ch_conf c \<and> count c' = count c + 1 \<and> el_brk c' = el_brk c \<and>
    dom (elems c') = dom (elems c) \<and>
    map_option block \<circ> elems c' = map_option block \<circ> elems c \<and>
    (\<forall>x. x \<notin> set as \<longrightarrow> x \<noteq> a \<longrightarrow> elems c' x = elems c x)"
proof (cases "as = []")
  case True
  with l have "count c = 0" "tail c = None" by (auto simp: linked_def)
  with l a ok True show ?thesis
    by (auto simp: ch_enqueue_def ch_link_def CH_PUT_STD_def linked_def ch_conf_def nxt_def)
next
  case False
  then have "last as \<in> set as" by simp
  with l False have t: "count c \<noteq> 0" "tail c = Some (last as)" "last as \<in> dom (elems c)" "last as \<in> set as"
    by (auto simp only: linked_def) auto
  then obtain e where e: "elems c (last as) = Some e" by blast
  have ch: "chain ((nxt (elems c))(last as := Some a)) (head c) (as @ [a])"
    using chain_snoc [of "nxt (elems c)" "head c" as a] l a False by (auto simp: linked_def nxt_def)
  have "ch_enqueue c a CH_PUT_STD =
      Some (c\<lparr>elems := (elems c)(last as \<mapsto> e\<lparr>prev := Some a\<rparr>), tail := Some a, count := count c + 1\<rparr>)"
    using t e ok by (simp add: ch_enqueue_def ch_link_def CH_PUT_STD_def set_prev_def)
  with l a ch e t False show ?thesis
    by (auto simp: linked_def ch_conf_def fun_eq_iff)
qed

lemma ch_enqueue_top:
  assumes l: "linked c as" and a: "elems c a = Some \<lparr>block = b, prev = None\<rparr>" "a \<notin> set as"
    and ok: "int_ok (count c + 1)"
  shows "\<exists>c'. ch_enqueue c a CH_PUT_TOP = Some c' \<and> linked c' (a # as) \<and>
    ch_conf c' = ch_conf c \<and> count c' = count c + 1 \<and> el_brk c' = el_brk c \<and>
    dom (elems c') = dom (elems c) \<and>
    map_option block \<circ> elems c' = map_option block \<circ> elems c \<and>
    (\<forall>x. x \<notin> set as \<longrightarrow> x \<noteq> a \<longrightarrow> elems c' x = elems c x)"
proof (cases "as = []")
  case True
  with l have "count c = 0" "tail c = None" by (auto simp: linked_def)
  with l a ok True show ?thesis
    by (auto simp: ch_enqueue_def ch_link_def CH_PUT_TOP_def CH_PUT_STD_def linked_def ch_conf_def nxt_def)
next
  case False
  with l have t: "count c \<noteq> 0" "tail c = Some (last as)"
    by (auto simp: linked_def)
  have "ch_enqueue c a CH_PUT_TOP =
      Some (c\<lparr>elems := (elems c)(a \<mapsto> \<lparr>block = b, prev = head c\<rparr>), head := Some a, count := count c + 1\<rparr>)"
    using t a ok by (simp add: ch_enqueue_def ch_link_def CH_PUT_TOP_def CH_PUT_STD_def set_prev_def)
  with l a t False show ?thesis
    by (auto simp: linked_def ch_conf_def fun_eq_iff)
qed

lemma ch_take_spec:
  assumes l: "linked c (a # as)" and e: "elems c a = Some e" and b: "blk_ok (datalen c) (block e)"
    and out: "block e = BEot \<or> ch_copy_out (datalen c) (block e) cap = Some out"
  shows "\<exists>c'. ch_take c cap =
      Some (if block e = BEot then (CH_GET_ENDOFTRANSMISSION, NoOut, c') else (CH_OK, out, c')) \<and>
    linked c' as \<and> ch_conf c' = ch_conf c \<and> count c' = count c - 1 \<and>
    elems c' = (elems c)(a := None) \<and> el_brk c' = el_brk c"
proof -
  have "block e \<noteq> BUninit" using b by (auto simp: blk_ok_def)
  moreover have "linked (ch_detach c a e) as"
    using l e by (cases as) (auto simp: linked_def ch_detach_def el_free_def nxt_def)
  ultimately show ?thesis
    using l e out
    by (auto simp: ch_take_def linked_def ch_detach_def el_free_def ch_conf_def)
qed

section \<open>The operations on the list of blocks\<close>

lemma el_alloc_linked:
  assumes "linked c as" and "el_alloc c = (c1, a)"
  shows "linked (set_block c1 a x) as \<and> elems (set_block c1 a x) a = Some \<lparr>block = x, prev = None\<rparr> \<and>
    a \<notin> set as \<and> a \<notin> dom (elems c) \<and> elems (set_block c1 a x) = (elems c)(a \<mapsto> \<lparr>block = x, prev = None\<rparr>) \<and>
    ch_conf (set_block c1 a x) = ch_conf c \<and> count (set_block c1 a x) = count c \<and>
    linked c1 as \<and> ch_conf c1 = ch_conf c \<and> count c1 = count c \<and>
    elems c1 = (elems c)(a \<mapsto> \<lparr>block = BUninit, prev = None\<rparr>)"
proof -
  from assms(1) have brk: "el_brk c \<notin> dom (elems c)" "el_brk c \<notin> set as"
    by (auto simp: linked_def subset_eq domIff)
  with assms show ?thesis
    by (auto simp: el_alloc_def set_block_def linked_def ch_conf_def less_Suc_eq)
qed

lemma ch_block_of_ok:
  "ch_block_of dl b ok = Some (Some x) \<Longrightarrow> CH_DATALEN_STRING \<le> dl \<Longrightarrow> blk_ok dl x"
  by (auto simp: ch_block_of_def blk_ok_def CH_DATALEN_VOIDP_def CH_DATALEN_STRING_def
        dest: set_takeWhileD split: arg.splits if_splits)

lemma linked_lock [simp]:
  "linked (c\<lparr>ch_locked := b\<rparr>) as = linked c as"
  by (simp add: linked_def)

lemma blocks_eq:
  assumes "map_option block \<circ> h = map_option block \<circ> g" and "set as \<subseteq> dom h"
  shows "map (\<lambda>a. block (the (h a))) as = map (\<lambda>a. block (the (g a))) as"
proof -
  have "block (the (h a)) = block (the (g a))" if "a \<in> set as" for a
  proof -
    from that assms(2) obtain e where "h a = Some e" by blast
    with fun_cong [OF assms(1), of a] show ?thesis by (cases "g a") auto
  qed
  then show ?thesis by simp
qed

text \<open>Where a block goes: \<open>at_place w x xs\<close>.\<close>

definition at_place :: "int \<Rightarrow> 'b \<Rightarrow> 'b list \<Rightarrow> 'b list" where
  "at_place w x xs = (if w = CH_PUT_STD then xs @ [x] else x # xs)"

lemma ch_enqueue_spec:
  assumes l: "linked c as" and a: "elems c a = Some \<lparr>block = b, prev = None\<rparr>" "a \<notin> set as"
    and ok: "int_ok (count c + 1)" and w: "w = CH_PUT_STD \<or> w = CH_PUT_TOP"
  shows "\<exists>c'. ch_enqueue c a w = Some c' \<and> linked c' (at_place w a as) \<and>
    ch_conf c' = ch_conf c \<and> count c' = count c + 1 \<and> el_brk c' = el_brk c \<and>
    dom (elems c') = dom (elems c) \<and>
    map (\<lambda>a. block (the (elems c' a))) (at_place w a as) =
      at_place w b (map (\<lambda>a. block (the (elems c a))) as) \<and>
    (\<forall>x. x \<notin> set as \<longrightarrow> x \<noteq> a \<longrightarrow> elems c' x = elems c x)"
proof -
  have "CH_PUT_TOP \<noteq> CH_PUT_STD" by (simp add: CH_PUT_STD_def CH_PUT_TOP_def)
  with ch_enqueue_std [OF assms(1-4)] ch_enqueue_top [OF assms(1-4)] w obtain c' where
    c': "ch_enqueue c a w = Some c'" "linked c' (at_place w a as)" "ch_conf c' = ch_conf c"
      "count c' = count c + 1" "el_brk c' = el_brk c" "dom (elems c') = dom (elems c)"
      "map_option block \<circ> elems c' = map_option block \<circ> elems c"
      "\<forall>x. x \<notin> set as \<longrightarrow> x \<noteq> a \<longrightarrow> elems c' x = elems c x"
    by (fastforce simp: at_place_def)
  from c'(2) have "set (at_place w a as) \<subseteq> dom (elems c')" by (simp add: linked_def)
  from blocks_eq [OF c'(7) this] a
  have "map (\<lambda>a. block (the (elems c' a))) (at_place w a as) =
      at_place w b (map (\<lambda>a. block (the (elems c a))) as)"
    by (auto simp: at_place_def)
  with c' show ?thesis by blast
qed

text \<open>What a put does to the list of blocks.\<close>

lemma ch_put_enter_spec:
  assumes "ch_inv c" and "b \<noteq> ArgNull" and "ch_block_of (datalen c) b bok = Some (Some x)"
    and "cells c = as"
  shows "\<exists>c1 a. ch_put_enter c b True bok = Some (Inr a, c1) \<and>
    linked c1 as \<and> elems c1 a = Some \<lparr>block = x, prev = None\<rparr> \<and> a \<notin> set as \<and> a \<notin> dom (elems c) \<and>
    elems c1 = (elems c)(a \<mapsto> \<lparr>block = x, prev = None\<rparr>) \<and>
    ch_conf c1 = ch_conf c \<and> count c1 = count c"
proof -
  obtain c0 a where al: "el_alloc c = (c0, a)" by (cases "el_alloc c")
  from assms(1,4) have l: "linked c as" "magic c = CH_MAGIC_ID" by (auto simp: ch_inv_def)
  note s = el_alloc_linked [OF l(1) al, where x = x]
  from s have "datalen c0 = datalen c" by (simp add: ch_conf_eq)
  with assms(2,3) l(2) al
  have "ch_put_enter c b True bok = Some (Inr a, set_block c0 a x)"
    by (simp add: ch_put_enter_def)
  with s show ?thesis by blast
qed

lemma ch_unlock_simps [simp]:
  "linked (ch_unlock c) as = linked c as"
  "elems (ch_unlock c) = elems c"
  "count (ch_unlock c) = count c"
  "ch_locked (ch_unlock c) = False"
  "magic (ch_unlock c) = magic c"
  "datalen (ch_unlock c) = datalen c"
  "max_size (ch_unlock c) = max_size c"
  "attr (ch_unlock c) = attr c"
  "get_waiting_threads (ch_unlock c) = get_waiting_threads c"
  "put_waiting_threads (ch_unlock c) = put_waiting_threads c"
  "ch_allocated (ch_unlock c) = ch_allocated c"
  by (simp_all add: ch_unlock_def linked_def)

lemma ch_cfg_cong:
  assumes "max_size c = max_size c'" and "count c = count c'" and "attr c = attr c'"
  shows "ch_full c = ch_full c'" and "ch_blocking c = ch_blocking c'"
  using assms by (simp_all add: ch_full_def ch_blocking_def)

text \<open>An unlocked channel that agrees with a valid one on its configuration is valid again
  when its elements are linked and of the right kind.\<close>

lemma ch_inv_again:
  assumes "ch_inv c" and "linked c' as" and "ch_conf c' = ch_conf c" and "int_ok (count c')"
    and "list_all (blk_ok (datalen c)) (map (\<lambda>a. block (the (elems c' a))) as)"
  shows "ch_inv c' \<and> ch_items c' = map (\<lambda>a. block (the (elems c' a))) as \<and> cells c' = as"
  using assms linked_items [OF assms(2)] linked_cells [OF assms(2)]
  by (simp add: ch_inv_def ch_conf_eq)

lemma ch_inv_same:
  assumes "ch_inv c" and "linked c' as" and "ch_conf c' = ch_conf c" and "count c' = count c"
    and "map (\<lambda>a. block (the (elems c' a))) as = ch_items c"
  shows "ch_inv c' \<and> ch_items c' = ch_items c \<and> cells c' = as"
proof -
  from assms(1) have "int_ok (count c)" "list_all (blk_ok (datalen c)) (ch_items c)"
    by (simp_all only: ch_inv_def)
  with ch_inv_again [OF assms(1-3)] show ?thesis by (simp only: assms(4,5) simp_thms)
qed

lemma unlock_conf:
  assumes "ch_inv c" and "ch_conf c' = ch_conf (c\<lparr>ch_locked := True\<rparr>)"
  shows "ch_conf (ch_unlock c') = ch_conf c"
  using assms by (simp add: ch_conf_eq ch_inv_def)

lemma blk_ok_place:
  "list_all P (at_place w x xs) \<longleftrightarrow> P x \<and> list_all P xs"
  by (auto simp: at_place_def)

lemma set_place [simp]: "set (at_place w x xs) = insert x (set xs)"
  by (auto simp: at_place_def)

lemma ch_put_at_accept:
  assumes inv: "ch_inv c" and b: "b \<noteq> ArgNull" "ch_block_of (datalen c) b bok = Some (Some x)"
    and room: "\<not> ch_full c" "int_ok (count c + 1)" and w: "w = CH_PUT_STD \<or> w = CH_PUT_TOP"
  shows "\<exists>c'. ch_put_at (Some c) b w True bok = Some (count c + 1, Some c') \<and> ch_inv c' \<and>
    ch_items c' = at_place w x (ch_items c) \<and> ch_conf c' = ch_conf c \<and>
    (ch_tight c \<longrightarrow> ch_tight c')"
proof -
  from ch_invE [OF inv] obtain as where as: "linked c as" "cells c = as"
    "ch_items c = map (\<lambda>a. block (the (elems c a))) as"
    "list_all (blk_ok (datalen c)) (map (\<lambda>a. block (the (elems c a))) as)" by blast
  from ch_put_enter_spec [OF inv b as(2)] obtain c1 a where
    e: "ch_put_enter c b True bok = Some (Inr a, c1)" "linked c1 as"
      "elems c1 a = Some \<lparr>block = x, prev = None\<rparr>" "a \<notin> set as" "a \<notin> dom (elems c)"
      "elems c1 = (elems c)(a \<mapsto> \<lparr>block = x, prev = None\<rparr>)" "ch_conf c1 = ch_conf c" "count c1 = count c"
    by blast
  let ?c2 = "c1\<lparr>ch_locked := True\<rparr>"
  from inv e(7) have lock: "ch_lock c1 = Some ?c2" by (simp add: ch_lock_def ch_conf_eq ch_inv_def)
  from e(7,8) have cfg: "ch_full ?c2 = ch_full c"
    by (simp add: ch_full_def ch_conf_eq)
  have "elems ?c2 a = Some \<lparr>block = x, prev = None\<rparr>" "int_ok (count ?c2 + 1)" "linked ?c2 as"
    using e room by simp_all
  from ch_enqueue_spec [OF this(3,1) e(4) this(2) w] obtain c3 where
    c3: "ch_enqueue ?c2 a w = Some c3" "linked c3 (at_place w a as)" "ch_conf c3 = ch_conf ?c2"
      "count c3 = count c1 + 1" "dom (elems c3) = dom (elems c1)"
      "map (\<lambda>a. block (the (elems c3 a))) (at_place w a as) =
        at_place w x (map (\<lambda>a. block (the (elems c1 a))) as)"
    by auto
  have items: "map (\<lambda>a. block (the (elems c1 a))) as = ch_items c"
    using e(4,6) by (auto simp: as(3))
  have "ch_conf (ch_unlock c3) = ch_conf c"
    using unlock_conf [of c c3] c3(3) e(7) inv by (simp add: ch_conf_eq)
  moreover have "list_all (blk_ok (datalen c)) (at_place w x (ch_items c))"
    using ch_block_of_ok [OF b(2)] inv by (simp add: blk_ok_place ch_inv_def)
  ultimately have inv': "ch_inv (ch_unlock c3) \<and> ch_items (ch_unlock c3) = at_place w x (ch_items c) \<and>
      cells (ch_unlock c3) = at_place w a as"
    using ch_inv_again [OF inv, of "ch_unlock c3" "at_place w a as"] c3 items e(8) room
    by simp
  have "ch_tight c \<longrightarrow> ch_tight (ch_unlock c3)"
    using inv' c3(5) e(6) as(2) by (simp add: ch_tight_def)
  moreover have "ch_put_at (Some c) b w True bok = Some (count c + 1, Some (ch_unlock c3))"
    using e(1) lock cfg room c3 e(8) by (simp add: ch_put_at_def)
  ultimately show ?thesis using inv' \<open>ch_conf (ch_unlock c3) = ch_conf c\<close> by blast
qed

text \<open>A put on a full non-blocking channel frees what it allocated.\<close>

lemma ch_put_at_full:
  assumes inv: "ch_inv c" and b: "b \<noteq> ArgNull" "ch_block_of (datalen c) b bok = Some (Some x)"
    and full: "ch_full c" "\<not> ch_blocking c"
  shows "\<exists>c'. ch_put_at (Some c) b w True bok = Some (CH_PUT_CHANNEL_FULL, Some c') \<and> ch_inv c' \<and>
    ch_items c' = ch_items c \<and> ch_conf c' = ch_conf c \<and> elems c' = elems c \<and> cells c' = cells c"
proof -
  from ch_invE [OF inv] obtain as where as: "linked c as" "cells c = as"
    "ch_items c = map (\<lambda>a. block (the (elems c a))) as"
    "list_all (blk_ok (datalen c)) (map (\<lambda>a. block (the (elems c a))) as)" by blast
  from ch_put_enter_spec [OF inv b as(2)] obtain c1 a where
    e: "ch_put_enter c b True bok = Some (Inr a, c1)" "linked c1 as"
      "elems c1 a = Some \<lparr>block = x, prev = None\<rparr>" "a \<notin> set as" "a \<notin> dom (elems c)"
      "elems c1 = (elems c)(a \<mapsto> \<lparr>block = x, prev = None\<rparr>)" "ch_conf c1 = ch_conf c" "count c1 = count c"
    by blast
  let ?c2 = "c1\<lparr>ch_locked := True\<rparr>" and ?c3 = "el_free (c1\<lparr>ch_locked := True\<rparr>) a"
  from inv e(7) have lock: "ch_lock c1 = Some ?c2" by (simp add: ch_lock_def ch_conf_eq ch_inv_def)
  from e(7,8) full have cfg: "ch_full ?c2" "\<not> ch_blocking ?c2"
    by (simp_all add: ch_full_def ch_blocking_def ch_conf_eq)
  have el: "elems ?c3 = elems c" using e(5,6) by (auto simp: el_free_def fun_eq_iff domIff)
  have l: "linked ?c3 as"
    using e(2,4) by (auto simp: linked_def el_free_def)
  have "x \<noteq> BUninit" using ch_block_of_ok [OF b(2)] inv by (auto simp: ch_inv_def blk_ok_def)
  then have "ch_put_at (Some c) b w True bok = Some (CH_PUT_CHANNEL_FULL, Some (ch_unlock ?c3))"
    using e lock cfg by (simp add: ch_put_at_def)
  moreover have conf: "ch_conf (ch_unlock ?c3) = ch_conf c"
    using unlock_conf [of c ?c3] e(7) inv by (simp add: ch_conf_eq el_free_def)
  moreover have "count (ch_unlock ?c3) = count c" using e(8) by (simp add: el_free_def)
  with ch_inv_same [OF inv, of "ch_unlock ?c3" as] conf l
  have "ch_inv (ch_unlock ?c3) \<and> ch_items (ch_unlock ?c3) = ch_items c \<and> cells (ch_unlock ?c3) = cells c"
    by (simp only: el ch_unlock_simps as(2,3) simp_thms)
  ultimately show ?thesis using el by auto
qed

text \<open>A put that cannot allocate leaves the queue alone; the element it had allocated for a
  block that it could not allocate is lost.\<close>

lemma ch_put_at_no_memory:
  assumes inv: "ch_inv c" and b: "b \<noteq> ArgNull"
    and fail: "\<not> eok \<or> ch_block_of (datalen c) b bok = Some None"
  shows "\<exists>c'. ch_put_at (Some c) b w eok bok = Some (CH_NO_MEMORY, Some c') \<and> ch_inv c' \<and>
    ch_items c' = ch_items c \<and> ch_conf c' = ch_conf c \<and> (eok \<longrightarrow> \<not> ch_tight c')"
proof (cases eok)
  case False
  with inv b show ?thesis
    by (auto simp: ch_put_at_def ch_put_enter_def ch_inv_def)
next
  case True
  with fail have f: "ch_block_of (datalen c) b bok = Some None" by simp
  from ch_invE [OF inv] obtain as where as: "linked c as" "cells c = as"
    "ch_items c = map (\<lambda>a. block (the (elems c a))) as"
    "list_all (blk_ok (datalen c)) (map (\<lambda>a. block (the (elems c a))) as)" by blast
  obtain c1 a where al: "el_alloc c = (c1, a)" by (cases "el_alloc c")
  note s = el_alloc_linked [OF as(1) al]
  from s have conf: "ch_conf c1 = ch_conf c" by blast
  have "ch_put_at (Some c) b w eok bok = Some (CH_NO_MEMORY, Some c1)"
    using True b f al conf inv by (simp add: ch_put_at_def ch_put_enter_def ch_conf_eq ch_inv_def)
  moreover have items: "map (\<lambda>a. block (the (elems c1 a))) as = ch_items c"
    using s by (auto simp: as(3))
  then have "ch_inv c1 \<and> ch_items c1 = ch_items c \<and> cells c1 = as"
    using ch_inv_same [OF inv, of c1 as] s by blast
  ultimately show ?thesis using conf s by (auto simp: ch_tight_def)
qed

text \<open>Get and peek.\<close>

lemma ch_first:
  assumes "ch_inv c" and "ch_items c = x # xs"
  obtains a as e where "linked c (a # as)" and "elems c a = Some e" and "block e = x"
    and "map (\<lambda>a. block (the (elems c a))) as = xs" and "blk_ok (datalen c) x"
    and "list_all (blk_ok (datalen c)) xs" and "count c \<noteq> 0" and "head c = Some a"
    and "cells c = a # as"
proof -
  from ch_invE [OF assms(1)] obtain as0 where as0: "linked c as0" "cells c = as0"
    "ch_items c = map (\<lambda>a. block (the (elems c a))) as0" by blast
  with assms(2) obtain a as where as: "as0 = a # as" by auto
  with as0(1) have "a \<in> dom (elems c)" by (simp add: linked_def)
  then obtain e where "elems c a = Some e" by blast
  with as as0 assms show ?thesis
    by (intro that [of a as e]) (auto simp: linked_def ch_inv_def)
qed

lemma ch_get_spec:
  assumes inv: "ch_inv c" and items: "ch_items c = x # xs"
    and out: "x = BEot \<or> ch_copy_out (datalen c) x cap = Some out"
  shows "\<exists>c'. ch_get (Some c) (Some cap) =
      Some (if x = BEot then CH_GET_ENDOFTRANSMISSION else CH_OK,
            if x = BEot then NoOut else out, Some c') \<and>
    ch_inv c' \<and> ch_items c' = xs \<and> ch_conf c' = ch_conf c \<and> (ch_tight c \<longrightarrow> ch_tight c')"
proof -
  from ch_first [OF inv items] obtain a as e where
    f: "linked c (a # as)" "elems c a = Some e" "block e = x"
      "map (\<lambda>a. block (the (elems c a))) as = xs" "blk_ok (datalen c) x"
      "list_all (blk_ok (datalen c)) xs" "count c \<noteq> 0" "head c = Some a" "cells c = a # as"
    by blast
  let ?c1 = "c\<lparr>ch_locked := True\<rparr>"
  have lock: "ch_lock c = Some ?c1" using inv by (simp add: ch_lock_def ch_inv_def)
  have "linked ?c1 (a # as)" "elems ?c1 a = Some e" "blk_ok (datalen ?c1) (block e)"
    "block e = BEot \<or> ch_copy_out (datalen ?c1) (block e) cap = Some out"
    using f out by simp_all
  from ch_take_spec [OF this] f(3) obtain c2 where
    c2: "ch_take ?c1 cap =
        Some (if x = BEot then (CH_GET_ENDOFTRANSMISSION, NoOut, c2) else (CH_OK, out, c2))"
      "linked c2 as" "ch_conf c2 = ch_conf ?c1" "count c2 = count c - 1"
      "elems c2 = (elems c)(a := None)"
    by auto
  have a: "a \<notin> set as" using f(1) by (simp add: linked_def)
  have conf: "ch_conf (ch_unlock c2) = ch_conf c" using unlock_conf [OF inv c2(3)] .
  have items2: "map (\<lambda>a. block (the (elems c2 a))) as = xs" using f(4) a c2(5) by auto
  have "int_ok (count c2)" using c2(4) f(1) inv by (auto simp: int_ok_def ch_inv_def linked_def)
  with ch_inv_again [OF inv, of "ch_unlock c2" as] conf c2(2) items2 f(6)
  have inv': "ch_inv (ch_unlock c2) \<and> ch_items (ch_unlock c2) = xs \<and> cells (ch_unlock c2) = as"
    by simp
  have "ch_tight c \<longrightarrow> ch_tight (ch_unlock c2)"
    using inv' f(9) a c2(5) by (auto simp: ch_tight_def)
  moreover have "ch_get (Some c) (Some cap) =
      Some (if x = BEot then CH_GET_ENDOFTRANSMISSION else CH_OK,
            if x = BEot then NoOut else out, Some (ch_unlock c2))"
    using inv lock c2(1) f(7) by (simp add: ch_get_def ch_inv_def)
  ultimately show ?thesis using inv' conf by blast
qed

lemma ch_get_empty:
  assumes "ch_inv c" and "ch_items c = []"
  shows "ch_get (Some c) (Some cap) =
    (if ch_blocking c then None else Some (CH_GET_NODATA, NoOut, Some c))"
proof -
  have "count c = 0" using ch_items_length [OF assms(1)] assms(2) by simp
  moreover have "ch_unlock (c\<lparr>ch_locked := True\<rparr>) = c"
    using assms(1) by (simp add: ch_unlock_def ch_inv_def)
  ultimately show ?thesis
    using assms(1) by (simp add: ch_get_def ch_lock_def ch_inv_def ch_blocking_def)
qed

lemma ch_peek_spec:
  assumes inv: "ch_inv c"
  shows "ch_peek (Some c) (Some cap) =
    (case ch_items c of
       [] \<Rightarrow> Some (CH_GET_NODATA, NoOut, Some c)
     | x # xs \<Rightarrow>
         if x = BEot then Some (CH_GET_ENDOFTRANSMISSION, NoOut, Some (c\<lparr>count := count c - 1\<rparr>))
         else (case ch_copy_out (datalen c) x cap of
                 None \<Rightarrow> None | Some out \<Rightarrow> Some (CH_OK, out, Some c)))"
proof -
  let ?c1 = "c\<lparr>ch_locked := True\<rparr>"
  have lock: "ch_lock c = Some ?c1" using inv by (simp add: ch_lock_def ch_inv_def)
  have un: "ch_unlock ?c1 = c" "ch_unlock (?c1\<lparr>count := count c - 1\<rparr>) = c\<lparr>count := count c - 1\<rparr>"
    using inv by (simp_all add: ch_unlock_def ch_inv_def)
  show ?thesis
  proof (cases "ch_items c")
    case Nil
    with ch_items_length [OF inv] have "count c = 0" by simp
    with Nil inv lock un show ?thesis by (simp add: ch_peek_def ch_inv_def)
  next
    case (Cons x xs)
    from ch_first [OF inv Cons] obtain a e where
      f: "elems c a = Some e" "block e = x" "blk_ok (datalen c) x" "count c \<noteq> 0" "head c = Some a"
      by blast
    from f(3) have "x \<noteq> BUninit" by (auto simp: blk_ok_def)
    with f Cons inv lock un show ?thesis
      by (simp add: ch_peek_def ch_inv_def split: option.split)
  qed
qed

section \<open>Creation, attributes, clean and destroy\<close>

lemma ch_create_spec:
  assumes "ch \<noteq> None \<or> ok" and "CH_DATALEN_STRING \<le> dl"
  shows "\<exists>c. ch_create ch dl ok = Some c \<and> ch_inv c \<and> ch_items c = [] \<and> ch_tight c \<and>
    datalen c = dl \<and> max_size c = 0 \<and> ch_blocking c \<and> get_waiting_threads c = 0"
  using assms
  by (auto simp: ch_create_def ch_inv_def ch_items_def cells_def linked_def ch_tight_def
        int_ok_def ch_blocking_def CH_ATTR_BLOCKING_GETPUT_def)

definition void_ptrs :: "'p blk list \<Rightarrow> 'p list" where
  "void_ptrs bs = concat (map (\<lambda>b. case b of BPtr p \<Rightarrow> [p] | _ \<Rightarrow> []) bs)"

lemma void_ptrs_simps [simp]:
  "void_ptrs [] = []"
  "void_ptrs (b # bs) = (case b of BPtr p \<Rightarrow> [p] | _ \<Rightarrow> []) @ void_ptrs bs"
  by (simp_all add: void_ptrs_def)

lemma ch_clean_loop_spec:
  assumes "chain (nxt (elems c)) cur as" and "elems c a = Some e" and "distinct (a # as)"
    and "set as \<subseteq> dom (elems c)"
    and "list_all (blk_ok (datalen c)) (map (\<lambda>a. block (the (elems c a))) (a # as))"
  shows "\<exists>c'. ch_clean_loop del c a cur acc =
      Some (c', acc @ (if del then void_ptrs (map (\<lambda>a. block (the (elems c a))) (a # as)) else [])) \<and>
    head c' = None \<and> tail c' = None \<and> count c' = count c - int (length (a # as)) \<and>
    elems c' = elems c |` (- set (a # as)) \<and> ch_conf c' = ch_conf c \<and> el_brk c' = el_brk c"
  using assms
proof (induction as arbitrary: c a e cur acc)
  case Nil
  from Nil.prems have b: "blk_ok (datalen c) (block e)" "cur = None" "elems c a = Some e" by auto
  then show ?case
    by (subst ch_clean_loop.simps)
      (auto simp: Let_def el_free_def blk_ok_def ch_conf_def restrict_map_def fun_eq_iff
        split: blk.splits)
next
  case (Cons b as)
  let ?c1 = "(el_free c a)\<lparr>count := count c - 1\<rparr>"
  let ?acc = "acc @ (if del then (case block e of BPtr p \<Rightarrow> [p] | _ \<Rightarrow> []) else [])"
  from Cons.prems have cur: "cur = Some b" "chain (nxt (elems c)) (nxt (elems c) b) as"
    "a \<noteq> b" "a \<notin> set as" "b \<notin> set as" "distinct as" by auto
  from Cons.prems(4) obtain eb where eb: "elems c b = Some eb" by auto
  have c1: "elems ?c1 = (elems c)(a := None)" "datalen ?c1 = datalen c"
    by (simp_all add: el_free_def)
  have ok: "blk_ok (datalen c) (block e)" using Cons.prems by simp
  have "chain (nxt (elems ?c1)) (prev eb) as"
    using cur(2,4) eb by (simp add: c1 nxt_def)
  moreover have "elems ?c1 b = Some eb" using eb cur(3) by (simp add: c1)
  moreover have "set as \<subseteq> dom (elems ?c1)" using Cons.prems(4) cur(4) by (auto simp: c1)
  moreover have blks: "map (\<lambda>x. block (the (elems ?c1 x))) (b # as) =
      map (\<lambda>x. block (the (elems c x))) (b # as)"
    using cur(3,4) by (auto simp: c1)
  then have "list_all (blk_ok (datalen ?c1)) (map (\<lambda>x. block (the (elems ?c1 x))) (b # as))"
    using Cons.prems(5) by (simp only: c1(2)) simp
  ultimately obtain c' where
    c': "ch_clean_loop del ?c1 b (prev eb) ?acc =
        Some (c', ?acc @ (if del then void_ptrs (map (\<lambda>x. block (the (elems ?c1 x))) (b # as)) else []))"
      "head c' = None" "tail c' = None" "count c' = count ?c1 - int (length (b # as))"
      "elems c' = elems ?c1 |` (- set (b # as))" "ch_conf c' = ch_conf ?c1" "el_brk c' = el_brk ?c1"
    using Cons.IH [of ?c1 "prev eb" b eb ?acc] cur(5,6) by (simp only: distinct.simps simp_thms) blast
  have step: "ch_clean_loop del c a cur acc = ch_clean_loop del ?c1 b (prev eb) ?acc"
    using Cons.prems(2) cur(1,3) eb ok
    by (subst ch_clean_loop.simps) (auto simp: Let_def el_free_def blk_ok_def split: blk.splits)
  have "elems c' = elems c |` (- set (a # b # as))"
    by (auto simp: c'(5) c1 restrict_map_def fun_eq_iff)
  moreover have "ch_clean_loop del c a cur acc =
      Some (c', acc @ (if del then void_ptrs (map (\<lambda>a. block (the (elems c a))) (a # b # as)) else []))"
    using c'(1) [unfolded blks] step Cons.prems(2) by simp
  moreover have "ch_conf c' = ch_conf c" "el_brk c' = el_brk c"
    "count c' = count c - int (length (a # b # as))"
    using c'(4,6,7) by (simp_all add: el_free_def ch_conf_def)
  ultimately show ?case using c'(2,3) by blast
qed

lemma ch_clean_spec:
  assumes inv: "ch_inv c" and del: "del \<longrightarrow> datalen c = CH_DATALEN_VOIDP"
  shows "\<exists>c'. ch_clean (Some c) del =
      Some (CH_OK, OutDeleted (if del then void_ptrs (ch_items c) else []), Some c') \<and>
    ch_inv c' \<and> ch_items c' = [] \<and> ch_conf c' = ch_conf c \<and>
    elems c' = elems c |` (- set (cells c))"
proof -
  let ?c1 = "c\<lparr>ch_locked := True\<rparr>"
  have lock: "ch_lock c = Some ?c1" using inv by (simp add: ch_lock_def ch_inv_def)
  show ?thesis
  proof (cases "ch_items c")
    case Nil
    then have "cells c = []" "count c = 0" "ch_unlock ?c1 = c"
      using inv ch_items_length [OF inv] by (simp_all add: ch_items_def ch_unlock_def ch_inv_def)
    with Nil inv lock del show ?thesis
      by (auto simp: ch_clean_def ch_inv_def)
  next
    case (Cons x xs)
    from ch_first [OF inv Cons] obtain a as e where
      f: "linked c (a # as)" "elems c a = Some e" "block e = x"
        "map (\<lambda>a. block (the (elems c a))) as = xs" "blk_ok (datalen c) x"
        "list_all (blk_ok (datalen c)) xs" "count c \<noteq> 0" "head c = Some a" "cells c = a # as"
      by blast
    from f(1,2) have ch: "chain (nxt (elems c)) (prev e) as" "distinct (a # as)" "set as \<subseteq> dom (elems c)"
      by (auto simp: linked_def nxt_def)
    have "list_all (blk_ok (datalen ?c1)) (map (\<lambda>a. block (the (elems ?c1 a))) (a # as))"
      using f by simp
    with ch_clean_loop_spec [of ?c1 "prev e" as a e del "[]"] ch f(2) obtain c2 where
      c2: "ch_clean_loop del ?c1 a (prev e) [] =
          Some (c2, if del then void_ptrs (map (\<lambda>a. block (the (elems c a))) (a # as)) else [])"
        "head c2 = None" "tail c2 = None" "count c2 = count c - int (length (a # as))"
        "elems c2 = elems c |` (- set (a # as))" "ch_conf c2 = ch_conf ?c1" "el_brk c2 = el_brk c"
      by auto
    have "linked c2 []"
      using c2 f(1) by (auto simp: linked_def restrict_map_def split: if_splits)
    moreover have conf: "ch_conf (ch_unlock c2) = ch_conf c" using unlock_conf [OF inv c2(6)] .
    moreover have "count c2 = 0" using c2(4) f(1) by (simp add: linked_def)
    ultimately have "ch_inv (ch_unlock c2) \<and> ch_items (ch_unlock c2) = []"
      using ch_inv_again [OF inv, of "ch_unlock c2" "[]"] by (simp add: int_ok_def)
    moreover have "map (\<lambda>a. block (the (elems c a))) (a # as) = ch_items c"
      using f Cons by simp
    with c2(1) f(2,7,8) lock inv del
    have "ch_clean (Some c) del =
        Some (CH_OK, OutDeleted (if del then void_ptrs (ch_items c) else []), Some (ch_unlock c2))"
      by (auto simp: ch_clean_def ch_inv_def)
    ultimately show ?thesis using conf c2(5) f(9) by auto
  qed
qed

lemma ch_setattr_inv:
  assumes "ch_inv c"
  shows "\<exists>rc c'. ch_setattr (Some c) a v = (rc, Some c') \<and> ch_inv c' \<and> ch_items c' = ch_items c"
  using assms
  by (auto simp: ch_setattr_def ch_inv_def cells_def ch_items_def linked_def
        CH_ATTR_BLOCKING_GETPUT_def CH_ATTR_NON_BLOCKING_GETPUT_def)

end
