(* ===== verification/Fifo.thy ===== *)
theory Fifo
  imports Prelude
begin

text \<open>
  The interface of a bounded first-in first-out queue, as the users of a channel see it
  (the thread pool keeps its jobs in one), and what follows from its two laws for
  sequences of puts and gets.
\<close>

primrec put_list :: "('s \<Rightarrow> 'x \<Rightarrow> 's option) \<Rightarrow> 's \<Rightarrow> 'x list \<Rightarrow> 's option" where
  "put_list put s [] = Some s"
| "put_list put s (x # xs) = do { s1 \<leftarrow> put s x; put_list put s1 xs }"

primrec get_list :: "('s \<Rightarrow> ('x \<times> 's) option) \<Rightarrow> 's \<Rightarrow> nat \<Rightarrow> ('x list \<times> 's) option" where
  "get_list get s 0 = Some ([], s)"
| "get_list get s (Suc n) =
     do { (x, s1) \<leftarrow> get s; (xs, s2) \<leftarrow> get_list get s1 n; Some (x # xs, s2) }"

locale fifo =
  fixes put :: "'s \<Rightarrow> 'x \<Rightarrow> 's option"
    and get :: "'s \<Rightarrow> ('x \<times> 's) option"
    and items :: "'s \<Rightarrow> 'x list"
    and limit :: "'s \<Rightarrow> nat"
    and inv :: "'s \<Rightarrow> bool"
  assumes put_law: "inv s \<Longrightarrow> length (items s) < limit s \<Longrightarrow>
      \<exists>s'. put s x = Some s' \<and> inv s' \<and> items s' = items s @ [x] \<and> limit s' = limit s"
    and get_law: "inv s \<Longrightarrow> items s = x # xs \<Longrightarrow>
      \<exists>s'. get s = Some (x, s') \<and> inv s' \<and> items s' = xs \<and> limit s' = limit s"
begin

lemma put_list_items:
  assumes "inv s" and "length (items s) + length xs \<le> limit s"
  shows "\<exists>s'. put_list put s xs = Some s' \<and> inv s' \<and> items s' = items s @ xs \<and> limit s' = limit s"
  using assms
proof (induction xs arbitrary: s)
  case Nil
  then show ?case by simp
next
  case (Cons x xs)
  from put_law [OF Cons.prems(1), of x] Cons.prems(2) obtain s1 where
    s1: "put s x = Some s1" "inv s1" "items s1 = items s @ [x]" "limit s1 = limit s" by auto
  from Cons.IH [OF s1(2)] s1(3,4) Cons.prems(2) obtain s2 where
    "put_list put s1 xs = Some s2" "inv s2" "items s2 = items s1 @ xs" "limit s2 = limit s1" by auto
  with s1 show ?case by simp
qed

lemma get_list_items:
  assumes "inv s" and "n \<le> length (items s)"
  shows "\<exists>s'. get_list get s n = Some (take n (items s), s') \<and> inv s' \<and> items s' = drop n (items s) \<and>
    limit s' = limit s"
  using assms
proof (induction n arbitrary: s)
  case 0
  then show ?case by simp
next
  case (Suc n)
  then obtain x xs where items: "items s = x # xs" by (cases "items s") auto
  from get_law [OF Suc.prems(1) items] obtain s1 where
    s1: "get s = Some (x, s1)" "inv s1" "items s1 = xs" "limit s1 = limit s" by blast
  from Suc.IH [OF s1(2)] s1(3) items Suc.prems(2) obtain s2 where
    "get_list get s1 n = Some (take n (items s1), s2)" "inv s2" "items s2 = drop n (items s1)"
    "limit s2 = limit s1" by auto
  with s1 items show ?case by simp
qed

lemma put_get_in_order:
  assumes "inv s" and "length (items s) + length xs \<le> limit s"
  shows "\<exists>s1 s2. put_list put s xs = Some s1 \<and>
    get_list get s1 (length (items s) + length xs) = Some (items s @ xs, s2) \<and>
    inv s2 \<and> items s2 = []"
proof -
  from put_list_items [OF assms] obtain s1 where
    s1: "put_list put s xs = Some s1" "inv s1" "items s1 = items s @ xs" by blast
  from get_list_items [OF s1(2), of "length (items s) + length xs"] s1(3) show ?thesis
    using s1(1) by auto
qed

end

end
