(* ===== verification/ChannelSpec.thy ===== *)
theory ChannelSpec
  imports ChannelInv Fifo
begin

text \<open>
  The contract of the channel: a bounded queue of blocks. \<open>queue_step\<close> is the
  specification of one call; the channel simulates it for every sequence of calls that
  \<open>queue_ok\<close> allows (no call blocks, the caller's memory is large enough, and no call
  peeks at an end of transmission).
\<close>

section \<open>The specification\<close>

record 'p chq =
  q_datalen :: int
  q_limit :: int
  q_attr :: u32
  q_items :: "'p blk list"

datatype 'p ch_call =
    CPut "'p arg" bool bool
  | CPutHead "'p arg" bool bool
  | CGet "nat option"
  | CPeek "nat option"
  | CSetAttr int int
  | CGetAttr int
  | CClean bool

definition q_full :: "'p chq \<Rightarrow> bool" where
  "q_full q \<longleftrightarrow> 0 < q_limit q \<and> q_limit q \<le> int (length (q_items q))"

definition queue_put :: "'p chq \<Rightarrow> 'p arg \<Rightarrow> int \<Rightarrow> bool \<Rightarrow> bool \<Rightarrow> (int \<times> 'p out) \<times> 'p chq" where
  "queue_put q b w eok bok =
     (if b = ArgNull then ((CH_WRONG_PARAM, NoOut), q)
      else if \<not> eok then ((CH_NO_MEMORY, NoOut), q)
      else case ch_block_of (q_datalen q) b bok of
             Some (Some x) \<Rightarrow>
               if q_full q then ((CH_PUT_CHANNEL_FULL, NoOut), q)
               else ((int (length (q_items q)) + 1, NoOut),
                     q\<lparr>q_items := at_place w x (q_items q)\<rparr>)
           | _ \<Rightarrow> ((CH_NO_MEMORY, NoOut), q))"

definition queue_step :: "'p chq \<Rightarrow> 'p ch_call \<Rightarrow> (int \<times> 'p out) \<times> 'p chq" where
  "queue_step q call =
     (case call of
        CPut b eok bok \<Rightarrow> queue_put q b CH_PUT_STD eok bok
      | CPutHead b eok bok \<Rightarrow> queue_put q b CH_PUT_TOP eok bok
      | CGet dest \<Rightarrow>
          (case (dest, q_items q) of
             (None, _) \<Rightarrow> ((CH_WRONG_PARAM, NoOut), q)
           | (_, []) \<Rightarrow> ((CH_GET_NODATA, NoOut), q)
           | (Some cap, x # xs) \<Rightarrow>
               (if x = BEot then (CH_GET_ENDOFTRANSMISSION, NoOut)
                else (CH_OK, the (ch_copy_out (q_datalen q) x cap)), q\<lparr>q_items := xs\<rparr>))
      | CPeek dest \<Rightarrow>
          (case (dest, q_items q) of
             (None, _) \<Rightarrow> ((CH_WRONG_PARAM, NoOut), q)
           | (_, []) \<Rightarrow> ((CH_GET_NODATA, NoOut), q)
           | (Some cap, x # xs) \<Rightarrow> ((CH_OK, the (ch_copy_out (q_datalen q) x cap)), q))
      | CSetAttr a v \<Rightarrow>
          if a = CH_BLOCKING_MODE then
            (if v = 0 \<or> v = 1 then ((CH_OK, NoOut), q\<lparr>q_attr := (if v = 1 then 1 else 0)\<rparr>)
             else ((CH_WRONG_VALUE, NoOut), q))
          else if a = CH_FIXED_SIZE then
            ((CH_OK, NoOut), if 0 \<le> v then q\<lparr>q_limit := v\<rparr> else q)
          else ((CH_WRONG_ATTR, NoOut), q)
      | CGetAttr a \<Rightarrow>
          if a = CH_BLOCKING_MODE then ((CH_OK, OutInt (sint (q_attr q))), q)
          else if a = CH_COUNT then ((CH_OK, OutInt (int (length (q_items q)))), q)
          else if a = CH_FIXED_SIZE then ((CH_OK, OutInt (q_limit q)), q)
          else ((CH_WRONG_ATTR, NoOut), q)
      | CClean del \<Rightarrow>
          if del \<and> q_datalen q \<noteq> CH_DATALEN_VOIDP then ((CH_FREE_NOT_REQUESTED, NoOut), q)
          else ((CH_OK, OutDeleted (if del then void_ptrs (q_items q) else [])), q\<lparr>q_items := []\<rparr>))"

definition queue_put_ok :: "'p chq \<Rightarrow> 'p arg \<Rightarrow> bool \<Rightarrow> bool" where
  "queue_put_ok q b bok \<longleftrightarrow>
     ch_block_of (q_datalen q) b bok \<noteq> None \<and> (q_full q \<longrightarrow> q_attr q = 0) \<and>
     int_ok (int (length (q_items q)) + 1)"

definition queue_ok :: "'p chq \<Rightarrow> 'p ch_call \<Rightarrow> bool" where
  "queue_ok q call =
     (case call of
        CPut b eok bok \<Rightarrow> b = ArgNull \<or> \<not> eok \<or> queue_put_ok q b bok
      | CPutHead b eok bok \<Rightarrow> b = ArgNull \<or> \<not> eok \<or> queue_put_ok q b bok
      | CGet dest \<Rightarrow>
          (case (dest, q_items q) of
             (None, _) \<Rightarrow> True
           | (Some cap, []) \<Rightarrow> q_attr q = 0
           | (Some cap, x # xs) \<Rightarrow> x = BEot \<or> ch_copy_out (q_datalen q) x cap \<noteq> None)
      | CPeek dest \<Rightarrow>
          (case (dest, q_items q) of
             (Some cap, x # xs) \<Rightarrow> x \<noteq> BEot \<and> ch_copy_out (q_datalen q) x cap \<noteq> None
           | _ \<Rightarrow> True)
      | _ \<Rightarrow> True)"

section \<open>The implementation\<close>

definition ch_step :: "'p ch \<Rightarrow> 'p ch_call \<Rightarrow> ((int \<times> 'p out) \<times> 'p ch) option" where
  "ch_step c call =
     (case call of
        CPut b eok bok \<Rightarrow>
          do { (rc, ch) \<leftarrow> ch_put (Some c) b eok bok; c1 \<leftarrow> ch; Some ((rc, NoOut), c1) }
      | CPutHead b eok bok \<Rightarrow>
          do { (rc, ch) \<leftarrow> ch_put_head (Some c) b eok bok; c1 \<leftarrow> ch; Some ((rc, NoOut), c1) }
      | CGet dest \<Rightarrow>
          do { (rc, out, ch) \<leftarrow> ch_get (Some c) dest; c1 \<leftarrow> ch; Some ((rc, out), c1) }
      | CPeek dest \<Rightarrow>
          do { (rc, out, ch) \<leftarrow> ch_peek (Some c) dest; c1 \<leftarrow> ch; Some ((rc, out), c1) }
      | CSetAttr a v \<Rightarrow>
          (let (rc, ch) = ch_setattr (Some c) a v in do { c1 \<leftarrow> ch; Some ((rc, NoOut), c1) })
      | CGetAttr a \<Rightarrow>
          do { (rc, out, ch) \<leftarrow> ch_getattr (Some c) a; c1 \<leftarrow> ch; Some ((rc, out), c1) }
      | CClean del \<Rightarrow>
          do { (rc, out, ch) \<leftarrow> ch_clean (Some c) del; c1 \<leftarrow> ch; Some ((rc, out), c1) })"

definition ch_abs :: "'p ch \<Rightarrow> 'p chq" where
  "ch_abs c = \<lparr>q_datalen = datalen c, q_limit = max_size c, q_attr = attr c, q_items = ch_items c\<rparr>"

lemma ch_abs_simps [simp]:
  "q_datalen (ch_abs c) = datalen c"
  "q_limit (ch_abs c) = max_size c"
  "q_attr (ch_abs c) = attr c"
  "q_items (ch_abs c) = ch_items c"
  by (simp_all add: ch_abs_def)

lemma ch_abs_items:
  "ch_conf c' = ch_conf c \<Longrightarrow> ch_items c' = xs \<Longrightarrow> ch_abs c' = (ch_abs c)\<lparr>q_items := xs\<rparr>"
  by (simp add: ch_abs_def ch_conf_eq)

lemma ch_abs_same: "ch_conf c' = ch_conf c \<Longrightarrow> ch_items c' = ch_items c \<Longrightarrow> ch_abs c' = ch_abs c"
  by (simp add: ch_abs_def ch_conf_eq)

lemma q_full_abs: "ch_inv c \<Longrightarrow> q_full (ch_abs c) = ch_full c"
  by (simp add: q_full_def ch_full_def ch_items_length)

lemma ch_blocking_attr: "ch_inv c \<Longrightarrow> ch_blocking c \<longleftrightarrow> attr c \<noteq> 0"
  by (auto simp: ch_inv_def ch_blocking_def CH_ATTR_BLOCKING_GETPUT_def)

lemma put_sim:
  assumes inv: "ch_inv c" and w: "w = CH_PUT_STD \<or> w = CH_PUT_TOP"
    and ok: "b = ArgNull \<or> \<not> eok \<or> queue_put_ok (ch_abs c) b bok"
  shows "\<exists>c'. ch_put_at (Some c) b w eok bok = Some (fst (fst (queue_put (ch_abs c) b w eok bok)), Some c') \<and>
    ch_inv c' \<and> ch_abs c' = snd (queue_put (ch_abs c) b w eok bok) \<and>
    snd (fst (queue_put (ch_abs c) b w eok bok)) = NoOut"
proof -
  consider (null) "b = ArgNull" | (nomem) "b \<noteq> ArgNull" "\<not> eok \<or> ch_block_of (datalen c) b bok = Some None"
    | (full) x where "b \<noteq> ArgNull" "eok" "ch_block_of (datalen c) b bok = Some (Some x)" "ch_full c"
    | (room) x where "b \<noteq> ArgNull" "eok" "ch_block_of (datalen c) b bok = Some (Some x)" "\<not> ch_full c"
    using ok unfolding queue_put_ok_def ch_abs_simps by (metis option.exhaust)
  then show ?thesis
  proof cases
    case null
    with inv show ?thesis by (simp add: ch_put_at_def ch_put_enter_def queue_put_def)
  next
    case nomem
    from ch_put_at_no_memory [OF inv nomem] obtain c' where
      c': "ch_put_at (Some c) b w eok bok = Some (CH_NO_MEMORY, Some c')" "ch_inv c'"
        "ch_items c' = ch_items c" "ch_conf c' = ch_conf c" by blast
    from ch_abs_same [OF c'(4,3)] have "ch_abs c' = ch_abs c" .
    moreover have "queue_put (ch_abs c) b w eok bok = ((CH_NO_MEMORY, NoOut), ch_abs c)"
      using nomem by (cases eok) (simp_all add: queue_put_def)
    ultimately show ?thesis using c' by simp
  next
    case full
    with ok inv have "\<not> ch_blocking c"
      by (auto simp: queue_put_ok_def q_full_abs ch_blocking_attr)
    from ch_put_at_full [OF inv full(1,3,4) this] obtain c' where
      c': "ch_put_at (Some c) b w True bok = Some (CH_PUT_CHANNEL_FULL, Some c')" "ch_inv c'"
        "ch_items c' = ch_items c" "ch_conf c' = ch_conf c" by blast
    with ch_abs_same [OF c'(4,3)] full inv show ?thesis
      by (simp add: queue_put_def q_full_abs)
  next
    case room
    with ok inv have "int_ok (count c + 1)"
      by (auto simp: queue_put_ok_def ch_items_length)
    from ch_put_at_accept [OF inv room(1,3,4) this w] obtain c' where
      c': "ch_put_at (Some c) b w True bok = Some (count c + 1, Some c')" "ch_inv c'"
        "ch_items c' = at_place w x (ch_items c)" "ch_conf c' = ch_conf c" by blast
    with ch_abs_items [OF c'(4,3)] room inv show ?thesis
      by (simp add: queue_put_def q_full_abs ch_items_length)
  qed
qed

lemma ch_getattr_spec:
  assumes "ch_inv c"
  shows "\<exists>rc out. ch_getattr (Some c) a = Some (rc, out, Some c) \<and>
    queue_step (ch_abs c) (CGetAttr a) = ((rc, out), ch_abs c)"
proof -
  have "ch_unlock (c\<lparr>ch_locked := True\<rparr>) = c" "\<not> ch_locked c" "magic c = CH_MAGIC_ID"
    using assms by (simp_all add: ch_unlock_def ch_inv_def)
  with ch_items_length [OF assms] show ?thesis
    by (simp add: ch_getattr_def queue_step_def ch_lock_def)
qed

lemma ch_setattr_spec:
  assumes "ch_inv c"
  shows "\<exists>rc c'. ch_setattr (Some c) a v = (rc, Some c') \<and> ch_inv c' \<and>
    queue_step (ch_abs c) (CSetAttr a v) = ((rc, NoOut), ch_abs c')"
proof -
  have "attr c = 0 \<or> attr c = 1" "magic c = CH_MAGIC_ID" using assms by (auto simp: ch_inv_def)
  with assms ch_setattr_inv [OF assms, of a v] show ?thesis
    by (auto simp: ch_setattr_def queue_step_def ch_abs_def
          CH_ATTR_BLOCKING_GETPUT_def CH_ATTR_NON_BLOCKING_GETPUT_def)
qed

lemma ch_peek_null: "ch_peek (Some c) None = Some (CH_WRONG_PARAM, NoOut, Some c)"
  by (simp add: ch_peek_def)

lemma ch_step_simulates:
  assumes inv: "ch_inv c" and ok: "queue_ok (ch_abs c) call"
  shows "\<exists>c'. ch_step c call = Some (fst (queue_step (ch_abs c) call), c') \<and> ch_inv c' \<and>
    ch_abs c' = snd (queue_step (ch_abs c) call)"
proof (cases call)
  case (CPut b eok bok)
  with put_sim [OF inv, of CH_PUT_STD b eok bok] ok show ?thesis
    by (auto simp: ch_step_def queue_step_def queue_ok_def ch_put_def prod_eq_iff)
next
  case (CPutHead b eok bok)
  with put_sim [OF inv, of CH_PUT_TOP b eok bok] ok show ?thesis
    by (auto simp: ch_step_def queue_step_def queue_ok_def ch_put_head_def prod_eq_iff)
next
  case (CGet dest)
  show ?thesis
  proof (cases dest)
    case None
    with CGet inv show ?thesis by (simp add: ch_step_def queue_step_def ch_get_def)
  next
    case (Some cap)
    show ?thesis
    proof (cases "ch_items c")
      case Nil
      with CGet Some ok inv have "\<not> ch_blocking c" by (simp add: queue_ok_def ch_blocking_attr)
      with ch_get_empty [OF inv Nil, of cap] Nil CGet Some inv show ?thesis
        by (simp add: ch_step_def queue_step_def)
    next
      case (Cons x xs)
      with CGet Some ok have "x = BEot \<or> ch_copy_out (datalen c) x cap = Some (the (ch_copy_out (datalen c) x cap))"
        by (auto simp: queue_ok_def)
      from ch_get_spec [OF inv Cons this] obtain c' where
        c': "ch_get (Some c) (Some cap) =
            Some (if x = BEot then CH_GET_ENDOFTRANSMISSION else CH_OK,
                  if x = BEot then NoOut else the (ch_copy_out (datalen c) x cap), Some c')"
          "ch_inv c'" "ch_items c' = xs" "ch_conf c' = ch_conf c" by blast
      from c'(1) ch_abs_items [OF c'(4,3)] Cons CGet Some
      have "ch_step c call = Some (fst (queue_step (ch_abs c) call), c') \<and>
          ch_abs c' = snd (queue_step (ch_abs c) call)"
        by (simp add: ch_step_def queue_step_def)
      with c'(2) show ?thesis by blast
    qed
  qed
next
  case (CPeek dest)
  with inv ok show ?thesis
    by (cases dest; cases "ch_items c")
      (auto simp: ch_step_def queue_step_def queue_ok_def ch_peek_spec ch_peek_null)
next
  case (CSetAttr a v)
  with ch_setattr_spec [OF inv, of a v] show ?thesis by (auto simp: ch_step_def)
next
  case (CGetAttr a)
  with ch_getattr_spec [OF inv, of a] inv show ?thesis by (auto simp: ch_step_def)
next
  case (CClean del)
  show ?thesis
  proof (cases "del \<and> datalen c \<noteq> CH_DATALEN_VOIDP")
    case True
    with CClean inv show ?thesis
      by (simp add: ch_step_def queue_step_def ch_clean_def ch_inv_def)
  next
    case False
    with ch_clean_spec [OF inv, of del] obtain c' where
      c': "ch_clean (Some c) del =
          Some (CH_OK, OutDeleted (if del then void_ptrs (ch_items c) else []), Some c')"
        "ch_inv c'" "ch_items c' = []" "ch_conf c' = ch_conf c" by blast
    with ch_abs_items [OF c'(4,3)] False CClean show ?thesis
      by (auto simp: ch_step_def queue_step_def)
  qed
qed

interpretation chan: simulation ch_step queue_step queue_ok ch_abs ch_inv
  by unfold_locales (rule ch_step_simulates)

section \<open>Channels of pointers as queues\<close>

definition ptr_put :: "'p ch \<Rightarrow> 'p \<Rightarrow> 'p ch option" where
  "ptr_put c p =
     do { (rc, ch) \<leftarrow> ch_put (Some c) (ArgPtr p []) True True;
          assert_opt (0 < rc);
          ch }"

definition ptr_get :: "'p ch \<Rightarrow> ('p \<times> 'p ch) option" where
  "ptr_get c =
     do { (rc, out, ch) \<leftarrow> ch_get (Some c) (Some 8);
          c1 \<leftarrow> ch;
          case out of OutPtr p \<Rightarrow> Some (p, c1) | _ \<Rightarrow> None }"

definition ptr_limit :: "'p ch \<Rightarrow> nat" where
  "ptr_limit c = (if max_size c = 0 then 2147483647 else nat (min (max_size c) 2147483647))"

definition ptr_chan :: "'p ch \<Rightarrow> bool" where
  "ptr_chan c \<longleftrightarrow> ch_inv c \<and> datalen c = CH_DATALEN_VOIDP \<and> BEot \<notin> set (ch_items c)"

definition ptr_items :: "'p ch \<Rightarrow> 'p list" where
  "ptr_items c = void_ptrs (ch_items c)"

lemma void_ptrs_append [simp]: "void_ptrs (xs @ ys) = void_ptrs xs @ void_ptrs ys"
  by (simp add: void_ptrs_def)

lemma void_ptrs_all: "list_all (blk_ok 0) bs \<Longrightarrow> BEot \<notin> set bs \<Longrightarrow> map BPtr (void_ptrs bs) = bs"
  by (induction bs) (auto simp: blk_ok_def CH_DATALEN_STRING_def split: blk.splits)

lemma void_ptrs_map [simp]: "void_ptrs (map BPtr ps) = ps"
  by (induction ps) auto

lemma ptr_chan_items:
  assumes "ptr_chan c"
  shows "ch_items c = map BPtr (ptr_items c)"
proof -
  from assms have "datalen c = 0" by (simp add: ptr_chan_def CH_DATALEN_VOIDP_def)
  with assms have "list_all (blk_ok 0) (ch_items c)" "BEot \<notin> set (ch_items c)"
    by (auto simp: ptr_chan_def ch_inv_def)
  then show ?thesis unfolding ptr_items_def by (rule void_ptrs_all [symmetric])
qed

lemma ptr_put_law:
  assumes "ptr_chan c" and "length (ptr_items c) < ptr_limit c"
  shows "\<exists>c'. ptr_put c p = Some c' \<and> ptr_chan c' \<and> ptr_items c' = ptr_items c @ [p] \<and>
    ptr_limit c' = ptr_limit c"
proof -
  from assms(1) have inv: "ch_inv c" and dl: "datalen c = CH_DATALEN_VOIDP" "BEot \<notin> set (ch_items c)"
    by (simp_all add: ptr_chan_def)
  have n: "count c = int (length (ptr_items c))" "0 \<le> max_size c"
    using ptr_chan_items [OF assms(1)] ch_items_length [OF inv] inv
    by (metis length_map, simp add: ch_inv_def)
  then have room: "\<not> ch_full c" "int_ok (count c + 1)"
    using assms(2) by (auto simp: ch_full_def ptr_limit_def int_ok_def split: if_splits)
  have "ch_block_of (datalen c) (ArgPtr p []) True = Some (Some (BPtr p))"
    by (simp add: ch_block_of_def dl CH_DATALEN_VOIDP_def)
  from ch_put_at_accept [OF inv _ this room, of CH_PUT_STD] obtain c' where
    c': "ch_put_at (Some c) (ArgPtr p []) CH_PUT_STD True True = Some (count c + 1, Some c')"
      "ch_inv c'" "ch_items c' = ch_items c @ [BPtr p]" "ch_conf c' = ch_conf c"
    by (auto simp: at_place_def)
  moreover from c'(4) have "max_size c' = max_size c" "datalen c' = datalen c"
    by (simp_all only: ch_conf_eq)
  moreover have "ptr_put c p = Some c'" using c'(1) n(1) by (simp add: ptr_put_def ch_put_def)
  moreover have "BEot \<notin> set (ch_items c')" "void_ptrs (ch_items c') = void_ptrs (ch_items c) @ [p]"
    using c'(3) dl(2) by simp_all
  ultimately have "ptr_put c p = Some c'" "ptr_chan c'" "ptr_items c' = ptr_items c @ [p]"
    "ptr_limit c' = ptr_limit c" "ch_conf c' = ch_conf c"
    using dl(1) by (simp_all only: ptr_chan_def ptr_items_def ptr_limit_def) simp_all
  then show ?thesis by blast
qed

lemma ptr_get_law:
  assumes "ptr_chan c" and "ptr_items c = p # ps"
  shows "\<exists>c'. ptr_get c = Some (p, c') \<and> ptr_chan c' \<and> ptr_items c' = ps \<and>
    ptr_limit c' = ptr_limit c"
proof -
  from assms(1) have inv: "ch_inv c" and dl: "datalen c = CH_DATALEN_VOIDP" "BEot \<notin> set (ch_items c)"
    by (simp_all add: ptr_chan_def)
  from ptr_chan_items [OF assms(1)] assms(2)
  have items: "ch_items c = BPtr p # map BPtr ps" by simp
  have "BPtr p = BEot \<or> ch_copy_out (datalen c) (BPtr p) 8 = Some (OutPtr p)"
    by (simp add: ch_copy_out_def dl CH_DATALEN_VOIDP_def)
  from ch_get_spec [OF inv items this] obtain c' where
    c': "ch_get (Some c) (Some 8) = Some (CH_OK, OutPtr p, Some c')" "ch_inv c'"
      "ch_items c' = map BPtr ps" "ch_conf c' = ch_conf c" by auto
  from c'(4) have "max_size c' = max_size c" "datalen c' = datalen c"
    by (simp_all only: ch_conf_eq)
  moreover have "ptr_get c = Some (p, c')" using c'(1) by (simp add: ptr_get_def)
  moreover have "BEot \<notin> set (ch_items c')" "void_ptrs (ch_items c') = ps"
    using c'(3) by auto
  ultimately have "ptr_get c = Some (p, c')" "ptr_chan c'" "ptr_items c' = ps"
    "ptr_limit c' = ptr_limit c"
    using c'(2) dl(1) by (simp_all only: ptr_chan_def ptr_items_def ptr_limit_def) simp_all
  then show ?thesis by blast
qed

interpretation pchan: fifo ptr_put ptr_get ptr_items ptr_limit ptr_chan
  by unfold_locales (fact ptr_put_law, fact ptr_get_law)

section \<open>Properties\<close>

text \<open>C15: any sequence of puts (at either end), gets, peeks, attribute calls and cleans on a
  channel returns what the bounded queue of blocks returns, and leaves the channel's
  linked list holding that queue, as long as no call blocks, the caller's memory is large
  enough, and no call peeks at an end of transmission.\<close>

theorem channel_refines_queue:
  assumes "ch_inv c" and "guarded queue_ok queue_step (ch_abs c) calls"
  shows "\<exists>c'. run ch_step c calls = Some (fst (spec_run queue_step (ch_abs c) calls), c') \<and>
    ch_inv c' \<and> ch_abs c' = snd (spec_run queue_step (ch_abs c) calls)"
  using assms by (rule chan.run_simulates)

text \<open>C38: pointers put into a channel of pointers come out in the order they went in, after
  those already queued, as long as they fit.\<close>

theorem channel_put_get_in_order:
  assumes "ptr_chan c" and "length (ptr_items c) + length ps \<le> ptr_limit c"
  shows "\<exists>c1 c2. put_list ptr_put c ps = Some c1 \<and>
    get_list ptr_get c1 (length (ptr_items c) + length ps) = Some (ptr_items c @ ps, c2) \<and>
    ptr_chan c2 \<and> ptr_items c2 = []"
  using assms by (rule pchan.put_get_in_order)

text \<open>A put that succeeds, is refused because the channel is full, or fails to allocate its
  element leaks nothing; one that fails to allocate its block loses the element.\<close>

theorem ch_put_memory:
  assumes "ch_inv c" and "ch_tight c" and "b \<noteq> ArgNull" and "int_ok (count c + 1)"
    and "ch_block_of (datalen c) b bok = Some blk" and "ch_full c \<longrightarrow> \<not> ch_blocking c"
  shows "\<exists>rc c'. ch_put (Some c) b eok bok = Some (rc, Some c') \<and> ch_inv c' \<and>
    (ch_tight c' \<longleftrightarrow> \<not> (eok \<and> blk = None))"
proof -
  note puts = ch_put_at_no_memory [OF assms(1,3)] ch_put_at_full [OF assms(1,3)]
    ch_put_at_accept [OF assms(1,3)]
  consider (fail) "eok" "blk = None" | (none) "\<not> eok"
    | (full) x where "eok" "blk = Some x" "ch_full c" | (room) x where "eok" "blk = Some x" "\<not> ch_full c"
    by (cases blk) auto
  then show ?thesis
  proof cases
    case fail
    with puts(1) [of eok bok CH_PUT_STD] assms(5) show ?thesis unfolding ch_put_def by blast
  next
    case none
    with assms show ?thesis
      by (auto simp: ch_put_def ch_put_at_def ch_put_enter_def ch_inv_def)
  next
    case full
    with puts(2) [of bok x CH_PUT_STD] assms(2,5,6) show ?thesis
      unfolding ch_put_def ch_tight_def by (simp only: simp_thms) force
  next
    case room
    with puts(3) [of bok x CH_PUT_STD] assms(2,4,5) show ?thesis
      unfolding ch_put_def by (simp only: simp_thms) force
  qed
qed

text \<open>\<open>ch_clean\<close> empties the channel, frees every queued element and passes exactly the
  queued pointers to the delete function, in queue order; a delete function on a channel
  that copies its blocks is refused with nothing cleaned.\<close>

theorem ch_clean_empties:
  assumes "ch_inv c" and "ch_tight c"
  shows "\<exists>rc out c'. ch_clean (Some c) del = Some (rc, out, Some c') \<and> ch_inv c' \<and>
    (if del \<and> datalen c \<noteq> CH_DATALEN_VOIDP then rc = CH_FREE_NOT_REQUESTED \<and> c' = c
     else rc = CH_OK \<and> out = OutDeleted (if del then void_ptrs (ch_items c) else []) \<and>
       ch_items c' = [] \<and> elems c' = Map.empty)"
proof (cases "del \<and> datalen c \<noteq> CH_DATALEN_VOIDP")
  case True
  with assms show ?thesis by (auto simp: ch_clean_def ch_inv_def)
next
  case False
  with ch_clean_spec [OF assms(1), of del] obtain c' where
    c': "ch_clean (Some c) del =
        Some (CH_OK, OutDeleted (if del then void_ptrs (ch_items c) else []), Some c')"
      "ch_inv c'" "ch_items c' = []" "elems c' = elems c |` (- set (cells c))" by blast
  have "elems c |` (- dom (elems c)) = Map.empty" by (auto simp: restrict_map_def fun_eq_iff)
  with c'(4) assms(2) have "elems c' = Map.empty" by (simp add: ch_tight_def)
  with c' False show ?thesis by auto
qed

text \<open>\<open>ch_destroy\<close> on a valid channel without waiting getters frees every element and, when
  the library allocated it, the handle; a handle of the caller is then refused by every
  other operation.\<close>

theorem ch_destroy_correct:
  assumes "ch_inv c" and "ch_tight c" and "\<not> (ch_blocking c \<and> 0 < get_waiting_threads c)"
  shows "if ch_allocated c then ch_destroy (Some c) = Some (CH_OK, None)
    else \<exists>c'. ch_destroy (Some c) = Some (CH_OK, Some c') \<and> elems c' = Map.empty \<and>
      (\<forall>b w eok bok. ch_put_at (Some c') b w eok bok = Some (CH_WRONG_PARAM, Some c')) \<and>
      (\<forall>dest. ch_get (Some c') dest = Some (CH_WRONG_PARAM, NoOut, Some c')) \<and>
      (\<forall>del. ch_clean (Some c') del = Some (CH_BAD_HANDLE, NoOut, Some c')) \<and>
      ch_destroy (Some c') = Some (CH_BAD_HANDLE, Some c')"
proof -
  from ch_clean_spec [OF assms(1), of False] obtain c1 where
    c1: "ch_clean (Some c) False = Some (CH_OK, OutDeleted [], Some c1)" "ch_conf c1 = ch_conf c"
      "elems c1 = elems c |` (- set (cells c))" by auto
  have "elems c |` (- dom (elems c)) = Map.empty" by (auto simp: restrict_map_def fun_eq_iff)
  with c1(3) assms(2) have e: "elems c1 = Map.empty" by (simp add: ch_tight_def)
  from c1(2) have f: "ch_allocated c1 = ch_allocated c" "attr c1 = attr c"
    "get_waiting_threads c1 = get_waiting_threads c"
    by (simp_all only: ch_conf_eq)
  have d: "ch_destroy (Some c) = Some (CH_OK, if ch_allocated c then None else Some (c1\<lparr>magic := 13\<rparr>))"
    using assms(1,3) c1(1) f by (simp add: ch_destroy_def ch_inv_def ch_blocking_def Let_def)
  show ?thesis
  proof (cases "ch_allocated c")
    case True
    with d show ?thesis by simp
  next
    case False
    have "(13::int) \<noteq> CH_MAGIC_ID" by (simp add: CH_MAGIC_ID_def)
    then have "(\<forall>b w eok bok. ch_put_at (Some (c1\<lparr>magic := 13\<rparr>)) b w eok bok =
          Some (CH_WRONG_PARAM, Some (c1\<lparr>magic := 13\<rparr>))) \<and>
        (\<forall>dest. ch_get (Some (c1\<lparr>magic := 13\<rparr>)) dest = Some (CH_WRONG_PARAM, NoOut, Some (c1\<lparr>magic := 13\<rparr>))) \<and>
        (\<forall>del. ch_clean (Some (c1\<lparr>magic := 13\<rparr>)) del = Some (CH_BAD_HANDLE, NoOut, Some (c1\<lparr>magic := 13\<rparr>))) \<and>
        ch_destroy (Some (c1\<lparr>magic := 13\<rparr>)) = Some (CH_BAD_HANDLE, Some (c1\<lparr>magic := 13\<rparr>))"
      by (simp add: ch_put_at_def ch_put_enter_def ch_get_def ch_clean_def ch_destroy_def
            split: option.split)
    with d False e show ?thesis by auto
  qed
qed

text \<open>Peeking at an end of transmission decrements the count and leaves the element in the
  queue. With one more block queued, a clean then leaves the count at -1, and the next get
  dereferences the null head.\<close>

theorem ch_peek_eot_breaks_count:
  assumes "ch_inv c" and "ch_items c = [BEot, x]"
  shows "\<exists>c1 c2. ch_peek (Some c) (Some cap) = Some (CH_GET_ENDOFTRANSMISSION, NoOut, Some c1) \<and>
    count c1 = 1 \<and> elems c1 = elems c \<and> head c1 = head c \<and>
    ch_clean (Some c1) False = Some (CH_OK, OutDeleted [], Some c2) \<and> count c2 = -1 \<and>
    ch_get (Some c2) (Some cap2) = None"
proof -
  let ?c1 = "c\<lparr>count := 1\<rparr>" and ?c1l = "c\<lparr>count := 1, ch_locked := True\<rparr>"
  have n: "count c = 2" using ch_items_length [OF assms(1)] assms(2) by simp
  obtain a as e where
    f: "linked c (a # as)" "elems c a = Some e" "block e = BEot"
      "map (\<lambda>a. block (the (elems c a))) as = [x]"
      "list_all (blk_ok (datalen c)) [x]" "count c \<noteq> 0" "head c = Some a" "cells c = a # as"
    by (rule ch_first [OF assms]) (rule that)
  from f(4) obtain b where as: "as = [b]" by auto
  have peek: "ch_peek (Some c) (Some cap) = Some (CH_GET_ENDOFTRANSMISSION, NoOut, Some ?c1)"
    using ch_peek_spec [OF assms(1), of cap] assms(2) n by simp
  have "list_all (blk_ok (datalen ?c1l)) (map (\<lambda>a. block (the (elems ?c1l a))) (a # as))"
    using f by (simp add: blk_ok_def)
  with ch_clean_loop_spec [of ?c1l "prev e" as a e False "[]"] f(1,2) obtain c2 where
    c2: "ch_clean_loop False ?c1l a (prev e) [] = Some (c2, [])" "head c2 = None"
      "count c2 = -1" "ch_conf c2 = ch_conf ?c1l"
    by (auto simp: linked_def nxt_def as)
  have "ch_lock ?c1 = Some ?c1l" using assms(1) by (simp add: ch_lock_def ch_inv_def)
  then have "ch_clean (Some ?c1) False = Some (CH_OK, OutDeleted [], Some (ch_unlock c2))"
    using c2(1) f(2,7) assms(1) by (simp add: ch_clean_def ch_inv_def)
  moreover have "magic c2 = CH_MAGIC_ID"
    using c2(4) assms(1) by (simp add: ch_conf_eq ch_inv_def)
  then have "ch_get (Some (ch_unlock c2)) (Some cap2) = None"
    using c2(2,3) by (simp add: ch_get_def ch_lock_def ch_take_def ch_unlock_def)
  ultimately show ?thesis using peek c2(3) by (intro exI [of _ ?c1] exI [of _ "ch_unlock c2"]) simp
qed

section \<open>Witnesses\<close>

definition ex_ch :: "nat ch" where
  "ex_ch = \<lparr>magic = 3274, ch_allocated = False, datalen = 0, count = 2, max_size = 3, attr = 0,
     head = Some 4, tail = Some 7, get_waiting_threads = 0, put_waiting_threads = 0,
     ch_locked = False,
     elems = [4 \<mapsto> \<lparr>block = BPtr 10, prev = Some 7\<rparr>, 7 \<mapsto> \<lparr>block = BPtr 20, prev = None\<rparr>],
     el_brk = 8\<rparr>"

definition ex_eot :: "nat ch" where
  "ex_eot = ex_ch\<lparr>elems := [4 \<mapsto> \<lparr>block = BEot, prev = Some 7\<rparr>, 7 \<mapsto> \<lparr>block = BPtr 20, prev = None\<rparr>]\<rparr>"

lemma ex_ch_linked: "linked ex_ch [4, 7]"
  by (simp add: linked_def ex_ch_def nxt_def dom_def)

lemma ex_ch_ok: "ch_inv ex_ch" "ch_items ex_ch = [BPtr 10, BPtr 20]" "ch_tight ex_ch"
  "ptr_chan ex_ch" "ptr_items ex_ch = [10, 20]" "ptr_limit ex_ch = 3" "count ex_ch = 2"
proof -
  show items: "ch_items ex_ch = [BPtr 10, BPtr 20]"
    unfolding linked_items [OF ex_ch_linked] by (simp add: ex_ch_def)
  show inv: "ch_inv ex_ch"
    using ex_ch_linked items linked_cells [OF ex_ch_linked]
    by (simp add: ch_inv_def)
      (simp add: ex_ch_def CH_MAGIC_ID_def CH_DATALEN_STRING_def CH_DATALEN_VOIDP_def int_ok_def blk_ok_def)
  show "ch_tight ex_ch"
    using linked_cells [OF ex_ch_linked] by (auto simp: ch_tight_def) (auto simp: ex_ch_def split: if_splits)
  show "ptr_chan ex_ch"
    using inv items by (simp add: ptr_chan_def) (simp add: ex_ch_def CH_DATALEN_VOIDP_def)
  show "ptr_items ex_ch = [10, 20]" by (simp add: ptr_items_def items)
  show "ptr_limit ex_ch = 3" by (simp add: ptr_limit_def ex_ch_def)
  show "count ex_ch = 2" by (simp add: ex_ch_def)
qed

lemma ex_eot_ok: "ch_inv ex_eot" "ch_items ex_eot = [BEot, BPtr 20]"
proof -
  have l: "linked ex_eot [4, 7]"
    by (simp add: linked_def ex_eot_def ex_ch_def nxt_def dom_def)
  show items: "ch_items ex_eot = [BEot, BPtr 20]"
    unfolding linked_items [OF l] by (simp add: ex_eot_def)
  show "ch_inv ex_eot"
    using l items linked_cells [OF l]
    by (simp add: ch_inv_def)
      (simp add: ex_eot_def ex_ch_def CH_MAGIC_ID_def CH_DATALEN_STRING_def CH_DATALEN_VOIDP_def
        int_ok_def blk_ok_def)
qed

lemma ex_ch_abs:
  "ch_abs ex_ch = \<lparr>q_datalen = 0, q_limit = 3, q_attr = 0, q_items = [BPtr 10, BPtr 20]\<rparr>"
  by (simp add: ch_abs_def ex_ch_ok) (simp add: ex_ch_def)

lemma ex_ch_fields: "datalen ex_ch = 0" "\<not> ch_full ex_ch" "\<not> ch_blocking ex_ch"
  "\<not> ch_allocated ex_ch"
  by (simp_all add: ex_ch_def ch_full_def ch_blocking_def CH_ATTR_BLOCKING_GETPUT_def)

theorem channel_refines_queue_witness:
  "\<exists>c'. run ch_step ex_ch [CPutHead (ArgPtr 5 []) True True, CPut (ArgPtr 6 []) True True,
        CGet (Some 8), CPut ArgEot True True] =
      Some ([(3, NoOut), (-9, NoOut), (1, OutPtr 5), (3, NoOut)], c') \<and>
    ch_items c' = [BPtr 10, BPtr 20, BEot]"
proof -
  let ?calls = "[CPutHead (ArgPtr 5 []) True True, CPut (ArgPtr 6 []) True True,
    CGet (Some 8), CPut ArgEot True True] :: nat ch_call list"
  note d = queue_step_def queue_put_def queue_ok_def queue_put_ok_def q_full_def ch_block_of_def
    at_place_def ch_copy_out_def int_ok_def ch_code_defs CH_PUT_STD_def CH_PUT_TOP_def
  have "guarded queue_ok queue_step (ch_abs ex_ch) ?calls"
    by (simp add: ex_ch_abs d)
  from channel_refines_queue [OF ex_ch_ok(1) this] obtain c' where
    c': "run ch_step ex_ch ?calls = Some (fst (spec_run queue_step (ch_abs ex_ch) ?calls), c')"
      "ch_abs c' = snd (spec_run queue_step (ch_abs ex_ch) ?calls)" by blast
  have "q_items (ch_abs c') = [BPtr 10, BPtr 20, BEot]"
    unfolding c'(2) by (simp add: ex_ch_abs d)
  with c'(1) show ?thesis by (simp add: ex_ch_abs d del: run.simps)
qed

theorem channel_put_get_in_order_witness:
  "\<exists>c1 c2. put_list ptr_put ex_ch [30] = Some c1 \<and> get_list ptr_get c1 3 = Some ([10, 20, 30], c2)"
  using channel_put_get_in_order [OF ex_ch_ok(4), of "[30]"]
  by (auto simp: ex_ch_ok(5,6) eval_nat_numeral simp del: put_list.simps get_list.simps)

theorem ch_put_memory_witness:
  "\<exists>rc c'. ch_put (Some ex_ch) (ArgPtr 5 []) True True = Some (rc, Some c') \<and> ch_tight c'"
proof -
  have "ch_block_of (datalen ex_ch) (ArgPtr 5 []) True = Some (Some (BPtr 5))"
    by (simp add: ex_ch_fields ch_block_of_def CH_DATALEN_VOIDP_def)
  from ch_put_memory [OF ex_ch_ok(1,3) _ _ this, of True] show ?thesis
    by (auto simp: ex_ch_ok(7) ex_ch_fields int_ok_def)
qed

theorem ch_clean_empties_witness:
  "\<exists>c'. ch_clean (Some ex_ch) True = Some (CH_OK, OutDeleted [10, 20], Some c') \<and> ch_items c' = []"
  using ch_clean_empties [OF ex_ch_ok(1,3), of True]
  by (auto simp: ex_ch_fields CH_DATALEN_VOIDP_def ex_ch_ok(2))

theorem ch_destroy_correct_witness:
  "\<exists>c'. ch_destroy (Some ex_ch) = Some (CH_OK, Some c') \<and> elems c' = Map.empty"
  using ch_destroy_correct [OF ex_ch_ok(1,3)] by (auto simp: ex_ch_fields)

theorem ch_peek_eot_breaks_count_witness:
  "\<exists>c1 c2. ch_peek (Some ex_eot) (Some 8) = Some (CH_GET_ENDOFTRANSMISSION, NoOut, Some c1) \<and>
    ch_clean (Some c1) False = Some (CH_OK, OutDeleted [], Some c2) \<and>
    ch_get (Some c2) (Some 8) = None"
  using ch_peek_eot_breaks_count [OF ex_eot_ok, of 8 8] by blast

end
