(* ===== verification/ChannelThreads.thy ===== *)
theory ChannelThreads
  imports ChannelSpec
begin

text \<open>
  A channel shared by several threads. The state is the channel and, for each thread, where
  it is in \<open>_ch_put\<close> or \<open>ch_get\<close>; the code runs from taking the mutex (at the start, or
  when \<open>pthread_cond_wait\<close> returns) to releasing it (at the end, or in the next wait) as one
  step. A signal wakes one thread that sleeps on the condition variable, any one; a sleeping
  thread may also wake without a signal. The attributes do not change while threads run.

  A thread in \<open>PutReady\<close> has made its element and not yet taken the mutex. \<open>put_log\<close> and
  \<open>get_log\<close> record, in order, the blocks linked in and the blocks taken out; \<open>top_used\<close>
  records whether a block was put at the head.
\<close>

section \<open>The system\<close>

datatype tpc =
    Idle
  | PutReady nat int
  | PutWait nat int
  | PutWoken nat int
  | GetWait nat
  | GetWoken nat

record 'p chsys =
  chan :: "'p ch"
  pcs :: "tpc list"
  put_log :: "'p blk list"
  get_log :: "'p blk list"
  top_used :: bool

text \<open>What a signal does to a thread that sleeps on the condition variable of gets, and to
  one that sleeps on that of puts.\<close>

definition wake_get :: "tpc \<Rightarrow> tpc option" where
  "wake_get q = (case q of GetWait n \<Rightarrow> Some (GetWoken n) | _ \<Rightarrow> None)"

definition wake_put :: "tpc \<Rightarrow> tpc option" where
  "wake_put q = (case q of PutWait a w \<Rightarrow> Some (PutWoken a w) | _ \<Rightarrow> None)"

inductive cond_signal :: "(tpc \<Rightarrow> tpc option) \<Rightarrow> tpc list \<Rightarrow> tpc list \<Rightarrow> bool" for f where
  nobody: "\<forall>q \<in> set ps. f q = None \<Longrightarrow> cond_signal f ps ps"
| somebody: "u < length ps \<Longrightarrow> f (ps ! u) = Some q \<Longrightarrow> cond_signal f ps (ps[u := q])"

text \<open>A thread about to run \<open>_ch_put\<close> from the point where it holds the mutex: its element,
  where it goes, and whether it comes out of a wait.\<close>

definition put_entry :: "tpc \<Rightarrow> (nat \<times> int \<times> bool) option" where
  "put_entry q =
     (case q of PutReady a w \<Rightarrow> Some (a, w, False) | PutWoken a w \<Rightarrow> Some (a, w, True) | _ \<Rightarrow> None)"

definition put_relock :: "'p ch \<Rightarrow> bool \<Rightarrow> 'p ch" where
  "put_relock c woken = (if woken then c\<lparr>put_waiting_threads := put_waiting_threads c - 1\<rparr> else c)"

definition put_waits :: "'p ch \<Rightarrow> bool \<Rightarrow> bool" where
  "put_waits c woken \<longleftrightarrow> (if woken then max_size c \<le> count c else ch_full c \<and> ch_blocking c)"

text \<open>Likewise for \<open>ch_get\<close>; an idle thread may start one with any destination.\<close>

definition get_entry :: "tpc \<Rightarrow> nat \<Rightarrow> (nat \<times> bool) option" where
  "get_entry q cap =
     (case q of Idle \<Rightarrow> Some (cap, False) | GetWoken n \<Rightarrow> Some (n, True) | _ \<Rightarrow> None)"

definition get_relock :: "'p ch \<Rightarrow> bool \<Rightarrow> 'p ch" where
  "get_relock c woken = (if woken then c\<lparr>get_waiting_threads := get_waiting_threads c - 1\<rparr> else c)"

text \<open>The destination is large enough for the blocks of the channel, where their size is
  fixed.\<close>

definition dest_ok :: "int \<Rightarrow> nat \<Rightarrow> bool" where
  "dest_ok dl cap \<longleftrightarrow> dl \<le> int cap \<and> (dl = CH_DATALEN_VOIDP \<longrightarrow> 8 \<le> cap)"

inductive chs_step :: "'p chsys \<Rightarrow> 'p chsys \<Rightarrow> bool" where
  put_start:
    "t < length (pcs s) \<Longrightarrow> pcs s ! t = Idle \<Longrightarrow> w = CH_PUT_STD \<or> w = CH_PUT_TOP \<Longrightarrow>
     ch_put_enter (chan s) b eok bok = Some (r, c1) \<Longrightarrow>
     chs_step s (s\<lparr>chan := c1,
                   pcs := (case r of Inl rc \<Rightarrow> pcs s | Inr a \<Rightarrow> (pcs s)[t := PutReady a w])\<rparr>)"
| put_sleep:
    "t < length (pcs s) \<Longrightarrow> put_entry (pcs s ! t) = Some (a, w, woken) \<Longrightarrow>
     c = put_relock (chan s) woken \<Longrightarrow> put_waits c woken \<Longrightarrow>
     chs_step s (s\<lparr>chan := c\<lparr>put_waiting_threads := put_waiting_threads c + 1\<rparr>,
                   pcs := (pcs s)[t := PutWait a w]\<rparr>)"
| put_refused:
    "t < length (pcs s) \<Longrightarrow> pcs s ! t = PutReady a w \<Longrightarrow>
     ch_full (chan s) \<Longrightarrow> \<not> ch_blocking (chan s) \<Longrightarrow>
     chs_step s (s\<lparr>chan := el_free (chan s) a, pcs := (pcs s)[t := Idle]\<rparr>)"
| put_done:
    "t < length (pcs s) \<Longrightarrow> put_entry (pcs s ! t) = Some (a, w, woken) \<Longrightarrow>
     c = put_relock (chan s) woken \<Longrightarrow> \<not> put_waits c woken \<Longrightarrow>
     woken \<or> \<not> (ch_full c \<and> \<not> ch_blocking c) \<Longrightarrow>
     ch_enqueue c a w = Some c1 \<Longrightarrow>
     (if ch_blocking c1 then cond_signal wake_get ((pcs s)[t := Idle]) ps
      else ps = (pcs s)[t := Idle]) \<Longrightarrow>
     chs_step s (s\<lparr>chan := c1, pcs := ps,
                   put_log := put_log s @ [block (the (elems c1 a))],
                   top_used := (top_used s \<or> w \<noteq> CH_PUT_STD)\<rparr>)"
| get_nodata:
    "t < length (pcs s) \<Longrightarrow> pcs s ! t = Idle \<Longrightarrow> count (chan s) = 0 \<Longrightarrow> \<not> ch_blocking (chan s) \<Longrightarrow>
     chs_step s s"
| get_sleep:
    "t < length (pcs s) \<Longrightarrow> get_entry (pcs s ! t) cap0 = Some (cap, woken) \<Longrightarrow>
     dest_ok (datalen (chan s)) cap \<Longrightarrow>
     c = get_relock (chan s) woken \<Longrightarrow> count c = 0 \<Longrightarrow> woken \<or> ch_blocking c \<Longrightarrow>
     chs_step s (s\<lparr>chan := c\<lparr>get_waiting_threads := get_waiting_threads c + 1\<rparr>,
                   pcs := (pcs s)[t := GetWait cap]\<rparr>)"
| get_done:
    "t < length (pcs s) \<Longrightarrow> get_entry (pcs s ! t) cap0 = Some (cap, woken) \<Longrightarrow>
     c = get_relock (chan s) woken \<Longrightarrow> count c \<noteq> 0 \<Longrightarrow> head c = Some a \<Longrightarrow>
     ch_take c cap = Some (rc, out, c1) \<Longrightarrow>
     (if max_size c1 \<noteq> 0 \<and> 0 < put_waiting_threads c1
      then cond_signal wake_put ((pcs s)[t := Idle]) ps
      else ps = (pcs s)[t := Idle]) \<Longrightarrow>
     chs_step s (s\<lparr>chan := c1, pcs := ps, get_log := get_log s @ [block (the (elems c a))]\<rparr>)"
| wakes:
    "u < length (pcs s) \<Longrightarrow> wake_get (pcs s ! u) = Some q \<or> wake_put (pcs s ! u) = Some q \<Longrightarrow>
     chs_step s (s\<lparr>pcs := (pcs s)[u := q]\<rparr>)"

text \<open>The system starts with an empty channel that no thread uses.\<close>

definition chs_init :: "'p chsys \<Rightarrow> bool" where
  "chs_init s \<longleftrightarrow>
     ch_inv (chan s) \<and> ch_items (chan s) = [] \<and>
     get_waiting_threads (chan s) = 0 \<and> put_waiting_threads (chan s) = 0 \<and>
     list_all (\<lambda>q. q = Idle) (pcs s) \<and> put_log s = [] \<and> get_log s = [] \<and> \<not> top_used s"

inductive chs_reachable :: "'p chsys \<Rightarrow> bool" where
  start: "chs_init s \<Longrightarrow> chs_reachable s"
| step: "chs_reachable s \<Longrightarrow> chs_step s s' \<Longrightarrow> chs_reachable s'"

section \<open>Counting threads\<close>

definition tally :: "(tpc \<Rightarrow> bool) \<Rightarrow> tpc list \<Rightarrow> int" where
  "tally P ps = int (length (filter P ps))"

lemma tally_update:
  "t < length ps \<Longrightarrow> tally P (ps[t := q]) = tally P ps - of_bool (P (ps ! t)) + of_bool (P q)"
proof (induction ps arbitrary: t)
  case Nil
  then show ?case by simp
next
  case (Cons p ps)
  then show ?case by (cases t) (auto simp: tally_def)
qed

lemma tally_nonneg [simp]: "0 \<le> tally P ps"
  by (simp add: tally_def)

lemma tally_zero: "(\<forall>q \<in> set ps. \<not> P q) \<Longrightarrow> tally P ps = 0"
  by (simp add: tally_def)

lemma tally_pos: "t < length ps \<Longrightarrow> P (ps ! t) \<Longrightarrow> 0 < tally P ps"
  using nth_mem [of t ps] by (auto simp: tally_def filter_empty_conv)

lemma tally_posE:
  assumes "0 < tally P ps"
  obtains t where "t < length ps" and "P (ps ! t)"
proof -
  from assms have "filter P ps \<noteq> []" by (auto simp: tally_def)
  then obtain q where "q \<in> set ps" "P q" by (auto simp: filter_empty_conv)
  with that show ?thesis by (auto simp: in_set_conv_nth)
qed

definition g_sleeps :: "tpc \<Rightarrow> bool" where "g_sleeps q \<longleftrightarrow> (case q of GetWait n \<Rightarrow> True | _ \<Rightarrow> False)"
definition g_woken :: "tpc \<Rightarrow> bool" where "g_woken q \<longleftrightarrow> (case q of GetWoken n \<Rightarrow> True | _ \<Rightarrow> False)"
definition p_sleeps :: "tpc \<Rightarrow> bool" where "p_sleeps q \<longleftrightarrow> (case q of PutWait a w \<Rightarrow> True | _ \<Rightarrow> False)"
definition p_woken :: "tpc \<Rightarrow> bool" where "p_woken q \<longleftrightarrow> (case q of PutWoken a w \<Rightarrow> True | _ \<Rightarrow> False)"

lemmas pc_defs = g_sleeps_def g_woken_def p_sleeps_def p_woken_def

lemma pc_simps [simp]:
  "\<not> g_sleeps Idle" "\<not> g_sleeps (PutReady a w)" "\<not> g_sleeps (PutWait a w)"
  "\<not> g_sleeps (PutWoken a w)" "g_sleeps (GetWait n)" "\<not> g_sleeps (GetWoken n)"
  "\<not> g_woken Idle" "\<not> g_woken (PutReady a w)" "\<not> g_woken (PutWait a w)"
  "\<not> g_woken (PutWoken a w)" "\<not> g_woken (GetWait n)" "g_woken (GetWoken n)"
  "\<not> p_sleeps Idle" "\<not> p_sleeps (PutReady a w)" "p_sleeps (PutWait a w)"
  "\<not> p_sleeps (PutWoken a w)" "\<not> p_sleeps (GetWait n)" "\<not> p_sleeps (GetWoken n)"
  "\<not> p_woken Idle" "\<not> p_woken (PutReady a w)" "\<not> p_woken (PutWait a w)"
  "p_woken (PutWoken a w)" "\<not> p_woken (GetWait n)" "\<not> p_woken (GetWoken n)"
  by (simp_all add: pc_defs)

lemma wake_get_Some: "wake_get q = Some r \<longleftrightarrow> (\<exists>n. q = GetWait n \<and> r = GetWoken n)"
  by (cases q) (auto simp: wake_get_def)

lemma wake_put_Some: "wake_put q = Some r \<longleftrightarrow> (\<exists>a w. q = PutWait a w \<and> r = PutWoken a w)"
  by (cases q) (auto simp: wake_put_def)

lemma put_entry_Some:
  "put_entry q = Some (a, w, woken) \<longleftrightarrow> (if woken then q = PutWoken a w else q = PutReady a w)"
  by (cases q) (auto simp: put_entry_def)

lemma get_entry_Some:
  "get_entry q cap0 = Some (cap, woken) \<longleftrightarrow>
     (if woken then q = GetWoken cap else q = Idle \<and> cap = cap0)"
  by (cases q) (auto simp: get_entry_def)

text \<open>What a signal does to the four counts.\<close>

lemma signal_get_tally:
  assumes "cond_signal wake_get ps ps'"
  shows "tally p_sleeps ps' = tally p_sleeps ps \<and> tally p_woken ps' = tally p_woken ps \<and>
    tally g_sleeps ps' + tally g_woken ps' = tally g_sleeps ps + tally g_woken ps \<and>
    (if 0 < tally g_sleeps ps then tally g_woken ps' = tally g_woken ps + 1 else ps' = ps)"
  using assms
proof cases
  case nobody
  then have "tally g_sleeps ps = 0"
    by (intro tally_zero) (auto simp: wake_get_def g_sleeps_def split: tpc.splits)
  with nobody show ?thesis by simp
next
  case (somebody u q)
  then obtain n where n: "ps ! u = GetWait n" "q = GetWoken n" by (auto simp: wake_get_Some)
  with somebody have "0 < tally g_sleeps ps" by (intro tally_pos [of u]) auto
  with n somebody show ?thesis by (simp add: tally_update)
qed

lemma signal_put_tally:
  assumes "cond_signal wake_put ps ps'"
  shows "tally g_sleeps ps' = tally g_sleeps ps \<and> tally g_woken ps' = tally g_woken ps \<and>
    tally p_sleeps ps' + tally p_woken ps' = tally p_sleeps ps + tally p_woken ps \<and>
    (if 0 < tally p_sleeps ps then tally p_woken ps' = tally p_woken ps + 1 else ps' = ps)"
  using assms
proof cases
  case nobody
  then have "tally p_sleeps ps = 0"
    by (intro tally_zero) (auto simp: wake_put_def p_sleeps_def split: tpc.splits)
  with nobody show ?thesis by simp
next
  case (somebody u q)
  then obtain a w where n: "ps ! u = PutWait a w" "q = PutWoken a w" by (auto simp: wake_put_Some)
  with somebody have "0 < tally p_sleeps ps" by (intro tally_pos [of u]) auto
  with n somebody show ?thesis by (simp add: tally_update)
qed

section \<open>No lost wakeup\<close>

text \<open>
  The counters count the threads in a wait; when a thread sleeps in \<open>ch_get\<close>, at least as
  many threads as there are blocks have been woken for a get and not run yet; when a thread
  sleeps in \<open>_ch_put\<close>, at least as many as there are free places have been woken for a put.
\<close>

definition wake_ok :: "int \<Rightarrow> int \<Rightarrow> bool \<Rightarrow> int \<Rightarrow> int \<Rightarrow> int \<Rightarrow> int \<Rightarrow> int \<Rightarrow> int \<Rightarrow> bool" where
  "wake_ok gw pw bl cnt mx gs gk ps pk \<longleftrightarrow>
     gw = gs + gk \<and> pw = ps + pk \<and> 0 \<le> gs \<and> 0 \<le> gk \<and> 0 \<le> ps \<and> 0 \<le> pk \<and> 0 \<le> mx \<and>
     (0 < gs + gk \<longrightarrow> bl) \<and> (0 < gs \<longrightarrow> cnt \<le> gk) \<and>
     (0 < ps + pk \<longrightarrow> 0 < mx) \<and> (0 < ps \<longrightarrow> mx - cnt \<le> pk) \<and>
     (0 < mx \<longrightarrow> cnt \<le> mx)"

definition wake_inv :: "'p chsys \<Rightarrow> bool" where
  "wake_inv s \<longleftrightarrow>
     wake_ok (get_waiting_threads (chan s)) (put_waiting_threads (chan s)) (ch_blocking (chan s))
       (count (chan s)) (max_size (chan s)) (tally g_sleeps (pcs s)) (tally g_woken (pcs s))
       (tally p_sleeps (pcs s)) (tally p_woken (pcs s))"

text \<open>The arithmetic of each step.\<close>

lemma wake_ok_wakes:
  assumes "wake_ok gw pw bl cnt mx gs gk ps pk"
  shows "0 < gs \<Longrightarrow> wake_ok gw pw bl cnt mx (gs - 1) (gk + 1) ps pk"
    and "0 < ps \<Longrightarrow> wake_ok gw pw bl cnt mx gs gk (ps - 1) (pk + 1)"
  using assms unfolding wake_ok_def
  by (cases bl; cases "0 < mx"; force)+

lemma wake_ok_put_sleep:
  assumes "wake_ok gw pw bl cnt mx gs gk ps pk" and "d = 0 \<and> 0 < mx \<or> d = 1 \<and> 0 < pk"
    and "mx \<le> cnt"
  shows "wake_ok gw (pw - d + 1) bl cnt mx gs gk (ps + 1) (pk - d)"
  using assms by (auto simp: wake_ok_def)

lemma wake_ok_put_done:
  assumes "wake_ok gw pw bl cnt mx gs gk ps pk" and "d = 0 \<or> d = 1 \<and> 0 < pk"
    and "0 < mx \<longrightarrow> cnt < mx"
    and "gs' + gk' = gs + gk" and "if bl \<and> 0 < gs then gk' = gk + 1 else gs' = gs \<and> gk' = gk"
  shows "wake_ok gw (pw - d) bl (cnt + 1) mx gs' gk' ps (pk - d)"
  using assms unfolding wake_ok_def
  by (cases bl; cases "0 < gs"; cases "0 < ps"; cases "0 < mx"; force)

lemma wake_ok_get_sleep:
  assumes "wake_ok gw pw bl cnt mx gs gk ps pk" and "d = 0 \<and> bl \<or> d = 1 \<and> 0 < gk" and "cnt = 0"
  shows "wake_ok (gw - d + 1) pw bl cnt mx (gs + 1) (gk - d) ps pk"
  using assms by (auto simp: wake_ok_def)

lemma wake_ok_get_done:
  assumes "wake_ok gw pw bl cnt mx gs gk ps pk" and "d = 0 \<or> d = 1 \<and> 0 < gk"
    and "ps' + pk' = ps + pk"
    and "if mx \<noteq> 0 \<and> 0 < pw \<and> 0 < ps then pk' = pk + 1 else ps' = ps \<and> pk' = pk"
  shows "wake_ok (gw - d) pw bl (cnt - 1) mx gs (gk - d) ps' pk'"
  using assms unfolding wake_ok_def
  by (cases bl; cases "0 < gs"; cases "0 < ps"; cases "0 < mx"; force)

lemma ch_enqueue_conf:
  "ch_enqueue c a w = Some c' \<Longrightarrow>
     ch_conf c' = ch_conf c \<and> count c' = count c + 1 \<and> el_brk c' = el_brk c"
  by (auto simp: ch_enqueue_def ch_link_def set_prev_def bind_Some_iff ch_conf_def
        split: if_splits option.splits)

lemma ch_take_conf:
  "ch_take c cap = Some (rc, out, c') \<Longrightarrow> ch_conf c' = ch_conf c \<and> count c' = count c - 1"
  by (auto simp: ch_take_def ch_detach_def el_free_def bind_Some_iff ch_conf_def split: if_splits)

lemma ch_put_enter_conf:
  "ch_put_enter c b eok bok = Some (r, c') \<Longrightarrow> ch_conf c' = ch_conf c \<and> count c' = count c"
  by (auto simp: ch_put_enter_def el_alloc_def set_block_def bind_Some_iff ch_conf_def Let_def
        split: if_splits option.splits)

lemma conf_blocking: "ch_conf c' = ch_conf c \<Longrightarrow> ch_blocking c' = ch_blocking c"
  by (simp add: ch_conf_def ch_blocking_def)

lemma blocking_upd [simp]:
  "ch_blocking (c\<lparr>put_waiting_threads := n\<rparr>) = ch_blocking c"
  "ch_blocking (c\<lparr>get_waiting_threads := n\<rparr>) = ch_blocking c"
  "ch_blocking (el_free c a) = ch_blocking c"
  by (simp_all add: ch_blocking_def el_free_def)

lemma relock_simps [simp]:
  "count (put_relock c w) = count c" "max_size (put_relock c w) = max_size c"
  "ch_blocking (put_relock c w) = ch_blocking c" "datalen (put_relock c w) = datalen c"
  "get_waiting_threads (put_relock c w) = get_waiting_threads c"
  "put_waiting_threads (put_relock c w) = put_waiting_threads c - of_bool w"
  "ch_full (put_relock c w) = ch_full c" "elems (put_relock c w) = elems c"
  "count (get_relock c w) = count c" "max_size (get_relock c w) = max_size c"
  "ch_blocking (get_relock c w) = ch_blocking c" "datalen (get_relock c w) = datalen c"
  "put_waiting_threads (get_relock c w) = put_waiting_threads c"
  "get_waiting_threads (get_relock c w) = get_waiting_threads c - of_bool w"
  "elems (get_relock c w) = elems c" "head (get_relock c w) = head c"
  by (simp_all add: put_relock_def get_relock_def ch_blocking_def ch_full_def)

lemma conf_fields:
  assumes "ch_conf c' = ch_conf c"
  shows "get_waiting_threads c' = get_waiting_threads c" "put_waiting_threads c' = put_waiting_threads c"
    "max_size c' = max_size c" "ch_blocking c' = ch_blocking c" "datalen c' = datalen c"
    "magic c' = magic c" "ch_locked c' = ch_locked c" "attr c' = attr c"
  using assms by (simp_all add: ch_conf_def ch_blocking_def)

text \<open>A sleeping, woken or starting thread becomes idle, seen by the four counts.\<close>

lemma tally_put_idle:
  assumes "t < length ps" and "put_entry (ps ! t) = Some (a, w, woken)"
  shows "tally g_sleeps (ps[t := Idle]) = tally g_sleeps ps"
    "tally g_woken (ps[t := Idle]) = tally g_woken ps"
    "tally p_sleeps (ps[t := Idle]) = tally p_sleeps ps"
    "tally p_woken (ps[t := Idle]) = tally p_woken ps - of_bool woken"
    "woken \<Longrightarrow> 0 < tally p_woken ps"
  using assms tally_pos [of t ps p_woken] by (auto simp: tally_update put_entry_Some split: if_splits)

lemma tally_get_idle:
  assumes "t < length ps" and "get_entry (ps ! t) cap0 = Some (cap, woken)"
  shows "tally p_sleeps (ps[t := Idle]) = tally p_sleeps ps"
    "tally p_woken (ps[t := Idle]) = tally p_woken ps"
    "tally g_sleeps (ps[t := Idle]) = tally g_sleeps ps"
    "tally g_woken (ps[t := Idle]) = tally g_woken ps - of_bool woken"
    "woken \<Longrightarrow> 0 < tally g_woken ps"
  using assms tally_pos [of t ps g_woken] by (auto simp: tally_update get_entry_Some split: if_splits)

lemma wake_inv_step:
  assumes "chs_step s s'" and "wake_inv s"
  shows "wake_inv s'"
  using assms
proof (induction rule: chs_step.induct)
  case (put_start t s w b eok bok r c1)
  from ch_put_enter_conf [OF put_start(4)] have c: "ch_conf c1 = ch_conf (chan s)" "count c1 = count (chan s)"
    by auto
  show ?case
    using put_start(1,2,5) by (cases r) (simp_all add: wake_inv_def conf_fields [OF c(1)] c(2) tally_update)
next
  case (put_sleep t s a w woken c)
  have d: "of_bool woken = (0::int) \<and> 0 < max_size (chan s) \<or>
      of_bool woken = (1::int) \<and> 0 < tally p_woken (pcs s)" "max_size (chan s) \<le> count (chan s)"
    using put_sleep(3,4) tally_put_idle(5) [OF put_sleep(1,2)]
    by (auto simp: put_waits_def ch_full_def split: if_splits)
  have n: "tally g_sleeps ((pcs s)[t := PutWait a w]) = tally g_sleeps (pcs s)"
    "tally g_woken ((pcs s)[t := PutWait a w]) = tally g_woken (pcs s)"
    "tally p_sleeps ((pcs s)[t := PutWait a w]) = tally p_sleeps (pcs s) + 1"
    "tally p_woken ((pcs s)[t := PutWait a w]) = tally p_woken (pcs s) - of_bool woken"
    using put_sleep(1,2) by (auto simp: tally_update put_entry_Some split: if_splits)
  from wake_ok_put_sleep [OF put_sleep(5) [unfolded wake_inv_def] d] n put_sleep(3) show ?case
    by (simp add: wake_inv_def)
next
  case (put_refused t s a w)
  then show ?case by (simp add: wake_inv_def tally_update) (simp add: el_free_def)
next
  case (put_done t s a w woken c c1 ps)
  note i = tally_put_idle [OF put_done(1,2)]
  from ch_enqueue_conf [OF put_done(6)] have c: "ch_conf c1 = ch_conf c" "count c1 = count c + 1"
    by auto
  note f = conf_fields [OF c(1)]
  have room: "0 < max_size (chan s) \<longrightarrow> count (chan s) < max_size (chan s)"
    using put_done(3,4,5) by (auto simp: put_waits_def ch_full_def split: if_splits)
  have d: "of_bool woken = (0::int) \<or> of_bool woken = (1::int) \<and> 0 < tally p_woken (pcs s)"
    using i(5) by auto
  have ps: "tally p_sleeps ps = tally p_sleeps (pcs s)"
    "tally p_woken ps = tally p_woken (pcs s) - of_bool woken"
    "tally g_sleeps ps + tally g_woken ps = tally g_sleeps (pcs s) + tally g_woken (pcs s)"
    "if ch_blocking (chan s) \<and> 0 < tally g_sleeps (pcs s)
     then tally g_woken ps = tally g_woken (pcs s) + 1
     else tally g_sleeps ps = tally g_sleeps (pcs s) \<and> tally g_woken ps = tally g_woken (pcs s)"
    using put_done(3,7) f(4) i(1-4) signal_get_tally [of "(pcs s)[t := Idle]" ps]
    by (auto split: if_splits)
  from wake_ok_put_done [OF put_done(8) [unfolded wake_inv_def] d room ps(3,4)] ps(1,2) f c(2) put_done(3)
  show ?case by (simp add: wake_inv_def)
next
  case (get_nodata t s)
  then show ?case by simp
next
  case (get_sleep t s cap0 cap woken c)
  have d: "of_bool woken = (0::int) \<and> ch_blocking (chan s) \<or>
      of_bool woken = (1::int) \<and> 0 < tally g_woken (pcs s)" "count (chan s) = 0"
    using get_sleep(4-6) tally_get_idle(5) [OF get_sleep(1,2)] by auto
  have n: "tally g_sleeps ((pcs s)[t := GetWait cap]) = tally g_sleeps (pcs s) + 1"
    "tally g_woken ((pcs s)[t := GetWait cap]) = tally g_woken (pcs s) - of_bool woken"
    "tally p_sleeps ((pcs s)[t := GetWait cap]) = tally p_sleeps (pcs s)"
    "tally p_woken ((pcs s)[t := GetWait cap]) = tally p_woken (pcs s)"
    using get_sleep(1,2) by (auto simp: tally_update get_entry_Some split: if_splits)
  from wake_ok_get_sleep [OF get_sleep(7) [unfolded wake_inv_def] d] n get_sleep(4) show ?case
    by (simp add: wake_inv_def)
next
  case (get_done t s cap0 cap woken c a rc out c1 ps)
  note i = tally_get_idle [OF get_done(1,2)]
  from ch_take_conf [OF get_done(6)] have c: "ch_conf c1 = ch_conf c" "count c1 = count c - 1"
    by auto
  note f = conf_fields [OF c(1)]
  have d: "of_bool woken = (0::int) \<or> of_bool woken = (1::int) \<and> 0 < tally g_woken (pcs s)"
    using i(5) by auto
  have ps: "tally g_sleeps ps = tally g_sleeps (pcs s)"
    "tally g_woken ps = tally g_woken (pcs s) - of_bool woken"
    "tally p_sleeps ps + tally p_woken ps = tally p_sleeps (pcs s) + tally p_woken (pcs s)"
    "if max_size (chan s) \<noteq> 0 \<and> 0 < put_waiting_threads (chan s) \<and> 0 < tally p_sleeps (pcs s)
     then tally p_woken ps = tally p_woken (pcs s) + 1
     else tally p_sleeps ps = tally p_sleeps (pcs s) \<and> tally p_woken ps = tally p_woken (pcs s)"
    using get_done(3,7) f(2,3) i(1-4) signal_put_tally [of "(pcs s)[t := Idle]" ps]
    by (auto split: if_splits)
  from wake_ok_get_done [OF get_done(8) [unfolded wake_inv_def] d ps(3,4)] ps(1,2) f c(2) get_done(3)
  show ?case by (simp add: wake_inv_def)
next
  case (wakes u s q)
  let ?ps = "(pcs s)[u := q]"
  from wakes(1,2) have
    "tally p_sleeps ?ps = tally p_sleeps (pcs s) \<and> tally p_woken ?ps = tally p_woken (pcs s) \<and>
     tally g_sleeps ?ps = tally g_sleeps (pcs s) - 1 \<and> tally g_woken ?ps = tally g_woken (pcs s) + 1 \<and>
     0 < tally g_sleeps (pcs s) \<or>
     tally g_sleeps ?ps = tally g_sleeps (pcs s) \<and> tally g_woken ?ps = tally g_woken (pcs s) \<and>
     tally p_sleeps ?ps = tally p_sleeps (pcs s) - 1 \<and> tally p_woken ?ps = tally p_woken (pcs s) + 1 \<and>
     0 < tally p_sleeps (pcs s)"
    using tally_pos [of u "pcs s" g_sleeps] tally_pos [of u "pcs s" p_sleeps]
    by (auto simp: tally_update wake_get_Some wake_put_Some)
  with wakes(3) show ?case
    by (elim disjE) (simp_all add: wake_inv_def wake_ok_wakes)
qed

lemma tally_idle: "list_all (\<lambda>q. q = Idle) ps \<Longrightarrow> \<not> P Idle \<Longrightarrow> tally P ps = 0"
  by (rule tally_zero) (auto simp: list_all_iff)

lemma wake_inv_init:
  assumes "chs_init s"
  shows "wake_inv s"
proof -
  from assms have i: "list_all (\<lambda>q. q = Idle) (pcs s)" "get_waiting_threads (chan s) = 0"
    "put_waiting_threads (chan s) = 0" "0 \<le> max_size (chan s)" "count (chan s) = 0"
    using ch_items_length [of "chan s"] by (simp_all add: chs_init_def ch_inv_def)
  then show ?thesis
    by (simp add: wake_inv_def wake_ok_def tally_idle)
qed

lemma wake_inv_reachable: "chs_reachable s \<Longrightarrow> wake_inv s"
  by (induction rule: chs_reachable.induct) (auto intro: wake_inv_init wake_inv_step)

section \<open>The channel and the elements of the threads\<close>

text \<open>What a thread holds: the element it will link in and where, and the size of its
  destination. Waking does not change it.\<close>

definition pc_data :: "tpc \<Rightarrow> (nat \<times> int) option \<times> nat option" where
  "pc_data q =
     (case q of
        Idle \<Rightarrow> (None, None)
      | PutReady a w \<Rightarrow> (Some (a, w), None)
      | PutWait a w \<Rightarrow> (Some (a, w), None)
      | PutWoken a w \<Rightarrow> (Some (a, w), None)
      | GetWait n \<Rightarrow> (None, Some n)
      | GetWoken n \<Rightarrow> (None, Some n))"

lemma pc_data_simps [simp]:
  "pc_data Idle = (None, None)"
  "pc_data (PutReady a w) = (Some (a, w), None)"
  "pc_data (PutWait a w) = (Some (a, w), None)"
  "pc_data (PutWoken a w) = (Some (a, w), None)"
  "pc_data (GetWait n) = (None, Some n)"
  "pc_data (GetWoken n) = (None, Some n)"
  by (simp_all add: pc_data_def)

lemma wake_data:
  "wake_get q = Some r \<or> wake_put q = Some r \<Longrightarrow> pc_data r = pc_data q"
  by (auto simp: wake_get_Some wake_put_Some)

lemma list_update_same: "t < length xs \<Longrightarrow> xs ! t = x \<Longrightarrow> xs[t := x] = xs"
  by auto

lemma wake_datas:
  "u < length ps \<Longrightarrow> wake_get (ps ! u) = Some q \<or> wake_put (ps ! u) = Some q \<Longrightarrow>
     map pc_data (ps[u := q]) = map pc_data ps"
  by (simp add: map_update wake_data list_update_same)

lemma signal_data:
  "cond_signal f ps ps' \<Longrightarrow> f = wake_get \<or> f = wake_put \<Longrightarrow> map pc_data ps' = map pc_data ps"
  by (induction rule: cond_signal.induct) (auto intro: wake_datas)

definition pending :: "'p ch \<Rightarrow> nat \<Rightarrow> bool" where
  "pending c a \<longleftrightarrow> a \<notin> set (cells c) \<and>
     (\<exists>b. elems c a = Some \<lparr>block = b, prev = None\<rparr> \<and> blk_ok (datalen c) b)"

definition data_ok :: "'p ch \<Rightarrow> ((nat \<times> int) option \<times> nat option) list \<Rightarrow> bool" where
  "data_ok c ds \<longleftrightarrow>
     (\<forall>t < length ds. \<forall>a w. fst (ds ! t) = Some (a, w) \<longrightarrow>
        pending c a \<and> (w = CH_PUT_STD \<or> w = CH_PUT_TOP)) \<and>
     (\<forall>t < length ds. \<forall>u < length ds. \<forall>a v w.
        fst (ds ! t) = Some (a, v) \<longrightarrow> fst (ds ! u) = Some (a, w) \<longrightarrow> t = u) \<and>
     (\<forall>t < length ds. \<forall>n. snd (ds ! t) = Some n \<longrightarrow> dest_ok (datalen c) n)"

lemma data_ok_change:
  assumes "data_ok c ds" and "datalen c' = datalen c" and "t < length ds"
    and "\<And>a. pending c a \<Longrightarrow> (\<forall>w. fst (ds ! t) \<noteq> Some (a, w)) \<Longrightarrow> pending c' a"
    and "\<And>a w. fst d = Some (a, w) \<Longrightarrow> pending c' a \<and> (w = CH_PUT_STD \<or> w = CH_PUT_TOP) \<and>
           (\<not> pending c a \<or> fst (ds ! t) = fst d)"
    and "\<And>n. snd d = Some n \<Longrightarrow> dest_ok (datalen c) n"
  shows "data_ok c' (ds[t := d])"
proof -
  note ok = assms(1) [unfolded data_ok_def]
  have uniq: "u = t" if "u < length ds" "fst (ds ! u) = Some (a, w)" "fst (ds ! t) = Some (a, v)" for u a v w
    using ok assms(3) that by blast
  have other: "pending c' a" if "u < length ds" "u \<noteq> t" "fst (ds ! u) = Some (a, w)" for u a w
    using ok that uniq by (intro assms(4)) auto
  have clash: "fst d \<noteq> Some (a, v)" if "u < length ds" "u \<noteq> t" "fst (ds ! u) = Some (a, w)" for u a v w
    using ok that uniq assms(5) [of a v] by metis
  show ?thesis
    unfolding data_ok_def length_list_update
  proof (intro conjI allI impI)
    fix u a w assume u: "u < length ds" "fst (ds[t := d] ! u) = Some (a, w)"
    then show "pending c' a" using other assms(5) by (cases "u = t") auto
    from u show "w = CH_PUT_STD \<or> w = CH_PUT_TOP" using ok assms(5) by (cases "u = t") auto
  next
    fix u v a x w assume u: "u < length ds" "v < length ds" "fst (ds[t := d] ! u) = Some (a, x)"
      "fst (ds[t := d] ! v) = Some (a, w)"
    show "u = v"
    proof (cases "u = t \<or> v = t")
      case True
      with u clash show ?thesis by (metis nth_list_update_eq nth_list_update_neq)
    next
      case False
      with u ok show ?thesis by simp
    qed
  next
    fix u n assume "u < length ds" "snd (ds[t := d] ! u) = Some n"
    with ok assms(2,6) show "dest_ok (datalen c') n" by (cases "u = t") auto
  qed
qed

definition chs_inv :: "'p chsys \<Rightarrow> bool" where
  "chs_inv s \<longleftrightarrow>
     ch_inv (chan s) \<and> data_ok (chan s) (map pc_data (pcs s)) \<and>
     (\<not> top_used s \<longrightarrow> put_log s = get_log s @ ch_items (chan s)) \<and>
     (\<forall>b. count_list (put_log s) b = count_list (get_log s) b + count_list (ch_items (chan s)) b)"

lemma chs_inv_same:
  assumes "chs_inv s" and "ch_inv c'" and "ch_items c' = ch_items (chan s)"
    and "data_ok c' (map pc_data ps')"
  shows "chs_inv (s\<lparr>chan := c', pcs := ps'\<rparr>)"
  using assms by (simp add: chs_inv_def)

lemma ch_inv_waiting [simp]:
  "ch_inv (c\<lparr>put_waiting_threads := n\<rparr>) = ch_inv c"
  "ch_inv (c\<lparr>get_waiting_threads := n\<rparr>) = ch_inv c"
  "ch_items (c\<lparr>put_waiting_threads := n\<rparr>) = ch_items c"
  "ch_items (c\<lparr>get_waiting_threads := n\<rparr>) = ch_items c"
  "cells (c\<lparr>put_waiting_threads := n\<rparr>) = cells c"
  "cells (c\<lparr>get_waiting_threads := n\<rparr>) = cells c"
  "linked (c\<lparr>put_waiting_threads := n\<rparr>) as = linked c as"
  "linked (c\<lparr>get_waiting_threads := n\<rparr>) as = linked c as"
  by (simp_all add: ch_inv_def ch_items_def cells_def linked_def)

lemma pending_waiting [simp]:
  "pending (c\<lparr>put_waiting_threads := n\<rparr>) a = pending c a"
  "pending (c\<lparr>get_waiting_threads := n\<rparr>) a = pending c a"
  by (simp_all add: pending_def)

lemma relock_inv [simp]:
  "ch_inv (put_relock c w) = ch_inv c" "ch_inv (get_relock c w) = ch_inv c"
  "ch_items (put_relock c w) = ch_items c" "ch_items (get_relock c w) = ch_items c"
  "cells (put_relock c w) = cells c" "cells (get_relock c w) = cells c"
  "pending (put_relock c w) a = pending c a" "pending (get_relock c w) a = pending c a"
  by (simp_all add: put_relock_def get_relock_def)

text \<open>What each piece of the code does to the channel and to the elements others hold.\<close>

lemma put_enter_pending:
  assumes inv: "ch_inv c" and e: "ch_put_enter c b eok bok = Some (r, c1)"
  shows "ch_inv c1 \<and> ch_items c1 = ch_items c \<and> datalen c1 = datalen c \<and>
    (\<forall>x. pending c x \<longrightarrow> pending c1 x) \<and>
    (\<forall>a. r = Inr a \<longrightarrow> pending c1 a \<and> \<not> pending c a)"
proof (cases "b = ArgNull \<or> magic c \<noteq> CH_MAGIC_ID \<or> \<not> eok")
  case True
  with e inv show ?thesis by (auto simp: ch_put_enter_def split: if_splits)
next
  case False
  obtain c0 a where al: "el_alloc c = (c0, a)" by (cases "el_alloc c")
  from inv have l: "linked c (cells c)" by (simp add: ch_inv_def)
  note s = el_alloc_linked [OF l al]
  have dl: "datalen c0 = datalen c" using s by (simp add: ch_conf_eq)
  with e False al obtain blk where blk: "ch_block_of (datalen c) b bok = Some blk"
    "(r, c1) = (case blk of None \<Rightarrow> (Inl CH_NO_MEMORY, c0) | Some x \<Rightarrow> (Inr a, set_block c0 a x))"
    by (auto simp: ch_put_enter_def bind_Some_iff split: option.splits)
  define x where "x = (case blk of None \<Rightarrow> BUninit | Some x \<Rightarrow> x)"
  have el: "linked c1 (cells c) \<and> elems c1 = (elems c)(a \<mapsto> \<lparr>block = x, prev = None\<rparr>) \<and>
      ch_conf c1 = ch_conf c \<and> count c1 = count c \<and> a \<notin> set (cells c) \<and> a \<notin> dom (elems c)"
    using s blk(2) by (auto simp: x_def split: option.splits)
  then have "map (\<lambda>a. block (the (elems c1 a))) (cells c) = ch_items c"
    by (auto simp: ch_items_def)
  with ch_inv_same [OF inv, of c1 "cells c"] el
  have inv1: "ch_inv c1 \<and> ch_items c1 = ch_items c \<and> cells c1 = cells c" by blast
  have dl1: "datalen c1 = datalen c" using el by (simp add: ch_conf_eq)
  have "pending c1 y" if "pending c y" for y
    using that inv1 dl1 el by (auto simp: pending_def)
  moreover have "pending c1 a' \<and> \<not> pending c a'" if "r = Inr a'" for a'
  proof -
    from that blk have a: "a' = a" "blk = Some x" by (auto simp: x_def split: option.splits)
    with blk(1) inv have "blk_ok (datalen c) x" by (auto simp: ch_inv_def intro: ch_block_of_ok)
    with a el inv1 dl1 show ?thesis by (auto simp: pending_def)
  qed
  ultimately show ?thesis using inv1 dl1 by blast
qed

lemma el_free_pending:
  assumes "ch_inv c" and "pending c a"
  shows "ch_inv (el_free c a) \<and> ch_items (el_free c a) = ch_items c \<and>
    (\<forall>x. pending c x \<longrightarrow> x \<noteq> a \<longrightarrow> pending (el_free c a) x)"
proof -
  have l: "linked (el_free c a) (cells c)"
    using assms by (auto simp: ch_inv_def linked_def el_free_def pending_def)
  have "map (\<lambda>x. block (the (elems (el_free c a) x))) (cells c) = ch_items c"
    using assms(2) by (auto simp: ch_items_def el_free_def pending_def)
  with ch_inv_same [OF assms(1) l] have i: "ch_inv (el_free c a)" "ch_items (el_free c a) = ch_items c"
    "cells (el_free c a) = cells c" by (simp_all add: ch_conf_def el_free_def)
  then show ?thesis by (auto simp: pending_def) (simp_all add: el_free_def)
qed

lemma enqueue_pending:
  assumes inv: "ch_inv c" and a: "pending c a" and w: "w = CH_PUT_STD \<or> w = CH_PUT_TOP"
    and e: "ch_enqueue c a w = Some c1"
  shows "ch_inv c1 \<and> ch_items c1 = at_place w (block (the (elems c1 a))) (ch_items c) \<and>
    datalen c1 = datalen c \<and> (\<forall>x. pending c x \<longrightarrow> x \<noteq> a \<longrightarrow> pending c1 x)"
proof -
  from inv have l: "linked c (cells c)" by (simp add: ch_inv_def)
  from a obtain b where b: "elems c a = Some \<lparr>block = b, prev = None\<rparr>" "a \<notin> set (cells c)"
    "blk_ok (datalen c) b" by (auto simp: pending_def)
  from e have "\<exists>c0. ch_link c a w = Some c0 \<and> int_ok (count c0 + 1)"
    by (auto simp: ch_enqueue_def bind_Some_iff)
  moreover have "ch_link c a w = Some c0 \<Longrightarrow> count c0 = count c" for c0
    by (auto simp: ch_link_def set_prev_def bind_Some_iff split: if_splits option.splits)
  ultimately have ok: "int_ok (count c + 1)" by auto
  from ch_enqueue_spec [OF l b(1,2) ok w] e have c1:
    "linked c1 (at_place w a (cells c))" "ch_conf c1 = ch_conf c" "count c1 = count c + 1"
    "map (\<lambda>a. block (the (elems c1 a))) (at_place w a (cells c)) = at_place w b (ch_items c)"
    "\<forall>x. x \<notin> set (cells c) \<longrightarrow> x \<noteq> a \<longrightarrow> elems c1 x = elems c x"
    by (auto simp: ch_items_def)
  have "block (the (elems c1 a)) = b"
    using c1(4) by (auto simp: at_place_def split: if_splits)
  moreover have "list_all (blk_ok (datalen c)) (at_place w b (ch_items c))"
    using b(3) inv by (simp add: blk_ok_place ch_inv_def)
  with ch_inv_again [OF inv c1(1,2)] c1(3,4) ok
  have i: "ch_inv c1 \<and> ch_items c1 = at_place w b (ch_items c) \<and> cells c1 = at_place w a (cells c)"
    by simp
  moreover have dl: "datalen c1 = datalen c" using c1(2) by (simp add: ch_conf_eq)
  moreover have "pending c1 x" if "pending c x" "x \<noteq> a" for x
    using that i dl c1(5) by (auto simp: pending_def)
  ultimately show ?thesis by blast
qed

lemma take_pending:
  assumes inv: "ch_inv c" and t: "ch_take c cap = Some (rc, out, c1)" and h: "head c = Some a"
    and n: "count c \<noteq> 0"
  shows "ch_inv c1 \<and> ch_items c = block (the (elems c a)) # ch_items c1 \<and>
    datalen c1 = datalen c \<and> (\<forall>x. pending c x \<longrightarrow> pending c1 x)"
proof -
  from n ch_items_length [OF inv] obtain x xs where items: "ch_items c = x # xs"
    by (cases "ch_items c") auto
  obtain a' as e where
    f: "linked c (a' # as)" "elems c a' = Some e" "block e = x"
      "map (\<lambda>a. block (the (elems c a))) as = xs" "blk_ok (datalen c) x"
      "list_all (blk_ok (datalen c)) xs" "count c \<noteq> 0" "head c = Some a'" "cells c = a' # as"
    by (rule ch_first [OF inv items])
  with h have a: "a' = a" by simp
  from t f(2,8) have "block e = BEot \<or> ch_copy_out (datalen c) (block e) cap = Some out"
    by (auto simp: ch_take_def bind_Some_iff split: if_splits)
  from ch_take_spec [OF f(1,2) _ this] f(3,5) t have c1: "linked c1 as" "ch_conf c1 = ch_conf c"
    "count c1 = count c - 1" "elems c1 = (elems c)(a := None)"
    by (auto simp: a split: if_splits)
  have nd: "a \<notin> set as" using f(1) a by (simp add: linked_def)
  have "map (\<lambda>a. block (the (elems c1 a))) as = xs" using f(4) nd c1(4) by auto
  moreover have "int_ok (count c1)"
    using c1(3) f(1) inv by (auto simp: int_ok_def ch_inv_def linked_def)
  ultimately have i: "ch_inv c1 \<and> ch_items c1 = xs \<and> cells c1 = as"
    using ch_inv_again [OF inv c1(1,2)] f(6) by simp
  have dl: "datalen c1 = datalen c" using c1(2) by (simp add: ch_conf_eq)
  have "pending c1 y" if "pending c y" for y
    using that i dl c1(4) f(9) a by (auto simp: pending_def)
  with i dl items f(2,3) a show ?thesis by auto
qed

lemma data_ok_at:
  assumes "data_ok c (map pc_data ps)" and "t < length ps" and "put_entry (ps ! t) = Some (a, w, k)"
  shows "pending c a" and "w = CH_PUT_STD \<or> w = CH_PUT_TOP" and "pc_data (ps ! t) = (Some (a, w), None)"
proof -
  show d: "pc_data (ps ! t) = (Some (a, w), None)"
    using assms(3) by (cases k) (auto simp: put_entry_Some)
  with assms(1,2) show "pending c a" "w = CH_PUT_STD \<or> w = CH_PUT_TOP"
    by (auto simp: data_ok_def)
qed

lemma data_ok_idle:
  assumes "data_ok c (map pc_data ps)" and "datalen c' = datalen c" and "t < length ps"
    and "\<And>x. pending c x \<Longrightarrow> (\<forall>w. fst (pc_data (ps ! t)) \<noteq> Some (x, w)) \<Longrightarrow> pending c' x"
  shows "data_ok c' (map pc_data (ps[t := Idle]))"
  using data_ok_change [OF assms(1,2), of t "(None, None)"] assms(3,4) by (simp add: map_update)

lemma data_ok_mono:
  assumes "data_ok c ds" and "datalen c' = datalen c" and "\<And>x. pending c x \<Longrightarrow> pending c' x"
  shows "data_ok c' ds"
  using assms by (fastforce simp: data_ok_def)

lemma data_ok_same_data:
  assumes "data_ok c (map pc_data ps)" and "datalen c' = datalen c" and "t < length ps"
    and "\<And>x. pending c x \<Longrightarrow> pending c' x" and "pc_data q = pc_data (ps ! t)"
  shows "data_ok c' (map pc_data (ps[t := q]))"
  using data_ok_mono [OF assms(1,2,4)] assms(3,5) by (simp add: map_update list_update_same)

lemma chs_inv_step:
  assumes "chs_step s s'" and "chs_inv s"
  shows "chs_inv s'"
  using assms
proof (induction rule: chs_step.induct)
  case (put_start t s w b eok bok r c1)
  have inv: "ch_inv (chan s)" and d: "data_ok (chan s) (map pc_data (pcs s))"
    using put_start(5) by (simp_all add: chs_inv_def)
  from put_enter_pending [OF inv put_start(4)] have c1: "ch_inv c1" "ch_items c1 = ch_items (chan s)"
    "datalen c1 = datalen (chan s)" "\<And>x. pending (chan s) x \<Longrightarrow> pending c1 x"
    "\<And>a. r = Inr a \<Longrightarrow> pending c1 a \<and> \<not> pending (chan s) a" by blast+
  have "data_ok c1 (map pc_data (case r of Inl rc \<Rightarrow> pcs s | Inr a \<Rightarrow> (pcs s)[t := PutReady a w]))"
  proof (cases r)
    case (Inl rc)
    with data_ok_mono [OF d c1(3,4)] show ?thesis by simp
  next
    case (Inr a)
    with data_ok_change [OF d c1(3), of t "(Some (a, w), None)"] c1(4,5) put_start(1,3) show ?thesis
      by (simp add: map_update)
  qed
  with chs_inv_same [OF put_start(5) c1(1,2)] show ?case by simp
next
  case (put_sleep t s a w woken c)
  have d: "data_ok (chan s) (map pc_data (pcs s))" and inv: "ch_inv (chan s)"
    using put_sleep(5) by (simp_all add: chs_inv_def)
  from data_ok_at(3) [OF d put_sleep(1,2)]
  have "pc_data (PutWait a w) = pc_data (pcs s ! t)" by simp
  with data_ok_same_data [OF d _ put_sleep(1), of "c\<lparr>put_waiting_threads := put_waiting_threads c + 1\<rparr>"]
  show ?case
    using put_sleep(3) inv by (intro chs_inv_same [OF put_sleep(5)]) simp_all
next
  case (put_refused t s a w)
  have d: "data_ok (chan s) (map pc_data (pcs s))" and inv: "ch_inv (chan s)"
    using put_refused(5) by (simp_all add: chs_inv_def)
  have e: "put_entry (pcs s ! t) = Some (a, w, False)" using put_refused(2) by (simp add: put_entry_Some)
  from data_ok_at(1,3) [OF d put_refused(1) e] have p: "pending (chan s) a"
    "pc_data (pcs s ! t) = (Some (a, w), None)" by auto
  from el_free_pending [OF inv p(1)] p(2)
    data_ok_idle [OF d _ put_refused(1), of "el_free (chan s) a"] show ?case
    by (intro chs_inv_same [OF put_refused(5)]) (auto simp: el_free_def)
next
  case (put_done t s a w woken c c1 ps)
  have d: "data_ok (chan s) (map pc_data (pcs s))" and inv: "ch_inv (chan s)"
    using put_done(8) by (simp_all add: chs_inv_def)
  note at = data_ok_at [OF d put_done(1,2)]
  have ic: "ch_inv c" "pending c a" "ch_items c = ch_items (chan s)" "datalen c = datalen (chan s)"
    using inv at(1) put_done(3) by simp_all
  from enqueue_pending [OF ic(1,2) at(2) put_done(6)] have c1: "ch_inv c1"
    "ch_items c1 = at_place w (block (the (elems c1 a))) (ch_items (chan s))"
    "datalen c1 = datalen (chan s)" "\<forall>x. pending c x \<longrightarrow> x \<noteq> a \<longrightarrow> pending c1 x"
    unfolding ic(3,4) by blast+
  have "data_ok c1 (map pc_data ((pcs s)[t := Idle]))"
    using data_ok_idle [OF d c1(3) put_done(1)] c1(4) at(3) put_done(3) by simp
  moreover have "map pc_data ps = map pc_data ((pcs s)[t := Idle])"
    using put_done(7) signal_data by (auto split: if_splits)
  ultimately have "data_ok c1 (map pc_data ps)" by simp
  moreover have "count_list (ch_items c1) b =
      count_list (ch_items (chan s)) b + count_list [block (the (elems c1 a))] b" for b
    by (simp add: c1(2) at_place_def)
  ultimately show ?case
    using put_done(8) c1(1,2) by (auto simp: chs_inv_def at_place_def)
next
  case (get_nodata t s)
  then show ?case by simp
next
  case (get_sleep t s cap0 cap woken c)
  have d: "data_ok (chan s) (map pc_data (pcs s))" and inv: "ch_inv (chan s)"
    using get_sleep(7) by (simp_all add: chs_inv_def)
  from data_ok_change [OF d, of "c\<lparr>get_waiting_threads := get_waiting_threads c + 1\<rparr>" t "(None, Some cap)"]
  show ?case
    using get_sleep(1,3,4) inv by (intro chs_inv_same [OF get_sleep(7)]) (simp_all add: map_update)
next
  case (get_done t s cap0 cap woken c a rc out c1 ps)
  have d: "data_ok (chan s) (map pc_data (pcs s))" and inv: "ch_inv (chan s)"
    using get_done(8) by (simp_all add: chs_inv_def)
  have ic: "ch_inv c" "ch_items c = ch_items (chan s)" "datalen c = datalen (chan s)"
    using inv get_done(3) by simp_all
  from take_pending [OF ic(1) get_done(6,5,4)] have c1: "ch_inv c1"
    "ch_items (chan s) = block (the (elems c a)) # ch_items c1"
    "datalen c1 = datalen (chan s)" "\<forall>x. pending c x \<longrightarrow> pending c1 x"
    unfolding ic(2,3) by blast+
  have "data_ok c1 (map pc_data ((pcs s)[t := Idle]))"
    using data_ok_idle [OF d c1(3) get_done(1)] c1(4) get_done(3) by simp
  moreover have "map pc_data ps = map pc_data ((pcs s)[t := Idle])"
    using get_done(7) signal_data by (auto split: if_splits)
  ultimately have "data_ok c1 (map pc_data ps)" by simp
  then show ?case
    using get_done(8) c1(1,2) by (auto simp: chs_inv_def)
next
  case (wakes u s q)
  with wake_datas show ?case by (simp add: chs_inv_def)
qed

lemma chs_inv_init: "chs_init s \<Longrightarrow> chs_inv s"
  by (auto simp: chs_init_def chs_inv_def data_ok_def list_all_length)

lemma chs_inv_reachable: "chs_reachable s \<Longrightarrow> chs_inv s"
  by (induction rule: chs_reachable.induct) (auto intro: chs_inv_init chs_inv_step)

section \<open>Progress\<close>

lemma cond_signal_total: "\<exists>ps'. cond_signal f ps ps'"
proof (cases "\<forall>q \<in> set ps. f q = None")
  case True
  then show ?thesis by (blast intro: cond_signal.nobody)
next
  case False
  then obtain u q where "u < length ps" "f (ps ! u) = Some q" by (auto simp: in_set_conv_nth)
  then show ?thesis by (blast intro: cond_signal.somebody)
qed

lemma dest_ok_copy:
  assumes "blk_ok dl b" and "b \<noteq> BEot" and "dest_ok dl cap" and "0 \<le> dl"
  shows "\<exists>out. ch_copy_out dl b cap = Some out"
  using assms
  by (cases b) (auto simp: blk_ok_def ch_copy_out_def dest_ok_def CH_DATALEN_VOIDP_def CH_DATALEN_STRING_def)

lemma woken_getter_takes:
  assumes inv: "chs_inv s" and t: "t < length (pcs s)" "pcs s ! t = GetWoken cap"
    and items: "ch_items (chan s) = x # xs" and dl: "0 \<le> datalen (chan s)"
  shows "\<exists>s'. chs_step s s' \<and> get_log s' = get_log s @ [x] \<and> ch_items (chan s') = xs"
proof -
  let ?c = "get_relock (chan s) True"
  have i: "ch_inv ?c" "ch_items ?c = x # xs" "data_ok (chan s) (map pc_data (pcs s))"
    using inv items by (simp_all add: chs_inv_def)
  from i(3) t have cap: "dest_ok (datalen ?c) cap" by (auto simp: data_ok_def)
  obtain a as e where
    f: "linked ?c (a # as)" "elems ?c a = Some e" "block e = x"
      "map (\<lambda>a. block (the (elems ?c a))) as = xs" "blk_ok (datalen ?c) x"
      "list_all (blk_ok (datalen ?c)) xs" "count ?c \<noteq> 0" "head ?c = Some a" "cells ?c = a # as"
    by (rule ch_first [OF i(1,2)])
  from dest_ok_copy [OF f(5) _ cap] dl f(3) obtain out where
    "block e = BEot \<or> ch_copy_out (datalen ?c) (block e) cap = Some out" by auto
  from ch_take_spec [OF f(1,2) _ this] f(3,5) obtain rc out c1 where
    c1: "ch_take ?c cap = Some (rc, out, c1)" by (auto split: if_splits)
  from take_pending [OF i(1) c1 f(8,7)] have xs: "ch_items c1 = xs" using i(2) by simp
  obtain ps where ps: "if max_size c1 \<noteq> 0 \<and> 0 < put_waiting_threads c1
      then cond_signal wake_put ((pcs s)[t := Idle]) ps else ps = (pcs s)[t := Idle]"
    using cond_signal_total by metis
  have "get_entry (pcs s ! t) cap = Some (cap, True)" using t(2) by (simp add: get_entry_Some)
  from chs_step.get_done [OF t(1) this refl f(7,8) c1 ps] f(2,3) xs show ?thesis by auto
qed

lemma woken_putter_links:
  assumes inv: "chs_inv s" and t: "t < length (pcs s)" "pcs s ! t = PutWoken a w"
    and room: "count (chan s) < max_size (chan s)" "int_ok (max_size (chan s))"
  shows "\<exists>s' x. chs_step s s' \<and> put_log s' = put_log s @ [x] \<and>
    ch_items (chan s') = at_place w x (ch_items (chan s))"
proof -
  let ?c = "put_relock (chan s) True"
  have i: "ch_inv ?c" "ch_items ?c = ch_items (chan s)" "data_ok (chan s) (map pc_data (pcs s))"
    using inv by (simp_all add: chs_inv_def)
  have e: "put_entry (pcs s ! t) = Some (a, w, True)" using t(2) by (simp add: put_entry_Some)
  note at = data_ok_at [OF i(3) t(1) e]
  have a: "pending ?c a" using at(1) by simp
  then obtain b where b: "elems ?c a = Some \<lparr>block = b, prev = None\<rparr>" "a \<notin> set (cells ?c)"
    by (auto simp: pending_def)
  have l: "linked ?c (cells ?c)" using i(1) by (simp add: ch_inv_def)
  have "int_ok (count ?c + 1)"
    using room ch_items_length [OF i(1)] by (simp add: int_ok_def)
  from ch_enqueue_spec [OF l b this at(2)] obtain c1 where c1: "ch_enqueue ?c a w = Some c1" by blast
  from enqueue_pending [OF i(1) a at(2) c1] i(2)
  have items: "ch_items c1 = at_place w (block (the (elems c1 a))) (ch_items (chan s))" by simp
  obtain ps where ps: "if ch_blocking c1 then cond_signal wake_get ((pcs s)[t := Idle]) ps
      else ps = (pcs s)[t := Idle]"
    using cond_signal_total by metis
  have "\<not> put_waits ?c True" using room by (simp add: put_waits_def)
  from chs_step.put_done [OF t(1) e refl this _ c1 ps] items show ?thesis by auto
qed

lemma lost_wakeup_free:
  assumes "chs_reachable s" and "u < length (pcs s)"
  shows "(g_sleeps (pcs s ! u) \<longrightarrow>
      int (length (ch_items (chan s))) \<le> tally g_woken (pcs s)) \<and>
    (p_sleeps (pcs s ! u) \<longrightarrow>
      max_size (chan s) - int (length (ch_items (chan s))) \<le> tally p_woken (pcs s))"
proof -
  have "ch_inv (chan s)" using chs_inv_reachable [OF assms(1)] by (simp add: chs_inv_def)
  then have "count (chan s) = int (length (ch_items (chan s)))" by (rule ch_items_length)
  then show ?thesis
    using wake_inv_reachable [OF assms(1)] tally_pos [OF assms(2), of g_sleeps]
      tally_pos [OF assms(2), of p_sleeps]
    by (auto simp: wake_inv_def wake_ok_def)
qed

section \<open>Properties\<close>

text \<open>Whatever the threads do, a channel of limited size never holds more blocks than its
  limit, and its counters of waiting threads are exact.\<close>

theorem channel_threads_bounded:
  assumes "chs_reachable s"
  shows "(0 < max_size (chan s) \<longrightarrow> int (length (ch_items (chan s))) \<le> max_size (chan s)) \<and>
    get_waiting_threads (chan s) = tally (\<lambda>q. g_sleeps q \<or> g_woken q) (pcs s) \<and>
    put_waiting_threads (chan s) = tally (\<lambda>q. p_sleeps q \<or> p_woken q) (pcs s)"
proof -
  have "tally (\<lambda>q. g_sleeps q \<or> g_woken q) ps = tally g_sleeps ps + tally g_woken ps \<and>
      tally (\<lambda>q. p_sleeps q \<or> p_woken q) ps = tally p_sleeps ps + tally p_woken ps" for ps
    by (induction ps) (auto simp: tally_def pc_defs split: tpc.splits)
  moreover have "ch_inv (chan s)" using chs_inv_reachable [OF assms] by (simp add: chs_inv_def)
  ultimately show ?thesis
    using wake_inv_reachable [OF assms] by (simp add: wake_inv_def wake_ok_def ch_items_length)
qed

text \<open>C14: whatever the threads do, no block is lost, duplicated or made up; and as long as
  only \<open>ch_put\<close> is used, the blocks are taken out in the order they were linked in.\<close>

theorem channel_threads_fifo:
  assumes "chs_reachable s"
  shows "(\<forall>b. count_list (put_log s) b = count_list (get_log s) b + count_list (ch_items (chan s)) b) \<and>
    (\<not> top_used s \<longrightarrow> put_log s = get_log s @ ch_items (chan s))"
  using chs_inv_reachable [OF assms] by (simp add: chs_inv_def)

text \<open>C13: no wakeup is lost: while some thread sleeps in \<open>ch_get\<close>, at least as many threads
  as there are queued blocks have been woken for a get and not run yet; while some thread
  sleeps in \<open>_ch_put\<close>, at least as many as there are free places have been woken for a put.\<close>

theorem channel_no_lost_wakeup:
  assumes "chs_reachable s" and "u < length (pcs s)"
  shows "(g_sleeps (pcs s ! u) \<longrightarrow>
      int (length (ch_items (chan s))) \<le> tally g_woken (pcs s)) \<and>
    (p_sleeps (pcs s ! u) \<longrightarrow>
      max_size (chan s) - int (length (ch_items (chan s))) \<le> tally p_woken (pcs s))"
  using assms by (rule lost_wakeup_free)


text \<open>Setting the size of a channel to 0 (no limit) while a thread waits for room in
  \<open>_ch_put\<close> leaves that thread waiting for ever: its loop compares the count with 0, while
  threads that start a put later are not held up.\<close>

theorem ch_setattr_unlimited_strands_putters:
  fixes c :: "'p ch"
  assumes "ch_inv c"
  shows "\<exists>c'. ch_setattr (Some c) CH_FIXED_SIZE 0 = (CH_OK, Some c') \<and>
    (\<forall>c2 :: 'p ch. ch_inv c2 \<and> max_size c2 = max_size c' \<longrightarrow> put_waits c2 True \<and> \<not> put_waits c2 False)"
proof -
  have "ch_setattr (Some c) CH_FIXED_SIZE 0 = (CH_OK, Some (c\<lparr>max_size := 0\<rparr>))"
    using assms by (simp add: ch_setattr_def ch_inv_def CH_FIXED_SIZE_def CH_BLOCKING_MODE_def)
  moreover have "put_waits c2 True \<and> \<not> put_waits c2 False" if "ch_inv c2" "max_size c2 = 0" for c2 :: "'p ch"
    using that ch_items_length [OF that(1)] by (simp add: put_waits_def ch_full_def)
  ultimately show ?thesis by auto
qed

section \<open>Witnesses\<close>

text \<open>A run: on an empty channel for two pointers, threads 0 and 1 go to sleep in \<open>ch_get\<close>, and
  thread 2 puts a pointer, which wakes thread 0.\<close>

definition ex_chan :: "nat ch" where
  "ex_chan = \<lparr>magic = 3274, ch_allocated = True, datalen = 0, count = 0, max_size = 2, attr = 1,
     head = None, tail = None, get_waiting_threads = 0, put_waiting_threads = 0,
     ch_locked = False, elems = Map.empty, el_brk = 0\<rparr>"

definition ex_sys :: "nat ch \<Rightarrow> tpc list \<Rightarrow> nat blk list \<Rightarrow> nat chsys" where
  "ex_sys c ps log = \<lparr>chan = c, pcs = ps, put_log = log, get_log = [], top_used = False\<rparr>"

lemma ex_chan_ok: "ch_inv ex_chan" "ch_items ex_chan = []"
  by (simp_all add: ex_chan_def ch_inv_def ch_items_def cells_def linked_def int_ok_def
      CH_MAGIC_ID_def CH_DATALEN_STRING_def)

lemma ex_run_sleep:
  "chs_reachable (ex_sys (ex_chan\<lparr>get_waiting_threads := 2\<rparr>) [GetWait 8, GetWait 8, Idle] [])"
proof -
  have "chs_reachable (ex_sys ex_chan [Idle, Idle, Idle] [])"
    by (rule chs_reachable.start) (simp add: chs_init_def ex_sys_def ex_chan_ok, simp add: ex_chan_def)
  moreover have "chs_step (ex_sys ex_chan [Idle, Idle, Idle] [])
      (ex_sys (ex_chan\<lparr>get_waiting_threads := 1\<rparr>) [GetWait 8, Idle, Idle] [])"
    using chs_step.get_sleep [of 0 "ex_sys ex_chan [Idle, Idle, Idle] []" 8 8 False ex_chan]
    by (simp add: ex_sys_def get_entry_def get_relock_def)
      (simp add: ex_chan_def dest_ok_def ch_blocking_def CH_ATTR_BLOCKING_GETPUT_def)
  moreover have "chs_step (ex_sys (ex_chan\<lparr>get_waiting_threads := 1\<rparr>) [GetWait 8, Idle, Idle] [])
      (ex_sys (ex_chan\<lparr>get_waiting_threads := 2\<rparr>) [GetWait 8, GetWait 8, Idle] [])"
    using chs_step.get_sleep [of 1 "ex_sys (ex_chan\<lparr>get_waiting_threads := 1\<rparr>) [GetWait 8, Idle, Idle] []"
        8 8 False "ex_chan\<lparr>get_waiting_threads := 1\<rparr>"]
    by (simp add: ex_sys_def get_entry_def get_relock_def)
      (simp add: ex_chan_def dest_ok_def ch_blocking_def CH_ATTR_BLOCKING_GETPUT_def)
  ultimately show ?thesis by (blast intro: chs_reachable.step)
qed

definition ex_full_chan :: "nat ch" where
  "ex_full_chan = ex_chan\<lparr>get_waiting_threads := 2, count := 1, head := Some 0, tail := Some 0,
     elems := [0 \<mapsto> \<lparr>block = BPtr 42, prev = None\<rparr>], el_brk := 1\<rparr>"

lemma ex_run_put:
  "chs_reachable (ex_sys ex_full_chan [GetWoken 8, GetWait 8, Idle] [BPtr 42])"
proof -
  let ?c0 = "ex_chan\<lparr>get_waiting_threads := 2\<rparr>"
  let ?c1 = "?c0\<lparr>elems := [0 \<mapsto> \<lparr>block = BPtr 42, prev = None\<rparr>], el_brk := 1\<rparr>"
  have "ch_put_enter ?c0 (ArgPtr 42 []) True True = Some (Inr 0, ?c1)"
    by (simp add: ch_put_enter_def ex_chan_def CH_MAGIC_ID_def el_alloc_def set_block_def
          ch_block_of_def CH_DATALEN_VOIDP_def)
  with chs_step.put_start [of 2 "ex_sys ?c0 [GetWait 8, GetWait 8, Idle] []" CH_PUT_STD
      "ArgPtr 42 []" True True "Inr 0" ?c1]
  have "chs_step (ex_sys ?c0 [GetWait 8, GetWait 8, Idle] [])
      (ex_sys ?c1 [GetWait 8, GetWait 8, PutReady 0 CH_PUT_STD] [])"
    by (simp add: ex_sys_def)
  moreover have "chs_step (ex_sys ?c1 [GetWait 8, GetWait 8, PutReady 0 CH_PUT_STD] [])
      (ex_sys ex_full_chan [GetWoken 8, GetWait 8, Idle] [BPtr 42])"
  proof -
    have "ch_enqueue ?c1 0 CH_PUT_STD = Some ex_full_chan"
      by (simp add: ch_enqueue_def ch_link_def ex_chan_def ex_full_chan_def int_ok_def)
    moreover have "cond_signal wake_get [GetWait 8, GetWait 8, Idle] [GetWoken 8, GetWait 8, Idle]"
      using cond_signal.somebody [of 0 "[GetWait 8, GetWait 8, Idle]" wake_get "GetWoken 8"]
      by (simp add: wake_get_def)
    moreover have "ch_blocking ex_full_chan" "\<not> put_waits ?c1 False"
      "\<not> (ch_full ?c1 \<and> \<not> ch_blocking ?c1)"
      by (simp_all add: ex_full_chan_def ex_chan_def ch_blocking_def CH_ATTR_BLOCKING_GETPUT_def
            put_waits_def ch_full_def)
    ultimately show ?thesis
      using chs_step.put_done [of 2 "ex_sys ?c1 [GetWait 8, GetWait 8, PutReady 0 CH_PUT_STD] []"
          0 CH_PUT_STD False ?c1 ex_full_chan "[GetWoken 8, GetWait 8, Idle]"]
      by (simp add: ex_sys_def put_entry_def put_relock_def) (simp add: ex_full_chan_def)
  qed
  ultimately show ?thesis using ex_run_sleep by (blast intro: chs_reachable.step)
qed

theorem channel_threads_bounded_witness:
  "get_waiting_threads ex_full_chan = tally (\<lambda>q. g_sleeps q \<or> g_woken q) [GetWoken 8, GetWait 8, Idle]"
  using channel_threads_bounded [OF ex_run_put] by (simp add: ex_sys_def)

theorem channel_threads_fifo_witness: "[BPtr 42] = ch_items ex_full_chan"
  using channel_threads_fifo [OF ex_run_put] by (simp add: ex_sys_def)

theorem channel_no_lost_wakeup_witness:
  "int (length (ch_items ex_full_chan)) \<le> tally g_woken [GetWoken 8, GetWait 8, Idle]"
  using channel_no_lost_wakeup [OF ex_run_put, of 1] by (simp add: ex_sys_def)


theorem ch_setattr_unlimited_strands_putters_witness:
  "\<exists>c'. ch_setattr (Some ex_chan) CH_FIXED_SIZE 0 = (CH_OK, Some c')"
  using ch_setattr_unlimited_strands_putters [OF ex_chan_ok(1)] by blast

end
