(* ===== verification/Fh.thy ===== *)
theory Fh
  imports Prelude
begin

unbundle bit_operations_syntax

text \<open>
  The hash table of libfh/fh.c and fh.h, the table proper; its enumerator and the operations
  that use it are in FhEnum.

  \<open>hash_table\<close> has one chain of buckets per index (the empty chain is the null pointer); a
  bucket has \<open>BUCKET_SIZE\<close> entries, an entry being the element \<open>mini_hashes[i]\<close> together with
  \<open>slot[i]\<close>. Keys are C strings by value: the table owns copies of them, or (attribute
  \<open>FH_SETATTR_DONTCOPYKEY\<close>) relies on the caller to leave them alone. An opaque object is a
  pointer of the caller or an allocated copy of bytes. The hash function is a field, as in
  the code. Locks: one flag per mutex (or rwlock) of the pool, set while it is held; a call
  that takes a lock that is held already never returns. With rwlocks one flag is still enough:
  read locks are taken and released within \<open>fh_get\<close> and \<open>fh_search\<close>, so that only write locks
  are held between calls. \<open>fh_allocs\<close> gives the outcomes of
  the allocations of one call. The counter \<open>h_elements\<close> is not bounded.
\<close>

section \<open>Data\<close>

definition FH_MAGIC_ID :: int where "FH_MAGIC_ID = 830666"
definition FHE_MAGIC_ID :: int where "FHE_MAGIC_ID = 765130"
definition FH_OK :: int where "FH_OK = 1"
definition FH_BAD_HANDLE :: int where "FH_BAD_HANDLE = -1"
definition FH_INVALID_KEY :: int where "FH_INVALID_KEY = -1000"
definition FH_ELEMENT_NOT_FOUND :: int where "FH_ELEMENT_NOT_FOUND = -2000"
definition FH_DUPLICATED_ELEMENT :: int where "FH_DUPLICATED_ELEMENT = -3000"
definition FH_NO_MEMORY :: int where "FH_NO_MEMORY = -4000"
definition FH_INVALID_ARGUMENT :: int where "FH_INVALID_ARGUMENT = -5000"
definition FH_WRONG_DATALEN :: int where "FH_WRONG_DATALEN = -6000"
definition FH_DIM_INVALID :: int where "FH_DIM_INVALID = -7000"
definition FH_BAD_ATTR :: int where "FH_BAD_ATTR = -9000"
definition FH_FREE_NOT_REQUESTED :: int where "FH_FREE_NOT_REQUESTED = -1500"
definition FH_EMPTY_HASHTABLE :: int where "FH_EMPTY_HASHTABLE = -2500"
definition FH_ERROR_OPERATION_NOT_PERMITTED :: int where "FH_ERROR_OPERATION_NOT_PERMITTED = -3500"
definition FH_ATTR_ELEMENT :: int where "FH_ATTR_ELEMENT = 100"
definition FH_ATTR_DIM :: int where "FH_ATTR_DIM = 101"
definition FH_ATTR_COLLISION :: int where "FH_ATTR_COLLISION = 102"
definition FH_ATTR_VERSION :: int where "FH_ATTR_VERSION = 103"
definition FH_SETATTR_DONTCOPYKEY :: int where "FH_SETATTR_DONTCOPYKEY = 1"
definition FH_SETATTR_USERWLOCKS :: int where "FH_SETATTR_USERWLOCKS = 2"
definition FH_DATALEN_STRING :: int where "FH_DATALEN_STRING = -1"
definition FH_DATALEN_VOIDP :: int where "FH_DATALEN_VOIDP = 0"
definition FH_ENUM_SORTED_ASC :: int where "FH_ENUM_SORTED_ASC = 1"
definition FH_ENUM_SORTED_DESC :: int where "FH_ENUM_SORTED_DESC = 2"
definition SIZE_LIMIT_SINGLE_MUTEX :: int where "SIZE_LIMIT_SINGLE_MUTEX = 64"
definition BUCKET_SIZE :: nat where "BUCKET_SIZE = 8"
definition MIN_MINIHASH :: byte where "MIN_MINIHASH = 5"

lemmas fh_code_defs =
  FH_MAGIC_ID_def FHE_MAGIC_ID_def FH_OK_def FH_BAD_HANDLE_def FH_INVALID_KEY_def
  FH_ELEMENT_NOT_FOUND_def FH_DUPLICATED_ELEMENT_def FH_NO_MEMORY_def FH_INVALID_ARGUMENT_def
  FH_WRONG_DATALEN_def FH_DIM_INVALID_def FH_BAD_ATTR_def FH_FREE_NOT_REQUESTED_def
  FH_EMPTY_HASHTABLE_def FH_ERROR_OPERATION_NOT_PERMITTED_def FH_DATALEN_STRING_def
  FH_DATALEN_VOIDP_def

datatype 'p obj = OPtr 'p | OMem "byte list"

record 'p fh_entry =
  mini :: byte
  e_key :: "cstr option"
  e_obj :: "'p obj option"

type_synonym 'p fh_bucket = "'p fh_entry list"

record 'p fh =
  h_magic :: int
  h_dim :: int
  h_datalen :: int
  h_elements :: int
  h_collision :: u32
  h_attr :: u32
  hash_function :: "cstr \<Rightarrow> u64"
  rw_mode :: bool
  h_held :: "bool list"
  n_lock :: int
  hash_table :: "'p fh_bucket list list"

record fh_allocs =
  a_bucket :: bool
  a_chain :: bool
  a_key :: bool
  a_obj :: bool

text \<open>An opaque argument: null, or a pointer with the bytes that can be read from it.\<close>

type_synonym 'p block = "('p \<times> byte list) option"

section \<open>Hashes and sizes\<close>

text \<open>\<open>MAKE_MINIHASH\<close>: the top byte of the hash, moved away from the reserved values.\<close>

definition make_minihash :: "u64 \<Rightarrow> byte" where
  "make_minihash h = (let r = ucast (drop_bit 56 h) :: byte in if r < MIN_MINIHASH then r + MIN_MINIHASH else r)"

definition fh_index :: "'p fh \<Rightarrow> u64 \<Rightarrow> int" where
  "fh_index f h = uint (h AND word_of_int (h_dim f - 1))"

partial_function (option) fh_size_loop :: "u32 \<Rightarrow> u32 \<Rightarrow> u32 option" where
  "fh_size_loop i s = (if i < s then fh_size_loop (push_bit 1 i) s else Some i)"

definition fh_hash_size :: "u32 \<Rightarrow> u32 option" where
  "fh_hash_size s = fh_size_loop 1 (s + s div 2)"

text \<open>The number of locks of a large table: the loop of \<open>fh_create\<close>.\<close>

function fh_lock_count :: "int \<Rightarrow> int \<Rightarrow> int" where
  "fh_lock_count num sz = (if 0 < num then fh_lock_count (drop_bit 1 num) (sz + 1) else sz)"
  by auto

termination
  by (relation "measure (\<lambda>(num, sz). nat num)") (auto simp: drop_bit_eq_div)

declare fh_lock_count.simps [simp del]

section \<open>Creation\<close>

text \<open>\<open>fh_default_hash\<close> for a given \<open>wyhash\<close>: the empty string has the hash 1.\<close>

definition fh_default_hash :: "(cstr \<Rightarrow> u64) \<Rightarrow> cstr \<Rightarrow> u64" where
  "fh_default_hash wyhash key = (if cbytes key = [] then 1 else wyhash key)"

text \<open>\<open>wy\<close> is the default hash after its seed and secret have been made. \<open>calloc\<close> cannot
  succeed for a negative dimension, which it reads as a size close to 2^64.\<close>

definition fh_create ::
  "(cstr \<Rightarrow> u64) \<Rightarrow> int \<Rightarrow> int \<Rightarrow> (cstr \<Rightarrow> u64) option \<Rightarrow> bool \<Rightarrow> bool \<Rightarrow> bool \<Rightarrow> 'p fh option option" where
  "fh_create wy dim dl hf table_ok handle_ok locks_ok =
     do { n \<leftarrow> fh_hash_size (word_of_int dim);
          let real_dim = sint n;
              nl = (if SIZE_LIMIT_SINGLE_MUTEX < dim then fh_lock_count dim 0 else 1)
          in
          if \<not> (table_ok \<and> 0 \<le> real_dim) \<or> \<not> handle_ok \<or> \<not> locks_ok then Some None
          else Some (Some
            \<lparr>h_magic = FH_MAGIC_ID, h_dim = real_dim, h_datalen = dl, h_elements = 0,
             h_collision = 0, h_attr = 0,
             hash_function = (case hf of None \<Rightarrow> fh_default_hash wy | Some g \<Rightarrow> g),
             rw_mode = False, h_held = replicate (nat nl) False, n_lock = nl,
             hash_table = replicate (nat real_dim) []\<rparr>) }"

section \<open>Locks and counters\<close>

text \<open>The index \<open>slot % n_lock\<close> of C; a negative one is outside the pool.\<close>

definition fh_lock_index :: "'p fh \<Rightarrow> int \<Rightarrow> nat option" where
  "fh_lock_index f slot =
     (if slot < 0 \<and> slot mod n_lock f \<noteq> 0 then None else Some (nat (slot mod n_lock f)))"

definition fh_lock :: "'p fh \<Rightarrow> int \<Rightarrow> 'p fh option" where
  "fh_lock f slot =
     do { i \<leftarrow> fh_lock_index f slot;
          if h_held f ! i then None else Some (f\<lparr>h_held := (h_held f)[i := True]\<rparr>) }"

definition fh_unlock :: "'p fh \<Rightarrow> int \<Rightarrow> 'p fh option" where
  "fh_unlock f slot =
     do { i \<leftarrow> fh_lock_index f slot;
          if h_held f ! i then Some (f\<lparr>h_held := (h_held f)[i := False]\<rparr>) else None }"

definition fh_inc_elem :: "'p fh \<Rightarrow> 'p fh" where
  "fh_inc_elem f = f\<lparr>h_elements := h_elements f + 1\<rparr>"

definition fh_dec_elem :: "'p fh \<Rightarrow> 'p fh" where
  "fh_dec_elem f = f\<lparr>h_elements := h_elements f - 1\<rparr>"

definition fh_inc_collision :: "'p fh \<Rightarrow> 'p fh" where
  "fh_inc_collision f = f\<lparr>h_collision := h_collision f + 1\<rparr>"

definition fh_bad :: "'p fh option \<Rightarrow> bool" where
  "fh_bad fh = (case fh of None \<Rightarrow> True | Some f \<Rightarrow> h_magic f \<noteq> FH_MAGIC_ID)"

definition dont_copy_key :: "'p fh \<Rightarrow> bool" where
  "dont_copy_key f \<longleftrightarrow> h_attr f AND word_of_int FH_SETATTR_DONTCOPYKEY \<noteq> 0"

section \<open>Attributes\<close>

text \<open>Switching to rwlocks destroys the mutexes, which none may hold.\<close>

definition fh_setattr :: "'p fh option \<Rightarrow> int \<Rightarrow> int \<Rightarrow> bool \<Rightarrow> (int \<times> 'p fh option) option" where
  "fh_setattr fh atr value ok =
     (if fh_bad fh then Some (FH_BAD_HANDLE, fh)
      else
        do { f \<leftarrow> fh;
             if atr = FH_SETATTR_DONTCOPYKEY then
               (if 0 < h_elements f then Some (FH_ERROR_OPERATION_NOT_PERMITTED, fh)
                else Some (FH_OK, Some (f\<lparr>h_attr := h_attr f OR word_of_int FH_SETATTR_DONTCOPYKEY\<rparr>)))
             else if atr = FH_SETATTR_USERWLOCKS then
               (if value = 0 then Some (FH_ERROR_OPERATION_NOT_PERMITTED, fh)
                else if rw_mode f \<or> h_attr f AND word_of_int FH_SETATTR_USERWLOCKS \<noteq> 0
                then Some (FH_ERROR_OPERATION_NOT_PERMITTED, fh)
                else if \<not> ok then Some (FH_NO_MEMORY, fh)
                else if True \<in> set (h_held f) then None
                else Some (FH_OK, Some (f\<lparr>h_attr := h_attr f OR word_of_int FH_SETATTR_USERWLOCKS,
                                          rw_mode := True\<rparr>)))
             else Some (FH_BAD_ATTR, fh) })"

definition fh_getattr :: "'p fh option \<Rightarrow> int \<Rightarrow> int \<times> int option" where
  "fh_getattr fh atr =
     (case fh of
        None \<Rightarrow> (FH_BAD_HANDLE, None)
      | Some f \<Rightarrow>
          if h_magic f \<noteq> FH_MAGIC_ID then (FH_BAD_HANDLE, None)
          else if atr = FH_ATTR_ELEMENT then (FH_OK, Some (h_elements f))
          else if atr = FH_ATTR_DIM then (FH_OK, Some (h_dim f))
          else if atr = FH_ATTR_COLLISION then (FH_OK, Some (sint (h_collision f)))
          else (FH_BAD_ATTR, None))"

definition fh_getattr_string :: "'p fh option \<Rightarrow> int \<Rightarrow> int \<times> string option" where
  "fh_getattr_string fh atr =
     (if fh_bad fh then (FH_BAD_HANDLE, None)
      else if atr = FH_ATTR_VERSION then (FH_OK, Some ''1.2.1'')
      else (FH_BAD_ATTR, None))"

section \<open>Buckets\<close>

definition empty_entry :: "'p fh_entry" where
  "empty_entry = \<lparr>mini = 0, e_key = None, e_obj = None\<rparr>"

definition fh_allocate_bucket :: "'p fh_bucket" where
  "fh_allocate_bucket = replicate BUCKET_SIZE empty_entry"

text \<open>The inner loop of \<open>_fh_find_slot_in_bucket\<close> from entry \<open>i\<close> on; comparing with a null key
  is undefined.\<close>

fun fh_scan :: "'p fh_bucket \<Rightarrow> cstr \<Rightarrow> byte \<Rightarrow> nat \<Rightarrow> nat option option" where
  "fh_scan [] key mh i = Some None"
| "fh_scan (e # es) key mh i =
     (if mini e = mh then
        (case e_key e of
           None \<Rightarrow> None
         | Some k \<Rightarrow> if strcmp k key = 0 then Some (Some i) else fh_scan es key mh (Suc i))
      else fh_scan es key mh (Suc i))"

text \<open>The position found: the number of the bucket in the chain and of the entry in it.\<close>

fun fh_find_slot :: "'p fh_bucket list \<Rightarrow> cstr \<Rightarrow> byte \<Rightarrow> (nat \<times> nat) option option" where
  "fh_find_slot [] key mh = Some None"
| "fh_find_slot (b # bs) key mh =
     do { r \<leftarrow> fh_scan b key mh 0;
          case r of
            Some i \<Rightarrow> Some (Some (0, i))
          | None \<Rightarrow> do { r1 \<leftarrow> fh_find_slot bs key mh; Some (map_option (\<lambda>(j, i). (Suc j, i)) r1) } }"

fun fh_free_entry :: "'p fh_bucket \<Rightarrow> nat \<Rightarrow> nat option" where
  "fh_free_entry [] i = None"
| "fh_free_entry (e # es) i = (if mini e = 0 then Some i else fh_free_entry es (Suc i))"

text \<open>\<open>_fh_return_empty_slot_in_bucket\<close> on a chain that is not empty: the position of the
  first free entry, in a new bucket if need be, and the chain with its minihash set there;
  \<open>None\<close> when no bucket can be allocated.\<close>

fun fh_empty_slot ::
  "'p fh_bucket list \<Rightarrow> byte \<Rightarrow> bool \<Rightarrow> ('p fh_bucket list \<times> nat \<times> nat) option" where
  "fh_empty_slot [] mh ok = None"
| "fh_empty_slot (b # bs) mh ok =
     (case fh_free_entry b 0 of
        Some i \<Rightarrow> Some (b[i := (b ! i)\<lparr>mini := mh\<rparr>] # bs, 0, i)
      | None \<Rightarrow>
          if bs = [] then
            (if ok then Some ([b, fh_allocate_bucket[0 := empty_entry\<lparr>mini := mh\<rparr>]], 1, 0) else None)
          else
            (case fh_empty_slot bs mh ok of
               None \<Rightarrow> None
             | Some (bs1, j, i) \<Rightarrow> Some (b # bs1, Suc j, i)))"

definition upd_entry ::
  "'p fh_bucket list \<Rightarrow> nat \<times> nat \<Rightarrow> ('p fh_entry \<Rightarrow> 'p fh_entry) \<Rightarrow> 'p fh_bucket list" where
  "upd_entry ch pos g = ch[fst pos := (ch ! fst pos)[snd pos := g (ch ! fst pos ! snd pos)]]"

definition upd_chain :: "'p fh \<Rightarrow> int \<Rightarrow> 'p fh_bucket list \<Rightarrow> 'p fh" where
  "upd_chain f i ch = f\<lparr>hash_table := (hash_table f)[nat i := ch]\<rparr>"

definition fh_chain :: "'p fh \<Rightarrow> int \<Rightarrow> 'p fh_bucket list option" where
  "fh_chain f i = (if 0 \<le> i \<and> i < h_dim f then Some (hash_table f ! nat i) else None)"

section \<open>Insertion\<close>

text \<open>The opaque object for a block that is not null: \<open>Some None\<close> when the copy cannot be
  allocated; nothing is stored for a \<open>datalen\<close> below -1.\<close>

definition fh_new_obj :: "int \<Rightarrow> 'p \<times> byte list \<Rightarrow> bool \<Rightarrow> 'p obj option option option" where
  "fh_new_obj dl blk ok =
     (if 0 < dl then
        (if \<not> ok then Some None
         else if dl \<le> int (length (snd blk)) then Some (Some (Some (OMem (take (nat dl) (snd blk)))))
         else None)
      else if dl = FH_DATALEN_VOIDP then Some (Some (Some (OPtr (fst blk))))
      else if dl = FH_DATALEN_STRING then
        (if 0 \<notin> set (snd blk) then None
         else if \<not> ok then Some None
         else Some (Some (Some (OMem (takeWhile (\<lambda>x. x \<noteq> 0) (snd blk) @ [0])))))
      else Some (Some None))"

text \<open>
  What \<open>fh_insert\<close> and \<open>fh_insertlock\<close> do in the same way with the lock of the slot held: an
  error code, or the position of the new entry. On an error the changes made so far stay.
\<close>

definition fh_insert_locked ::
  "'p fh \<Rightarrow> cstr \<Rightarrow> 'p block \<Rightarrow> fh_allocs \<Rightarrow> int \<Rightarrow> byte \<Rightarrow> ((int + nat \<times> nat) \<times> 'p fh) option" where
  "fh_insert_locked f key blk al idx mh =
     do { ch0 \<leftarrow> fh_chain f idx;
          if ch0 = [] \<and> \<not> a_bucket al then Some (Inl FH_NO_MEMORY, f)
          else
            (let f1 = (if ch0 \<noteq> [] then fh_inc_collision f else upd_chain f idx [fh_allocate_bucket]);
                 ch1 = (if ch0 \<noteq> [] then ch0 else [fh_allocate_bucket])
             in
             do { r \<leftarrow> fh_find_slot ch1 key mh;
                  if r \<noteq> None then Some (Inl FH_DUPLICATED_ELEMENT, f1)
                  else
                    (case fh_empty_slot ch1 mh (a_chain al) of
                       None \<Rightarrow> Some (Inl FH_NO_MEMORY, f1)
                     | Some (ch2, pos) \<Rightarrow>
                         if \<not> dont_copy_key f1 \<and> \<not> a_key al
                         then Some (Inl FH_NO_MEMORY,
                                    upd_chain f1 idx (upd_entry ch2 pos (\<lambda>e. e\<lparr>e_key := None\<rparr>)))
                         else
                           (let ch3 = upd_entry ch2 pos (\<lambda>e. e\<lparr>e_key := Some key\<rparr>) in
                            case blk of
                              None \<Rightarrow> Some (Inr pos, upd_chain f1 idx ch3)
                            | Some b \<Rightarrow>
                                do { o1 \<leftarrow> fh_new_obj (h_datalen f1) b (a_obj al);
                                     case o1 of
                                       None \<Rightarrow> Some (Inl FH_NO_MEMORY, upd_chain f1 idx ch3)
                                     | Some v \<Rightarrow>
                                         Some (Inr pos, upd_chain f1 idx
                                                 (upd_entry ch3 pos (\<lambda>e. e\<lparr>e_obj := v\<rparr>))) })) }) }"

definition fh_insert ::
  "'p fh option \<Rightarrow> cstr option \<Rightarrow> 'p block \<Rightarrow> fh_allocs \<Rightarrow> (int \<times> 'p fh option) option" where
  "fh_insert fh key blk al =
     (if fh_bad fh then Some (FH_BAD_HANDLE, fh)
      else case key of
        None \<Rightarrow> Some (FH_INVALID_KEY, fh)
      | Some k \<Rightarrow>
          do { f \<leftarrow> fh;
               let h = hash_function f k; mh = make_minihash h; idx = fh_index f h in
               do { f1 \<leftarrow> fh_lock f idx;
                    (r, f2) \<leftarrow> fh_insert_locked f1 k blk al idx mh;
                    f3 \<leftarrow> fh_unlock f2 idx;
                    case r of
                      Inl rc \<Rightarrow> Some (rc, Some f3)
                    | Inr pos \<Rightarrow> Some (idx, Some (fh_inc_elem f3)) } })"

text \<open>
  \<open>fh_insertlock\<close> returns the code stored in \<open>*error\<close>, the stored opaque object, the slot
  left locked, and the position of the object when its address is given out.
\<close>

definition fh_insertlock ::
  "'p fh option \<Rightarrow> cstr option \<Rightarrow> 'p block \<Rightarrow> bool \<Rightarrow> bool \<Rightarrow> fh_allocs \<Rightarrow>
     (int \<times> 'p obj option \<times> int option \<times> (nat \<times> nat) option \<times> 'p fh option) option" where
  "fh_insertlock fh key blk want_slot want_addr al =
     (if fh_bad fh then Some (FH_BAD_HANDLE, None, None, None, fh)
      else case key of
        None \<Rightarrow> Some (FH_INVALID_KEY, None, None, None, fh)
      | Some k \<Rightarrow>
          if \<not> want_slot then Some (FH_INVALID_ARGUMENT, None, None, None, fh)
          else
            do { f \<leftarrow> fh;
                 let h = hash_function f k; mh = make_minihash h; idx = fh_index f h in
                 do { f1 \<leftarrow> fh_lock f idx;
                      (r, f2) \<leftarrow> fh_insert_locked f1 k blk al idx mh;
                      case r of
                        Inl rc \<Rightarrow> do { f3 \<leftarrow> fh_unlock f2 idx; Some (rc, None, None, None, Some f3) }
                      | Inr pos \<Rightarrow>
                          do { ch \<leftarrow> fh_chain f2 idx;
                               Some (FH_OK, e_obj (ch ! fst pos ! snd pos), Some idx,
                                     if want_addr \<and> h_datalen f2 = FH_DATALEN_VOIDP then Some pos else None,
                                     Some (fh_inc_elem f2)) } } })"

section \<open>Deletion\<close>

text \<open>\<open>_deallocate_bucket_if_empty\<close>: the bucket leaves the chain when all its minihashes
  are 0.\<close>

definition fh_dealloc_if_empty :: "'p fh_bucket list \<Rightarrow> nat \<Rightarrow> 'p fh_bucket list" where
  "fh_dealloc_if_empty ch j =
     (if list_all (\<lambda>e. mini e = 0) (ch ! j) then take j ch @ drop (Suc j) ch else ch)"

definition fh_del_slot :: "'p fh \<Rightarrow> cstr \<Rightarrow> int \<Rightarrow> byte \<Rightarrow> (int \<times> 'p fh) option" where
  "fh_del_slot f key idx mh =
     do { ch \<leftarrow> fh_chain f idx;
          r \<leftarrow> fh_find_slot ch key mh;
          case r of
            None \<Rightarrow> Some (FH_ELEMENT_NOT_FOUND, f)
          | Some pos \<Rightarrow>
              (let ch1 = upd_entry ch pos (\<lambda>e. e\<lparr>mini := 0, e_obj := None, e_key := None\<rparr>)
               in Some (idx, upd_chain f idx (fh_dealloc_if_empty ch1 (fst pos)))) }"

definition fh_del :: "'p fh option \<Rightarrow> cstr option \<Rightarrow> (int \<times> 'p fh option) option" where
  "fh_del fh key =
     (if fh_bad fh then Some (FH_BAD_HANDLE, fh)
      else case key of
        None \<Rightarrow> Some (FH_INVALID_KEY, fh)
      | Some k \<Rightarrow>
          do { f \<leftarrow> fh;
               let h = hash_function f k; idx = fh_index f h in
               do { f1 \<leftarrow> fh_lock f idx;
                    (rc, f2) \<leftarrow> fh_del_slot f1 k idx (make_minihash h);
                    f3 \<leftarrow> fh_unlock f2 idx;
                    Some (rc, Some (if 0 \<le> rc then fh_dec_elem f3 else f3)) } })"

definition fh_dellocked :: "'p fh option \<Rightarrow> cstr option \<Rightarrow> int \<Rightarrow> (int \<times> 'p fh option) option" where
  "fh_dellocked fh key locked_bucket =
     (if fh_bad fh then Some (FH_BAD_HANDLE, fh)
      else case key of
        None \<Rightarrow> Some (FH_INVALID_KEY, fh)
      | Some k \<Rightarrow>
          do { f \<leftarrow> fh;
               (rc, f1) \<leftarrow> fh_del_slot f k locked_bucket (make_minihash (hash_function f k));
               Some (rc, Some (if 0 \<le> rc then fh_dec_elem f1 else f1)) })"

section \<open>Search\<close>

text \<open>The part common to the searches, with the lock held: the entry of the key.\<close>

definition fh_lookup_entry :: "'p fh \<Rightarrow> cstr \<Rightarrow> 'p fh_entry option option" where
  "fh_lookup_entry f k =
     do { ch \<leftarrow> fh_chain f (fh_index f (hash_function f k));
          r \<leftarrow> fh_find_slot ch k (make_minihash (hash_function f k));
          Some (map_option (\<lambda>(j, i). ch ! j ! i) r) }"

text \<open>What \<open>fh_search\<close> writes to a buffer of \<open>cap\<close> bytes: \<open>memcpy\<close> of the object, or \<open>strncpy\<close>
  of at most \<open>n\<close> bytes, padded with zeros.\<close>

definition strncpy_bytes :: "byte list \<Rightarrow> nat \<Rightarrow> byte list" where
  "strncpy_bytes bs n =
     (let s = takeWhile (\<lambda>x. x \<noteq> 0) bs in take n s @ replicate (n - length s) 0)"

definition fh_copy_obj :: "int \<Rightarrow> 'p obj \<Rightarrow> int \<Rightarrow> nat \<Rightarrow> (int + byte list) option" where
  "fh_copy_obj dl v block_size cap =
     (case v of
        OPtr p \<Rightarrow> None
      | OMem bs \<Rightarrow>
          if 0 < dl then
            (if nat dl \<le> length bs \<and> nat dl \<le> cap then Some (Inr (take (nat dl) bs)) else None)
          else if dl = FH_DATALEN_STRING then
            (if block_size < 0 then Some (Inl FH_DIM_INVALID)
             else if nat block_size \<le> cap then Some (Inr (strncpy_bytes bs (nat block_size)))
             else None)
          else Some (Inr []))"

definition fh_search ::
  "'p fh option \<Rightarrow> cstr option \<Rightarrow> nat option \<Rightarrow> int \<Rightarrow> (int \<times> byte list \<times> 'p fh option) option" where
  "fh_search fh key dest block_size =
     (if fh_bad fh then Some (FH_BAD_HANDLE, [], fh)
      else case (key, dest) of
        (None, _) \<Rightarrow> Some (FH_INVALID_KEY, [], fh)
      | (Some k, None) \<Rightarrow> Some (FH_INVALID_ARGUMENT, [], fh)
      | (Some k, Some cap) \<Rightarrow>
          do { f \<leftarrow> fh;
               if h_datalen f = FH_DATALEN_VOIDP then Some (FH_WRONG_DATALEN, [], fh)
               else
                 (let idx = fh_index f (hash_function f k) in
                  do { f1 \<leftarrow> fh_lock f idx;
                       r \<leftarrow> fh_lookup_entry f1 k;
                       f2 \<leftarrow> fh_unlock f1 idx;
                       case r of
                         None \<Rightarrow> Some (FH_ELEMENT_NOT_FOUND, [], Some f2)
                       | Some e \<Rightarrow>
                           (case e_obj e of
                              None \<Rightarrow> Some (idx, [], Some f2)
                            | Some v \<Rightarrow>
                                do { w \<leftarrow> fh_copy_obj (h_datalen f) v block_size cap;
                                     case w of
                                       Inl rc \<Rightarrow> Some (rc, [], Some f2)
                                     | Inr bs \<Rightarrow> Some (idx, bs, Some f2) }) }) })"

definition fh_get ::
  "'p fh option \<Rightarrow> cstr option \<Rightarrow> (int \<times> 'p obj option \<times> 'p fh option) option" where
  "fh_get fh key =
     (if fh_bad fh then Some (FH_BAD_HANDLE, None, fh)
      else case key of
        None \<Rightarrow> Some (FH_INVALID_KEY, None, fh)
      | Some k \<Rightarrow>
          do { f \<leftarrow> fh;
               let idx = fh_index f (hash_function f k) in
               do { f1 \<leftarrow> fh_lock f idx;
                    r \<leftarrow> fh_lookup_entry f1 k;
                    f2 \<leftarrow> fh_unlock f1 idx;
                    case r of
                      None \<Rightarrow> Some (FH_ELEMENT_NOT_FOUND, None, Some f2)
                    | Some e \<Rightarrow> Some (FH_OK, e_obj e, Some f2) } })"

definition fh_searchlock ::
  "'p fh option \<Rightarrow> cstr option \<Rightarrow> (int \<times> 'p obj option \<times> int option \<times> 'p fh option) option" where
  "fh_searchlock fh key =
     (if fh_bad fh then Some (FH_BAD_HANDLE, None, None, fh)
      else case key of
        None \<Rightarrow> Some (FH_INVALID_KEY, None, None, fh)
      | Some k \<Rightarrow>
          do { f \<leftarrow> fh;
               let idx = fh_index f (hash_function f k) in
               do { f1 \<leftarrow> fh_lock f idx;
                    r \<leftarrow> fh_lookup_entry f1 k;
                    case r of
                      None \<Rightarrow> do { f2 \<leftarrow> fh_unlock f1 idx; Some (FH_ELEMENT_NOT_FOUND, None, None, Some f2) }
                    | Some e \<Rightarrow> Some (FH_OK, e_obj e, Some idx, Some f1) } })"

definition fh_releaselock :: "'p fh option \<Rightarrow> int \<Rightarrow> (int \<times> 'p fh option) option" where
  "fh_releaselock fh slot =
     (if fh_bad fh then Some (FH_BAD_HANDLE, fh)
      else do { f \<leftarrow> fh; f1 \<leftarrow> fh_unlock f slot; Some (FH_OK, Some f1) })"

end
