(* ===== verification/FhInv.thy ===== *)
theory FhInv
  imports Fh
begin

unbundle bit_operations_syntax

text \<open>
  The invariant of the hash table and its abstraction to a map.

  \<open>pairs ch\<close> lists the keys and objects of a chain, in order. Every operation on a chain
  either leaves this list alone, inserts one pair somewhere, or takes one out, which is what
  the lemmas on chains below state; from there on only lists of pairs with distinct keys
  matter.
\<close>

section \<open>Chains\<close>

definition bucket_pairs :: "'p fh_bucket \<Rightarrow> (cstr \<times> 'p obj option) list" where
  "bucket_pairs b = map (\<lambda>e. (the (e_key e), e_obj e)) (filter (\<lambda>e. mini e \<noteq> 0) b)"

definition pairs :: "'p fh_bucket list \<Rightarrow> (cstr \<times> 'p obj option) list" where
  "pairs ch = concat (map bucket_pairs ch)"

lemma bucket_pairs_simps [simp]:
  "bucket_pairs [] = []"
  "bucket_pairs (e # b) = (if mini e = 0 then [] else [(the (e_key e), e_obj e)]) @ bucket_pairs b"
  "bucket_pairs (b1 @ b2) = bucket_pairs b1 @ bucket_pairs b2"
  by (simp_all add: bucket_pairs_def)

lemma pairs_simps [simp]:
  "pairs [] = []"
  "pairs (b # ch) = bucket_pairs b @ pairs ch"
  "pairs (c1 @ c2) = pairs c1 @ pairs c2"
  by (simp_all add: pairs_def)

text \<open>An entry is free and clear, or holds a key with the right minihash; \<open>hf\<close> is the hash
  function.\<close>

definition entry_ok :: "(cstr \<Rightarrow> u64) \<Rightarrow> 'p fh_entry \<Rightarrow> bool" where
  "entry_ok hf e \<longleftrightarrow>
     (if mini e = 0 then e_key e = None \<and> e_obj e = None
      else \<exists>k. e_key e = Some k \<and> mini e = make_minihash (hf k))"

definition bucket_ok :: "(cstr \<Rightarrow> u64) \<Rightarrow> 'p fh_bucket \<Rightarrow> bool" where
  "bucket_ok hf b \<longleftrightarrow> length b = BUCKET_SIZE \<and> list_all (entry_ok hf) b"

definition chain_ok :: "(cstr \<Rightarrow> u64) \<Rightarrow> 'p fh_bucket list \<Rightarrow> bool" where
  "chain_ok hf ch \<longleftrightarrow> list_all (bucket_ok hf) ch \<and> list_all (\<lambda>b. bucket_pairs b \<noteq> []) ch \<and>
     distinct (map fst (pairs ch))"

lemma make_minihash_not_0 [simp]: "make_minihash h \<noteq> 0"
proof -
  have "x + 5 \<noteq> 0" if "(x::byte) < 5" for x
  proof
    assume "x + 5 = 0"
    then have "x = -5" by (simp add: eq_neg_iff_add_eq_0)
    with that show False by simp
  qed
  then show ?thesis by (auto simp: make_minihash_def MIN_MINIHASH_def Let_def)
qed

lemma empty_entry_ok [simp]: "entry_ok hf empty_entry"
  by (simp add: entry_ok_def empty_entry_def)

lemma new_bucket_ok [simp]: "bucket_ok hf fh_allocate_bucket" "bucket_pairs fh_allocate_bucket = []"
  by (simp_all add: bucket_ok_def fh_allocate_bucket_def bucket_pairs_def list_all_iff empty_entry_def
      entry_ok_def)

text \<open>Finding a key.\<close>

lemma fh_scan_spec:
  assumes "list_all (entry_ok hf) b" and "mh = make_minihash (hf key)"
  shows "\<exists>r. fh_scan b key mh n = Some r \<and>
    (case r of
       None \<Rightarrow> key \<notin> fst ` set (bucket_pairs b)
     | Some i \<Rightarrow> n \<le> i \<and> i < n + length b \<and> mini (b ! (i - n)) \<noteq> 0 \<and> e_key (b ! (i - n)) = Some key)"
  using assms(1)
proof (induction b arbitrary: n)
  case Nil
  then show ?case by simp
next
  case (Cons e b)
  from Cons.prems have e: "entry_ok hf e" and b: "list_all (entry_ok hf) b" by simp_all
  from Cons.IH [OF b, of "Suc n"] obtain r where
    r: "fh_scan b key mh (Suc n) = Some r"
    "case r of None \<Rightarrow> key \<notin> fst ` set (bucket_pairs b)
     | Some i \<Rightarrow> Suc n \<le> i \<and> i < Suc n + length b \<and> mini (b ! (i - Suc n)) \<noteq> 0 \<and>
         e_key (b ! (i - Suc n)) = Some key"
    by blast
  show ?case
  proof (cases "mini e = mh \<and> e_key e = Some key")
    case True
    with assms(2) show ?thesis by (intro exI [of _ "Some n"]) simp
  next
    case False
    with e assms(2) have ne: "mini e = 0 \<or> the (e_key e) \<noteq> key"
      and scan: "fh_scan (e # b) key mh n = fh_scan b key mh (Suc n)"
      by (auto simp: entry_ok_def split: if_splits option.splits)
    show ?thesis
    proof (cases r)
      case None
      with r ne scan show ?thesis by (auto split: option.splits)
    next
      case (Some i)
      with r(2) have "Suc n \<le> i" by simp
      then have "i - n = Suc (i - Suc n)" by arith
      with r Some scan show ?thesis by auto
    qed
  qed
qed

lemma fh_find_slot_spec:
  assumes "list_all (bucket_ok hf) ch" and "mh = make_minihash (hf key)"
  shows "\<exists>r. fh_find_slot ch key mh = Some r \<and>
    (case r of
       None \<Rightarrow> key \<notin> fst ` set (pairs ch)
     | Some (j, i) \<Rightarrow> j < length ch \<and> i < length (ch ! j) \<and> mini (ch ! j ! i) \<noteq> 0 \<and>
         e_key (ch ! j ! i) = Some key)"
  using assms(1)
proof (induction ch)
  case Nil
  then show ?case by simp
next
  case (Cons b ch)
  then have b: "list_all (entry_ok hf) b" by (simp add: bucket_ok_def)
  from fh_scan_spec [OF b assms(2), of 0] obtain r where
    r: "fh_scan b key mh 0 = Some r"
    "case r of None \<Rightarrow> key \<notin> fst ` set (bucket_pairs b)
     | Some i \<Rightarrow> 0 \<le> i \<and> i < 0 + length b \<and> mini (b ! (i - 0)) \<noteq> 0 \<and> e_key (b ! (i - 0)) = Some key"
    by blast
  from Cons obtain r1 where
    r1: "fh_find_slot ch key mh = Some r1"
    "case r1 of None \<Rightarrow> key \<notin> fst ` set (pairs ch)
     | Some (j, i) \<Rightarrow> j < length ch \<and> i < length (ch ! j) \<and> mini (ch ! j ! i) \<noteq> 0 \<and>
         e_key (ch ! j ! i) = Some key"
    by auto
  show ?case
  proof (cases r)
    case None
    with r r1 show ?thesis by (cases r1) (auto simp: image_Un)
  next
    case (Some i)
    with r show ?thesis by auto
  qed
qed

text \<open>A position splits the pairs of a chain.\<close>

lemma pairs_at:
  assumes "j < length ch" and "i < length (ch ! j)"
  shows "\<exists>xs ys. (\<forall>e. pairs (ch[j := (ch ! j)[i := e]]) =
       xs @ (if mini e = 0 then [] else [(the (e_key e), e_obj e)]) @ ys) \<and>
    pairs ch = xs @ (if mini (ch ! j ! i) = 0 then [] else
       [(the (e_key (ch ! j ! i)), e_obj (ch ! j ! i))]) @ ys"
proof -
  let ?xs = "pairs (take j ch) @ bucket_pairs (take i (ch ! j))"
  let ?ys = "bucket_pairs (drop (Suc i) (ch ! j)) @ pairs (drop (Suc j) ch)"
  have upd: "pairs (ch[j := (ch ! j)[i := e]]) =
      ?xs @ (if mini e = 0 then [] else [(the (e_key e), e_obj e)]) @ ?ys" for e
    using assms by (simp add: upd_conv_take_nth_drop)
  have "ch[j := (ch ! j)[i := ch ! j ! i]] = ch" by simp
  with upd [of "ch ! j ! i"] have "pairs ch = ?xs @ (if mini (ch ! j ! i) = 0 then [] else
       [(the (e_key (ch ! j ! i)), e_obj (ch ! j ! i))]) @ ?ys" by (simp only:)
  with upd show ?thesis by blast
qed

text \<open>Finding a free entry.\<close>

lemma fh_free_entry_spec:
  "case fh_free_entry b n of
     None \<Rightarrow> list_all (\<lambda>e. mini e \<noteq> 0) b
   | Some i \<Rightarrow> n \<le> i \<and> i < n + length b \<and> mini (b ! (i - n)) = 0"
proof (induction b arbitrary: n)
  case Nil
  then show ?case by simp
next
  case (Cons e b)
  show ?case
  proof (cases "mini e = 0")
    case True
    then show ?thesis by simp
  next
    case False
    show ?thesis
    proof (cases "fh_free_entry b (Suc n)")
      case None
      with Cons [of "Suc n"] False show ?thesis by simp
    next
      case (Some i)
      with Cons [of "Suc n"] have i: "Suc n \<le> i" "i < Suc n + length b" "mini (b ! (i - Suc n)) = 0"
        by simp_all
      then have "i - n = Suc (i - Suc n)" by arith
      with Some False i show ?thesis by simp
    qed
  qed
qed

lemma bucket_ok_full: "bucket_ok hf b \<Longrightarrow> list_all (\<lambda>e. mini e \<noteq> 0) b \<Longrightarrow> bucket_pairs b \<noteq> []"
  by (cases b) (auto simp: bucket_ok_def BUCKET_SIZE_def)

text \<open>The chain with the bucket that may have been added.\<close>

lemma fh_empty_slot_spec:
  assumes "list_all (bucket_ok hf) ch" and "ch \<noteq> []"
  shows "case fh_empty_slot ch mh ok of
      None \<Rightarrow> \<not> ok
    | Some (ch1, j, i) \<Rightarrow>
        \<exists>ch0. (ch0 = ch \<or> ch0 = ch @ [fh_allocate_bucket] \<and> j = length ch) \<and>
          j < length ch0 \<and> i < length (ch0 ! j) \<and> mini (ch0 ! j ! i) = 0 \<and>
          ch1 = ch0[j := (ch0 ! j)[i := (ch0 ! j ! i)\<lparr>mini := mh\<rparr>]]"
  using assms
proof (induction ch)
  case Nil
  then show ?case by simp
next
  case (Cons b ch)
  note free = fh_free_entry_spec [of b 0]
  show ?case
  proof (cases "fh_free_entry b 0")
    case (Some i)
    with free show ?thesis by (auto intro!: exI [of _ "b # ch"])
  next
    case None
    show ?thesis
    proof (cases "ch = []")
      case True
      have "fh_allocate_bucket ! 0 = (empty_entry :: 'a fh_entry)"
        "length (fh_allocate_bucket :: 'a fh_bucket) = 8"
        by (simp_all add: fh_allocate_bucket_def BUCKET_SIZE_def)
      with None True show ?thesis
        by (auto intro!: exI [of _ "[b, fh_allocate_bucket]"] simp: empty_entry_def)
    next
      case False
      show ?thesis
      proof (cases "fh_empty_slot ch mh ok")
        case None2: None
        with Cons False None show ?thesis by simp
      next
        case (Some r)
        obtain ch1 j i where r: "r = (ch1, j, i)" by (cases r)
        from Cons False Some r obtain ch0 where
          "ch0 = ch \<or> ch0 = ch @ [fh_allocate_bucket] \<and> j = length ch"
          "j < length ch0" "i < length (ch0 ! j)" "mini (ch0 ! j ! i) = 0"
          "ch1 = ch0[j := (ch0 ! j)[i := (ch0 ! j ! i)\<lparr>mini := mh\<rparr>]]"
          by auto
        with False None Some r show ?thesis
          by (auto intro!: exI [of _ "b # ch0"])
      qed
    qed
  qed
qed

lemma bucket_ok_update:
  assumes "list_all (bucket_ok hf) ch" and "j < length ch" and "i < length (ch ! j)" and "entry_ok hf e"
  shows "list_all (bucket_ok hf) (ch[j := (ch ! j)[i := e]])"
  using assms by (auto simp: list_all_length bucket_ok_def nth_list_update)

lemma nonempty_update:
  assumes "\<And>j'. j' < length ch \<Longrightarrow> j' \<noteq> j \<Longrightarrow> bucket_pairs (ch ! j') \<noteq> []" and "j < length ch"
    and "i < length (ch ! j)" and "mini e \<noteq> 0"
  shows "list_all (\<lambda>b. bucket_pairs b \<noteq> []) (ch[j := (ch ! j)[i := e]])"
proof -
  have "bucket_pairs ((ch ! j)[i := e]) \<noteq> []"
    using assms(3,4) by (simp add: upd_conv_take_nth_drop)
  with assms(1,2) show ?thesis by (auto simp: list_all_length nth_list_update)
qed

text \<open>Putting a new key into a chain: \<open>ch\<close> is the chain, or one fresh bucket for an empty
  chain.\<close>

lemma chain_insert:
  assumes ok: "list_all (bucket_ok hf) ch" and ne: "list_all (\<lambda>b. bucket_pairs b \<noteq> []) ch \<or> ch = [fh_allocate_bucket]"
    and d: "distinct (map fst (pairs ch))" and k: "k \<notin> fst ` set (pairs ch)"
    and e: "fh_empty_slot ch (make_minihash (hf k)) al = Some (ch1, pos)" and "ch \<noteq> []"
  shows "fst pos < length ch1 \<and> snd pos < length (ch1 ! fst pos) \<and>
    ch1 ! fst pos ! snd pos = empty_entry\<lparr>mini := make_minihash (hf k)\<rparr> \<and>
    (\<forall>v. let ch2 = upd_entry ch1 pos (\<lambda>e. e\<lparr>e_key := Some k, e_obj := v\<rparr>) in
      chain_ok hf ch2 \<and> (\<exists>xs ys. pairs ch = xs @ ys \<and> pairs ch2 = xs @ (k, v) # ys))"
proof -
  obtain j i where pos: "pos = (j, i)" by (cases pos)
  from fh_empty_slot_spec [OF ok assms(6), where mh = "make_minihash (hf k)" and ok = al] e pos obtain ch0 where
    ch0: "ch0 = ch \<or> ch0 = ch @ [fh_allocate_bucket] \<and> j = length ch"
    "j < length ch0" "i < length (ch0 ! j)" "mini (ch0 ! j ! i) = 0"
    "ch1 = ch0[j := (ch0 ! j)[i := (ch0 ! j ! i)\<lparr>mini := make_minihash (hf k)\<rparr>]]"
    by auto
  have ok0: "list_all (bucket_ok hf) ch0" and p0: "pairs ch0 = pairs ch"
    using ok ch0(1) by auto
  then have "entry_ok hf (ch0 ! j ! i)"
    using ch0(2,3) by (auto simp: list_all_length bucket_ok_def)
  with ch0(4) have e0: "ch0 ! j ! i = empty_entry"
    by (simp add: entry_ok_def empty_entry_def)
  have "fh_free_entry (fh_allocate_bucket :: 'a fh_bucket) 0 = Some 0"
    by (simp add: fh_allocate_bucket_def BUCKET_SIZE_def empty_entry_def eval_nat_numeral)
  then have fresh: "j = 0" if "ch = [fh_allocate_bucket]"
    using that e pos by simp
  have at: "fst pos < length ch1 \<and> snd pos < length (ch1 ! fst pos) \<and>
      ch1 ! fst pos ! snd pos = empty_entry\<lparr>mini := make_minihash (hf k)\<rparr>"
    using ch0 e0 pos by simp
  have "chain_ok hf ch2 \<and> (\<exists>xs ys. pairs ch = xs @ ys \<and> pairs ch2 = xs @ (k, v) # ys)"
    if ch2: "ch2 = upd_entry ch1 pos (\<lambda>e. e\<lparr>e_key := Some k, e_obj := v\<rparr>)" for v ch2
  proof -
    let ?e = "\<lparr>mini = make_minihash (hf k), e_key = Some k, e_obj = v\<rparr>"
    have c2: "ch2 = ch0[j := (ch0 ! j)[i := ?e]]"
      using ch2 ch0 e0 pos by (simp add: upd_entry_def empty_entry_def)
    from pairs_at [OF ch0(2,3)] ch0(4) obtain xs ys where
      at: "\<forall>e. pairs (ch0[j := (ch0 ! j)[i := e]]) =
        xs @ (if mini e = 0 then [] else [(the (e_key e), e_obj e)]) @ ys" "pairs ch0 = xs @ ys"
      by auto
    from at(1) [THEN spec, of ?e] at(2)
    have xs: "pairs (ch0[j := (ch0 ! j)[i := ?e]]) = xs @ [(k, v)] @ ys" "pairs ch0 = xs @ ys"
      by simp_all
    have "entry_ok hf ?e" by (simp add: entry_ok_def)
    from bucket_ok_update [OF ok0 ch0(2,3) this] have "list_all (bucket_ok hf) ch2" using c2 by simp
    moreover have "bucket_pairs (ch0 ! j') \<noteq> []" if "j' < length ch0" "j' \<noteq> j" for j'
      using that ne ch0(1,2) fresh by (auto simp: list_all_length nth_append split: if_splits)
    then have "list_all (\<lambda>b. bucket_pairs b \<noteq> []) ch2"
      unfolding c2 by (intro nonempty_update ch0) simp_all
    moreover have "distinct (map fst (pairs ch2))"
      using c2 xs p0 d k by auto
    ultimately show ?thesis using c2 xs p0 by (auto simp: chain_ok_def)
  qed
  with at show ?thesis by (simp add: Let_def)
qed

lemma pairs_update:
  "j < length ch \<Longrightarrow>
     pairs (ch[j := b]) = pairs (take j ch) @ bucket_pairs b @ pairs (drop (Suc j) ch)"
  by (simp add: upd_conv_take_nth_drop)

text \<open>Taking a key out of a chain.\<close>

lemma chain_remove:
  assumes ok: "chain_ok hf ch" and j: "j < length ch" "i < length (ch ! j)"
    and e: "mini (ch ! j ! i) \<noteq> 0" "e_key (ch ! j ! i) = Some k"
    and ch2: "ch2 = fh_dealloc_if_empty
      (upd_entry ch (j, i) (\<lambda>e. e\<lparr>mini := 0, e_obj := None, e_key := None\<rparr>)) j"
  shows "chain_ok hf ch2 \<and>
    (\<exists>xs ys. pairs ch = xs @ (k, e_obj (ch ! j ! i)) # ys \<and> pairs ch2 = xs @ ys)"
proof -
  let ?e = "\<lparr>mini = 0, e_key = None, e_obj = None\<rparr> :: 'a fh_entry"
  let ?ch1 = "ch[j := (ch ! j)[i := ?e]]"
  have c1: "upd_entry ch (j, i) (\<lambda>e. e\<lparr>mini := 0, e_obj := None, e_key := None\<rparr>) = ?ch1"
    by (cases "ch ! j ! i") (simp add: upd_entry_def)
  from pairs_at [OF j] e obtain xs ys where
    at: "\<forall>e. pairs (ch[j := (ch ! j)[i := e]]) =
      xs @ (if mini e = 0 then [] else [(the (e_key e), e_obj e)]) @ ys"
      "pairs ch = xs @ (k, e_obj (ch ! j ! i)) # ys"
    by auto
  from at(1) [THEN spec, of ?e] at(2)
  have xs: "pairs ?ch1 = xs @ ys" "pairs ch = xs @ (k, e_obj (ch ! j ! i)) # ys" by simp_all
  have ok0: "list_all (bucket_ok hf) ch" "list_all (\<lambda>b. bucket_pairs b \<noteq> []) ch" "distinct (map fst (pairs ch))"
    using ok by (simp_all add: chain_ok_def)
  have "entry_ok hf ?e" by (simp add: entry_ok_def)
  from bucket_ok_update [OF ok0(1) j this] have ok1: "list_all (bucket_ok hf) ?ch1" .
  have d: "distinct (map fst (xs @ ys))" using ok0(3) xs(2) by auto
  show ?thesis
  proof (cases "list_all (\<lambda>e. mini e = 0) (?ch1 ! j)")
    case True
    have "ch2 = take j ch @ drop (Suc j) ch"
      using True ch2 c1 by (simp add: fh_dealloc_if_empty_def)
    moreover have "pairs ?ch1 = pairs (take j ch) @ bucket_pairs (?ch1 ! j) @ pairs (drop (Suc j) ch)"
      using pairs_update [OF j(1), of "(ch ! j)[i := ?e]"] j(1) by (simp only: nth_list_update_eq)
    moreover have "bucket_pairs (?ch1 ! j) = []"
      using True by (auto simp: bucket_pairs_def list_all_iff filter_empty_conv)
    ultimately have "pairs ch2 = xs @ ys" "set ch2 \<subseteq> set ch"
      using xs(1) by (auto dest: in_set_takeD in_set_dropD)
    with xs(2) d ok0 show ?thesis by (auto simp: chain_ok_def list_all_iff)
  next
    case False
    then have c2: "ch2 = ?ch1" using ch2 c1 by (simp add: fh_dealloc_if_empty_def)
    have "bucket_pairs (?ch1 ! j) \<noteq> []"
      using False by (auto simp: bucket_pairs_def list_all_iff filter_empty_conv)
    then have "list_all (\<lambda>b. bucket_pairs b \<noteq> []) ?ch1"
      using ok0(2) j(1) by (auto simp: list_all_length nth_list_update)
    with c2 xs d ok1 show ?thesis by (auto simp: chain_ok_def)
  qed
qed

section \<open>The table\<close>

definition fh_key_index :: "'p fh \<Rightarrow> cstr \<Rightarrow> int" where
  "fh_key_index f k = fh_index f (hash_function f k)"

definition fh_map :: "'p fh \<Rightarrow> cstr \<rightharpoonup> 'p obj option" where
  "fh_map f k = map_of (pairs (hash_table f ! nat (fh_key_index f k))) k"

text \<open>The entry at a position of the chain of \<open>k\<close> is in use and has the key \<open>k\<close>.\<close>

definition entry_at :: "'p fh \<Rightarrow> cstr \<Rightarrow> nat \<times> nat \<Rightarrow> 'p fh_entry" where
  "entry_at f k pos = hash_table f ! nat (fh_key_index f k) ! fst pos ! snd pos"

definition at_pos :: "'p fh \<Rightarrow> cstr \<Rightarrow> nat \<times> nat \<Rightarrow> bool" where
  "at_pos f k pos \<longleftrightarrow>
     fst pos < length (hash_table f ! nat (fh_key_index f k)) \<and>
     snd pos < length (hash_table f ! nat (fh_key_index f k) ! fst pos) \<and>
     mini (entry_at f k pos) \<noteq> 0 \<and> e_key (entry_at f k pos) = Some k"

text \<open>The number of entries in use.\<close>

definition fh_size :: "'p fh \<Rightarrow> nat" where
  "fh_size f = sum_list (map (\<lambda>ch. length (pairs ch)) (hash_table f))"

text \<open>The invariant without the element count, which the code adjusts after the table.\<close>

definition fh_table_ok :: "'p fh \<Rightarrow> bool" where
  "fh_table_ok f \<longleftrightarrow>
     h_magic f = FH_MAGIC_ID \<and> (\<exists>n. n < 31 \<and> h_dim f = 2 ^ n) \<and>
     int (length (hash_table f)) = h_dim f \<and> 0 < n_lock f \<and> int (length (h_held f)) = n_lock f \<and>
     (\<forall>i < length (hash_table f). chain_ok (hash_function f) (hash_table f ! i) \<and>
        (\<forall>k \<in> fst ` set (pairs (hash_table f ! i)). fh_key_index f k = int i))"

definition fh_inv :: "'p fh \<Rightarrow> bool" where
  "fh_inv f \<longleftrightarrow> fh_table_ok f \<and> h_elements f = int (fh_size f)"

text \<open>What the operations on the table leave alone.\<close>

definition fh_conf :: "'p fh \<Rightarrow> int \<times> int \<times> int \<times> u32 \<times> (cstr \<Rightarrow> u64) \<times> bool \<times> int" where
  "fh_conf f = (h_magic f, h_dim f, h_datalen f, h_attr f, hash_function f, rw_mode f, n_lock f)"

lemma fh_conf_eq:
  "fh_conf f = fh_conf g \<longleftrightarrow>
     h_magic f = h_magic g \<and> h_dim f = h_dim g \<and> h_datalen f = h_datalen g \<and>
     h_attr f = h_attr g \<and> hash_function f = hash_function g \<and> rw_mode f = rw_mode g \<and>
     n_lock f = n_lock g"
  by (auto simp: fh_conf_def)

lemma conf_key_index: "fh_conf g = fh_conf f \<Longrightarrow> fh_key_index g k = fh_key_index f k"
  by (simp add: fh_conf_def fh_key_index_def fh_index_def)

lemma fh_index_range:
  assumes "fh_table_ok f"
  shows "0 \<le> fh_key_index f k" and "fh_key_index f k < h_dim f"
    and "nat (fh_key_index f k) < length (hash_table f)"
proof -
  from assms obtain n where n: "h_dim f = 2 ^ n" by (auto simp: fh_table_ok_def)
  let ?h = "hash_function f k"
  have "fh_key_index f k = uint (take_bit n ?h)"
    by (simp add: fh_key_index_def fh_index_def n take_bit_eq_mask mask_eq_exp_minus_1)
  then show l: "0 \<le> fh_key_index f k" "fh_key_index f k < h_dim f"
    by (simp_all add: n unsigned_take_bit_eq take_bit_int_less_exp)
  from assms have "int (length (hash_table f)) = h_dim f" by (simp add: fh_table_ok_def)
  with l show "nat (fh_key_index f k) < length (hash_table f)" by linarith
qed

lemma fh_chain_key:
  assumes "fh_table_ok f"
  shows "fh_chain f (fh_key_index f k) = Some (hash_table f ! nat (fh_key_index f k))"
    and "chain_ok (hash_function f) (hash_table f ! nat (fh_key_index f k))"
  using fh_index_range [OF assms, of k] assms by (auto simp: fh_chain_def fh_table_ok_def)

lemma fh_table_keys:
  assumes "fh_table_ok f" and "i < length (hash_table f)"
    and "k \<in> fst ` set (pairs (hash_table f ! i))"
  shows "fh_key_index f k = int i"
  using assms unfolding fh_table_ok_def by blast

text \<open>One chain is replaced by another one with the same keys, one more or one less.\<close>

lemma fh_replace_chain:
  assumes ok: "fh_table_ok f" and conf: "fh_conf g = fh_conf f" and held: "length (h_held g) = length (h_held f)"
    and i: "i < length (hash_table f)" and t: "hash_table g = (hash_table f)[i := ch]"
    and ch: "chain_ok (hash_function f) ch"
    and idx: "\<And>k. k \<in> fst ` set (pairs ch) \<Longrightarrow> fh_key_index f k = int i"
  shows "fh_table_ok g"
    and "fh_size g + length (pairs (hash_table f ! i)) = fh_size f + length (pairs ch)"
    and "fh_map g k = (if fh_key_index f k = int i then map_of (pairs ch) k else fh_map f k)"
proof -
  note c = conf [unfolded fh_conf_eq]
  show "fh_table_ok g"
    unfolding fh_table_ok_def
    using ok c held i ch idx
    by (auto simp: t fh_table_ok_def conf_key_index [OF conf] nth_list_update)
  have le: "length (pairs (hash_table f ! i)) \<le> fh_size f"
    unfolding fh_size_def using i by (intro member_le_sum_list) (auto intro!: image_eqI nth_mem)
  have "fh_size g = fh_size f + length (pairs ch) - length (pairs (hash_table f ! i))"
    using i by (simp add: fh_size_def t map_update sum_list_update)
  with le show "fh_size g + length (pairs (hash_table f ! i)) = fh_size f + length (pairs ch)" by simp
  have "nat (fh_key_index f k) = i \<longleftrightarrow> fh_key_index f k = int i"
    using fh_index_range(1) [OF ok, of k] by auto
  then show "fh_map g k = (if fh_key_index f k = int i then map_of (pairs ch) k else fh_map f k)"
    using i by (auto simp: fh_map_def t conf_key_index [OF conf])
qed

text \<open>A field that the table does not depend on may change.\<close>

lemma fh_same_table:
  assumes "fh_table_ok f" and "fh_conf g = fh_conf f" and "length (h_held g) = length (h_held f)"
    and "hash_table g = hash_table f"
  shows "fh_table_ok g" and "fh_size g = fh_size f" and "fh_map g = fh_map f"
proof -
  show "fh_table_ok g"
    using assms conf_key_index [OF assms(2)] unfolding fh_table_ok_def fh_conf_eq by auto
  show "fh_size g = fh_size f" by (simp add: fh_size_def assms(4))
  show "fh_map g = fh_map f" by (rule ext) (simp add: fh_map_def assms(4) conf_key_index [OF assms(2)])
qed

section \<open>Locks\<close>

definition fh_unlocked :: "'p fh \<Rightarrow> bool" where
  "fh_unlocked f \<longleftrightarrow> True \<notin> set (h_held f)"

lemma fh_lock_index_ok:
  assumes "fh_table_ok f" and "0 \<le> i"
  shows "\<exists>l. fh_lock_index f i = Some l \<and> l < length (h_held f)"
proof -
  from assms have "0 < n_lock f" "int (length (h_held f)) = n_lock f" by (simp_all add: fh_table_ok_def)
  with assms(2) show ?thesis
    by (auto simp: fh_lock_index_def nat_less_iff)
qed

lemma fh_lock_unlocked:
  fixes f :: "'p fh"
  assumes "fh_table_ok f" and "fh_unlocked f" and "0 \<le> i"
  obtains l where "fh_lock_index f i = Some l" and "l < length (h_held f)" and "\<not> h_held f ! l"
    and "fh_lock f i = Some (f\<lparr>h_held := (h_held f)[l := True]\<rparr>)"
    and "\<And>g :: 'p fh. n_lock g = n_lock f \<Longrightarrow> h_held g = (h_held f)[l := True] \<Longrightarrow>
      fh_unlock g i = Some (g\<lparr>h_held := h_held f\<rparr>)"
proof -
  from fh_lock_index_ok [OF assms(1,3)] obtain l where
    l: "fh_lock_index f i = Some l" "l < length (h_held f)" by blast
  with assms(2) have h: "\<not> h_held f ! l"
    using nth_mem [of l "h_held f"] by (cases "h_held f ! l") (simp_all add: fh_unlocked_def)
  have un: "fh_unlock g i = Some (g\<lparr>h_held := h_held f\<rparr>)"
    if "n_lock g = n_lock f" "h_held g = (h_held f)[l := True]" for g :: "'p fh"
  proof -
    have "fh_lock_index g i = Some l" using l(1) that(1) by (auto simp: fh_lock_index_def split: if_splits)
    moreover have "(h_held f)[l := False] = h_held f"
      using h l(2) by (intro list_update_same_conv [THEN iffD2]) auto
    ultimately show ?thesis using that(2) l(2) by (simp add: fh_unlock_def)
  qed
  from l h have "fh_lock f i = Some (f\<lparr>h_held := (h_held f)[l := True]\<rparr>)" by (simp add: fh_lock_def)
  from l h this un show ?thesis by (rule that)
qed

section \<open>The operations on the table\<close>

lemma map_of_insert:
  assumes "distinct (map fst (xs @ ys))" and "k \<notin> fst ` set (xs @ ys)"
  shows "map_of (xs @ (k, v) # ys) = (map_of (xs @ ys))(k \<mapsto> v)"
proof -
  have "map_of xs k = None" using assms(2) by (auto simp: map_of_eq_None_iff)
  then show ?thesis by (auto simp: map_add_def fun_eq_iff split: option.split)
qed

lemma fh_map_dom: "k \<in> dom (fh_map f) \<longleftrightarrow> k \<in> fst ` set (pairs (hash_table f ! nat (fh_key_index f k)))"
  by (simp add: fh_map_def dom_def map_of_eq_None_iff)

definition blk_obj :: "int \<Rightarrow> 'p block \<Rightarrow> bool \<Rightarrow> 'p obj option option option" where
  "blk_obj dl blk ok = (case blk of None \<Rightarrow> Some (Some None) | Some b \<Rightarrow> fh_new_obj dl b ok)"

lemma at_pos_map:
  assumes "fh_table_ok f" and "at_pos f k pos"
  shows "fh_map f k = Some (e_obj (entry_at f k pos))"
proof -
  let ?ch = "hash_table f ! nat (fh_key_index f k)"
  from fh_chain_key(2) [OF assms(1), of k] have d: "distinct (map fst (pairs ?ch))" by (simp add: chain_ok_def)
  from assms(2) have at: "fst pos < length ?ch" "snd pos < length (?ch ! fst pos)"
    "mini (?ch ! fst pos ! snd pos) \<noteq> 0" "e_key (?ch ! fst pos ! snd pos) = Some k"
    by (simp_all add: at_pos_def entry_at_def)
  from pairs_at [OF at(1,2)] at(3,4) obtain xs ys where
    "pairs ?ch = xs @ (k, e_obj (?ch ! fst pos ! snd pos)) # ys" by auto
  with d have "map_of (pairs ?ch) k = Some (e_obj (?ch ! fst pos ! snd pos))" by (intro map_of_is_SomeI) auto
  then show ?thesis by (simp add: fh_map_def entry_at_def)
qed

lemma fh_find_slot_table:
  assumes "fh_table_ok f"
  shows "\<exists>r. fh_find_slot (hash_table f ! nat (fh_key_index f k)) k (make_minihash (hash_function f k)) = Some r \<and>
    (case r of None \<Rightarrow> k \<notin> dom (fh_map f) | Some pos \<Rightarrow> at_pos f k pos)"
proof -
  let ?ch = "hash_table f ! nat (fh_key_index f k)"
  from fh_chain_key(2) [OF assms, of k] have "list_all (bucket_ok (hash_function f)) ?ch"
    by (simp add: chain_ok_def)
  from fh_find_slot_spec [OF this refl, of k] show ?thesis
    by (auto simp: fh_map_dom at_pos_def entry_at_def split: option.splits)
qed

lemma fh_lookup_entry_spec:
  assumes "fh_table_ok f"
  shows "\<exists>r. fh_lookup_entry f k = Some r \<and> map_option e_obj r = fh_map f k"
proof -
  from fh_find_slot_table [OF assms, of k] obtain r where
    r: "fh_find_slot (hash_table f ! nat (fh_key_index f k)) k (make_minihash (hash_function f k)) = Some r"
    "case r of None \<Rightarrow> k \<notin> dom (fh_map f) | Some pos \<Rightarrow> at_pos f k pos" by blast
  have "fh_lookup_entry f k = Some (map_option (entry_at f k) r)"
    using fh_chain_key(1) [OF assms, of k] r(1)
    by (cases r) (auto simp: fh_lookup_entry_def fh_key_index_def entry_at_def)
  with r(2) at_pos_map [OF assms, of k] show ?thesis
    by (cases r; cases "fh_map f k") auto
qed

lemma fh_find_slot_absent:
  assumes "fh_table_ok f" and "k \<notin> dom (fh_map f)"
  shows "fh_find_slot (hash_table f ! nat (fh_key_index f k)) k (make_minihash (hash_function f k)) = Some None"
  using fh_find_slot_table [OF assms(1), of k] at_pos_map [OF assms(1), of k] assms(2)
  by (auto split: option.splits)

lemma fh_insert_locked_duplicate:
  assumes "fh_table_ok f" and "k \<in> dom (fh_map f)"
  shows "fh_insert_locked f k blk al (fh_key_index f k) (make_minihash (hash_function f k)) =
    Some (Inl FH_DUPLICATED_ELEMENT, fh_inc_collision f)"
proof -
  let ?ch = "hash_table f ! nat (fh_key_index f k)"
  from assms(2) have k: "k \<in> fst ` set (pairs ?ch)" by (simp add: fh_map_dom)
  from fh_chain_key(2) [OF assms(1), of k] have ok: "list_all (bucket_ok (hash_function f)) ?ch"
    by (simp add: chain_ok_def)
  from fh_find_slot_spec [OF ok refl, of k] k obtain p where
    "fh_find_slot ?ch k (make_minihash (hash_function f k)) = Some (Some p)"
    by (auto split: option.splits)
  moreover from k have "?ch \<noteq> []" by auto
  ultimately show ?thesis
    by (simp add: fh_insert_locked_def fh_chain_key(1) [OF assms(1)] Let_def)
qed

lemma upd_entry_twice:
  "fst pos < length ch \<Longrightarrow> snd pos < length (ch ! fst pos) \<Longrightarrow>
     upd_entry (upd_entry ch pos g) pos h = upd_entry ch pos (h \<circ> g)"
  by (simp add: upd_entry_def)

lemma fh_insert_locked_new:
  assumes ok: "fh_table_ok f" and k: "k \<notin> dom (fh_map f)"
    and al: "a_bucket al" "a_chain al" "a_key al" and v: "blk_obj (h_datalen f) blk (a_obj al) = Some (Some v)"
  shows "\<exists>pos f'. fh_insert_locked f k blk al (fh_key_index f k) (make_minihash (hash_function f k)) =
      Some (Inr pos, f') \<and>
    fh_table_ok f' \<and> fh_size f' = fh_size f + 1 \<and> fh_map f' = (fh_map f)(k \<mapsto> v) \<and>
    fh_conf f' = fh_conf f \<and> h_held f' = h_held f \<and> h_elements f' = h_elements f \<and>
    e_obj (hash_table f' ! nat (fh_key_index f k) ! fst pos ! snd pos) = v \<and> at_pos f' k pos"
proof -
  let ?i = "nat (fh_key_index f k)" and ?idx = "fh_key_index f k"
  let ?ch0 = "hash_table f ! ?i" and ?mh = "make_minihash (hash_function f k)"
  define ch1 where "ch1 = (if ?ch0 \<noteq> [] then ?ch0 else [fh_allocate_bucket])"
  define f1 where "f1 = (if ?ch0 \<noteq> [] then fh_inc_collision f else upd_chain f ?idx [fh_allocate_bucket])"
  note range = fh_index_range [OF ok, of k] and chain = fh_chain_key [OF ok, of k]
  have c1: "list_all (bucket_ok (hash_function f)) ch1" "ch1 \<noteq> []" "pairs ch1 = pairs ?ch0"
    "list_all (\<lambda>b. bucket_pairs b \<noteq> []) ch1 \<or> ch1 = [fh_allocate_bucket]"
    using chain(2) by (auto simp: ch1_def chain_ok_def)
  have nk: "k \<notin> fst ` set (pairs ch1)" and d: "distinct (map fst (pairs ch1))"
    using k chain(2) c1(3) by (simp_all add: fh_map_dom chain_ok_def)
  have "fh_find_slot [fh_allocate_bucket] k ?mh = Some None"
    by (simp add: fh_allocate_bucket_def BUCKET_SIZE_def empty_entry_def eval_nat_numeral)
  with fh_find_slot_absent [OF ok k] have find: "fh_find_slot ch1 k ?mh = Some None"
    by (auto simp: ch1_def)
  from fh_empty_slot_spec [OF c1(1,2), where mh = ?mh and ok = True] obtain ch2 pos where
    es: "fh_empty_slot ch1 ?mh True = Some (ch2, pos)" by (auto split: option.splits)
  note ins = chain_insert [OF c1(1,4) d nk es c1(2)]
  have pos: "fst pos < length ch2" "snd pos < length (ch2 ! fst pos)"
    "ch2 ! fst pos ! snd pos = empty_entry\<lparr>mini := ?mh\<rparr>"
    using ins by blast+
  define ch3 where "ch3 = upd_entry ch2 pos (\<lambda>e. e\<lparr>e_key := Some k, e_obj := v\<rparr>)"
  from ins obtain xs ys where ch3: "chain_ok (hash_function f) ch3" "pairs ?ch0 = xs @ ys"
    "pairs ch3 = xs @ (k, v) # ys"
    unfolding ch3_def c1(3) Let_def by blast
  define f2 where "f2 = upd_chain f1 ?idx ch3"
  have f1: "fh_conf f1 = fh_conf f" "h_held f1 = h_held f" "h_elements f1 = h_elements f"
    "(hash_table f1)[?i := ch3] = (hash_table f)[?i := ch3]" "h_datalen f1 = h_datalen f"
    by (simp_all add: f1_def fh_inc_collision_def upd_chain_def fh_conf_def)
  have none: "blk = None \<Longrightarrow> v = None" using v by (simp add: blk_obj_def)
  have key_only: "upd_entry ch2 pos (\<lambda>e. e\<lparr>e_key := Some k\<rparr>) = ch3" if "v = None"
    using that pos(3) by (simp add: ch3_def upd_entry_def empty_entry_def)
  have both: "upd_entry (upd_entry ch2 pos (\<lambda>e. e\<lparr>e_key := Some k\<rparr>)) pos (\<lambda>e. e\<lparr>e_obj := v\<rparr>) = ch3"
    using pos by (simp add: ch3_def upd_entry_twice comp_def)
  have res: "fh_insert_locked f k blk al ?idx ?mh = Some (Inr pos, f2)"
    using chain(1) al find es v f1(5) key_only none both
    by (cases blk) (simp_all add: fh_insert_locked_def Let_def ch1_def [symmetric] f1_def [symmetric]
        f2_def blk_obj_def)
  have conf: "fh_conf f2 = fh_conf f" "length (h_held f2) = length (h_held f)"
    "hash_table f2 = (hash_table f)[?i := ch3]"
    using f1 by (simp_all add: f2_def upd_chain_def fh_conf_def)
  have idx: "fh_key_index f k' = int ?i" if "k' \<in> fst ` set (pairs ch3)" for k'
  proof (cases "k' = k")
    case True
    with range show ?thesis by simp
  next
    case False
    with that ch3 have "k' \<in> fst ` set (pairs ?ch0)" by auto
    with fh_table_keys [OF ok range(3)] show ?thesis by blast
  qed
  note rep = fh_replace_chain [OF ok conf(1,2) range(3) conf(3) ch3(1) idx]
  have "fh_map f2 = (fh_map f)(k \<mapsto> v)"
  proof
    fix k'
    have "distinct (map fst (xs @ ys))" "k \<notin> fst ` set (xs @ ys)"
      using d nk c1(3) ch3(2) by simp_all
    from map_of_insert [OF this, of v] ch3 have m: "map_of (pairs ch3) = (map_of (pairs ?ch0))(k \<mapsto> v)"
      by simp
    show "fh_map f2 k' = ((fh_map f)(k \<mapsto> v)) k'"
      using rep(3) [of k'] m range(1) by (auto simp: fh_map_def)
  qed
  moreover have "fh_size f2 = fh_size f + 1" using rep(2) ch3 by simp
  moreover have "e_obj (hash_table f2 ! ?i ! fst pos ! snd pos) = v"
    using conf(3) range(3) pos by (simp add: ch3_def upd_entry_def)
  moreover have "at_pos f2 k pos"
    using conf range(3) pos
    by (simp add: at_pos_def entry_at_def ch3_def upd_entry_def conf_key_index [OF conf(1)] empty_entry_def)
  ultimately show ?thesis
    using res rep(1) conf(1) f1 by (auto simp: f2_def upd_chain_def)
qed

lemma fh_del_slot_spec:
  assumes ok: "fh_table_ok f" and idx: "idx = fh_key_index f k" and mh: "mh = make_minihash (hash_function f k)"
  shows "if k \<in> dom (fh_map f)
    then \<exists>f'. fh_del_slot f k idx mh = Some (idx, f') \<and> fh_table_ok f' \<and> fh_size f' + 1 = fh_size f \<and>
      fh_map f' = (fh_map f)(k := None) \<and> fh_conf f' = fh_conf f \<and> h_held f' = h_held f \<and>
      h_elements f' = h_elements f
    else fh_del_slot f k idx mh = Some (FH_ELEMENT_NOT_FOUND, f)"
proof (cases "k \<in> dom (fh_map f)")
  case False
  with fh_find_slot_absent [OF ok] fh_chain_key(1) [OF ok, of k] show ?thesis
    by (simp add: fh_del_slot_def idx mh)
next
  case True
  let ?i = "nat (fh_key_index f k)"
  let ?ch = "hash_table f ! ?i"
  note range = fh_index_range [OF ok, of k] and chain = fh_chain_key [OF ok, of k]
  from chain(2) have bok: "list_all (bucket_ok (hash_function f)) ?ch" and d: "distinct (map fst (pairs ?ch))"
    by (simp_all add: chain_ok_def)
  from fh_find_slot_spec [OF bok mh] True obtain j i where
    r: "fh_find_slot ?ch k mh = Some (Some (j, i))" "j < length ?ch" "i < length (?ch ! j)"
      "mini (?ch ! j ! i) \<noteq> 0" "e_key (?ch ! j ! i) = Some k"
    by (auto simp: fh_map_dom split: option.splits)
  define ch2 where "ch2 = fh_dealloc_if_empty
    (upd_entry ?ch (j, i) (\<lambda>e. e\<lparr>mini := 0, e_obj := None, e_key := None\<rparr>)) j"
  from chain_remove [OF chain(2) r(2-5) ch2_def] obtain xs ys where
    ch2: "chain_ok (hash_function f) ch2" "pairs ?ch = xs @ (k, e_obj (?ch ! j ! i)) # ys"
      "pairs ch2 = xs @ ys" by blast
  define f2 where "f2 = upd_chain f idx ch2"
  have res: "fh_del_slot f k idx mh = Some (idx, f2)"
    using chain(1) r(1) by (simp add: fh_del_slot_def idx Let_def f2_def ch2_def)
  have conf: "fh_conf f2 = fh_conf f" "length (h_held f2) = length (h_held f)"
    "hash_table f2 = (hash_table f)[?i := ch2]" "h_held f2 = h_held f" "h_elements f2 = h_elements f"
    by (simp_all add: f2_def upd_chain_def fh_conf_def idx)
  have sub: "fh_key_index f k' = int ?i" if "k' \<in> fst ` set (pairs ch2)" for k'
  proof -
    from that ch2 have "k' \<in> fst ` set (pairs ?ch)" by auto
    with fh_table_keys [OF ok range(3)] show ?thesis by blast
  qed
  note rep = fh_replace_chain [OF ok conf(1,2) range(3) conf(3) ch2(1) sub]
  have "fh_map f2 = (fh_map f)(k := None)"
  proof
    fix k'
    have "distinct (map fst (xs @ ys))" "k \<notin> fst ` set (xs @ ys)" using d ch2(2) by auto
    from map_of_insert [OF this] ch2(2,3)
    have m: "map_of (pairs ?ch) = (map_of (pairs ch2))(k \<mapsto> e_obj (?ch ! j ! i))" by simp
    have "map_of (pairs ch2) k = None"
      using \<open>k \<notin> fst ` set (xs @ ys)\<close> ch2(3) by (auto simp: map_of_eq_None_iff)
    then show "fh_map f2 k' = ((fh_map f)(k := None)) k'"
      using rep(3) [of k'] m range(1) by (auto simp: fh_map_def)
  qed
  moreover have "fh_size f2 + 1 = fh_size f" using rep(2) ch2 by simp
  ultimately show ?thesis using True res rep(1) conf by auto
qed

end
