(* ===== verification/FhSize.thy ===== *)
theory FhSize
  imports Fh
begin

text \<open>
  The sizes \<open>fh_create\<close> computes: the number of chains, by a loop on 32-bit words that does
  not always end, and the number of locks.
\<close>

section \<open>The number of chains\<close>

lemma double_exp: "push_bit 1 (2 ^ n :: u32) = 2 ^ Suc n"
  by (simp add: push_bit_eq_mult)

lemma exp_less_iff:
  assumes "n < 32"
  shows "(2 ^ n :: u32) < s \<longleftrightarrow> 2 ^ n < unat s"
proof -
  have "(2::nat) ^ n < 2 ^ 32" using assms by (intro power_strict_increasing) simp_all
  then have "unat (2 ^ n :: u32) = 2 ^ n"
    using unat_of_nat [of "2 ^ n", where 'a = 32] by simp
  then show ?thesis by (simp add: word_less_nat_alt)
qed

text \<open>Started at a power of two, the loop stops at the first power of two that is not smaller
  than \<open>s\<close>, when there is one of 32 bits.\<close>

lemma fh_size_loop_stops:
  assumes "unat s \<le> 2 ^ m" and "m < 32" and "n \<le> m" and "n = m \<or> 2 ^ (m - 1) < unat s"
  shows "fh_size_loop (2 ^ n) s = Some (2 ^ m)"
  using assms(3,4)
proof (induction "m - n" arbitrary: n)
  case 0
  then have "\<not> (2 ^ m :: u32) < s" using assms(1,2) by (simp add: exp_less_iff)
  with 0 show ?case by (subst fh_size_loop.simps) simp
next
  case (Suc d)
  then have n: "n < m" by simp
  with Suc.prems have "2 ^ (m - 1) < unat s" by auto
  moreover have "(2::nat) ^ n \<le> 2 ^ (m - 1)" using n by (intro power_increasing) simp_all
  ultimately have "2 ^ n < unat s" by linarith
  with n assms(2) have "(2 ^ n :: u32) < s" by (simp add: exp_less_iff)
  moreover have "fh_size_loop (2 ^ Suc n) s = Some (2 ^ m)"
    using Suc n by (intro Suc.hyps(1)) auto
  ultimately show ?case by (subst fh_size_loop.simps) (simp only: double_exp if_True)
qed

lemma fh_size_loop_zero: "fh_size_loop i s = Some y \<Longrightarrow> \<not> (i = 0 \<and> 0 < s)"
  by (rule fh_size_loop.raw_induct [of "\<lambda>i s y. \<not> (i = 0 \<and> 0 < s)"]) (auto split: if_splits)

lemma fh_size_loop_runs_on:
  assumes "2 ^ 31 < unat s" and "n < 32"
  shows "fh_size_loop (2 ^ n) s = None"
  using assms(2)
proof (induction "31 - n" arbitrary: n)
  case 0
  then have n: "n = 31" by simp
  have "(2 ^ 31 :: u32) < s" using assms(1) exp_less_iff [of 31 s] by simp
  moreover have "push_bit 1 (2 ^ 31 :: u32) = 0" by simp
  moreover have "fh_size_loop 0 s = None"
  proof (rule ccontr)
    assume "fh_size_loop 0 s \<noteq> None"
    then obtain y where "fh_size_loop 0 s = Some y" by auto
    from fh_size_loop_zero [OF this] assms(1) show False
      by (auto simp: word_less_nat_alt)
  qed
  ultimately show ?case unfolding n by (subst fh_size_loop.simps) (simp only: if_True)
next
  case (Suc d)
  then have "fh_size_loop (2 ^ Suc n) s = None" by (intro Suc.hyps(1)) auto
  moreover have "(2 ^ n :: u32) < s"
  proof -
    have "(2::nat) ^ n \<le> 2 ^ 31" using Suc by (intro power_increasing) simp_all
    with assms(1) have "2 ^ n < unat s" by linarith
    with Suc.prems show ?thesis by (simp only: exp_less_iff)
  qed
  ultimately show ?case by (subst fh_size_loop.simps) (simp only: double_exp if_True)
qed

lemma least_exp:
  fixes x :: nat
  assumes "x \<le> 2 ^ 31"
  obtains m where "m < 32" and "x \<le> 2 ^ m" and "m = 0 \<or> 2 ^ (m - 1) < x"
proof -
  define m where "m = (LEAST m. x \<le> 2 ^ m)"
  have le: "x \<le> 2 ^ m" unfolding m_def using assms by (rule LeastI)
  have "m \<le> 31" unfolding m_def using assms by (rule Least_le)
  moreover have "2 ^ (m - 1) < x" if "m \<noteq> 0"
  proof -
    have "m - 1 < m" using that by simp
    then have "\<not> x \<le> 2 ^ (m - 1)" unfolding m_def by (rule not_less_Least)
    then show ?thesis by simp
  qed
  ultimately show ?thesis using le by (intro that [of m]) auto
qed

lemma fh_hash_size_spec:
  fixes s :: u32
  defines "x \<equiv> unat (s + s div 2)"
  shows "if x \<le> 2 ^ 31
    then \<exists>m < 32. fh_hash_size s = Some (2 ^ m) \<and> x \<le> 2 ^ m \<and> (m = 0 \<or> 2 ^ (m - 1) < x)
    else fh_hash_size s = None"
proof (cases "x \<le> 2 ^ 31")
  case True
  then obtain m where m: "m < 32" "x \<le> 2 ^ m" "m = 0 \<or> 2 ^ (m - 1) < x" by (rule least_exp)
  have "fh_size_loop (2 ^ 0) (s + s div 2) = Some (2 ^ m)"
    using m by (intro fh_size_loop_stops) (auto simp: x_def)
  with m True show ?thesis by (auto simp: fh_hash_size_def)
next
  case False
  then have "fh_size_loop (2 ^ 0) (s + s div 2) = None"
    by (intro fh_size_loop_runs_on) (simp_all add: x_def)
  with False show ?thesis by (simp add: fh_hash_size_def)
qed

lemma unat_three_halves:
  assumes "0 \<le> dim" and "dim + dim div 2 < 2 ^ 32"
  shows "int (unat (word_of_int dim + word_of_int dim div 2 :: u32)) = dim + dim div 2"
proof -
  have d: "uint (word_of_int dim :: u32) = dim"
    using assms by (simp add: uint_word_of_int)
  then have "uint (word_of_int dim div 2 :: u32) = dim div 2"
    by (simp add: uint_div_distrib)
  with d assms show ?thesis
    by (simp add: uint_word_ariths)
qed

section \<open>The number of locks\<close>

lemma fh_lock_count_bits:
  "0 < num \<Longrightarrow> \<exists>k. fh_lock_count num sz = sz + int (Suc k) \<and> 2 ^ k \<le> num \<and> num < 2 ^ Suc k"
proof (induction num sz rule: fh_lock_count.induct)
  case (1 num sz)
  have half: "drop_bit 1 num = num div 2" "drop_bit (Suc 0) num = num div 2"
    by (simp_all add: drop_bit_eq_div)
  show ?case
  proof (cases "num = 1")
    case True
    then show ?thesis
      by (intro exI [of _ 0]) (simp add: fh_lock_count.simps [of 1] fh_lock_count.simps [of 0])
  next
    case False
    with 1(2) have "0 < drop_bit 1 num" unfolding half by linarith
    from 1(1) [OF 1(2) this] obtain k where
      k: "fh_lock_count (drop_bit 1 num) (sz + 1) = sz + 1 + int (Suc k)"
        "2 ^ k \<le> num div 2" "num div 2 < 2 ^ Suc k" by (auto simp: half)
    with 1(2) show ?thesis by (intro exI [of _ "Suc k"]) (auto simp: fh_lock_count.simps [of num] half)
  qed
qed

end
