(* ===== verification/FhSpec.thy ===== *)
theory FhSpec
  imports FhInv FhSize Dictionary
begin

unbundle bit_operations_syntax

text \<open>
  The contract of the hash table: every operation against the map \<open>fh_map\<close> on a valid table
  of which no lock is held, the locking operations, the interpretation of the dictionary
  interface on tables of pointers, and what goes wrong when an allocation fails.
\<close>

section \<open>Operations between lock and unlock\<close>

definition fh_ready :: "'p fh \<Rightarrow> bool" where
  "fh_ready f \<longleftrightarrow> fh_inv f \<and> fh_unlocked f"

lemma held_upd [simp]:
  "fh_conf (f\<lparr>h_held := hs\<rparr>) = fh_conf f"
  "fh_key_index (f\<lparr>h_held := hs\<rparr>) k = fh_key_index f k"
  "fh_map (f\<lparr>h_held := hs\<rparr>) = fh_map f"
  "fh_size (f\<lparr>h_held := hs\<rparr>) = fh_size f"
  by (simp_all add: fh_conf_def fh_key_index_def fh_index_def fh_map_def fh_size_def fun_eq_iff)

lemma held_table_ok:
  "fh_table_ok f \<Longrightarrow> length hs = length (h_held f) \<Longrightarrow> fh_table_ok (f\<lparr>h_held := hs\<rparr>)"
  by (rule fh_same_table) simp_all

lemma fh_ready_bad: "fh_ready f \<Longrightarrow> \<not> fh_bad (Some f)"
  by (simp add: fh_ready_def fh_inv_def fh_table_ok_def fh_bad_def)

text \<open>A table that comes out of an operation with the lock still held is ready once unlocked.\<close>

lemma fh_ready_unlocked:
  assumes "fh_ready f" and "fh_table_ok g" and "fh_conf g = fh_conf f"
    and "length (h_held g) = length (h_held f)" and "n = int (fh_size g)"
  shows "fh_ready (g\<lparr>h_held := h_held f, h_elements := n\<rparr>)"
proof -
  have "fh_table_ok (g\<lparr>h_held := h_held f, h_elements := n\<rparr>)"
    by (rule fh_same_table [OF assms(2)]) (simp_all add: fh_conf_def assms(4))
  with assms(1,5) show ?thesis
    by (simp add: fh_ready_def fh_inv_def fh_unlocked_def fh_size_def)
qed

lemma fh_insert_spec:
  assumes r: "fh_ready f" and al: "a_bucket al" "a_chain al" "a_key al"
    and v: "blk_obj (h_datalen f) blk (a_obj al) = Some (Some v)"
  shows "\<exists>f'. fh_insert (Some f) (Some k) blk al =
      Some (if k \<in> dom (fh_map f) then FH_DUPLICATED_ELEMENT else fh_key_index f k, Some f') \<and>
    fh_ready f' \<and> fh_conf f' = fh_conf f \<and>
    fh_map f' = (if k \<in> dom (fh_map f) then fh_map f else (fh_map f)(k \<mapsto> v))"
proof -
  let ?idx = "fh_key_index f k"
  from r have ok: "fh_table_ok f" and un: "fh_unlocked f" and el: "h_elements f = int (fh_size f)"
    by (simp_all add: fh_ready_def fh_inv_def)
  from fh_lock_unlocked [OF ok un fh_index_range(1) [OF ok]] obtain l where
    l: "fh_lock f ?idx = Some (f\<lparr>h_held := (h_held f)[l := True]\<rparr>)"
      "\<And>g :: 'a fh. n_lock g = n_lock f \<Longrightarrow> h_held g = (h_held f)[l := True] \<Longrightarrow>
        fh_unlock g ?idx = Some (g\<lparr>h_held := h_held f\<rparr>)" by blast
  let ?f1 = "f\<lparr>h_held := (h_held f)[l := True]\<rparr>"
  have ok1: "fh_table_ok ?f1" using ok by (rule held_table_ok) simp
  have idx: "fh_index f (hash_function f k) = ?idx" by (simp add: fh_key_index_def)
  show ?thesis
  proof (cases "k \<in> dom (fh_map f)")
    case True
    with fh_insert_locked_duplicate [OF ok1, of k blk al]
    have ins: "fh_insert_locked ?f1 k blk al ?idx (make_minihash (hash_function f k)) =
        Some (Inl FH_DUPLICATED_ELEMENT, fh_inc_collision ?f1)" by simp
    let ?f' = "(fh_inc_collision ?f1)\<lparr>h_held := h_held f\<rparr>"
    have "fh_table_ok (fh_inc_collision ?f1)" "fh_size (fh_inc_collision ?f1) = fh_size f"
      "fh_map (fh_inc_collision ?f1) = fh_map f"
      using fh_same_table [OF ok1, of "fh_inc_collision ?f1"]
      by (simp_all add: fh_conf_def fh_inc_collision_def)
    moreover have "?f' = ?f'\<lparr>h_held := h_held f, h_elements := h_elements f\<rparr>"
      by (simp add: fh_inc_collision_def)
    moreover have "fh_conf (fh_inc_collision ?f1) = fh_conf f"
      "length (h_held (fh_inc_collision ?f1)) = length (h_held f)"
      by (simp_all add: fh_conf_def fh_inc_collision_def)
    ultimately have "fh_ready ?f'" "fh_map ?f' = fh_map f" "fh_conf ?f' = fh_conf f"
      using fh_ready_unlocked [OF r, of "fh_inc_collision ?f1" "h_elements f"] el by simp_all
    moreover have "fh_insert (Some f) (Some k) blk al = Some (FH_DUPLICATED_ELEMENT, Some ?f')"
      using l ins fh_ready_bad [OF r] by (simp add: fh_insert_def idx Let_def fh_inc_collision_def)
    ultimately show ?thesis using True by auto
  next
    case False
    from fh_insert_locked_new [OF ok1 _ al, of k blk v] False v obtain pos f2 where
      f2: "fh_insert_locked ?f1 k blk al ?idx (make_minihash (hash_function f k)) = Some (Inr pos, f2)"
        "fh_table_ok f2" "fh_size f2 = fh_size f + 1" "fh_map f2 = (fh_map f)(k \<mapsto> v)"
        "fh_conf f2 = fh_conf f" "h_held f2 = (h_held f)[l := True]" "h_elements f2 = h_elements f"
      by auto
    let ?f' = "fh_inc_elem (f2\<lparr>h_held := h_held f\<rparr>)"
    have e: "?f' = f2\<lparr>h_held := h_held f, h_elements := h_elements f + 1\<rparr>"
      by (simp add: fh_inc_elem_def f2(7))
    have "fh_ready ?f'"
      unfolding e by (rule fh_ready_unlocked [OF r f2(2,5)]) (simp_all add: f2(3,6) el)
    moreover have "fh_conf ?f' = fh_conf f" "fh_map ?f' = (fh_map f)(k \<mapsto> v)"
      using fh_same_table(3) [OF f2(2), of ?f'] f2(4,5,6) by (simp_all add: e fh_conf_def)
    moreover have "n_lock f2 = n_lock f" using f2(5) by (simp add: fh_conf_def)
    then have "fh_insert (Some f) (Some k) blk al = Some (?idx, Some ?f')"
      using l f2(1,6) fh_ready_bad [OF r] by (simp add: fh_insert_def idx Let_def)
    ultimately show ?thesis using False by auto
  qed
qed

lemma fh_del_spec:
  assumes r: "fh_ready f"
  shows "\<exists>f'. fh_del (Some f) (Some k) =
      Some (if k \<in> dom (fh_map f) then fh_key_index f k else FH_ELEMENT_NOT_FOUND, Some f') \<and>
    fh_ready f' \<and> fh_conf f' = fh_conf f \<and> fh_map f' = (fh_map f)(k := None)"
proof -
  let ?idx = "fh_key_index f k"
  from r have ok: "fh_table_ok f" and un: "fh_unlocked f" and el: "h_elements f = int (fh_size f)"
    by (simp_all add: fh_ready_def fh_inv_def)
  from fh_lock_unlocked [OF ok un fh_index_range(1) [OF ok]] obtain l where
    l: "fh_lock f ?idx = Some (f\<lparr>h_held := (h_held f)[l := True]\<rparr>)"
      "\<And>g :: 'a fh. n_lock g = n_lock f \<Longrightarrow> h_held g = (h_held f)[l := True] \<Longrightarrow>
        fh_unlock g ?idx = Some (g\<lparr>h_held := h_held f\<rparr>)" by blast
  let ?f1 = "f\<lparr>h_held := (h_held f)[l := True]\<rparr>"
  have ok1: "fh_table_ok ?f1" using ok by (rule held_table_ok) simp
  have idx: "fh_index f (hash_function f k) = ?idx" by (simp add: fh_key_index_def)
  note del = fh_del_slot_spec [OF ok1, of ?idx k "make_minihash (hash_function f k)"]
  show ?thesis
  proof (cases "k \<in> dom (fh_map f)")
    case True
    with del obtain f2 where
      f2: "fh_del_slot ?f1 k ?idx (make_minihash (hash_function f k)) = Some (?idx, f2)"
        "fh_table_ok f2" "fh_size f2 + 1 = fh_size f" "fh_map f2 = (fh_map f)(k := None)"
        "fh_conf f2 = fh_conf f" "h_held f2 = (h_held f)[l := True]" "h_elements f2 = h_elements f"
      by auto
    let ?f' = "fh_dec_elem (f2\<lparr>h_held := h_held f\<rparr>)"
    have e: "?f' = f2\<lparr>h_held := h_held f, h_elements := h_elements f - 1\<rparr>"
      by (simp add: fh_dec_elem_def f2(7))
    have "fh_ready ?f'"
      unfolding e using f2(3) el
      by (intro fh_ready_unlocked [OF r f2(2,5)]) (simp_all add: f2(6))
    moreover have "fh_conf ?f' = fh_conf f" "fh_map ?f' = (fh_map f)(k := None)"
      using fh_same_table(3) [OF f2(2), of ?f'] f2(4,5,6) by (simp_all add: e fh_conf_def)
    moreover have "n_lock f2 = n_lock f" using f2(5) by (simp add: fh_conf_def)
    then have "fh_del (Some f) (Some k) = Some (?idx, Some ?f')"
      using l f2(1,6) fh_ready_bad [OF r] fh_index_range(1) [OF ok, of k] by (simp add: fh_del_def idx Let_def)
    ultimately show ?thesis using True by auto
  next
    case False
    with del have d: "fh_del_slot ?f1 k ?idx (make_minihash (hash_function f k)) =
        Some (FH_ELEMENT_NOT_FOUND, ?f1)" by simp
    have "\<not> 0 \<le> FH_ELEMENT_NOT_FOUND" by (simp add: FH_ELEMENT_NOT_FOUND_def)
    with l d fh_ready_bad [OF r]
    have "fh_del (Some f) (Some k) = Some (FH_ELEMENT_NOT_FOUND, Some f)"
      by (simp add: fh_del_def idx Let_def)
    moreover have "fh_map f = (fh_map f)(k := None)" using False by (auto simp: fun_eq_iff)
    ultimately show ?thesis using False r by auto
  qed
qed

text \<open>The reading operations leave the table exactly as it is.\<close>

lemma fh_get_table:
  assumes ok: "fh_table_ok f" and un: "fh_unlocked f"
  shows "fh_get (Some f) (Some k) =
    Some (case fh_map f k of None \<Rightarrow> (FH_ELEMENT_NOT_FOUND, None, Some f) | Some v \<Rightarrow> (FH_OK, v, Some f))"
proof -
  let ?idx = "fh_key_index f k"
  have bad: "\<not> fh_bad (Some f)" using ok by (simp add: fh_bad_def fh_table_ok_def)
  from fh_lock_unlocked [OF ok un fh_index_range(1) [OF ok]] obtain l where
    l: "fh_lock f ?idx = Some (f\<lparr>h_held := (h_held f)[l := True]\<rparr>)"
      "\<And>g :: 'a fh. n_lock g = n_lock f \<Longrightarrow> h_held g = (h_held f)[l := True] \<Longrightarrow>
        fh_unlock g ?idx = Some (g\<lparr>h_held := h_held f\<rparr>)" by blast
  let ?f1 = "f\<lparr>h_held := (h_held f)[l := True]\<rparr>"
  have ok1: "fh_table_ok ?f1" using ok by (rule held_table_ok) simp
  have idx: "fh_index f (hash_function f k) = ?idx" by (simp add: fh_key_index_def)
  from fh_lookup_entry_spec [OF ok1, of k] obtain e where
    e: "fh_lookup_entry ?f1 k = Some e" "fh_map f k = map_option e_obj e" by auto
  from e(1) l bad show ?thesis
    by (cases e) (simp_all add: fh_get_def idx Let_def e(2))
qed

lemma fh_get_spec:
  "fh_ready f \<Longrightarrow> fh_get (Some f) (Some k) =
    Some (case fh_map f k of None \<Rightarrow> (FH_ELEMENT_NOT_FOUND, None, Some f) | Some v \<Rightarrow> (FH_OK, v, Some f))"
  unfolding fh_ready_def fh_inv_def by (intro fh_get_table) simp_all

lemma fh_search_spec:
  assumes r: "fh_ready f" and dl: "h_datalen f \<noteq> FH_DATALEN_VOIDP"
  shows "fh_search (Some f) (Some k) (Some cap) n =
    (case fh_map f k of
       None \<Rightarrow> Some (FH_ELEMENT_NOT_FOUND, [], Some f)
     | Some None \<Rightarrow> Some (fh_key_index f k, [], Some f)
     | Some (Some v) \<Rightarrow>
         do { w \<leftarrow> fh_copy_obj (h_datalen f) v n cap;
              case w of Inl rc \<Rightarrow> Some (rc, [], Some f) | Inr bs \<Rightarrow> Some (fh_key_index f k, bs, Some f) })"
proof -
  let ?idx = "fh_key_index f k"
  from r have ok: "fh_table_ok f" and un: "fh_unlocked f"
    by (simp_all add: fh_ready_def fh_inv_def)
  from fh_lock_unlocked [OF ok un fh_index_range(1) [OF ok]] obtain l where
    l: "fh_lock f ?idx = Some (f\<lparr>h_held := (h_held f)[l := True]\<rparr>)"
      "\<And>g :: 'a fh. n_lock g = n_lock f \<Longrightarrow> h_held g = (h_held f)[l := True] \<Longrightarrow>
        fh_unlock g ?idx = Some (g\<lparr>h_held := h_held f\<rparr>)" by blast
  let ?f1 = "f\<lparr>h_held := (h_held f)[l := True]\<rparr>"
  have ok1: "fh_table_ok ?f1" using ok by (rule held_table_ok) simp
  have idx: "fh_index f (hash_function f k) = ?idx" by (simp add: fh_key_index_def)
  from fh_lookup_entry_spec [OF ok1, of k] obtain e where
    e: "fh_lookup_entry ?f1 k = Some e" "map_option e_obj e = fh_map f k" by auto
  show ?thesis
  proof (cases e)
    case None
    with e l fh_ready_bad [OF r] dl show ?thesis by (simp add: fh_search_def idx Let_def)
  next
    case (Some x)
    with e have m: "fh_map f k = Some (e_obj x)" by simp
    from e(1) Some l fh_ready_bad [OF r] dl show ?thesis
      by (cases "e_obj x") (simp_all add: fh_search_def idx Let_def m)
  qed
qed

section \<open>A table of pointers as a dictionary\<close>

definition all_ok :: fh_allocs where
  "all_ok = \<lparr>a_bucket = True, a_chain = True, a_key = True, a_obj = True\<rparr>"

definition fh_ptr_put :: "'p fh \<Rightarrow> cstr \<Rightarrow> 'p \<Rightarrow> 'p fh option" where
  "fh_ptr_put f k p = do { (rc, f1) \<leftarrow> fh_insert (Some f) (Some k) (Some (p, [])) all_ok; f1 }"

definition fh_ptr_rem :: "'p fh \<Rightarrow> cstr \<Rightarrow> 'p fh option" where
  "fh_ptr_rem f k = do { (rc, f1) \<leftarrow> fh_del (Some f) (Some k); f1 }"

definition fh_ptr_get :: "'p fh \<Rightarrow> cstr \<rightharpoonup> 'p" where
  "fh_ptr_get f k =
     (case fh_get (Some f) (Some k) of
        Some (rc, Some (OPtr p), f1) \<Rightarrow> Some p
      | _ \<Rightarrow> None)"

definition fh_ptr_table :: "'p fh \<Rightarrow> bool" where
  "fh_ptr_table f \<longleftrightarrow> fh_ready f \<and> h_datalen f = FH_DATALEN_VOIDP \<and>
     (\<forall>k v. fh_map f k = Some v \<longrightarrow> (\<exists>p. v = Some (OPtr p)))"

lemma fh_ptr_map:
  assumes "fh_ptr_table f"
  shows "fh_map f k = map_option (\<lambda>p. Some (OPtr p)) (fh_ptr_get f k)"
proof (cases "fh_map f k")
  case None
  with fh_get_spec [of f k] assms show ?thesis by (simp add: fh_ptr_table_def fh_ptr_get_def)
next
  case (Some v)
  with assms obtain p where "v = Some (OPtr p)" by (auto simp: fh_ptr_table_def)
  with Some fh_get_spec [of f k] assms show ?thesis by (simp add: fh_ptr_table_def fh_ptr_get_def)
qed

lemma fh_ptr_dom: "fh_ptr_table f \<Longrightarrow> dom (fh_map f) = dom (fh_ptr_get f)"
  by (auto simp: fh_ptr_map dom_def)

lemma fh_ptr_get_upd:
  assumes "fh_ptr_table f" and "fh_ptr_table g" and "fh_map g = (fh_map f)(k := map_option (\<lambda>p. Some (OPtr p)) v)"
  shows "fh_ptr_get g = (fh_ptr_get f)(k := v)"
proof
  fix x
  have "map_option (\<lambda>p. Some (OPtr p)) (fh_ptr_get g x) =
      map_option (\<lambda>p. Some (OPtr p)) (((fh_ptr_get f)(k := v)) x)"
    using assms(3) fh_ptr_map [OF assms(1), of x] fh_ptr_map [OF assms(2), of x] by (simp split: if_splits)
  then show "fh_ptr_get g x = ((fh_ptr_get f)(k := v)) x"
    by (cases "fh_ptr_get g x"; cases "((fh_ptr_get f)(k := v)) x") auto
qed

lemma fh_ptr_put_law:
  assumes "fh_ptr_table f"
  shows "\<exists>f'. fh_ptr_put f k p = Some f' \<and> fh_ptr_table f' \<and>
    fh_ptr_get f' = (if k \<in> dom (fh_ptr_get f) then fh_ptr_get f else (fh_ptr_get f)(k \<mapsto> p))"
proof -
  from assms have r: "fh_ready f" and dl: "h_datalen f = FH_DATALEN_VOIDP"
    by (simp_all add: fh_ptr_table_def)
  have "blk_obj (h_datalen f) (Some (p, [])) (a_obj all_ok) = Some (Some (Some (OPtr p)))"
    by (simp add: blk_obj_def fh_new_obj_def dl FH_DATALEN_VOIDP_def)
  from fh_insert_spec [OF r _ _ _ this, of k] obtain rc f' where
    f': "fh_insert (Some f) (Some k) (Some (p, [])) all_ok = Some (rc, Some f')" "fh_ready f'"
      "fh_conf f' = fh_conf f"
      "fh_map f' = (if k \<in> dom (fh_map f) then fh_map f else (fh_map f)(k \<mapsto> Some (OPtr p)))"
    by (auto simp: all_ok_def)
  have t: "fh_ptr_table f'"
    using assms f' by (auto simp: fh_ptr_table_def fh_conf_def split: if_splits)
  have "fh_ptr_get f' = (if k \<in> dom (fh_ptr_get f) then fh_ptr_get f else (fh_ptr_get f)(k \<mapsto> p))"
  proof (cases "k \<in> dom (fh_map f)")
    case True
    with f'(4) have "fh_map f' = (fh_map f)(k := map_option (\<lambda>p. Some (OPtr p)) (fh_ptr_get f k))"
      using fh_ptr_map [OF assms] by (auto simp: fun_eq_iff)
    from fh_ptr_get_upd [OF assms t this] True show ?thesis
      by (simp add: fh_ptr_dom [OF assms])
  next
    case False
    with f'(4) have "fh_map f' = (fh_map f)(k := map_option (\<lambda>p. Some (OPtr p)) (Some p))" by simp
    from fh_ptr_get_upd [OF assms t this] False show ?thesis
      by (simp add: fh_ptr_dom [OF assms])
  qed
  with f'(1) t show ?thesis by (simp add: fh_ptr_put_def)
qed

lemma fh_ptr_rem_law:
  assumes "fh_ptr_table f"
  shows "\<exists>f'. fh_ptr_rem f k = Some f' \<and> fh_ptr_table f' \<and> fh_ptr_get f' = (fh_ptr_get f)(k := None)"
proof -
  from assms have r: "fh_ready f" by (simp add: fh_ptr_table_def)
  from fh_del_spec [OF r, of k] obtain rc f' where
    f': "fh_del (Some f) (Some k) = Some (rc, Some f')" "fh_ready f'" "fh_conf f' = fh_conf f"
      "fh_map f' = (fh_map f)(k := None)" by blast
  have t: "fh_ptr_table f'"
    using assms f' by (auto simp: fh_ptr_table_def fh_conf_def split: if_splits)
  have "fh_map f' = (fh_map f)(k := map_option (\<lambda>p. Some (OPtr p)) None)" using f'(4) by simp
  from fh_ptr_get_upd [OF assms t this] f'(1) t show ?thesis by (simp add: fh_ptr_rem_def)
qed

interpretation fh_dict: dictionary_del fh_ptr_get fh_ptr_put fh_ptr_table fh_ptr_rem
  by unfold_locales (fact fh_ptr_put_law, fact fh_ptr_rem_law)

section \<open>Held locks\<close>

lemma fh_searchlock_spec:
  fixes f :: "'p fh"
  assumes r: "fh_ready f" and k: "fh_map f k = Some v"
  obtains l where "fh_lock_index f (fh_key_index f k) = Some l" and "l < length (h_held f)"
    and "fh_searchlock (Some f) (Some k) =
      Some (FH_OK, v, Some (fh_key_index f k), Some (f\<lparr>h_held := (h_held f)[l := True]\<rparr>))"
    and "fh_releaselock (Some (f\<lparr>h_held := (h_held f)[l := True]\<rparr>)) (fh_key_index f k) = Some (FH_OK, Some f)"
proof -
  let ?idx = "fh_key_index f k"
  from r have ok: "fh_table_ok f" and un: "fh_unlocked f"
    by (simp_all add: fh_ready_def fh_inv_def)
  obtain l where
    l: "fh_lock_index f ?idx = Some l" "l < length (h_held f)" "\<not> h_held f ! l"
      "fh_lock f ?idx = Some (f\<lparr>h_held := (h_held f)[l := True]\<rparr>)"
      "\<And>g :: 'p fh. n_lock g = n_lock f \<Longrightarrow> h_held g = (h_held f)[l := True] \<Longrightarrow>
        fh_unlock g ?idx = Some (g\<lparr>h_held := h_held f\<rparr>)"
    by (rule fh_lock_unlocked [OF ok un fh_index_range(1) [OF ok, of k]]) (rule that)
  let ?f1 = "f\<lparr>h_held := (h_held f)[l := True]\<rparr>"
  have ok1: "fh_table_ok ?f1" using ok by (rule held_table_ok) simp
  have idx: "fh_index f (hash_function f k) = ?idx" by (simp add: fh_key_index_def)
  from fh_lookup_entry_spec [OF ok1, of k] k obtain e where
    e: "fh_lookup_entry ?f1 k = Some (Some e)" "e_obj e = v" by auto
  have s: "fh_searchlock (Some f) (Some k) = Some (FH_OK, v, Some ?idx, Some ?f1)"
    using l(4) e fh_ready_bad [OF r] by (simp add: fh_searchlock_def idx Let_def)
  have "\<not> fh_bad (Some ?f1)" using ok1 by (simp add: fh_bad_def fh_table_ok_def)
  with l(5) have "fh_releaselock (Some ?f1) ?idx = Some (FH_OK, Some f)"
    by (simp add: fh_releaselock_def)
  with l(1,2) s show ?thesis by (rule that)
qed

lemma fh_searchlock_absent:
  fixes f :: "'p fh"
  assumes r: "fh_ready f" and k: "fh_map f k = None"
  shows "fh_searchlock (Some f) (Some k) = Some (FH_ELEMENT_NOT_FOUND, None, None, Some f)"
proof -
  let ?idx = "fh_key_index f k"
  from r have ok: "fh_table_ok f" and un: "fh_unlocked f"
    by (simp_all add: fh_ready_def fh_inv_def)
  obtain l where
    l: "fh_lock f ?idx = Some (f\<lparr>h_held := (h_held f)[l := True]\<rparr>)"
      "\<And>g :: 'p fh. n_lock g = n_lock f \<Longrightarrow> h_held g = (h_held f)[l := True] \<Longrightarrow>
        fh_unlock g ?idx = Some (g\<lparr>h_held := h_held f\<rparr>)"
    by (rule fh_lock_unlocked [OF ok un fh_index_range(1) [OF ok, of k]]) (rule that)
  let ?f1 = "f\<lparr>h_held := (h_held f)[l := True]\<rparr>"
  have "fh_table_ok ?f1" using ok by (rule held_table_ok) simp
  from fh_lookup_entry_spec [OF this, of k] k have "fh_lookup_entry ?f1 k = Some None" by auto
  moreover have "fh_index f (hash_function f k) = ?idx" by (simp add: fh_key_index_def)
  ultimately show ?thesis
    using l fh_ready_bad [OF r] by (simp add: fh_searchlock_def Let_def)
qed

lemma fh_lock_held:
  assumes "fh_lock_index f i = Some l" and "l < length (h_held f)"
  shows "fh_lock (f\<lparr>h_held := (h_held f)[l := True]\<rparr>) i = None"
  using assms by (simp add: fh_lock_def fh_lock_index_def split: if_splits)

section \<open>The number of elements\<close>

lemma fh_map_dom_UN:
  assumes "fh_table_ok f"
  shows "dom (fh_map f) = (\<Union>i < length (hash_table f). fst ` set (pairs (hash_table f ! i)))"
proof (intro set_eqI iffI)
  fix k assume "k \<in> dom (fh_map f)"
  with fh_index_range(3) [OF assms, of k]
  show "k \<in> (\<Union>i < length (hash_table f). fst ` set (pairs (hash_table f ! i)))"
    unfolding fh_map_dom by blast
next
  fix k assume "k \<in> (\<Union>i < length (hash_table f). fst ` set (pairs (hash_table f ! i)))"
  then obtain i where i: "i < length (hash_table f)" "k \<in> fst ` set (pairs (hash_table f ! i))" by blast
  with fh_table_keys [OF assms i] show "k \<in> dom (fh_map f)" by (simp only: fh_map_dom nat_int)
qed

lemma fh_size_card:
  assumes "fh_table_ok f"
  shows "fh_size f = card (dom (fh_map f))"
proof -
  let ?K = "\<lambda>i. fst ` set (pairs (hash_table f ! i))" and ?n = "length (hash_table f)"
  have "card (\<Union>i < ?n. ?K i) = (\<Sum>i < ?n. card (?K i))"
  proof (rule card_UN_disjoint)
    show "\<forall>i \<in> {..<?n}. \<forall>j \<in> {..<?n}. i \<noteq> j \<longrightarrow> ?K i \<inter> ?K j = {}"
    proof (intro ballI impI)
      fix i j assume ij: "i \<in> {..<?n}" "j \<in> {..<?n}" "i \<noteq> j"
      show "?K i \<inter> ?K j = {}"
      proof (rule ccontr)
        assume "?K i \<inter> ?K j \<noteq> {}"
        then obtain k where "k \<in> ?K i" "k \<in> ?K j" by blast
        with fh_table_keys [OF assms] ij have "int i = int j" by (metis lessThan_iff)
        with ij(3) show False by simp
      qed
    qed
  qed simp_all
  also have "\<dots> = (\<Sum>i < ?n. length (pairs (hash_table f ! i)))"
  proof (rule sum.cong [OF refl])
    fix i assume "i \<in> {..<?n}"
    then have "distinct (map fst (pairs (hash_table f ! i)))"
      using assms by (simp add: fh_table_ok_def chain_ok_def)
    then show "card (?K i) = length (pairs (hash_table f ! i))"
      using distinct_card by fastforce
  qed
  also have "\<dots> = fh_size f"
    unfolding fh_size_def by (simp add: sum_list_sum_nth atLeast0LessThan)
  finally show ?thesis by (simp add: fh_map_dom_UN [OF assms])
qed

section \<open>Sequences of calls\<close>

text \<open>What a call returns, with the index that an insertion or deletion returns reduced to
  success.\<close>

datatype 'p fh_call =
    FInsert cstr "'p block"
  | FDel cstr
  | FGet cstr
  | FSearch cstr nat int
  | FCount

datatype 'p fh_result = FCode int | FValue int "'p obj option" | FBytes int "byte list"

definition code_of :: "int \<Rightarrow> int" where
  "code_of rc = (if 0 \<le> rc then FH_OK else rc)"

definition fh_step :: "'p fh \<Rightarrow> 'p fh_call \<Rightarrow> ('p fh_result \<times> 'p fh) option" where
  "fh_step f call =
     (case call of
        FInsert k b \<Rightarrow>
          do { (rc, g) \<leftarrow> fh_insert (Some f) (Some k) b all_ok; f1 \<leftarrow> g; Some (FCode (code_of rc), f1) }
      | FDel k \<Rightarrow> do { (rc, g) \<leftarrow> fh_del (Some f) (Some k); f1 \<leftarrow> g; Some (FCode (code_of rc), f1) }
      | FGet k \<Rightarrow> do { (rc, v, g) \<leftarrow> fh_get (Some f) (Some k); f1 \<leftarrow> g; Some (FValue rc v, f1) }
      | FSearch k cap n \<Rightarrow>
          do { (rc, bs, g) \<leftarrow> fh_search (Some f) (Some k) (Some cap) n; f1 \<leftarrow> g;
               Some (FBytes (code_of rc) bs, f1) }
      | FCount \<Rightarrow>
          do { n \<leftarrow> snd (fh_getattr (Some f) FH_ATTR_ELEMENT); Some (FCode n, f) })"

text \<open>The specification: a map with the \<open>datalen\<close> of the table.\<close>

definition map_step ::
  "int \<times> (cstr \<rightharpoonup> 'p obj option) \<Rightarrow> 'p fh_call \<Rightarrow> 'p fh_result \<times> int \<times> (cstr \<rightharpoonup> 'p obj option)" where
  "map_step s call =
     (let (dl, m) = s in
      case call of
        FInsert k b \<Rightarrow>
          if k \<in> dom m then (FCode FH_DUPLICATED_ELEMENT, dl, m)
          else (FCode FH_OK, dl, m(k \<mapsto> the (the (blk_obj dl b True))))
      | FDel k \<Rightarrow>
          (FCode (if k \<in> dom m then FH_OK else FH_ELEMENT_NOT_FOUND), dl, m(k := None))
      | FGet k \<Rightarrow>
          ((case m k of None \<Rightarrow> FValue FH_ELEMENT_NOT_FOUND None | Some v \<Rightarrow> FValue FH_OK v), dl, m)
      | FSearch k cap n \<Rightarrow>
          ((case m k of
              None \<Rightarrow> FBytes FH_ELEMENT_NOT_FOUND []
            | Some None \<Rightarrow> FBytes FH_OK []
            | Some (Some v) \<Rightarrow>
                (case the (fh_copy_obj dl v n cap) of Inl rc \<Rightarrow> FBytes rc [] | Inr bs \<Rightarrow> FBytes FH_OK bs)),
           dl, m)
      | FCount \<Rightarrow> (FCode (int (card (dom m))), dl, m))"

definition map_ok :: "int \<times> (cstr \<rightharpoonup> 'p obj option) \<Rightarrow> 'p fh_call \<Rightarrow> bool" where
  "map_ok s call =
     (let (dl, m) = s in
      case call of
        FInsert k b \<Rightarrow> blk_obj dl b True \<noteq> None
      | FSearch k cap n \<Rightarrow>
          dl \<noteq> FH_DATALEN_VOIDP \<and>
          (case m k of Some (Some v) \<Rightarrow> fh_copy_obj dl v n cap \<noteq> None | _ \<Rightarrow> True)
      | _ \<Rightarrow> True)"

definition fh_abs :: "'p fh \<Rightarrow> int \<times> (cstr \<rightharpoonup> 'p obj option)" where
  "fh_abs f = (h_datalen f, fh_map f)"

lemma blk_obj_allocated:
  "blk_obj dl blk True \<noteq> None \<Longrightarrow> \<exists>v. blk_obj dl blk True = Some (Some v)"
  by (auto simp: blk_obj_def fh_new_obj_def split: option.splits if_splits)

lemma fh_conf_datalen: "fh_conf g = fh_conf f \<Longrightarrow> h_datalen g = h_datalen f"
  by (simp add: fh_conf_def)

lemma fh_copy_obj_code: "fh_copy_obj dl v n cap = Some (Inl rc) \<Longrightarrow> code_of rc = rc"
  by (auto simp: fh_copy_obj_def code_of_def FH_DIM_INVALID_def split: obj.splits if_splits)

lemma code_of_simps [simp]:
  "code_of FH_DUPLICATED_ELEMENT = FH_DUPLICATED_ELEMENT"
  "code_of FH_ELEMENT_NOT_FOUND = FH_ELEMENT_NOT_FOUND"
  by (simp_all add: code_of_def FH_DUPLICATED_ELEMENT_def FH_ELEMENT_NOT_FOUND_def)

lemma code_of_index: "fh_ready f \<Longrightarrow> code_of (fh_key_index f k) = FH_OK"
  using fh_index_range(1) [of f k] by (simp add: code_of_def fh_ready_def fh_inv_def)

lemma fh_step_simulates:
  assumes r: "fh_ready f" and ok: "map_ok (fh_abs f) call"
  shows "\<exists>f'. fh_step f call = Some (fst (map_step (fh_abs f) call), f') \<and> fh_ready f' \<and>
    fh_abs f' = snd (map_step (fh_abs f) call)"
proof (cases call)
  case (FInsert k b)
  with ok obtain v where v: "blk_obj (h_datalen f) b True = Some (Some v)"
    using blk_obj_allocated by (fastforce simp: map_ok_def fh_abs_def)
  then have "blk_obj (h_datalen f) b (a_obj all_ok) = Some (Some v)" by (simp add: all_ok_def)
  from fh_insert_spec [OF r _ _ _ this, of k] obtain f' where
    f': "fh_insert (Some f) (Some k) b all_ok =
        Some (if k \<in> dom (fh_map f) then FH_DUPLICATED_ELEMENT else fh_key_index f k, Some f')"
      "fh_ready f'" "fh_conf f' = fh_conf f"
      "fh_map f' = (if k \<in> dom (fh_map f) then fh_map f else (fh_map f)(k \<mapsto> v))"
    by (auto simp: all_ok_def)
  have "h_datalen f' = h_datalen f" using f'(3) by (rule fh_conf_datalen)
  with f' v FInsert r show ?thesis
    by (cases "k \<in> dom (fh_map f)")
      (simp_all add: fh_step_def map_step_def fh_abs_def code_of_index)
next
  case (FDel k)
  from fh_del_spec [OF r, of k] obtain f' where
    f': "fh_del (Some f) (Some k) =
        Some (if k \<in> dom (fh_map f) then fh_key_index f k else FH_ELEMENT_NOT_FOUND, Some f')"
      "fh_ready f'" "fh_conf f' = fh_conf f" "fh_map f' = (fh_map f)(k := None)"
    by blast
  have "h_datalen f' = h_datalen f" using f'(3) by (rule fh_conf_datalen)
  with f' FDel r show ?thesis
    by (cases "k \<in> dom (fh_map f)")
      (simp_all add: fh_step_def map_step_def fh_abs_def code_of_index)
next
  case (FGet k)
  with fh_get_spec [OF r, of k] r show ?thesis
    by (cases "fh_map f k") (simp_all add: fh_step_def map_step_def fh_abs_def)
next
  case (FSearch k cap n)
  with ok have dl: "h_datalen f \<noteq> FH_DATALEN_VOIDP" by (simp add: map_ok_def fh_abs_def)
  note s = fh_search_spec [OF r dl, of k cap n]
  show ?thesis
  proof (cases "fh_map f k")
    case None
    with s FSearch r show ?thesis by (simp add: fh_step_def map_step_def fh_abs_def)
  next
    case (Some v0)
    show ?thesis
    proof (cases v0)
      case None
      with Some s FSearch r show ?thesis
        by (simp add: fh_step_def map_step_def fh_abs_def code_of_index)
    next
      case (Some v)
      with \<open>fh_map f k = Some v0\<close> ok FSearch obtain w where
        w: "fh_copy_obj (h_datalen f) v n cap = Some w" by (auto simp: map_ok_def fh_abs_def)
      with \<open>fh_map f k = Some v0\<close> Some s FSearch r show ?thesis
        by (cases w) (simp_all add: fh_step_def map_step_def fh_abs_def code_of_index fh_copy_obj_code)
    qed
  qed
next
  case FCount
  with r fh_size_card [of f] show ?thesis
    by (simp add: fh_step_def map_step_def fh_abs_def fh_getattr_def fh_ready_def fh_inv_def fh_table_ok_def)
qed

interpretation fh_sim: simulation fh_step map_step map_ok fh_abs fh_ready
  by unfold_locales (rule fh_step_simulates)

end
