(* ===== verification/FhProps.thy ===== *)
theory FhProps
  imports FhSpec
begin

text \<open>
  The properties of the hash table proper: sequences of calls, the sizes of a new table, the
  locking operations, and what a failed allocation leaves behind.
\<close>

section \<open>Failed allocations\<close>

lemma fh_scan_null:
  assumes "\<forall>e \<in> set b. mini e = mh \<longrightarrow> e_key e \<noteq> Some k"
  shows "fh_scan b k mh n = (if \<exists>e \<in> set b. mini e = mh \<and> e_key e = None then None else Some None)"
  using assms by (induction b arbitrary: n) (auto split: option.splits)

lemma fh_find_slot_null:
  assumes "\<forall>b \<in> set ch. \<forall>e \<in> set b. mini e = mh \<longrightarrow> e_key e \<noteq> Some k"
    and "\<exists>b \<in> set ch. \<exists>e \<in> set b. mini e = mh \<and> e_key e = None"
  shows "fh_find_slot ch k mh = None"
  using assms
proof (induction ch)
  case Nil
  then show ?case by simp
next
  case (Cons b ch)
  have s: "fh_scan b k mh 0 = (if \<exists>e \<in> set b. mini e = mh \<and> e_key e = None then None else Some None)"
    using Cons.prems(1) by (intro fh_scan_null) simp
  show ?case
  proof (cases "\<exists>e \<in> set b. mini e = mh \<and> e_key e = None")
    case True
    with s show ?thesis by simp
  next
    case False
    with Cons have "fh_find_slot ch k mh = None" by auto
    with s False show ?thesis by simp
  qed
qed

lemma absent_entry:
  assumes "b \<in> set ch" and "e \<in> set b" and "mini e \<noteq> 0" and "k \<notin> fst ` set (pairs ch)"
  shows "e_key e \<noteq> Some k"
proof
  assume "e_key e = Some k"
  with assms(2,3) have "(k, e_obj e) \<in> set (bucket_pairs b)" by (force simp: bucket_pairs_def)
  with assms(1) have "(k, e_obj e) \<in> set (pairs ch)" by (auto simp: pairs_def)
  with assms(4) show False by force
qed

lemma fh_insert_locked_no_strdup:
  assumes ok: "fh_table_ok f" and k: "k \<notin> dom (fh_map f)" and copy: "\<not> dont_copy_key f"
    and al: "a_bucket al" "a_chain al" "\<not> a_key al"
  shows "\<exists>f1 ch. fh_insert_locked f k blk al (fh_key_index f k) (make_minihash (hash_function f k)) =
      Some (Inl FH_NO_MEMORY, upd_chain f1 (fh_key_index f k) ch) \<and>
    fh_conf f1 = fh_conf f \<and> h_held f1 = h_held f \<and> length (hash_table f1) = length (hash_table f) \<and>
    ch \<noteq> [] \<and> fh_find_slot ch k (make_minihash (hash_function f k)) = None"
proof -
  let ?i = "nat (fh_key_index f k)" and ?idx = "fh_key_index f k"
  let ?ch0 = "hash_table f ! ?i" and ?mh = "make_minihash (hash_function f k)"
  define ch1 where "ch1 = (if ?ch0 \<noteq> [] then ?ch0 else [fh_allocate_bucket])"
  define f1 where "f1 = (if ?ch0 \<noteq> [] then fh_inc_collision f else upd_chain f ?idx [fh_allocate_bucket])"
  note chain = fh_chain_key [OF ok, of k]
  have c1: "list_all (bucket_ok (hash_function f)) ch1" "ch1 \<noteq> []" "pairs ch1 = pairs ?ch0"
    using chain(2) by (auto simp: ch1_def chain_ok_def)
  have nk: "k \<notin> fst ` set (pairs ch1)"
    using k c1(3) by (simp add: fh_map_dom)
  have "fh_find_slot [fh_allocate_bucket] k ?mh = Some None"
    by (simp add: fh_allocate_bucket_def BUCKET_SIZE_def empty_entry_def eval_nat_numeral)
  with fh_find_slot_absent [OF ok k] have find: "fh_find_slot ch1 k ?mh = Some None"
    by (auto simp: ch1_def)
  from fh_empty_slot_spec [OF c1(1,2), where mh = ?mh and ok = True] obtain ch2 j i ch0 where
    es: "fh_empty_slot ch1 ?mh True = Some (ch2, j, i)"
    and ch0: "ch0 = ch1 \<or> ch0 = ch1 @ [fh_allocate_bucket]" "j < length ch0" "i < length (ch0 ! j)"
      "ch2 = ch0[j := (ch0 ! j)[i := (ch0 ! j ! i)\<lparr>mini := ?mh\<rparr>]]"
    by (auto split: option.splits)
  define e where "e = (ch0 ! j ! i)\<lparr>mini := ?mh, e_key := None\<rparr>"
  define ch3 where "ch3 = upd_entry ch2 (j, i) (\<lambda>e. e\<lparr>e_key := None\<rparr>)"
  have ch3: "ch3 = ch0[j := (ch0 ! j)[i := e]]"
    using ch0 by (simp add: ch3_def upd_entry_def e_def)
  have f1: "fh_conf f1 = fh_conf f" "h_held f1 = h_held f"
    "length (hash_table f1) = length (hash_table f)" "dont_copy_key f1 = dont_copy_key f"
    by (simp_all add: f1_def fh_inc_collision_def upd_chain_def fh_conf_def dont_copy_key_def)
  have res: "fh_insert_locked f k blk al ?idx ?mh = Some (Inl FH_NO_MEMORY, upd_chain f1 ?idx ch3)"
    using chain(1) al find es copy f1(4)
    by (simp add: fh_insert_locked_def Let_def ch1_def [symmetric] f1_def [symmetric] ch3_def)
  have "\<forall>b \<in> set ch3. \<forall>x \<in> set b. mini x = ?mh \<longrightarrow> e_key x \<noteq> Some k"
  proof (intro ballI impI)
    fix b x assume b: "b \<in> set ch3" "x \<in> set b" "mini x = ?mh"
    then have "x = e \<or> (\<exists>b' \<in> set ch0. x \<in> set b')"
      using ch0(2,3) unfolding ch3
      by (auto dest!: set_update_subset_insert [THEN subsetD] intro: nth_mem)
    then show "e_key x \<noteq> Some k"
    proof
      assume "x = e"
      then show ?thesis by (simp add: e_def)
    next
      assume "\<exists>b' \<in> set ch0. x \<in> set b'"
      then obtain b' where b': "b' \<in> set ch0" "x \<in> set b'" by blast
      have "k \<notin> fst ` set (pairs ch0)" using nk ch0(1) by auto
      with absent_entry [OF b'] b(3) show ?thesis by simp
    qed
  qed
  moreover have "e \<in> set (ch3 ! j)" "ch3 ! j \<in> set ch3"
    using ch0(2,3) by (simp_all add: ch3 set_update_memI)
  moreover have "mini e = ?mh" "e_key e = None" by (simp_all add: e_def)
  ultimately have "\<forall>b \<in> set ch3. \<forall>x \<in> set b. mini x = ?mh \<longrightarrow> e_key x \<noteq> Some k"
    "\<exists>b \<in> set ch3. \<exists>x \<in> set b. mini x = ?mh \<and> e_key x = None" by blast+
  then have "fh_find_slot ch3 k ?mh = None" by (rule fh_find_slot_null)
  moreover have "ch3 \<noteq> []" using ch0(2) by (auto simp: ch3)
  ultimately show ?thesis using res f1 by blast
qed

lemma fh_insert_locked_no_obj:
  assumes "blk_obj (h_datalen f) blk (a_obj al) = Some None"
    and "fh_insert_locked f k None al idx mh = Some (Inr pos, f2)"
  shows "fh_insert_locked f k blk al idx mh = Some (Inl FH_NO_MEMORY, f2)"
proof -
  obtain b where b: "blk = Some b" "fh_new_obj (h_datalen f) b (a_obj al) = Some None"
    using assms(1) by (cases blk) (auto simp: blk_obj_def)
  from assms(2) obtain ch0 where ch0: "fh_chain f idx = Some ch0"
    by (auto simp: fh_insert_locked_def bind_Some_iff)
  define ch1 where "ch1 = (if ch0 \<noteq> [] then ch0 else [fh_allocate_bucket])"
  define f1 where "f1 = (if ch0 \<noteq> [] then fh_inc_collision f else upd_chain f idx [fh_allocate_bucket])"
  have dl: "h_datalen f1 = h_datalen f"
    by (simp add: f1_def fh_inc_collision_def upd_chain_def)
  note unf = fh_insert_locked_def ch0 Let_def ch1_def [symmetric] f1_def [symmetric]
  from assms(2) have al: "\<not> (ch0 = [] \<and> \<not> a_bucket al)"
    by (cases "a_bucket al"; cases "ch0 = []") (simp_all add: fh_insert_locked_def ch0)
  from assms(2) al obtain r where r: "fh_find_slot ch1 k mh = Some r"
    by (auto simp: unf bind_Some_iff)
  from assms(2) al r have rn: "r = None" by (cases r) (auto simp: unf)
  from assms(2) al r rn obtain ch2 p where es: "fh_empty_slot ch1 mh (a_chain al) = Some (ch2, p)"
    by (cases "fh_empty_slot ch1 mh (a_chain al)") (auto simp: unf)
  from assms(2) al r rn es have "dont_copy_key f1 \<or> a_key al"
    by (cases "dont_copy_key f1 \<or> a_key al") (auto simp: unf)
  moreover from this assms(2) al r rn es
  have "f2 = upd_chain f1 idx (upd_entry ch2 p (\<lambda>e. e\<lparr>e_key := Some k\<rparr>))"
    by (auto simp: unf)
  ultimately show ?thesis using al r rn es b dl by (auto simp: unf)
qed

section \<open>Creation\<close>

lemma sint_exp: "m < 31 \<Longrightarrow> sint (2 ^ m :: u32) = 2 ^ m"
proof -
  assume m: "m < 31"
  then have "(2::int) ^ m < 2 ^ 31" by (intro power_strict_increasing) simp_all
  moreover have "(0::int) \<le> 2 ^ m" by simp
  ultimately have "signed_take_bit 31 ((2::int) ^ m) = 2 ^ m"
    by (intro signed_take_bit_int_eq_self) linarith+
  moreover have "(2 ^ m :: u32) = word_of_int (2 ^ m)" by simp
  ultimately show ?thesis by (simp only: signed_of_int) simp
qed

lemma fh_new_table:
  fixes f :: "'p fh"
  assumes "h_magic f = FH_MAGIC_ID" and "h_dim f = 2 ^ m" and "m < 31" and "0 < n_lock f"
    and "h_held f = replicate (nat (n_lock f)) False" and "hash_table f = replicate (2 ^ m) []"
    and "h_elements f = 0"
  shows "fh_ready f" and "fh_map f = Map.empty"
proof -
  have "fh_table_ok f"
    using assms unfolding fh_table_ok_def by (auto simp: chain_ok_def)
  moreover from this have "fh_map f k = None" for k
    using fh_index_range(3) [of f k] assms(6) by (simp add: fh_map_def)
  ultimately show "fh_ready f" "fh_map f = Map.empty"
    using assms by (auto simp: fh_ready_def fh_inv_def fh_unlocked_def fh_size_def)
qed

lemma fh_create_ready:
  fixes wy :: "cstr \<Rightarrow> u64"
  assumes "0 \<le> dim" and "dim + dim div 2 \<le> 2 ^ 30"
  shows "\<exists>f :: 'p fh. fh_create wy dim dl hf True True True = Some (Some f) \<and> fh_ready f \<and>
    fh_map f = Map.empty \<and> h_datalen f = dl \<and>
    (\<exists>m. h_dim f = 2 ^ m \<and> dim + dim div 2 \<le> 2 ^ m \<and> (m = 0 \<or> 2 ^ (m - 1) < dim + dim div 2)) \<and>
    (if dim \<le> 64 then n_lock f = 1 else \<exists>k. n_lock f = int (Suc k) \<and> 2 ^ k \<le> dim \<and> dim < 2 ^ Suc k)"
proof -
  let ?x = "unat (word_of_int dim + word_of_int dim div 2 :: u32)"
  have x: "int ?x = dim + dim div 2" using assms by (intro unat_three_halves) simp_all
  have le: "?x \<le> 2 ^ 30"
  proof -
    have "int ?x \<le> int (2 ^ 30)" using assms(2) by (simp only: x) simp
    then show ?thesis by (simp only: of_nat_le_iff)
  qed
  with fh_hash_size_spec [of "word_of_int dim"] obtain m where
    m: "m < 32" "fh_hash_size (word_of_int dim) = Some (2 ^ m)" "?x \<le> 2 ^ m" "m = 0 \<or> 2 ^ (m - 1) < ?x"
    by auto
  have m31: "m < 31"
  proof (rule ccontr)
    assume "\<not> m < 31"
    with m(1) have "m = 31" by simp
    with m(4) le show False by simp
  qed
  have "dim + dim div 2 \<le> int (2 ^ m)" "m = 0 \<or> int (2 ^ (m - 1)) < dim + dim div 2"
    unfolding x [symmetric] of_nat_le_iff of_nat_less_iff by (rule m(3), rule m(4))
  then have xm: "dim + dim div 2 \<le> 2 ^ m" "m = 0 \<or> 2 ^ (m - 1) < dim + dim div 2" by simp_all
  define nl where "nl = (if SIZE_LIMIT_SINGLE_MUTEX < dim then fh_lock_count dim 0 else 1)"
  have nl: "if dim \<le> 64 then nl = 1 else \<exists>k. nl = int (Suc k) \<and> 2 ^ k \<le> dim \<and> dim < 2 ^ Suc k"
    using fh_lock_count_bits [of dim 0] by (auto simp: nl_def SIZE_LIMIT_SINGLE_MUTEX_def)
  then have pos: "0 < nl" by (auto split: if_splits)
  let ?f = "\<lparr>h_magic = FH_MAGIC_ID, h_dim = 2 ^ m, h_datalen = dl, h_elements = 0,
     h_collision = 0, h_attr = 0,
     hash_function = (case hf of None \<Rightarrow> fh_default_hash wy | Some g \<Rightarrow> g),
     rw_mode = False, h_held = replicate (nat nl) False, n_lock = nl,
     hash_table = replicate (2 ^ m) []\<rparr> :: 'p fh"
  have "nat (2 ^ m) = 2 ^ m" by (simp add: nat_power_eq)
  then have "fh_create wy dim dl hf True True True = Some (Some ?f)"
    by (simp add: fh_create_def m(2) sint_exp [OF m31] nl_def [symmetric] Let_def)
  moreover have "fh_ready ?f" "fh_map ?f = Map.empty"
    using m31 pos by (intro fh_new_table [of ?f m]; simp)+
  ultimately show ?thesis
    using nl xm by (intro exI [of _ ?f] conjI) auto
qed

lemma fh_create_fails:
  assumes "fh_create wy dim dl hf True True True = Some r" and "\<not> (t \<and> h \<and> l)"
  shows "fh_create wy dim dl hf t h l = Some (None :: 'p fh option)"
  using assms by (auto simp: fh_create_def bind_Some_iff Let_def split: if_splits)

section \<open>Calls on a table of which a lock is held\<close>

lemma fh_lock_other:
  assumes ok: "fh_table_ok f" and un: "fh_unlocked f" and l: "l < length (h_held f)"
    and i: "0 \<le> i" "fh_lock_index f i \<noteq> Some l"
  obtains l' where "fh_lock (f\<lparr>h_held := (h_held f)[l := True]\<rparr>) i =
      Some (f\<lparr>h_held := (h_held f)[l := True, l' := True]\<rparr>)"
    and "fh_unlock (f\<lparr>h_held := (h_held f)[l := True, l' := True]\<rparr>) i =
      Some (f\<lparr>h_held := (h_held f)[l := True]\<rparr>)"
proof -
  from fh_lock_index_ok [OF ok i(1)] obtain l' where
    l': "fh_lock_index f i = Some l'" "l' < length (h_held f)" by blast
  with i(2) have ne: "l' \<noteq> l" by auto
  from un l'(2) have h: "\<not> h_held f ! l'"
    using nth_mem [of l' "h_held f"] by (cases "h_held f ! l'") (simp_all add: fh_unlocked_def)
  have idx: "fh_lock_index (f\<lparr>h_held := hs\<rparr>) i = Some l'" for hs
    using l'(1) by (simp add: fh_lock_index_def split: if_splits)
  have "(h_held f)[l := True, l' := False] = (h_held f)[l := True]"
    using ne h l'(2) by (intro list_update_same_conv [THEN iffD2]) auto
  then show ?thesis
    using ne h l'(2) by (intro that [of l']) (simp_all add: fh_lock_def fh_unlock_def idx)
qed

lemma fh_lock_stops:
  assumes "fh_lock f (fh_key_index f k) = None" and "\<not> fh_bad (Some f)"
  shows "fh_insert (Some f) (Some k) b al = None" and "fh_del (Some f) (Some k) = None"
    and "fh_get (Some f) (Some k) = None" and "fh_searchlock (Some f) (Some k) = None"
  using assms
  by (simp_all add: fh_insert_def fh_del_def fh_get_def fh_searchlock_def fh_key_index_def Let_def)

section \<open>Properties\<close>


text \<open>C35: a table created for up to 2/3 of 2^30 elements is empty and valid; its dimension is the
  least power of two that is not below one and a half times the request, and it has one lock,
  or, above 64 elements, as many as the request has bits.\<close>

theorem fh_create_correct:
  fixes wy :: "cstr \<Rightarrow> u64"
  assumes "0 \<le> dim" and "dim + dim div 2 \<le> 2 ^ 30"
  shows "\<exists>f :: 'p fh. fh_create wy dim dl hf True True True = Some (Some f) \<and> fh_ready f \<and>
    fh_map f = Map.empty \<and> h_datalen f = dl \<and>
    (\<exists>m. h_dim f = 2 ^ m \<and> dim + dim div 2 \<le> 2 ^ m \<and> (m = 0 \<or> 2 ^ (m - 1) < dim + dim div 2)) \<and>
    (if dim \<le> 64 then n_lock f = 1 else \<exists>k. n_lock f = int (Suc k) \<and> 2 ^ k \<le> dim \<and> dim < 2 ^ Suc k)"
  using assms by (rule fh_create_ready)

text \<open>Above that, a table of 2^31 chains is asked for, a number that is negative as an \<open>int\<close>,
  so that creation fails even with memory to spare; and for more than 2/3 of 2^31 elements
  \<open>fh_create\<close> never returns, as no power of two of 32 bits is large enough.\<close>

theorem fh_create_large:
  assumes "2 ^ 30 < dim + dim div 2" and "dim \<le> 2147483647"
  shows "fh_create wy dim dl hf True True True =
    (if dim + dim div 2 \<le> 2 ^ 31 then Some (None :: 'p fh option) else None)"
proof -
  let ?x = "unat (word_of_int dim + word_of_int dim div 2 :: u32)"
  have "0 \<le> dim" "dim + dim div 2 < 2 ^ 32" using assms by simp_all
  then have x: "int ?x = dim + dim div 2" by (rule unat_three_halves)
  have iff: "dim + dim div 2 \<le> 2 ^ 31 \<longleftrightarrow> ?x \<le> 2 ^ 31"
  proof -
    have "dim + dim div 2 \<le> int (2 ^ 31) \<longleftrightarrow> ?x \<le> 2 ^ 31"
      unfolding x [symmetric] of_nat_le_iff ..
    then show ?thesis by simp
  qed
  show ?thesis
  proof (cases "?x \<le> 2 ^ 31")
    case True
    with fh_hash_size_spec [of "word_of_int dim"] obtain m where
      m: "m < 32" "fh_hash_size (word_of_int dim) = Some (2 ^ m)" "?x \<le> 2 ^ m" by auto
    have "m = 31"
    proof (rule ccontr)
      assume "m \<noteq> 31"
      with m(1) have "(2::nat) ^ m \<le> 2 ^ 30" by (intro power_increasing) simp_all
      with m(3) have "?x \<le> 2 ^ 30" by linarith
      then have "int ?x \<le> int (2 ^ 30)" by (simp only: of_nat_le_iff)
      with assms(1) show False by (simp only: x) simp
    qed
    moreover have "sint (2 ^ 31 :: u32) < 0" by simp
    ultimately show ?thesis
      using True m(2) iff by (simp add: fh_create_def Let_def)
  next
    case False
    with fh_hash_size_spec [of "word_of_int dim"] have "fh_hash_size (word_of_int dim) = None" by simp
    with False iff show ?thesis by (simp add: fh_create_def)
  qed
qed

text \<open>\<open>fh_insertlock\<close> followed by \<open>fh_releaselock\<close> is \<open>fh_insert\<close>, and until the release the
  caller has the object and holds the lock of the slot; a key that is present is refused with
  no lock held.\<close>

theorem fh_insertlock_release:
  fixes f :: "'p fh"
  assumes r: "fh_ready f" and al: "a_bucket al" "a_chain al" "a_key al"
    and v: "blk_obj (h_datalen f) blk (a_obj al) = Some (Some v)"
  shows "if k \<in> dom (fh_map f)
    then \<exists>f1. fh_insertlock (Some f) (Some k) blk True wa al =
        Some (FH_DUPLICATED_ELEMENT, None, None, None, Some f1) \<and> fh_ready f1 \<and> fh_map f1 = fh_map f
    else \<exists>pos f1 f2. fh_insertlock (Some f) (Some k) blk True wa al =
        Some (FH_OK, v, Some (fh_key_index f k), pos, Some f1) \<and>
      fh_lock f1 (fh_key_index f k) = None \<and>
      fh_releaselock (Some f1) (fh_key_index f k) = Some (FH_OK, Some f2) \<and>
      fh_insert (Some f) (Some k) blk al = Some (fh_key_index f k, Some f2)"
proof -
  let ?idx = "fh_key_index f k"
  from r have ok: "fh_table_ok f" and un: "fh_unlocked f"
    by (simp_all add: fh_ready_def fh_inv_def)
  obtain l where
    l: "fh_lock_index f ?idx = Some l" "l < length (h_held f)" "\<not> h_held f ! l"
      "fh_lock f ?idx = Some (f\<lparr>h_held := (h_held f)[l := True]\<rparr>)"
      "\<And>g :: 'p fh. n_lock g = n_lock f \<Longrightarrow> h_held g = (h_held f)[l := True] \<Longrightarrow>
        fh_unlock g ?idx = Some (g\<lparr>h_held := h_held f\<rparr>)"
    by (rule fh_lock_unlocked [OF ok un fh_index_range(1) [OF ok, of k]]) (rule that)
  let ?f1 = "f\<lparr>h_held := (h_held f)[l := True]\<rparr>"
  have ok1: "fh_table_ok ?f1" using ok by (rule held_table_ok) simp
  have idx: "fh_index f (hash_function f k) = ?idx" by (simp add: fh_key_index_def)
  note bad = fh_ready_bad [OF r]
  show ?thesis
  proof (cases "k \<in> dom (fh_map f)")
    case True
    with fh_insert_locked_duplicate [OF ok1, of k blk al]
    have ins: "fh_insert_locked ?f1 k blk al ?idx (make_minihash (hash_function f k)) =
        Some (Inl FH_DUPLICATED_ELEMENT, fh_inc_collision ?f1)" by simp
    from fh_insert_spec [OF r al v, of k] True obtain g where
      g: "fh_insert (Some f) (Some k) blk al = Some (FH_DUPLICATED_ELEMENT, Some g)" "fh_ready g"
        "fh_map g = fh_map f" by auto
    from g(1) l(4,5) ins bad have "g = (fh_inc_collision ?f1)\<lparr>h_held := h_held f\<rparr>"
      by (simp add: fh_insert_def idx Let_def fh_inc_collision_def)
    with l(4,5) ins bad have "fh_insertlock (Some f) (Some k) blk True wa al =
        Some (FH_DUPLICATED_ELEMENT, None, None, None, Some g)"
      by (simp add: fh_insertlock_def idx Let_def fh_inc_collision_def)
    with True g show ?thesis by auto
  next
    case False
    from fh_insert_locked_new [OF ok1 _ al, of k blk v] False v obtain pos f2 where
      f2: "fh_insert_locked ?f1 k blk al ?idx (make_minihash (hash_function f k)) = Some (Inr pos, f2)"
        "fh_table_ok f2" "fh_conf f2 = fh_conf f" "h_held f2 = (h_held f)[l := True]"
        "e_obj (hash_table f2 ! nat ?idx ! fst pos ! snd pos) = v"
      by auto
    let ?g = "fh_inc_elem f2"
    have conf: "n_lock ?g = n_lock f" "h_held ?g = (h_held f)[l := True]" "n_lock f2 = n_lock f"
      using f2(3,4) by (simp_all add: fh_conf_def fh_inc_elem_def)
    have ch: "fh_chain f2 ?idx = Some (hash_table f2 ! nat ?idx)"
      using fh_index_range(1,2) [OF ok, of k] f2(3) by (simp add: fh_chain_def fh_conf_def)
    obtain p where "fh_insertlock (Some f) (Some k) blk True wa al = Some (FH_OK, v, Some ?idx, p, Some ?g)"
      using l(4) f2(1,5) ch bad by (simp add: fh_insertlock_def idx Let_def)
    moreover have "fh_lock ?g ?idx = None"
      using l(1,2) conf by (simp add: fh_lock_def fh_lock_index_def split: if_splits)
    moreover have "\<not> fh_bad (Some ?g)"
      using f2(2) by (simp add: fh_bad_def fh_table_ok_def fh_inc_elem_def)
    then have "fh_releaselock (Some ?g) ?idx = Some (FH_OK, Some (?g\<lparr>h_held := h_held f\<rparr>))"
      using l(5) [OF conf(1,2)] by (simp add: fh_releaselock_def)
    moreover have "fh_insert (Some f) (Some k) blk al = Some (?idx, Some (?g\<lparr>h_held := h_held f\<rparr>))"
      using l(4,5) f2(1,4) conf(3) bad
      by (simp add: fh_insert_def idx Let_def fh_inc_elem_def)
    ultimately show ?thesis using False by auto
  qed
qed

text \<open>After \<open>fh_searchlock\<close> has found a key, and until its lock is released, no other call
  returns for any key of the same lock, while a search under another lock answers as before;
  the release restores the table.\<close>

theorem fh_searchlock_excludes:
  assumes r: "fh_ready f" and k: "fh_map f k = Some v"
  shows "\<exists>f1. fh_searchlock (Some f) (Some k) = Some (FH_OK, v, Some (fh_key_index f k), Some f1) \<and>
    fh_releaselock (Some f1) (fh_key_index f k) = Some (FH_OK, Some f) \<and>
    (\<forall>k2. if fh_lock_index f (fh_key_index f k2) = fh_lock_index f (fh_key_index f k)
      then fh_get (Some f1) (Some k2) = None \<and> fh_del (Some f1) (Some k2) = None \<and>
        fh_searchlock (Some f1) (Some k2) = None \<and> (\<forall>b al. fh_insert (Some f1) (Some k2) b al = None)
      else fh_get (Some f1) (Some k2) = Some (case fh_map f k2 of
          None \<Rightarrow> (FH_ELEMENT_NOT_FOUND, None, Some f1) | Some w \<Rightarrow> (FH_OK, w, Some f1)))"
proof -
  from r have ok: "fh_table_ok f" and un: "fh_unlocked f"
    by (simp_all add: fh_ready_def fh_inv_def)
  obtain l where
    l: "fh_lock_index f (fh_key_index f k) = Some l" "l < length (h_held f)"
      "fh_searchlock (Some f) (Some k) =
        Some (FH_OK, v, Some (fh_key_index f k), Some (f\<lparr>h_held := (h_held f)[l := True]\<rparr>))"
      "fh_releaselock (Some (f\<lparr>h_held := (h_held f)[l := True]\<rparr>)) (fh_key_index f k) = Some (FH_OK, Some f)"
    by (rule fh_searchlock_spec [OF r k]) (rule that)
  let ?f1 = "f\<lparr>h_held := (h_held f)[l := True]\<rparr>"
  have bad: "\<not> fh_bad (Some ?f1)"
    using ok by (simp add: fh_bad_def fh_table_ok_def)
  have same: "fh_get (Some ?f1) (Some k2) = None \<and> fh_del (Some ?f1) (Some k2) = None \<and>
      fh_searchlock (Some ?f1) (Some k2) = None \<and> (\<forall>b al. fh_insert (Some ?f1) (Some k2) b al = None)"
    if "fh_lock_index f (fh_key_index f k2) = Some l" for k2
  proof -
    from fh_lock_held [OF that l(2)] have "fh_lock ?f1 (fh_key_index ?f1 k2) = None" by simp
    from fh_lock_stops [OF this bad] show ?thesis by simp
  qed
  have other: "fh_get (Some ?f1) (Some k2) = Some (case fh_map f k2 of
      None \<Rightarrow> (FH_ELEMENT_NOT_FOUND, None, Some ?f1) | Some w \<Rightarrow> (FH_OK, w, Some ?f1))"
    if ne: "fh_lock_index f (fh_key_index f k2) \<noteq> Some l" for k2
  proof -
    obtain l' where
      l': "fh_lock ?f1 (fh_key_index f k2) = Some (f\<lparr>h_held := (h_held f)[l := True, l' := True]\<rparr>)"
        "fh_unlock (f\<lparr>h_held := (h_held f)[l := True, l' := True]\<rparr>) (fh_key_index f k2) = Some ?f1"
      by (rule fh_lock_other [OF ok un l(2) fh_index_range(1) [OF ok, of k2] ne]) (rule that)
    let ?f2 = "f\<lparr>h_held := (h_held f)[l := True, l' := True]\<rparr>"
    have "fh_table_ok ?f2" using ok by (rule held_table_ok) simp
    from fh_lookup_entry_spec [OF this, of k2] obtain e where
      e: "fh_lookup_entry ?f2 k2 = Some e" "fh_map f k2 = map_option e_obj e" by auto
    have "fh_index f (hash_function f k2) = fh_key_index f k2" "fh_index ?f1 h = fh_index f h" for h
      by (simp_all add: fh_key_index_def fh_index_def)
    with e(1) l' bad show ?thesis
      by (cases e) (simp_all add: fh_get_def Let_def e(2))
  qed
  show ?thesis
    using l same other by (intro exI [of _ ?f1]) auto
qed

text \<open>Where the search of a chain meets a null key, every call for the key stops.\<close>

lemma fh_null_chain_stops:
  fixes f :: "'p fh"
  assumes bad: "\<not> fh_bad (Some f)" and lock: "fh_lock f (fh_key_index f k) = Some (f\<lparr>h_held := hs\<rparr>)"
    and chain: "fh_chain f (fh_key_index f k) = Some ch" "ch \<noteq> []"
    and null: "fh_find_slot ch k (make_minihash (hash_function f k)) = None"
  shows "fh_get (Some f) (Some k) = None" and "fh_del (Some f) (Some k) = None"
    and "fh_insert (Some f) (Some k) b al = None"
proof -
  let ?f1 = "f\<lparr>h_held := hs\<rparr>"
  have idx: "fh_index f (hash_function f k) = fh_key_index f k" "fh_index ?f1 (hash_function f k) = fh_key_index f k"
    by (simp_all add: fh_key_index_def fh_index_def)
  have c1: "fh_chain ?f1 (fh_key_index f k) = Some ch"
    using chain(1) by (simp add: fh_chain_def split: if_splits)
  show "fh_get (Some f) (Some k) = None"
    using lock c1 null bad idx by (simp add: fh_get_def fh_lookup_entry_def Let_def)
  show "fh_del (Some f) (Some k) = None"
    using lock c1 null bad idx by (simp add: fh_del_def fh_del_slot_def Let_def)
  show "fh_insert (Some f) (Some k) b al = None"
    using lock c1 null chain(2) bad idx by (simp add: fh_insert_def fh_insert_locked_def Let_def)
qed

text \<open>C37: when the copy of a new key cannot be allocated, \<open>fh_insert\<close> reports it but leaves the
  minihash of the key in the table over a null key: from then on searching, deleting or
  inserting that key compares a null string.\<close>

theorem fh_insert_strdup_failure:
  fixes f :: "'p fh"
  assumes r: "fh_ready f" and k: "k \<notin> dom (fh_map f)" and copy: "\<not> dont_copy_key f"
    and al: "a_bucket al" "a_chain al" "\<not> a_key al"
  shows "\<exists>f'. fh_insert (Some f) (Some k) blk al = Some (FH_NO_MEMORY, Some f') \<and>
    fh_get (Some f') (Some k) = None \<and> fh_del (Some f') (Some k) = None \<and>
    (\<forall>b al2. fh_insert (Some f') (Some k) b al2 = None)"
proof -
  let ?idx = "fh_key_index f k" and ?mh = "make_minihash (hash_function f k)"
  from r have ok: "fh_table_ok f" and un: "fh_unlocked f"
    by (simp_all add: fh_ready_def fh_inv_def)
  obtain l where
    l: "fh_lock_index f ?idx = Some l" "l < length (h_held f)" "\<not> h_held f ! l"
      "fh_lock f ?idx = Some (f\<lparr>h_held := (h_held f)[l := True]\<rparr>)"
      "\<And>g :: 'p fh. n_lock g = n_lock f \<Longrightarrow> h_held g = (h_held f)[l := True] \<Longrightarrow>
        fh_unlock g ?idx = Some (g\<lparr>h_held := h_held f\<rparr>)"
    by (rule fh_lock_unlocked [OF ok un fh_index_range(1) [OF ok, of k]]) (rule that)
  let ?f1 = "f\<lparr>h_held := (h_held f)[l := True]\<rparr>"
  have ok1: "fh_table_ok ?f1" using ok by (rule held_table_ok) simp
  have "dont_copy_key ?f1 = dont_copy_key f" by (simp add: dont_copy_key_def)
  with fh_insert_locked_no_strdup [OF ok1, of k al blk] k copy al obtain f2 ch where
    f2: "fh_insert_locked ?f1 k blk al ?idx ?mh = Some (Inl FH_NO_MEMORY, upd_chain f2 ?idx ch)"
      "fh_conf f2 = fh_conf f" "h_held f2 = (h_held f)[l := True]"
      "length (hash_table f2) = length (hash_table f)" "ch \<noteq> []" "fh_find_slot ch k ?mh = None"
    by auto
  define f' where "f' = (upd_chain f2 ?idx ch)\<lparr>h_held := h_held f\<rparr>"
  have c: "n_lock (upd_chain f2 ?idx ch) = n_lock f" "h_held (upd_chain f2 ?idx ch) = (h_held f)[l := True]"
    "fh_conf f' = fh_conf f" "h_held f' = h_held f"
    using f2(2,3) by (simp_all add: f'_def upd_chain_def fh_conf_def)
  have bad: "\<not> fh_bad (Some f)" "\<not> fh_bad (Some f')"
    using fh_ready_bad [OF r] c(3) by (simp_all add: fh_bad_def fh_conf_def)
  have idx: "fh_index f (hash_function f k) = ?idx" "fh_index f' (hash_function f' k) = ?idx"
    "hash_function f' k = hash_function f k"
    using c(3) by (simp_all add: fh_key_index_def fh_index_def fh_conf_def)
  have ins: "fh_insert (Some f) (Some k) blk al = Some (FH_NO_MEMORY, Some f')"
    using l(4) l(5) [OF c(1,2)] f2(1) bad(1) by (simp add: fh_insert_def idx(1) Let_def f'_def)
  have lock: "fh_lock f' ?idx = Some (f'\<lparr>h_held := (h_held f)[l := True]\<rparr>)"
    using l(1,3) c(3,4) by (simp add: fh_lock_def fh_lock_index_def fh_conf_def split: if_splits)
  have chain: "fh_chain f' ?idx = Some ch"
    using fh_index_range [OF ok, of k] f2(2,4)
    by (simp add: fh_chain_def f'_def upd_chain_def fh_conf_def)
  have key: "fh_key_index f' k = ?idx" using idx(2) by (simp add: fh_key_index_def)
  from ins fh_null_chain_stops [OF bad(2), of k, unfolded key idx(3), OF lock chain f2(5,6)]
  show ?thesis by blast
qed

text \<open>When the copy of an opaque object cannot be allocated, \<open>fh_insert\<close> reports it but the
  key stays in the table with a null object and is not counted.\<close>

theorem fh_insert_object_failure:
  fixes f :: "'p fh"
  assumes r: "fh_ready f" and k: "k \<notin> dom (fh_map f)" and al: "a_bucket al" "a_chain al" "a_key al"
    and v: "blk_obj (h_datalen f) blk (a_obj al) = Some None"
  shows "\<exists>f'. fh_insert (Some f) (Some k) blk al = Some (FH_NO_MEMORY, Some f') \<and>
    fh_map f' = (fh_map f)(k \<mapsto> None) \<and> fh_get (Some f') (Some k) = Some (FH_OK, None, Some f') \<and>
    fh_getattr (Some f') FH_ATTR_ELEMENT = (FH_OK, Some (int (card (dom (fh_map f'))) - 1))"
proof -
  let ?idx = "fh_key_index f k" and ?mh = "make_minihash (hash_function f k)"
  from r have ok: "fh_table_ok f" and un: "fh_unlocked f" and el: "h_elements f = int (fh_size f)"
    by (simp_all add: fh_ready_def fh_inv_def)
  obtain l where
    l: "fh_lock f ?idx = Some (f\<lparr>h_held := (h_held f)[l := True]\<rparr>)"
      "\<And>g :: 'p fh. n_lock g = n_lock f \<Longrightarrow> h_held g = (h_held f)[l := True] \<Longrightarrow>
        fh_unlock g ?idx = Some (g\<lparr>h_held := h_held f\<rparr>)"
    by (rule fh_lock_unlocked [OF ok un fh_index_range(1) [OF ok, of k]]) (rule that)
  let ?f1 = "f\<lparr>h_held := (h_held f)[l := True]\<rparr>"
  have ok1: "fh_table_ok ?f1" using ok by (rule held_table_ok) simp
  have none: "blk_obj (h_datalen ?f1) None (a_obj al) = Some (Some None)" by (simp add: blk_obj_def)
  from fh_insert_locked_new [OF ok1 _ al none, of k] k obtain pos f2 where
    f2: "fh_insert_locked ?f1 k None al ?idx ?mh = Some (Inr pos, f2)"
      "fh_table_ok f2" "fh_size f2 = fh_size f + 1" "fh_map f2 = (fh_map f)(k \<mapsto> None)"
      "fh_conf f2 = fh_conf f" "h_held f2 = (h_held f)[l := True]" "h_elements f2 = h_elements f"
    by auto
  have ins: "fh_insert_locked ?f1 k blk al ?idx ?mh = Some (Inl FH_NO_MEMORY, f2)"
    using v f2(1) by (intro fh_insert_locked_no_obj) simp_all
  let ?f' = "f2\<lparr>h_held := h_held f\<rparr>"
  have n: "n_lock f2 = n_lock f" using f2(5) by (simp add: fh_conf_def)
  have "fh_insert (Some f) (Some k) blk al = Some (FH_NO_MEMORY, Some ?f')"
    using l(1) l(2) [OF n f2(6)] ins fh_ready_bad [OF r]
    by (simp add: fh_insert_def fh_key_index_def [symmetric] Let_def)
  moreover have ok': "fh_table_ok ?f'" using f2(2) by (rule held_table_ok) (simp add: f2(6))
  moreover have "fh_unlocked ?f'" using un by (simp add: fh_unlocked_def)
  moreover have "fh_size ?f' = fh_size f + 1" "fh_map ?f' = (fh_map f)(k \<mapsto> None)"
    by (simp_all add: f2(3,4))
  moreover have "h_elements ?f' = int (fh_size f)" "h_magic ?f' = FH_MAGIC_ID"
    using f2(7) el ok' by (simp_all add: fh_table_ok_def)
  ultimately show ?thesis
    using fh_get_table [of ?f' k] fh_size_card [OF ok']
    by (intro exI [of _ ?f']) (simp add: fh_getattr_def)
qed

text \<open>Deletion under a lock the caller holds (\<open>fh_searchlock\<close>, \<open>fh_dellocked\<close>,
  \<open>fh_releaselock\<close>) leaves the table that \<open>fh_del\<close> leaves.\<close>

theorem fh_dellocked_correct:
  fixes f :: "'p fh"
  assumes r: "fh_ready f" and k: "fh_map f k = Some v"
  shows "\<exists>f1 f2 f3. fh_searchlock (Some f) (Some k) = Some (FH_OK, v, Some (fh_key_index f k), Some f1) \<and>
    fh_dellocked (Some f1) (Some k) (fh_key_index f k) = Some (fh_key_index f k, Some f2) \<and>
    fh_releaselock (Some f2) (fh_key_index f k) = Some (FH_OK, Some f3) \<and>
    fh_del (Some f) (Some k) = Some (fh_key_index f k, Some f3) \<and>
    fh_ready f3 \<and> fh_map f3 = (fh_map f)(k := None)"
proof -
  let ?idx = "fh_key_index f k" and ?mh = "make_minihash (hash_function f k)"
  from r have ok: "fh_table_ok f" and un: "fh_unlocked f"
    by (simp_all add: fh_ready_def fh_inv_def)
  obtain l where
    l: "fh_lock f ?idx = Some (f\<lparr>h_held := (h_held f)[l := True]\<rparr>)"
      "\<And>g :: 'p fh. n_lock g = n_lock f \<Longrightarrow> h_held g = (h_held f)[l := True] \<Longrightarrow>
        fh_unlock g ?idx = Some (g\<lparr>h_held := h_held f\<rparr>)"
    by (rule fh_lock_unlocked [OF ok un fh_index_range(1) [OF ok, of k]]) (rule that)
  let ?f1 = "f\<lparr>h_held := (h_held f)[l := True]\<rparr>"
  have ok1: "fh_table_ok ?f1" using ok by (rule held_table_ok) simp
  have idx: "fh_index f (hash_function f k) = ?idx" by (simp add: fh_key_index_def)
  note bad = fh_ready_bad [OF r]
  have bad1: "\<not> fh_bad (Some ?f1)" using bad by (simp add: fh_bad_def)
  have s: "fh_searchlock (Some f) (Some k) = Some (FH_OK, v, Some ?idx, Some ?f1)"
  proof -
    from fh_lookup_entry_spec [OF ok1, of k] k obtain e where
      "fh_lookup_entry ?f1 k = Some (Some e)" "e_obj e = v" by auto
    with l(1) bad show ?thesis by (simp add: fh_searchlock_def idx Let_def)
  qed
  from fh_del_slot_spec [OF ok1, of ?idx k ?mh] k obtain f2 where
    f2: "fh_del_slot ?f1 k ?idx ?mh = Some (?idx, f2)" "fh_conf f2 = fh_conf f"
      "h_held f2 = (h_held f)[l := True]" by (auto simp: dom_def)
  let ?g = "fh_dec_elem f2"
  have conf: "n_lock ?g = n_lock f" "h_held ?g = (h_held f)[l := True]" "n_lock f2 = n_lock f"
    "h_magic ?g = h_magic f"
    using f2(2,3) by (simp_all add: fh_conf_def fh_dec_elem_def)
  note pos = fh_index_range(1) [OF ok, of k]
  have d: "fh_dellocked (Some ?f1) (Some k) ?idx = Some (?idx, Some ?g)"
    using bad1 f2(1) pos by (simp add: fh_dellocked_def)
  have "\<not> fh_bad (Some ?g)" using bad conf(4) by (simp add: fh_bad_def)
  then have u: "fh_releaselock (Some ?g) ?idx = Some (FH_OK, Some (?g\<lparr>h_held := h_held f\<rparr>))"
    using l(2) [OF conf(1,2)] by (simp add: fh_releaselock_def)
  have del: "fh_del (Some f) (Some k) = Some (?idx, Some (?g\<lparr>h_held := h_held f\<rparr>))"
    using l(1) l(2) [OF conf(3) f2(3)] f2(1) bad pos
    by (simp add: fh_del_def idx Let_def fh_dec_elem_def)
  with fh_del_spec [OF r, of k] k have "fh_ready (?g\<lparr>h_held := h_held f\<rparr>)"
    "fh_map (?g\<lparr>h_held := h_held f\<rparr>) = (fh_map f)(k := None)" by auto
  with s d u del show ?thesis by blast
qed

text \<open>Inserting any list of new keys into a table of pointers and deleting them again, in the
  same order, restores what every key is mapped to.\<close>

theorem fh_insert_delete_restores:
  assumes "fh_ptr_table f" and "fst ` set kvs \<inter> dom (fh_ptr_get f) = {}"
  shows "\<exists>f1 f2. put_all fh_ptr_put f kvs = Some f1 \<and> remove_all fh_ptr_rem f1 (map fst kvs) = Some f2 \<and>
    fh_ptr_table f2 \<and> fh_ptr_get f2 = fh_ptr_get f"
  using assms by (rule fh_dict.put_all_remove_all)

section \<open>Witnesses\<close>

text \<open>A table with two chains and two locks, every key hashed to its length, empty and with the key
  \<open>k1\<close> of one byte, at index 1.\<close>

definition k1 :: cstr where "k1 = CStr [97]"
definition k2 :: cstr where "k2 = CStr [97, 98]"

definition ex_fh :: "int \<Rightarrow> nat fh" where
  "ex_fh dl = \<lparr>h_magic = FH_MAGIC_ID, h_dim = 2, h_datalen = dl, h_elements = 0, h_collision = 0,
     h_attr = 0, hash_function = (\<lambda>k. of_nat (strlen k)), rw_mode = False, h_held = [False, False],
     n_lock = 2, hash_table = [[], []]\<rparr>"

definition ex_fh1 :: "nat fh" where
  "ex_fh1 = (ex_fh 0)\<lparr>h_elements := 1, hash_table :=
     [[], [\<lparr>mini = 5, e_key = Some k1, e_obj = Some (OPtr 7)\<rparr> # replicate 7 empty_entry]]\<rparr>"

lemma ex_fh_ready: "fh_ready (ex_fh dl)" "fh_map (ex_fh dl) = Map.empty"
proof -
  have e: "h_held (ex_fh dl) = replicate (nat (n_lock (ex_fh dl))) False"
    "hash_table (ex_fh dl) = replicate (2 ^ 1) []"
    by (simp_all add: ex_fh_def numeral_2_eq_2)
  show "fh_ready (ex_fh dl)" "fh_map (ex_fh dl) = Map.empty"
    using e by (intro fh_new_table [of "ex_fh dl" 1]; simp add: ex_fh_def)+
qed

lemma bucket_pairs_empty [simp]: "bucket_pairs (replicate n empty_entry) = []"
  by (induction n) (simp_all add: empty_entry_def)

lemma ex_fh1_index:
  "fh_key_index ex_fh1 k1 = 1" "fh_key_index ex_fh1 k2 = 0"
  "make_minihash (hash_function ex_fh1 k1) = 5"
  by (simp_all add: fh_key_index_def fh_index_def ex_fh1_def ex_fh_def k1_def k2_def strlen_def
      make_minihash_def MIN_MINIHASH_def Let_def)

lemma ex_fh1_pairs: "hash_table ex_fh1 = [[], ch] \<Longrightarrow> pairs ch = [(k1, Some (OPtr 7))]"
  by (auto simp: ex_fh1_def)

lemma ex_fh1_map: "fh_map ex_fh1 k1 = Some (Some (OPtr 7))" "fh_map ex_fh1 k2 = None"
  by (simp_all add: fh_map_def ex_fh1_index)
    (simp_all add: ex_fh1_def)

lemma ex_fh1_ready: "fh_ready ex_fh1"
proof -
  let ?ch = "[\<lparr>mini = 5, e_key = Some k1, e_obj = Some (OPtr 7)\<rparr> # replicate 7 empty_entry] :: nat fh_bucket list"
  have t: "hash_table ex_fh1 = [[], ?ch]" by (simp add: ex_fh1_def)
  note p = ex_fh1_pairs [OF t]
  have e: "entry_ok (hash_function ex_fh1) \<lparr>mini = 5, e_key = Some k1, e_obj = Some (OPtr 7)\<rparr>"
    using ex_fh1_index(3) by (simp add: entry_ok_def)
  have c: "chain_ok (hash_function ex_fh1) ?ch"
    using e p unfolding chain_ok_def
    by (auto simp: bucket_ok_def BUCKET_SIZE_def list_all_iff)
  have f: "h_magic ex_fh1 = FH_MAGIC_ID" "h_dim ex_fh1 = 2 ^ 1" "n_lock ex_fh1 = 2"
    "h_held ex_fh1 = [False, False]" "h_elements ex_fh1 = 1"
    by (simp_all add: ex_fh1_def ex_fh_def)
  have "\<forall>i < length (hash_table ex_fh1). chain_ok (hash_function ex_fh1) (hash_table ex_fh1 ! i) \<and>
      (\<forall>k \<in> fst ` set (pairs (hash_table ex_fh1 ! i)). fh_key_index ex_fh1 k = int i)"
    unfolding t using c p by (auto simp: less_Suc_eq ex_fh1_index chain_ok_def)
  with f have "fh_table_ok ex_fh1"
    unfolding fh_table_ok_def by (auto simp: t intro!: exI [of _ 1])
  moreover have "fh_size ex_fh1 = 1" using p by (simp add: fh_size_def t)
  ultimately show ?thesis using f by (simp add: fh_ready_def fh_inv_def fh_unlocked_def)
qed

lemma ex_fh1_fields: "h_datalen ex_fh1 = 0" "\<not> dont_copy_key (ex_fh dl)" "h_datalen (ex_fh dl) = dl"
  by (simp_all add: ex_fh1_def ex_fh_def dont_copy_key_def)

lemma ex_fh1_only: "k \<noteq> k1 \<Longrightarrow> fh_map ex_fh1 k = None"
proof (rule ccontr)
  assume ne: "k \<noteq> k1" and "fh_map ex_fh1 k \<noteq> None"
  then have "k \<in> fst ` set (pairs (hash_table ex_fh1 ! nat (fh_key_index ex_fh1 k)))"
    using fh_map_dom [of k ex_fh1] by auto
  moreover have "nat (fh_key_index ex_fh1 k) < 2"
    using fh_index_range(3) [of ex_fh1 k] ex_fh1_ready
    by (simp add: fh_ready_def fh_inv_def) (simp add: ex_fh1_def)
  then have "nat (fh_key_index ex_fh1 k) = 0 \<or> nat (fh_key_index ex_fh1 k) = 1" by linarith
  ultimately show False
    using ne ex_fh1_pairs by (auto simp: ex_fh1_def)
qed

lemma ex_fh1_ptr: "fh_ptr_table ex_fh1" "fh_ptr_get ex_fh1 k2 = None"
proof -
  have "\<exists>p. v = Some (OPtr p)" if "fh_map ex_fh1 k = Some v" for k v
    using that ex_fh1_only [of k] ex_fh1_map(1) by (cases "k = k1") auto
  then show "fh_ptr_table ex_fh1"
    by (simp add: fh_ptr_table_def ex_fh1_ready ex_fh1_fields FH_DATALEN_VOIDP_def)
  show "fh_ptr_get ex_fh1 k2 = None"
    using fh_get_spec [OF ex_fh1_ready, of k2] by (simp add: fh_ptr_get_def ex_fh1_map)
qed

lemma ex_absent: "k \<notin> dom (fh_map (ex_fh dl))"
  by (simp add: ex_fh_ready)


theorem fh_create_correct_witness:
  "\<exists>f :: nat fh. fh_create (\<lambda>k. 0) 100 0 None True True True = Some (Some f) \<and> fh_ready f \<and>
    fh_map f = Map.empty"
  using fh_create_correct [of 100 "\<lambda>k. 0" 0 None] by auto

theorem fh_create_large_witness:
  "fh_create (\<lambda>k. 0) 1000000000 0 None True True True = Some (None :: nat fh option)"
  using fh_create_large [of 1000000000 "\<lambda>k. 0" 0 None] by simp

theorem fh_insertlock_release_witness:
  "\<exists>pos f1 f2. fh_insertlock (Some (ex_fh 0)) (Some k1) (Some (4, [])) True True all_ok =
      Some (FH_OK, Some (OPtr 4), Some 1, pos, Some f1) \<and>
    fh_releaselock (Some f1) 1 = Some (FH_OK, Some f2) \<and>
    fh_insert (Some (ex_fh 0)) (Some k1) (Some (4, [])) all_ok = Some (1, Some f2)"
proof -
  have "blk_obj (h_datalen (ex_fh 0)) (Some (4, [])) (a_obj all_ok) = Some (Some (Some (OPtr 4)))"
    by (simp add: ex_fh1_fields blk_obj_def fh_new_obj_def FH_DATALEN_VOIDP_def)
  moreover have "fh_key_index (ex_fh 0) k1 = 1"
    by (simp add: fh_key_index_def fh_index_def ex_fh_def k1_def strlen_def)
  ultimately show ?thesis
    using fh_insertlock_release [OF ex_fh_ready(1) _ _ _, of all_ok 0 "Some (4, [])" "Some (OPtr 4)" k1 True]
    by (auto simp: all_ok_def ex_fh_ready(2) ex_absent)
qed

theorem fh_searchlock_excludes_witness:
  "\<exists>f1. fh_searchlock (Some ex_fh1) (Some k1) = Some (FH_OK, Some (OPtr 7), Some 1, Some f1) \<and>
    fh_get (Some f1) (Some k1) = None \<and>
    fh_get (Some f1) (Some k2) = Some (FH_ELEMENT_NOT_FOUND, None, Some f1)"
proof -
  have "fh_lock_index ex_fh1 0 \<noteq> fh_lock_index ex_fh1 1"
    by (simp add: fh_lock_index_def ex_fh1_def ex_fh_def)
  moreover from fh_searchlock_excludes [OF ex_fh1_ready ex_fh1_map(1)] obtain f1 where
    f1: "fh_searchlock (Some ex_fh1) (Some k1) = Some (FH_OK, Some (OPtr 7), Some (fh_key_index ex_fh1 k1), Some f1)"
      "\<forall>k. if fh_lock_index ex_fh1 (fh_key_index ex_fh1 k) = fh_lock_index ex_fh1 (fh_key_index ex_fh1 k1)
        then fh_get (Some f1) (Some k) = None \<and> fh_del (Some f1) (Some k) = None \<and>
          fh_searchlock (Some f1) (Some k) = None \<and> (\<forall>b al. fh_insert (Some f1) (Some k) b al = None)
        else fh_get (Some f1) (Some k) = Some (case fh_map ex_fh1 k of
            None \<Rightarrow> (FH_ELEMENT_NOT_FOUND, None, Some f1) | Some w \<Rightarrow> (FH_OK, w, Some f1))"
    by blast
  ultimately show ?thesis
    using f1(2) [THEN spec, of k1] f1(2) [THEN spec, of k2] by (simp add: ex_fh1_index ex_fh1_map)
qed

theorem fh_insert_strdup_failure_witness:
  "\<exists>f'. fh_insert (Some (ex_fh 0)) (Some k1) None (all_ok\<lparr>a_key := False\<rparr>) = Some (FH_NO_MEMORY, Some f') \<and>
    fh_get (Some f') (Some k1) = None"
  using fh_insert_strdup_failure [OF ex_fh_ready(1) ex_absent ex_fh1_fields(2),
      of "all_ok\<lparr>a_key := False\<rparr>" 0 k1 None]
  by (auto simp: all_ok_def)

theorem fh_insert_object_failure_witness:
  "\<exists>f'. fh_insert (Some (ex_fh 4)) (Some k1) (Some (1, [1, 2, 3, 4])) (all_ok\<lparr>a_obj := False\<rparr>) =
      Some (FH_NO_MEMORY, Some f') \<and>
    fh_getattr (Some f') FH_ATTR_ELEMENT = (FH_OK, Some 0)"
proof -
  have "blk_obj (h_datalen (ex_fh 4)) (Some (1, [1, 2, 3, 4])) (a_obj (all_ok\<lparr>a_obj := False\<rparr>)) = Some None"
    by (simp add: ex_fh1_fields blk_obj_def fh_new_obj_def)
  from fh_insert_object_failure [OF ex_fh_ready(1) ex_absent _ _ _ this, of k1] show ?thesis
    by (auto simp: all_ok_def ex_fh_ready(2))
qed

theorem fh_dellocked_correct_witness:
  "\<exists>f1 f2 f3. fh_searchlock (Some ex_fh1) (Some k1) = Some (FH_OK, Some (OPtr 7), Some 1, Some f1) \<and>
    fh_dellocked (Some f1) (Some k1) 1 = Some (1, Some f2) \<and>
    fh_releaselock (Some f2) 1 = Some (FH_OK, Some f3) \<and> fh_map f3 k1 = None"
  using fh_dellocked_correct [OF ex_fh1_ready ex_fh1_map(1)] by (auto simp: ex_fh1_index)

theorem fh_insert_delete_restores_witness:
  "\<exists>f1 f2. put_all fh_ptr_put ex_fh1 [(k2, 5)] = Some f1 \<and> remove_all fh_ptr_rem f1 [k2] = Some f2 \<and>
    fh_ptr_get f2 = fh_ptr_get ex_fh1"
  using fh_insert_delete_restores [OF ex_fh1_ptr(1), of "[(k2, 5)]"] ex_fh1_ptr(2)
  by (auto simp del: put_all.simps remove_all.simps)

end
