(* ===== verification/FhEnum.thy ===== *)
theory FhEnum
  imports Fh
begin

text \<open>
  The enumerator of libfh/fh.c, a sorted snapshot of the table, and the two operations built
  on it, \<open>fh_clean\<close> and \<open>fh_destroy\<close>.

  \<open>elem_list\<close> is the array of \<open>h_elements\<close> cells that \<open>calloc\<close> cleared; its first \<open>e_size\<close>
  cells are filled.
\<close>

record 'p fh_elem =
  el_key :: "cstr option"
  el_obj :: "'p obj option"

record 'p fh_enum =
  e_magic :: int
  e_idx :: int
  elem_list :: "'p fh_elem list"
  e_size :: int
  e_valid :: int

definition null_elem :: "'p fh_elem" where
  "null_elem = \<lparr>el_key = None, el_obj = None\<rparr>"

text \<open>The collecting loops of \<open>fh_enum_create\<close>: the entries of one chain, and the indices from
  \<open>i\<close> on, each under its lock, until \<open>n\<close> elements have been collected. The argument \<open>fuel\<close>
  is the number of indices left, \<open>h_dim - i\<close>.\<close>

definition chain_elems :: "'p fh_bucket list \<Rightarrow> 'p fh_elem list" where
  "chain_elems ch =
     map (\<lambda>e. \<lparr>el_key = e_key e, el_obj = e_obj e\<rparr>) (filter (\<lambda>e. mini e \<noteq> 0) (concat ch))"

fun fh_collect ::
  "'p fh \<Rightarrow> nat \<Rightarrow> int \<Rightarrow> nat \<Rightarrow> 'p fh_elem list \<Rightarrow> ('p fh_elem list \<times> 'p fh) option" where
  "fh_collect f 0 i n acc = Some (acc, f)"
| "fh_collect f (Suc fuel) i n acc =
     (if length acc < n then
        do { f1 \<leftarrow> fh_lock f i;
             ch \<leftarrow> fh_chain f1 i;
             f2 \<leftarrow> fh_unlock f1 i;
             fh_collect f2 fuel (i + 1) n (take n (acc @ chain_elems ch)) }
      else Some (acc, f))"

text \<open>\<open>qsort\<close> with the comparison functions \<open>fh_ascfunc\<close> and \<open>fh_descfunc\<close>, which read every
  key. The keys of a table are distinct, so that the result is determined.\<close>

definition fh_ascfunc :: "'p fh_elem \<Rightarrow> 'p fh_elem \<Rightarrow> int" where
  "fh_ascfunc a b = strcmp (the (el_key a)) (the (el_key b))"

definition fh_descfunc :: "'p fh_elem \<Rightarrow> 'p fh_elem \<Rightarrow> int" where
  "fh_descfunc a b = strcmp (the (el_key b)) (the (el_key a))"

primrec insert_by :: "('a \<Rightarrow> 'a \<Rightarrow> int) \<Rightarrow> 'a \<Rightarrow> 'a list \<Rightarrow> 'a list" where
  "insert_by cmp x [] = [x]"
| "insert_by cmp x (y # ys) = (if cmp x y \<le> 0 then x # y # ys else y # insert_by cmp x ys)"

definition qsort :: "('a \<Rightarrow> 'a \<Rightarrow> int) \<Rightarrow> 'a list \<Rightarrow> 'a list" where
  "qsort cmp xs = foldr (insert_by cmp) xs []"

definition fh_sort_elems :: "int \<Rightarrow> 'p fh_elem list \<Rightarrow> 'p fh_elem list option" where
  "fh_sort_elems order es =
     (if order = FH_ENUM_SORTED_ASC \<or> order = FH_ENUM_SORTED_DESC then
        (if list_all (\<lambda>e. el_key e \<noteq> None) es
         then Some (qsort (if order = FH_ENUM_SORTED_ASC then fh_ascfunc else fh_descfunc) es)
         else None)
      else Some es)"

text \<open>\<open>fh_enum_create\<close> returns the code stored in \<open>*error\<close>, which a success leaves alone
  (\<open>err\<close>), and the enumerator.\<close>

definition fh_enum_create ::
  "'p fh option \<Rightarrow> int \<Rightarrow> int \<Rightarrow> bool \<Rightarrow> bool \<Rightarrow> (int \<times> 'p fh_enum option \<times> 'p fh option) option" where
  "fh_enum_create fh order err enum_ok list_ok =
     (if fh_bad fh then Some (FH_BAD_HANDLE, None, fh)
      else
        do { f \<leftarrow> fh;
             if h_elements f < 1 then Some (FH_EMPTY_HASHTABLE, None, fh)
             else if \<not> enum_ok \<or> \<not> list_ok then Some (FH_NO_MEMORY, None, fh)
             else
               (let n = nat (h_elements f) in
                do { (es, f1) \<leftarrow> fh_collect f (nat (h_dim f)) 0 n [];
                     sorted_es \<leftarrow> fh_sort_elems order es;
                     Some (err,
                           Some \<lparr>e_magic = FHE_MAGIC_ID, e_idx = 0,
                                 elem_list = sorted_es @ replicate (n - length es) null_elem,
                                 e_size = int (length es), e_valid = 1\<rparr>,
                           Some f1) }) })"

definition fhe_bad :: "'p fh_enum option \<Rightarrow> bool" where
  "fhe_bad fhe = (case fhe of None \<Rightarrow> True | Some e \<Rightarrow> e_magic e \<noteq> FHE_MAGIC_ID)"

definition fh_enum_is_valid :: "'p fh_enum option \<Rightarrow> int" where
  "fh_enum_is_valid fhe = (if fhe_bad fhe then FH_BAD_HANDLE else e_valid (the fhe))"

definition fh_enum_move_next :: "'p fh_enum option \<Rightarrow> int \<times> 'p fh_enum option" where
  "fh_enum_move_next fhe =
     (if fhe_bad fhe then (FH_BAD_HANDLE, fhe)
      else
        (let e = the fhe; i = e_idx e + 1 in
         (FH_OK, Some (e\<lparr>e_idx := i, e_valid := (if e_size e \<le> i then 0 else e_valid e)\<rparr>))))"

text \<open>The code stored in \<open>*error\<close> (\<open>err\<close> when nothing is stored) and the element.\<close>

definition fh_enum_get_value :: "'p fh_enum option \<Rightarrow> int \<Rightarrow> (int \<times> 'p fh_elem option) option" where
  "fh_enum_get_value fhe err =
     (if fhe_bad fhe then Some (FH_BAD_HANDLE, None)
      else
        (let e = the fhe in
         if e_valid e = 1 then
           (if 0 \<le> e_idx e \<and> e_idx e < int (length (elem_list e))
            then Some (err, Some (elem_list e ! nat (e_idx e))) else None)
         else Some (err, None)))"

definition fh_enum_destroy :: "'p fh_enum option \<Rightarrow> int \<times> 'p fh_enum option" where
  "fh_enum_destroy fhe = (if fhe_bad fhe then (FH_BAD_HANDLE, fhe) else (FH_OK, None))"

section \<open>Clean and destroy\<close>

text \<open>
  The loop of \<open>fh_clean\<close>, as often as \<open>fh_enum_is_valid\<close> is not 0: it returns the code, the
  objects the delete function was called on and the table. A code of \<open>fh_del\<close> is ignored.
\<close>

partial_function (option) fh_clean_loop ::
  "bool \<Rightarrow> int \<Rightarrow> 'p fh_enum option \<Rightarrow> 'p obj option list \<Rightarrow> 'p fh option \<Rightarrow>
     (int \<times> 'p obj option list \<times> 'p fh option) option" where
  "fh_clean_loop del result fhe acc fh =
     (if fh_enum_is_valid fhe = 0 then Some (result, acc, fh)
      else
        do { (result1, el) \<leftarrow> fh_enum_get_value fhe result;
             case el of
               None \<Rightarrow> Some (result1, acc, fh)
             | Some x \<Rightarrow>
                 do { (rc, fh1) \<leftarrow> fh_del fh (el_key x);
                      f1 \<leftarrow> fh1;
                      fh_clean_loop del result1 (snd (fh_enum_move_next fhe))
                        (if h_datalen f1 = FH_DATALEN_VOIDP \<and> del then acc @ [el_obj x] else acc) fh1 } })"

definition fh_clean ::
  "'p fh option \<Rightarrow> bool \<Rightarrow> bool \<Rightarrow> bool \<Rightarrow> (int \<times> 'p obj option list \<times> 'p fh option) option" where
  "fh_clean fh del enum_ok list_ok =
     (if fh_bad fh then Some (FH_BAD_HANDLE, [], fh)
      else
        do { f \<leftarrow> fh;
             if del \<and> h_datalen f \<noteq> FH_DATALEN_VOIDP then Some (FH_FREE_NOT_REQUESTED, [], fh)
             else
               do { (result, fhe, fh1) \<leftarrow> fh_enum_create fh 0 FH_OK enum_ok list_ok;
                    if fhe = None then Some (result, [], fh1)
                    else fh_clean_loop del result fhe [] fh1 } })"

text \<open>\<open>fh_destroy\<close> frees the table and the locks, which none may hold; it returns the entries
  that are left over when the clean has failed, which are lost.\<close>

definition fh_destroy :: "'p fh option \<Rightarrow> bool \<Rightarrow> bool \<Rightarrow> (int \<times> 'p fh_elem list \<times> 'p fh option) option" where
  "fh_destroy fh enum_ok list_ok =
     (if fh_bad fh then Some (FH_BAD_HANDLE, [], fh)
      else
        do { (rc, dels, fh1) \<leftarrow> fh_clean fh False enum_ok list_ok;
             f1 \<leftarrow> fh1;
             assert_opt (True \<notin> set (h_held f1));
             Some (FH_OK, concat (map chain_elems (hash_table f1)), None) })"

end
