(* ===== verification/FhEnumSpec.thy ===== *)
theory FhEnumSpec
  imports FhProps FhEnum "HOL-Library.Multiset"
begin

text \<open>
  The enumerator and the clean-up of the hash table: the snapshot holds every entry once and in
  the order asked for, walking it visits all of it, \<open>fh_clean\<close> leaves an empty table, and
  \<open>fh_destroy\<close> frees every entry unless the enumerator cannot be allocated.
\<close>

section \<open>Sorting\<close>

lemma mset_insert_by: "mset (insert_by cmp x xs) = add_mset x (mset xs)"
  by (induction xs) auto

lemma mset_qsort: "mset (qsort cmp xs) = mset xs"
  by (induction xs) (simp_all add: qsort_def mset_insert_by)

lemma set_insert_by [simp]: "set (insert_by cmp x xs) = insert x (set xs)"
  by (induction xs) auto

lemma sorted_qsort:
  assumes "\<And>a b. cmp a b \<le> 0 \<or> cmp b a \<le> 0"
    and "\<And>a b c. cmp a b \<le> 0 \<Longrightarrow> cmp b c \<le> 0 \<Longrightarrow> cmp a c \<le> 0"
  shows "sorted_wrt (\<lambda>a b. cmp a b \<le> 0) (qsort cmp xs)"
proof -
  have ins: "sorted_wrt (\<lambda>a b. cmp a b \<le> 0) (insert_by cmp x ys)"
    if "sorted_wrt (\<lambda>a b. cmp a b \<le> 0) ys" for x ys
    using that
  proof (induction ys)
    case (Cons y ys)
    with assms show ?case by (auto dest: assms(2))
  qed simp
  show ?thesis by (induction xs) (simp_all add: qsort_def ins)
qed

definition elem_key :: "'p fh_elem \<Rightarrow> cstr" where
  "elem_key e = the (el_key e)"

lemma ascfunc_le: "fh_ascfunc a b \<le> 0 \<longleftrightarrow> elem_key a \<le> elem_key b"
  by (simp add: fh_ascfunc_def elem_key_def less_eq_cstr_def)

lemma descfunc_le: "fh_descfunc a b \<le> 0 \<longleftrightarrow> elem_key b \<le> elem_key a"
  by (simp add: fh_descfunc_def elem_key_def less_eq_cstr_def)

lemma sorted_asc: "sorted (map elem_key (qsort fh_ascfunc es))"
proof -
  have "sorted_wrt (\<lambda>a b. fh_ascfunc a b \<le> 0) (qsort fh_ascfunc es)"
    by (rule sorted_qsort) (unfold ascfunc_le, (rule linear order_trans; assumption?)+)
  then show ?thesis by (simp add: ascfunc_le sorted_wrt_map)
qed

lemma sorted_desc: "sorted (rev (map elem_key (qsort fh_descfunc es)))"
proof -
  have "sorted_wrt (\<lambda>a b. fh_descfunc a b \<le> 0) (qsort fh_descfunc es)"
    by (rule sorted_qsort) (unfold descfunc_le, rule linear, erule (1) order_trans [rotated])
  then show ?thesis by (simp add: descfunc_le sorted_wrt_map sorted_wrt_rev)
qed

section \<open>The snapshot\<close>

definition mk_elem :: "cstr \<times> 'p obj option \<Rightarrow> 'p fh_elem" where
  "mk_elem p = \<lparr>el_key = Some (fst p), el_obj = snd p\<rparr>"

lemma mk_elem_simps [simp]:
  "el_key (mk_elem p) = Some (fst p)" "el_obj (mk_elem p) = snd p" "elem_key (mk_elem p) = fst p"
  by (simp_all add: mk_elem_def elem_key_def)

lemma chain_elems_pairs: "chain_ok hf ch \<Longrightarrow> chain_elems ch = map mk_elem (pairs ch)"
proof -
  assume ok: "chain_ok hf ch"
  have b: "map (\<lambda>e. \<lparr>el_key = e_key e, el_obj = e_obj e\<rparr>) (filter (\<lambda>e. mini e \<noteq> 0) b) =
      map mk_elem (bucket_pairs b)" if "b \<in> set ch" for b
  proof -
    have "e_key e = Some (the (e_key e))" if "e \<in> set b" "mini e \<noteq> 0" for e
    proof -
      have "entry_ok hf e"
        using ok \<open>b \<in> set ch\<close> that(1) by (simp add: chain_ok_def bucket_ok_def list_all_iff)
      with that(2) show ?thesis by (auto simp: entry_ok_def)
    qed
    then show ?thesis by (auto simp: bucket_pairs_def mk_elem_def)
  qed
  have "chain_elems ch = concat (map (\<lambda>b. map (\<lambda>e. \<lparr>el_key = e_key e, el_obj = e_obj e\<rparr>)
      (filter (\<lambda>e. mini e \<noteq> 0) b)) ch)"
    by (simp add: chain_elems_def filter_concat map_concat comp_def)
  also have "\<dots> = concat (map (\<lambda>b. map mk_elem (bucket_pairs b)) ch)"
    using b by (intro arg_cong [of _ _ concat] map_cong) auto
  also have "\<dots> = map mk_elem (pairs ch)"
    by (simp add: pairs_def map_concat comp_def)
  finally show ?thesis .
qed

definition all_pairs :: "'p fh \<Rightarrow> (cstr \<times> 'p obj option) list" where
  "all_pairs f = concat (map pairs (hash_table f))"

lemma all_pairs_size: "length (all_pairs f) = fh_size f"
  by (simp add: all_pairs_def fh_size_def length_concat comp_def)

lemma fh_collect_spec:
  fixes f :: "'p fh"
  assumes ok: "fh_table_ok f" and un: "fh_unlocked f"
  shows "i + fuel = length (hash_table f) \<Longrightarrow>
    length acc + length (concat (map pairs (drop i (hash_table f)))) = n \<Longrightarrow>
    fh_collect f fuel (int i) n acc =
      Some (acc @ map mk_elem (concat (map pairs (drop i (hash_table f)))), f)"
proof (induction fuel arbitrary: i acc)
  case 0
  then show ?case by simp
next
  case (Suc fuel)
  let ?ch = "hash_table f ! i"
  from Suc.prems(1) have i: "i < length (hash_table f)" by simp
  then have d: "drop i (hash_table f) = ?ch # drop (Suc i) (hash_table f)"
    by (simp add: Cons_nth_drop_Suc)
  show ?case
  proof (cases "length acc < n")
    case False
    with Suc.prems(2) have "concat (map pairs (drop i (hash_table f))) = []" by (metis add_cancel_right_right length_0_conv linorder_not_less le_add1 le_antisym)
    with False show ?thesis by simp
  next
    case True
    obtain l where
      l: "fh_lock f (int i) = Some (f\<lparr>h_held := (h_held f)[l := True]\<rparr>)"
        "\<And>g :: 'p fh. n_lock g = n_lock f \<Longrightarrow> h_held g = (h_held f)[l := True] \<Longrightarrow>
          fh_unlock g (int i) = Some (g\<lparr>h_held := h_held f\<rparr>)"
      by (rule fh_lock_unlocked [OF ok un, of "int i"]) (simp, rule that)
    from l(2) [of "f\<lparr>h_held := (h_held f)[l := True]\<rparr>"]
    have u: "fh_unlock (f\<lparr>h_held := (h_held f)[l := True]\<rparr>) (int i) = Some f" by simp
    have "chain_ok (hash_function f) ?ch" using ok i by (simp add: fh_table_ok_def)
    then have ce: "chain_elems ?ch = map mk_elem (pairs ?ch)" by (rule chain_elems_pairs)
    have "int (length (hash_table f)) = h_dim f" using ok by (simp add: fh_table_ok_def)
    with i have ch: "fh_chain (f\<lparr>h_held := (h_held f)[l := True]\<rparr>) (int i) = Some ?ch"
      by (simp add: fh_chain_def)
    have t: "take n (acc @ chain_elems ?ch) = acc @ map mk_elem (pairs ?ch)"
      using Suc.prems(2) by (simp add: d ce)
    have "fh_collect f fuel (int (Suc i)) n (acc @ map mk_elem (pairs ?ch)) =
        Some ((acc @ map mk_elem (pairs ?ch)) @ map mk_elem (concat (map pairs (drop (Suc i) (hash_table f)))), f)"
      using Suc.prems by (intro Suc.IH) (simp_all add: d)
    moreover have "int i + 1 = int (Suc i)" by simp
    ultimately show ?thesis using True l(1) u ch t by (simp only: fh_collect.simps if_True) (simp add: d)
  qed
qed

lemma all_pairs_map:
  assumes ok: "fh_table_ok f"
  shows "distinct (map fst (all_pairs f))" and "(k, v) \<in> set (all_pairs f) \<longleftrightarrow> fh_map f k = Some v"
proof -
  show iff: "(k, v) \<in> set (all_pairs f) \<longleftrightarrow> fh_map f k = Some v" for k v
  proof -
    have m: "fh_map f k = Some v \<longleftrightarrow> (k, v) \<in> set (pairs (hash_table f ! nat (fh_key_index f k)))"
      unfolding fh_map_def using ok fh_index_range(3) [OF ok, of k]
      by (intro map_of_eq_Some_iff) (simp add: fh_table_ok_def chain_ok_def)
    show ?thesis
    proof
      assume "(k, v) \<in> set (all_pairs f)"
      then obtain i where i: "i < length (hash_table f)" "(k, v) \<in> set (pairs (hash_table f ! i))"
        unfolding all_pairs_def set_concat set_map by (auto simp: in_set_conv_nth [of _ "hash_table f"])
      then have "k \<in> fst ` set (pairs (hash_table f ! i))" by force
      with fh_table_keys [OF ok i(1)] i(2) show "fh_map f k = Some v" unfolding m by simp
    next
      assume "fh_map f k = Some v"
      with m fh_index_range(3) [OF ok, of k] show "(k, v) \<in> set (all_pairs f)"
        by (auto simp: all_pairs_def)
    qed
  qed
  have "fst ` set (all_pairs f) = dom (fh_map f)"
    using iff by (force simp: dom_def)
  then have "card (set (map fst (all_pairs f))) = length (map fst (all_pairs f))"
    using fh_size_card [OF ok] by (simp add: all_pairs_size)
  then show "distinct (map fst (all_pairs f))" by (rule card_distinct)
qed

section \<open>Enumerating a table\<close>

text \<open>\<open>snapshot f order es\<close>: \<open>es\<close> has every entry of \<open>f\<close> once, in the order asked for.\<close>

definition snapshot :: "'p fh \<Rightarrow> int \<Rightarrow> 'p fh_elem list \<Rightarrow> bool" where
  "snapshot f order es \<longleftrightarrow>
     mset es = mset (map mk_elem (all_pairs f)) \<and>
     (order = FH_ENUM_SORTED_ASC \<longrightarrow> sorted (map elem_key es)) \<and>
     (order = FH_ENUM_SORTED_DESC \<longrightarrow> sorted (rev (map elem_key es)))"

lemma mk_elem_inj: "inj mk_elem"
  by (auto simp: inj_def mk_elem_def)

lemma snapshot_facts:
  assumes "fh_table_ok f" and "snapshot f order es"
  shows "distinct (map elem_key es)" and "length es = fh_size f"
    and "e \<in> set es \<longleftrightarrow> (\<exists>k v. e = mk_elem (k, v) \<and> fh_map f k = Some v)"
proof -
  from assms(2) have m: "mset es = mset (map mk_elem (all_pairs f))" by (simp add: snapshot_def)
  then have "mset (map elem_key es) = mset (map fst (all_pairs f))"
    by (simp add: image_mset.compositionality comp_def)
  with all_pairs_map(1) [OF assms(1)] show "distinct (map elem_key es)"
    by (metis mset_eq_imp_distinct_iff)
  show "length es = fh_size f"
    using mset_eq_length [OF m] by (simp add: all_pairs_size)
  have "set es = mk_elem ` set (all_pairs f)"
    using mset_eq_setD [OF m] by simp
  then show "e \<in> set es \<longleftrightarrow> (\<exists>k v. e = mk_elem (k, v) \<and> fh_map f k = Some v)"
    using all_pairs_map(2) [OF assms(1)] by (auto simp: image_iff) blast
qed

lemma fh_enum_create_spec:
  assumes r: "fh_ready f" and ne: "0 < fh_size f"
  shows "\<exists>es. fh_enum_create (Some f) order err True True =
      Some (err, Some \<lparr>e_magic = FHE_MAGIC_ID, e_idx = 0, elem_list = es, e_size = int (fh_size f), e_valid = 1\<rparr>,
        Some f) \<and> snapshot f order es"
proof -
  from r have ok: "fh_table_ok f" and un: "fh_unlocked f" and el: "h_elements f = int (fh_size f)"
    by (simp_all add: fh_ready_def fh_inv_def)
  let ?es = "map mk_elem (all_pairs f)"
  have dim: "nat (h_dim f) = length (hash_table f)"
    using ok by (auto simp: fh_table_ok_def simp flip: nat_int_comparison(1))
  have "fh_collect f (nat (h_dim f)) (int 0) (fh_size f) [] =
      Some ([] @ map mk_elem (concat (map pairs (drop 0 (hash_table f)))), f)"
    using dim by (intro fh_collect_spec [OF ok un]) (simp_all add: all_pairs_size [symmetric] all_pairs_def)
  then have c: "fh_collect f (nat (h_dim f)) 0 (nat (h_elements f)) [] = Some (?es, f)"
    by (simp add: el all_pairs_def)
  have keys: "list_all (\<lambda>e. el_key e \<noteq> None) ?es" by (simp add: list_all_iff)
  obtain es where es: "fh_sort_elems order ?es = Some es" "snapshot f order es"
  proof (cases "order = FH_ENUM_SORTED_ASC \<or> order = FH_ENUM_SORTED_DESC")
    case True
    let ?cmp = "if order = FH_ENUM_SORTED_ASC then fh_ascfunc else fh_descfunc"
    have "fh_sort_elems order ?es = Some (qsort ?cmp ?es)"
      using True keys by (simp only: fh_sort_elems_def if_True)
    moreover have "snapshot f order (qsort ?cmp ?es)"
      using True by (auto simp: snapshot_def mset_qsort sorted_asc sorted_desc
          FH_ENUM_SORTED_ASC_def FH_ENUM_SORTED_DESC_def)
    ultimately show ?thesis by (rule that)
  next
    case False
    then have "fh_sort_elems order ?es = Some ?es" by (simp add: fh_sort_elems_def)
    moreover have "snapshot f order ?es" using False by (simp add: snapshot_def)
    ultimately show ?thesis by (rule that)
  qed
  have "fh_enum_create (Some f) order err True True =
      Some (err, Some \<lparr>e_magic = FHE_MAGIC_ID, e_idx = 0, elem_list = es, e_size = int (fh_size f), e_valid = 1\<rparr>,
        Some f)"
    using fh_ready_bad [OF r] c es(1) ne el
    by (simp add: fh_enum_create_def Let_def all_pairs_size)
  with es(2) show ?thesis by blast
qed

text \<open>An enumerator after \<open>i\<close> moves.\<close>

definition enum_at :: "'p fh_elem list \<Rightarrow> nat \<Rightarrow> 'p fh_enum" where
  "enum_at es i = \<lparr>e_magic = FHE_MAGIC_ID, e_idx = int i, elem_list = es, e_size = int (length es),
     e_valid = (if i < length es then 1 else 0)\<rparr>"

lemma enum_at_simps [simp]:
  "\<not> fhe_bad (Some (enum_at es i))"
  "fh_enum_is_valid (Some (enum_at es i)) = (if i < length es then 1 else 0)"
  "fh_enum_move_next (Some (enum_at es i)) = (FH_OK, Some (enum_at es (Suc i)))"
  "fh_enum_get_value (Some (enum_at es i)) err = Some (err, if i < length es then Some (es ! i) else None)"
  by (auto simp: enum_at_def fhe_bad_def fh_enum_is_valid_def fh_enum_move_next_def
      fh_enum_get_value_def Let_def)

lemma enum_moves:
  "((\<lambda>e. snd (fh_enum_move_next e)) ^^ i) (Some (enum_at es 0)) = Some (enum_at es i)"
  by (induction i) simp_all

lemma fh_enum_create_at:
  assumes "fh_ready f" and "0 < fh_size f"
  obtains es where "fh_enum_create (Some f) order err True True = Some (err, Some (enum_at es 0), Some f)"
    and "snapshot f order es" and "es \<noteq> []"
proof -
  from fh_enum_create_spec [OF assms, of order err] obtain es where
    es: "fh_enum_create (Some f) order err True True =
      Some (err, Some \<lparr>e_magic = FHE_MAGIC_ID, e_idx = 0, elem_list = es, e_size = int (fh_size f), e_valid = 1\<rparr>,
        Some f)" "snapshot f order es" by blast
  have "fh_table_ok f" using assms(1) by (simp add: fh_ready_def fh_inv_def)
  with es(2) have n: "length es = fh_size f" by (rule snapshot_facts(2) [rotated])
  with assms(2) es show ?thesis by (intro that) (auto simp: enum_at_def)
qed

section \<open>Clean and destroy\<close>

lemma fh_clean_loop_spec:
  assumes "fh_ready f" and "distinct (map elem_key es)" and "list_all (\<lambda>e. el_key e \<noteq> None) es"
    and "i \<le> length es" and "dom (fh_map f) = elem_key ` set (drop i es)"
  shows "\<exists>f'. fh_clean_loop del rc (Some (enum_at es i)) acc (Some f) =
      Some (rc, acc @ (if h_datalen f = FH_DATALEN_VOIDP \<and> del then map el_obj (drop i es) else []), Some f') \<and>
    fh_ready f' \<and> fh_map f' = Map.empty \<and> fh_conf f' = fh_conf f"
  using assms(1,4,5)
proof (induction "length es - i" arbitrary: f i acc)
  case 0
  then have "i = length es" by simp
  with 0 show ?case by (subst fh_clean_loop.simps) (simp add: dom_def fun_eq_iff)
next
  case (Suc n)
  then have i: "i < length es" by simp
  then have d: "drop i es = es ! i # drop (Suc i) es" by (simp add: Cons_nth_drop_Suc)
  from assms(3) i obtain k where k: "el_key (es ! i) = Some k" by (auto simp: list_all_length)
  then have ek: "elem_key (es ! i) = k" by (simp add: elem_key_def)
  have "distinct (map elem_key (drop i es))"
    using assms(2) by (simp add: drop_map [symmetric])
  then have nk: "k \<notin> elem_key ` set (drop (Suc i) es)" by (simp add: d ek)
  from Suc.prems(3) have kd: "k \<in> dom (fh_map f)" by (simp add: d ek)
  from fh_del_spec [OF Suc.prems(1), of k] kd obtain g where
    g: "fh_del (Some f) (Some k) = Some (fh_key_index f k, Some g)" "fh_ready g" "fh_conf g = fh_conf f"
      "fh_map g = (fh_map f)(k := None)" by auto
  have dom: "dom (fh_map g) = elem_key ` set (drop (Suc i) es)"
    using g(4) Suc.prems(3) nk by (auto simp: d ek)
  have dl: "h_datalen g = h_datalen f" using g(3) by (rule fh_conf_datalen)
  let ?acc = "if h_datalen g = FH_DATALEN_VOIDP \<and> del then acc @ [el_obj (es ! i)] else acc"
  have n: "n = length es - Suc i" "Suc i \<le> length es" using Suc.hyps(2) i by simp_all
  from Suc.hyps(1) [OF n(1) g(2) n(2) dom, of ?acc]
  obtain f' where f': "fh_clean_loop del rc (Some (enum_at es (Suc i))) ?acc (Some g) =
      Some (rc, ?acc @ (if h_datalen g = FH_DATALEN_VOIDP \<and> del then map el_obj (drop (Suc i) es) else []), Some f')"
    "fh_ready f'" "fh_map f' = Map.empty" "fh_conf f' = fh_conf g"
    by blast
  have "fh_clean_loop del rc (Some (enum_at es i)) acc (Some f) =
      fh_clean_loop del rc (Some (enum_at es (Suc i))) ?acc (Some g)"
    using i k g(1) by (subst fh_clean_loop.simps) simp
  with f' g(3) dl show ?case by (auto simp: d)
qed

lemma fh_empty_chains:
  assumes "fh_table_ok f" and "fh_map f = Map.empty"
  shows "\<forall>ch \<in> set (hash_table f). ch = []"
proof
  fix ch assume "ch \<in> set (hash_table f)"
  then obtain i where i: "i < length (hash_table f)" "ch = hash_table f ! i" by (auto simp: in_set_conv_nth)
  with assms(1) have c: "chain_ok (hash_function f) ch" by (simp add: fh_table_ok_def)
  have "pairs ch = []"
  proof (rule ccontr)
    assume "pairs ch \<noteq> []"
    then obtain p where "p \<in> set (pairs ch)" by (cases "pairs ch") auto
    with i have "p \<in> set (all_pairs f)" by (auto simp: all_pairs_def)
    with all_pairs_map(2) [OF assms(1), of "fst p" "snd p"] assms(2) show False by simp
  qed
  with c show "ch = []" by (cases ch) (auto simp: chain_ok_def)
qed

lemma fh_clean_spec:
  assumes r: "fh_ready f" and ne: "0 < fh_size f" and d: "\<not> (del \<and> h_datalen f \<noteq> FH_DATALEN_VOIDP)"
  shows "\<exists>objs f'. fh_clean (Some f) del True True = Some (FH_OK, objs, Some f') \<and>
    fh_ready f' \<and> fh_map f' = Map.empty \<and> fh_conf f' = fh_conf f \<and>
    mset objs = (if del then mset (map snd (all_pairs f)) else {#})"
proof -
  obtain es where
    es: "fh_enum_create (Some f) 0 FH_OK True True = Some (FH_OK, Some (enum_at es 0), Some f)"
      "snapshot f 0 es" "es \<noteq> []"
    by (rule fh_enum_create_at [OF r ne]) (rule that)
  have ok: "fh_table_ok f" using r by (simp add: fh_ready_def fh_inv_def)
  note s = snapshot_facts [OF ok es(2)]
  have "list_all (\<lambda>e. el_key e \<noteq> None) es" using s(3) by (auto simp: list_all_iff)
  moreover have "dom (fh_map f) = elem_key ` set (drop 0 es)"
    using s(3) by (force simp: dom_def)
  ultimately obtain f' where
    f': "fh_clean_loop del FH_OK (Some (enum_at es 0)) [] (Some f) =
      Some (FH_OK, [] @ (if h_datalen f = FH_DATALEN_VOIDP \<and> del then map el_obj (drop 0 es) else []), Some f')"
      "fh_ready f'" "fh_map f' = Map.empty" "fh_conf f' = fh_conf f"
    using fh_clean_loop_spec [OF r s(1), of 0 del FH_OK "[]"] by auto
  have "mset (map el_obj es) = mset (map snd (all_pairs f))"
    using es(2) by (simp add: snapshot_def image_mset.compositionality comp_def)
  with f' es(1) fh_ready_bad [OF r] d show ?thesis
    by (auto simp: fh_clean_def)
qed

lemma fh_objects:
  assumes "fh_table_ok f"
  shows "mset (map snd (all_pairs f)) = image_mset (\<lambda>k. the (fh_map f k)) (mset_set (dom (fh_map f)))"
proof -
  note ap = all_pairs_map [OF assms]
  have "mset (map fst (all_pairs f)) = mset_set (set (map fst (all_pairs f)))"
    using ap(1) by (simp only: mset_set_set)
  moreover have "set (map fst (all_pairs f)) = dom (fh_map f)"
    using ap(2) by (force simp: dom_def)
  moreover have "map snd (all_pairs f) = map (\<lambda>k. the (fh_map f k)) (map fst (all_pairs f))"
  proof -
    have "snd x = the (fh_map f (fst x))" if "x \<in> set (all_pairs f)" for x
      using ap(2) [of "fst x" "snd x"] that by simp
    then show ?thesis by simp
  qed
  ultimately show ?thesis by (metis mset_map)
qed

lemma fh_size_0: "fh_table_ok f \<Longrightarrow> fh_size f = 0 \<longleftrightarrow> fh_map f = Map.empty"
proof -
  assume ok: "fh_table_ok f"
  have "finite (dom (fh_map f))" by (simp add: fh_map_dom_UN [OF ok])
  then show ?thesis by (simp add: fh_size_card [OF ok])
qed

lemma fh_clean_empty:
  assumes r: "fh_ready f" and e: "fh_size f = 0" and d: "\<not> (del \<and> h_datalen f \<noteq> FH_DATALEN_VOIDP)"
  shows "fh_clean (Some f) del eok lok = Some (FH_EMPTY_HASHTABLE, [], Some f)"
proof -
  have "h_elements f = 0" using r e by (simp add: fh_ready_def fh_inv_def)
  with fh_ready_bad [OF r] d show ?thesis by (auto simp: fh_clean_def fh_enum_create_def)
qed

section \<open>Properties\<close>



text \<open>\<open>fh_destroy\<close> of a table whose locks are free always reports success and frees the handle,
  but when the enumerator cannot be allocated every entry of the table is lost.\<close>

theorem fh_destroy_entries:
  assumes r: "fh_ready f"
  shows "\<exists>lost. fh_destroy (Some f) eok lok = Some (FH_OK, lost, None) \<and>
    length lost = (if eok \<and> lok then 0 else card (dom (fh_map f)))"
proof -
  have ok: "fh_table_ok f" and un: "fh_unlocked f" using r by (simp_all add: fh_ready_def fh_inv_def)
  have elems: "length (concat (map chain_elems (hash_table g))) = fh_size g" if "fh_table_ok g" for g :: "'a fh"
  proof -
    have "length (chain_elems ch) = length (pairs ch)" if "ch \<in> set (hash_table g)" for ch
      using \<open>fh_table_ok g\<close> that chain_elems_pairs [of "hash_function g" ch]
      by (auto simp: fh_table_ok_def in_set_conv_nth)
    then have "map (\<lambda>ch. length (chain_elems ch)) (hash_table g) = map (\<lambda>ch. length (pairs ch)) (hash_table g)"
      by simp
    then show ?thesis unfolding fh_size_def length_concat map_map comp_def by (rule arg_cong)
  qed
  have end_with: "fh_destroy (Some f) eok lok = Some (FH_OK, concat (map chain_elems (hash_table g)), None)"
    if "fh_clean (Some f) False eok lok = Some (rc, objs, Some g)" "fh_unlocked g" for rc objs g
    using that fh_ready_bad [OF r] by (simp add: fh_destroy_def fh_unlocked_def assert_opt_def)
  consider (none) "fh_size f = 0" | (some) "0 < fh_size f" "eok \<and> lok" | (fail) "0 < fh_size f" "\<not> (eok \<and> lok)"
    by blast
  then show ?thesis
  proof cases
    case none
    with fh_clean_empty [OF r, of False] have "fh_clean (Some f) False eok lok = Some (FH_EMPTY_HASHTABLE, [], Some f)"
      by simp
    with end_with un elems [OF ok] none fh_size_card [OF ok] show ?thesis by auto
  next
    case some
    then have "\<not> (False \<and> h_datalen f \<noteq> FH_DATALEN_VOIDP)" by simp
    from fh_clean_spec [OF r some(1) this] obtain objs g where
      g: "fh_clean (Some f) False True True = Some (FH_OK, objs, Some g)" "fh_ready g" "fh_map g = Map.empty"
      by blast
    then have "fh_table_ok g" "fh_unlocked g" by (simp_all add: fh_ready_def fh_inv_def)
    with g(1,3) end_with some(2) elems [of g] fh_size_0 [of g] show ?thesis by auto
  next
    case fail
    then have "fh_clean (Some f) False eok lok = Some (FH_NO_MEMORY, [], Some f)"
      using fh_ready_bad [OF r] r
      by (auto simp: fh_clean_def fh_enum_create_def fh_ready_def fh_inv_def)
    with end_with un elems [OF ok] fail fh_size_card [OF ok] show ?thesis by auto
  qed
qed

section \<open>Witnesses\<close>

lemma ex_fh1_nonempty: "fh_map ex_fh1 \<noteq> Map.empty"
  using ex_fh1_map(1) by auto



theorem fh_destroy_entries_witness:
  "\<exists>x. fh_destroy (Some ex_fh1) False True = Some (FH_OK, [x], None)"
proof -
  have "fh_map ex_fh1 = [k1 \<mapsto> Some (OPtr 7)]"
    using ex_fh1_only ex_fh1_map(1) by (auto simp: fun_eq_iff)
  then have "dom (fh_map ex_fh1) = {k1}" by simp
  with fh_destroy_entries [OF ex_fh1_ready, of False True] show ?thesis
    by (auto simp: length_Suc_conv)
qed

end
