(* ===== verification/Wyhash.thy ===== *)
theory Wyhash
  imports Prelude Complex_Main
begin

unbundle bit_operations_syntax

text \<open>
  The hash function of libfh/wyhash.h and the generators built on the same multiplication, in
  the configuration the library is compiled with (\<open>WYHASH_CONDOM\<close> 1, \<open>WYHASH_32BIT_MUM\<close> 0), with
  the code for a machine without 128-bit integers and for a big-endian one beside it.

  A buffer is the list of its bytes and a position in it is an \<open>int\<close>; a read outside of it has
  no defined result. A size is a \<open>nat\<close>. A \<open>double\<close> is the rational number it stands for: the
  two functions that return one compute with multiples of \<open>2\<^sup>-\<^sup>5\<^sup>2\<close> and of \<open>2\<^sup>-\<^sup>2\<^sup>0\<close> of less
  than 53 digits, which are doubles, so that nothing is rounded.
\<close>

section \<open>Multiplication\<close>

definition wyrot :: "u64 \<Rightarrow> u64" where
  "wyrot x = drop_bit 32 x OR push_bit 32 x"

text \<open>\<open>_wymum\<close> replaces its arguments by the low and the high half of their product.\<close>

definition wymum :: "u64 \<Rightarrow> u64 \<Rightarrow> u64 \<times> u64" where
  "wymum a b = (let r = (ucast a :: 128 word) * ucast b in (ucast r, ucast (drop_bit 64 r)))"

definition wymum_portable :: "u64 \<Rightarrow> u64 \<Rightarrow> u64 \<times> u64" where
  "wymum_portable a b =
     (let ha = drop_bit 32 a; hb = drop_bit 32 b;
          la = ucast (ucast a :: u32); lb = ucast (ucast b :: u32);
          rh = ha * hb; rm0 = ha * lb; rm1 = hb * la; rl = la * lb;
          t = rl + push_bit 32 rm0;
          c = (if t < rl then 1 else 0);
          lo = t + push_bit 32 rm1;
          c1 = c + (if lo < t then 1 else 0);
          hi = rh + drop_bit 32 rm0 + drop_bit 32 rm1 + c1
      in (lo, hi))"

text \<open>The variant for 32-bit systems, which gives other results.\<close>

definition wymum_32bit :: "u64 \<Rightarrow> u64 \<Rightarrow> u64 \<times> u64" where
  "wymum_32bit a b =
     (let hh = drop_bit 32 a * drop_bit 32 b;
          hl = drop_bit 32 a * ucast (ucast b :: u32);
          lh = ucast (ucast a :: u32) * drop_bit 32 b;
          ll = ucast (ucast a :: u32) * ucast (ucast b :: u32)
      in (wyrot hl XOR hh, wyrot lh XOR ll))"

text \<open>With \<open>WYHASH_CONDOM\<close> 2 the two halves are added to the arguments, in each variant.\<close>

definition wymum_condom2 :: "u64 \<Rightarrow> u64 \<Rightarrow> u64 \<times> u64" where
  "wymum_condom2 a b = (let r = (ucast a :: 128 word) * ucast b in (a XOR ucast r, b XOR ucast (drop_bit 64 r)))"

definition wymum_32bit_condom2 :: "u64 \<Rightarrow> u64 \<Rightarrow> u64 \<times> u64" where
  "wymum_32bit_condom2 a b =
     (let hh = drop_bit 32 a * drop_bit 32 b;
          hl = drop_bit 32 a * ucast (ucast b :: u32);
          lh = ucast (ucast a :: u32) * drop_bit 32 b;
          ll = ucast (ucast a :: u32) * ucast (ucast b :: u32)
      in (a XOR (wyrot hl XOR hh), b XOR (wyrot lh XOR ll)))"

definition wymix :: "u64 \<Rightarrow> u64 \<Rightarrow> u64" where
  "wymix a b = (let (lo, hi) = wymum a b in lo XOR hi)"

section \<open>Reading\<close>

definition rd_bytes :: "byte list \<Rightarrow> int \<Rightarrow> nat \<Rightarrow> byte list option" where
  "rd_bytes m p n = (if 0 \<le> p \<and> nat p + n \<le> length m then Some (take n (drop (nat p) m)) else None)"

definition le_word :: "byte list \<Rightarrow> u64" where
  "le_word bs = foldr (\<lambda>b w. push_bit 8 w OR ucast b) bs 0"

definition be_word :: "byte list \<Rightarrow> u64" where
  "be_word bs = foldl (\<lambda>w b. push_bit 8 w OR ucast b) 0 bs"

definition wyr8 :: "byte list \<Rightarrow> int \<Rightarrow> u64 option" where
  "wyr8 m p = map_option le_word (rd_bytes m p 8)"

definition wyr4 :: "byte list \<Rightarrow> int \<Rightarrow> u64 option" where
  "wyr4 m p = map_option le_word (rd_bytes m p 4)"

definition wyr3 :: "byte list \<Rightarrow> int \<Rightarrow> nat \<Rightarrow> u64 option" where
  "wyr3 m p k =
     do { x \<leftarrow> rd_bytes m p 1;
          y \<leftarrow> rd_bytes m (p + int (k div 2)) 1;
          z \<leftarrow> rd_bytes m (p + int k - 1) 1;
          Some (push_bit 16 (le_word x) OR push_bit 8 (le_word y) OR le_word z) }"

text \<open>A machine that stores the most significant byte first swaps what it has read.\<close>

definition wyswap8 :: "u64 \<Rightarrow> u64" where
  "wyswap8 v =
     (drop_bit 56 v AND 0xff) OR (drop_bit 40 v AND 0xff00) OR (drop_bit 24 v AND 0xff0000) OR
     (drop_bit 8 v AND 0xff000000) OR (push_bit 8 v AND 0xff00000000) OR
     (push_bit 24 v AND 0xff0000000000) OR (push_bit 40 v AND 0xff000000000000) OR
     (push_bit 56 v AND 0xff00000000000000)"

definition wyswap4 :: "u32 \<Rightarrow> u32" where
  "wyswap4 v =
     (drop_bit 24 v AND 0xff) OR (drop_bit 8 v AND 0xff00) OR (push_bit 8 v AND 0xff0000) OR
     (push_bit 24 v AND 0xff000000)"

definition wyr8_be :: "byte list \<Rightarrow> int \<Rightarrow> u64 option" where
  "wyr8_be m p = map_option (\<lambda>bs. wyswap8 (be_word bs)) (rd_bytes m p 8)"

definition wyr4_be :: "byte list \<Rightarrow> int \<Rightarrow> u64 option" where
  "wyr4_be m p = map_option (\<lambda>bs. ucast (wyswap4 (ucast (be_word bs)))) (rd_bytes m p 4)"

section \<open>The hash\<close>

definition wy_at :: "u64 list \<Rightarrow> nat \<Rightarrow> u64 option" where
  "wy_at s i = (if i < length s then Some (s ! i) else None)"

text \<open>The body of both loops: 16 bytes from \<open>p\<close> mixed into a seed.\<close>

definition wy_round :: "byte list \<Rightarrow> int \<Rightarrow> u64 option \<Rightarrow> u64 \<Rightarrow> u64 option" where
  "wy_round m p sec seed =
     do { x \<leftarrow> wyr8 m p; s \<leftarrow> sec; y \<leftarrow> wyr8 m (p + 8); Some (wymix (x XOR s) (y XOR seed)) }"

text \<open>The \<open>do\<close> loop, entered with more than 48 bytes left: 48 bytes at a time on three lanes.\<close>

function wy_loop48 ::
  "byte list \<Rightarrow> u64 list \<Rightarrow> int \<Rightarrow> nat \<Rightarrow> u64 \<Rightarrow> u64 \<Rightarrow> u64 \<Rightarrow> (int \<times> nat \<times> u64 \<times> u64 \<times> u64) option" where
  "wy_loop48 m secret p i seed see1 see2 =
     do { seed' \<leftarrow> wy_round m p (wy_at secret 1) seed;
          see1' \<leftarrow> wy_round m (p + 16) (wy_at secret 2) see1;
          see2' \<leftarrow> wy_round m (p + 32) (wy_at secret 3) see2;
          if 48 < i - 48 then wy_loop48 m secret (p + 48) (i - 48) seed' see1' see2'
          else Some (p + 48, i - 48, seed', see1', see2') }"
  by auto

termination
  by (relation "measure (\<lambda>(m, secret, p, i, seed, see1, see2). i)") auto

function wy_loop16 :: "byte list \<Rightarrow> u64 list \<Rightarrow> int \<Rightarrow> nat \<Rightarrow> u64 \<Rightarrow> (int \<times> nat \<times> u64) option" where
  "wy_loop16 m secret p i seed =
     (if 16 < i then
        do { seed' \<leftarrow> wy_round m p (wy_at secret 1) seed;
             wy_loop16 m secret (p + 16) (i - 16) seed' }
      else Some (p, i, seed))"
  by auto

termination
  by (relation "measure (\<lambda>(m, secret, p, i, seed). i)") auto

declare wy_loop48.simps [simp del] wy_loop16.simps [simp del]

text \<open>The two words made of the end of the key, and the seed with the rest of it mixed in.\<close>

definition wy_absorb :: "byte list \<Rightarrow> nat \<Rightarrow> u64 \<Rightarrow> u64 list \<Rightarrow> (u64 \<times> u64 \<times> u64) option" where
  "wy_absorb m len seed secret =
     (if len \<le> 16 then
        (if 4 \<le> len then
           do { a1 \<leftarrow> wyr4 m 0;
                a2 \<leftarrow> wyr4 m (int (len div 8 * 4));
                b1 \<leftarrow> wyr4 m (int len - 4);
                b2 \<leftarrow> wyr4 m (int len - 4 - int (len div 8 * 4));
                Some (push_bit 32 a1 OR a2, push_bit 32 b1 OR b2, seed) }
         else if 0 < len then do { a \<leftarrow> wyr3 m 0 len; Some (a, 0, seed) }
         else Some (0, 0, seed))
      else
        do { (p, i, seed1) \<leftarrow>
               (if 48 < len then
                  do { (p, i, s0, s1, s2) \<leftarrow> wy_loop48 m secret 0 len seed seed seed;
                       Some (p, i, s0 XOR (s1 XOR s2)) }
                else Some (0, len, seed));
             (p, i, seed2) \<leftarrow> wy_loop16 m secret p i seed1;
             a \<leftarrow> wyr8 m (p + int i - 16);
             b \<leftarrow> wyr8 m (p + int i - 8);
             Some (a, b, seed2) })"

definition wyhash :: "byte list \<Rightarrow> nat \<Rightarrow> u64 \<Rightarrow> u64 list \<Rightarrow> u64 option" where
  "wyhash key len seed0 secret =
     do { s0 \<leftarrow> wy_at secret 0;
          s1 \<leftarrow> wy_at secret 1;
          (a, b, seed) \<leftarrow> wy_absorb key len (seed0 XOR wymix (seed0 XOR s0) s1) secret;
          let (lo, hi) = wymum (a XOR s1) (b XOR seed) in
          Some (wymix (lo XOR s0 XOR of_nat len) (hi XOR s1)) }"

definition wyp :: "u64 list" where
  "wyp = [0xa0761d6478bd642f, 0xe7037ed1a0b428db, 0x8ebc6af09c88c6e3, 0x589965cc75374cc3]"

section \<open>Mixing and random numbers\<close>

definition wyhash64 :: "u64 \<Rightarrow> u64 \<Rightarrow> u64" where
  "wyhash64 a b =
     (let (lo, hi) = wymum (a XOR 0xa0761d6478bd642f) (b XOR 0xe7037ed1a0b428db)
      in wymix (lo XOR 0xa0761d6478bd642f) (hi XOR 0xe7037ed1a0b428db))"

text \<open>A generator returns its number and its new seed.\<close>

definition wyrand :: "u64 \<Rightarrow> u64 \<times> u64" where
  "wyrand seed =
     (let s = seed + 0xa0761d6478bd642f in (wymix s (s XOR 0xe7037ed1a0b428db), s))"

definition wy2u0k :: "u64 \<Rightarrow> u64 \<Rightarrow> u64" where
  "wy2u0k r k = snd (wymum r k)"

text \<open>A number in the unit interval and one that is roughly normally distributed, of a random word.\<close>

definition wy2u01 :: "u64 \<Rightarrow> rat" where
  "wy2u01 r = (let wynorm = 1 / 2 ^ 52 in of_nat (unat (drop_bit 12 r)) * wynorm)"

definition wy2gau :: "u64 \<Rightarrow> rat" where
  "wy2gau r =
     (let wynorm = 1 / 2 ^ 20 in
      of_nat (unat ((r AND 0x1fffff) + (drop_bit 21 r AND 0x1fffff) + (drop_bit 42 r AND 0x1fffff))) * wynorm - 3)"

text \<open>The generator that the library compiles only under \<open>WYTRNG\<close>; \<open>now\<close> is the reading of the
  clock, in seconds and microseconds.\<close>

definition wytrand :: "int \<times> int \<Rightarrow> u64 \<Rightarrow> u64 \<times> u64" where
  "wytrand now seed =
     (let teed0 = push_bit 32 (word_of_int (fst now)) OR word_of_int (snd now);
          teed = wymix (teed0 XOR wyp ! 0) (seed XOR wyp ! 1);
          s = wymix (teed XOR wyp ! 0) (wyp ! 2)
      in (wymix s (s XOR wyp ! 3), s))"

section \<open>Secrets\<close>

definition wy_table :: "byte list" where
  "wy_table = [15, 23, 27, 29, 30, 39, 43, 45, 46, 51, 53, 54, 57, 58, 60, 71, 75, 77, 78, 83, 85,
     86, 89, 90, 92, 99, 101, 102, 105, 106, 108, 113, 114, 116, 120, 135, 139, 141, 142, 147, 149,
     150, 153, 154, 156, 163, 165, 166, 169, 170, 172, 177, 178, 180, 184, 195, 197, 198, 201, 202,
     204, 209, 210, 212, 216, 225, 226, 228, 232, 240]"

text \<open>\<open>secret[i]\<close> drawn a byte at a time, from bit \<open>j\<close> on.\<close>

function wy_draw :: "nat \<Rightarrow> u64 \<Rightarrow> u64 \<Rightarrow> u64 \<times> u64" where
  "wy_draw j acc seed =
     (if j < 64 then
        (let (r, seed') = wyrand seed in
         wy_draw (j + 8) (acc OR push_bit j (ucast (wy_table ! unat (r mod 70)))) seed')
      else (acc, seed))"
  by auto

termination
  by (relation "measure (\<lambda>(j, acc, seed). 64 - j)") auto

declare wy_draw.simps [simp del]

definition popcount :: "u64 \<Rightarrow> nat" where
  "popcount x = length (filter (bit x) [0..<64])"

text \<open>The count for compilers without a built-in one, which counts in pairs of bits, in groups of
  four and in bytes, and adds up the bytes with a multiplication.\<close>

definition popcount_manual :: "u64 \<Rightarrow> u64" where
  "popcount_manual x0 =
     (let x1 = x0 - (drop_bit 1 x0 AND 0x5555555555555555);
          x2 = (x1 AND 0x3333333333333333) + (drop_bit 2 x1 AND 0x3333333333333333);
          x3 = (x2 + drop_bit 4 x2) AND 0x0f0f0f0f0f0f0f0f
      in drop_bit 56 (x3 * 0x0101010101010101))"

definition wy_accept :: "u64 list \<Rightarrow> u64 \<Rightarrow> bool" where
  "wy_accept prev x \<longleftrightarrow> x mod 2 \<noteq> 0 \<and> (\<forall>y \<in> set prev. popcount (y XOR x) = 32)"

text \<open>The \<open>do\<close> loop for one secret, and the loop over the four of them.\<close>

partial_function (option) make_secret_one :: "u64 list \<Rightarrow> u64 \<Rightarrow> (u64 \<times> u64) option" where
  "make_secret_one prev seed =
     (let (x, seed') = wy_draw 0 0 seed in
      if wy_accept prev x then Some (x, seed') else make_secret_one prev seed')"

fun make_secrets :: "nat \<Rightarrow> u64 list \<Rightarrow> u64 \<Rightarrow> u64 list option" where
  "make_secrets 0 prev seed = Some prev"
| "make_secrets (Suc n) prev seed =
     do { (x, seed') \<leftarrow> make_secret_one prev seed; make_secrets n (prev @ [x]) seed' }"

definition make_secret :: "u64 \<Rightarrow> u64 list option" where
  "make_secret seed = make_secrets 4 [] seed"

section \<open>The default hash of the table\<close>

text \<open>\<open>wyhash_hash_init\<close> at the time \<open>now\<close>: the seed and the secret of the table.\<close>

definition wyhash_hash_init :: "int \<Rightarrow> (u64 \<times> u64 list) option" where
  "wyhash_hash_init now = do { s \<leftarrow> make_secret (word_of_int now); Some (word_of_int now, s) }"

definition wyhash_key :: "u64 \<times> u64 list \<Rightarrow> cstr \<Rightarrow> u64 option" where
  "wyhash_key st key = wyhash (cbytes key) (strlen key) (fst st) (snd st)"

end
