(* ===== verification/WyhashSpec.thy ===== *)
theory WyhashSpec
  imports Wyhash FhSpec
begin

text \<open>
  What the functions of wyhash.h compute: the full product, the same on machines without 128-bit
  integers or with the other byte order; reads that stay inside the key; numbers in range; and
  the secrets that \<open>make_secret\<close> returns.
\<close>

section \<open>Multiplication\<close>

lemma unat_lt: "unat (a :: 'a :: len word) < 2 ^ LENGTH('a)"
  by (rule unsigned_less)

lemma mult_lt:
  fixes x y :: nat
  assumes "x < b" and "y < c"
  shows "x * y < b * c"
  using assms by (intro mult_strict_mono) auto

lemma wymum_nat:
  "unat (fst (wymum a b)) = unat a * unat b mod 2 ^ 64"
  "unat (snd (wymum a b)) = unat a * unat b div 2 ^ 64"
proof -
  let ?r = "(ucast a :: 128 word) * ucast b"
  have lt: "unat a * unat b < 2 ^ 64 * 2 ^ 64"
    using unat_lt [of a] unat_lt [of b] by (intro mult_lt) simp_all
  have r: "unat ?r = unat a * unat b"
  proof -
    have "take_bit 128 (unat x) = unat x" for x :: u64
      using unat_lt [of x] by (intro take_bit_nat_eq_self) simp
    with lt show ?thesis by (simp add: unat_word_ariths unsigned_ucast_eq)
  qed
  show "unat (fst (wymum a b)) = unat a * unat b mod 2 ^ 64"
    using r by (simp add: wymum_def Let_def unsigned_ucast_eq take_bit_eq_mod)
  have "unat a * unat b div 2 ^ 64 < 2 ^ 64" using lt by (simp add: less_mult_imp_div_less)
  then show "unat (snd (wymum a b)) = unat a * unat b div 2 ^ 64"
    using r by (simp add: wymum_def Let_def unsigned_ucast_eq drop_bit_eq_div unat_div
        take_bit_nat_eq_self)
qed

text \<open>The carry that C code finds by comparing a sum with one of its terms.\<close>

lemma unat_add_carry:
  fixes x y :: u64
  shows "unat x + unat y = unat (x + y) + 2 ^ 64 * (if x + y < x then 1 else 0)"
proof -
  note lt = unat_lt [of x] unat_lt [of y]
  have s: "unat (x + y) = (unat x + unat y) mod 2 ^ 64" by (simp add: unat_word_ariths)
  show ?thesis
  proof (cases "unat x + unat y < 2 ^ 64")
    case True
    with s show ?thesis by (simp add: word_less_nat_alt)
  next
    case False
    with lt s have "unat (x + y) = unat x + unat y - 2 ^ 64" by (simp add: mod_if)
    with False lt show ?thesis by (auto simp: word_less_nat_alt)
  qed
qed

lemma unat_push_drop:
  fixes x :: u64
  shows "unat (push_bit 32 x) + 2 ^ 64 * unat (drop_bit 32 x) = 2 ^ 32 * unat x"
proof -
  have "unat (push_bit 32 x) = unat x * 2 ^ 32 mod 2 ^ 64"
    by (simp add: push_bit_eq_mult unat_word_ariths)
  moreover have "unat x * 2 ^ 32 mod (2 ^ 32 * 2 ^ 32) = 2 ^ 32 * (unat x mod 2 ^ 32)"
    by (simp only: mult.commute [of "unat x"] mod_mult_mult1)
  moreover have "unat (drop_bit 32 x) = unat x div 2 ^ 32"
    by (simp add: drop_bit_eq_div unat_div)
  moreover have "2 ^ 32 * (unat x mod 2 ^ 32) + 2 ^ 64 * (unat x div 2 ^ 32) = 2 ^ 32 * unat x"
  proof -
    have "2 ^ 32 * unat x = 2 ^ 32 * (2 ^ 32 * (unat x div 2 ^ 32) + unat x mod 2 ^ 32)"
      by (simp only: mult_div_mod_eq)
    then show ?thesis by (simp only: distrib_left) simp
  qed
  ultimately show ?thesis by simp
qed

lemma unat_halves:
  fixes x :: u64
  shows "unat (ucast (ucast x :: u32) :: u64) < 2 ^ 32" "unat (drop_bit 32 x) < 2 ^ 32"
    "unat x = unat (ucast (ucast x :: u32) :: u64) + 2 ^ 32 * unat (drop_bit 32 x)"
proof -
  have l: "unat (ucast (ucast x :: u32) :: u64) = unat x mod 2 ^ 32"
    by (simp add: unsigned_ucast_eq take_bit_eq_mod unat_mod)
  have h: "unat (drop_bit 32 x) = unat x div 2 ^ 32"
    by (simp add: drop_bit_eq_div unat_div)
  show "unat (ucast (ucast x :: u32) :: u64) < 2 ^ 32" by (simp add: l)
  show "unat (drop_bit 32 x) < 2 ^ 32" using unat_lt [of x] by (simp add: h)
  show "unat x = unat (ucast (ucast x :: u32) :: u64) + 2 ^ 32 * unat (drop_bit 32 x)"
    by (simp add: l h)
qed

lemma unat_mult_small:
  fixes x y :: u64
  assumes "unat x < 2 ^ 32" and "unat y < 2 ^ 32"
  shows "unat (x * y) = unat x * unat y"
  using mult_lt [OF assms] by (simp add: unat_word_ariths)


lemma wymum_portable_nat:
  "unat (fst (wymum_portable a b)) + 2 ^ 64 * unat (snd (wymum_portable a b)) = unat a * unat b"
proof -
  define ha hb la lb where "ha = drop_bit 32 a" and "hb = drop_bit 32 b"
    and "la = (ucast (ucast a :: u32) :: u64)" and "lb = (ucast (ucast b :: u32) :: u64)"
  define rh rm0 rm1 rl where "rh = ha * hb" and "rm0 = ha * lb" and "rm1 = hb * la" and "rl = la * lb"
  define t where "t = rl + push_bit 32 rm0"
  define lo where "lo = t + push_bit 32 rm1"
  define c c1 where "c = (if t < rl then 1 else 0 :: u64)" and "c1 = (if lo < t then 1 else 0 :: u64)"
  have w: "wymum_portable a b = (lo, rh + drop_bit 32 rm0 + drop_bit 32 rm1 + (c + c1))"
    by (simp add: wymum_portable_def Let_def ha_def hb_def la_def lb_def rh_def rm0_def rm1_def
        rl_def t_def lo_def c_def c1_def)
  note bounds = unat_halves(1,2) [of a] unat_halves(1,2) [of b]
  have p: "unat rh = unat ha * unat hb" "unat rm0 = unat ha * unat lb" "unat rm1 = unat hb * unat la"
    "unat rl = unat la * unat lb"
    unfolding rh_def rm0_def rm1_def rl_def ha_def hb_def la_def lb_def
    using bounds by (simp_all add: unat_mult_small)
  have t: "unat rl + unat (push_bit 32 rm0) = unat t + 2 ^ 64 * unat c"
    using unat_add_carry [of rl "push_bit 32 rm0"] by (simp add: t_def c_def)
  have l: "unat t + unat (push_bit 32 rm1) = unat lo + 2 ^ 64 * unat c1"
    using unat_add_carry [of t "push_bit 32 rm1"] by (simp add: lo_def c1_def)
  define h where "h = unat rh + unat (drop_bit 32 rm0) + unat (drop_bit 32 rm1) + (unat c + unat c1)"
  have "unat a * unat b = (unat la + 2 ^ 32 * unat ha) * (unat lb + 2 ^ 32 * unat hb)"
    using unat_halves(3) [of a] unat_halves(3) [of b] by (simp add: ha_def hb_def la_def lb_def)
  also have "\<dots> = unat rl + 2 ^ 32 * unat rm0 + 2 ^ 32 * unat rm1 + 2 ^ 64 * unat rh"
    unfolding p by (simp add: algebra_simps)
  also have "\<dots> = unat lo + 2 ^ 64 * h"
    using t l unat_push_drop [of rm0] unat_push_drop [of rm1] by (simp add: h_def)
  finally have eq: "unat a * unat b = unat lo + 2 ^ 64 * h" .
  have "unat a * unat b < 2 ^ 64 * 2 ^ 64"
    using unat_lt [of a] unat_lt [of b] by (intro mult_lt) simp_all
  with eq have "h < 2 ^ 64" by simp
  then have "unat (rh + drop_bit 32 rm0 + drop_bit 32 rm1 + (c + c1)) = h"
    unfolding h_def by (simp add: unat_word_ariths mod_simps)
  with eq show ?thesis by (simp add: w)
qed

lemma wymum_portable_eq: "wymum_portable a b = wymum a b"
proof -
  note n = wymum_portable_nat [of a b]
  have "unat (fst (wymum_portable a b)) = unat a * unat b mod 2 ^ 64"
    using unat_lt [of "fst (wymum_portable a b)"] by (simp flip: n)
  moreover have "unat (snd (wymum_portable a b)) = unat a * unat b div 2 ^ 64"
    using unat_lt [of "fst (wymum_portable a b)"] by (simp flip: n)
  ultimately show ?thesis by (simp add: prod_eq_iff word_unat_eq_iff wymum_nat)
qed

lemma wy2u0k_nat: "unat (wy2u0k r k) = unat r * unat k div 2 ^ 64"
  by (simp add: wy2u0k_def wymum_nat)

lemma wy2u0k_less:
  assumes "0 < k"
  shows "wy2u0k r k < k"
proof -
  have "0 < unat k" using assms by (simp add: word_less_nat_alt)
  then have "unat r * unat k < 2 ^ 64 * unat k" using unat_lt [of r] by simp
  then have "unat r * unat k div 2 ^ 64 < unat k" by (simp add: less_mult_imp_div_less mult.commute)
  then show ?thesis by (simp add: word_less_nat_alt wy2u0k_nat)
qed

section \<open>Reads\<close>

lemma rd_bytes_ok:
  "0 \<le> p \<Longrightarrow> p + int n \<le> int (length m) \<Longrightarrow> \<exists>bs. rd_bytes m p n = Some bs \<and> length bs = n"
  by (auto simp: rd_bytes_def)

lemma wyr_ok:
  "0 \<le> p \<Longrightarrow> p + 8 \<le> int (length m) \<Longrightarrow> \<exists>x. wyr8 m p = Some x"
  "0 \<le> p \<Longrightarrow> p + 4 \<le> int (length m) \<Longrightarrow> \<exists>x. wyr4 m p = Some x"
  using rd_bytes_ok [of p 8 m] rd_bytes_ok [of p 4 m] by (auto simp: wyr8_def wyr4_def)

lemma wy_round_ok:
  assumes "0 \<le> p" and "p + 16 \<le> int (length m)" and "j < length secret"
  shows "\<exists>x. wy_round m p (wy_at secret j) seed = Some x"
  using wyr_ok(1) [of p m] wyr_ok(1) [of "p + 8" m] assms by (auto simp: wy_round_def wy_at_def)

lemma wy_loop48_ok:
  "length secret = 4 \<Longrightarrow> 0 \<le> p \<Longrightarrow> p + int i = int (length m) \<Longrightarrow> 48 < i \<Longrightarrow>
    \<exists>p' i' s0 s1 s2. wy_loop48 m secret p i seed see1 see2 = Some (p', i', s0, s1, s2) \<and>
      0 \<le> p' \<and> p' + int i' = int (length m)"
proof (induction m secret p i seed see1 see2 rule: wy_loop48.induct)
  case (1 m secret p i seed see1 see2)
  note r = wy_round_ok [OF _ _, of _ m _ secret]
  from r [of p 1 seed] r [of "p + 16" 2 see1] r [of "p + 32" 3 see2] 1(2-5) obtain a b c where
    abc: "wy_round m p (wy_at secret 1) seed = Some a" "wy_round m (p + 16) (wy_at secret 2) see1 = Some b"
      "wy_round m (p + 32) (wy_at secret 3) see2 = Some c" by auto
  show ?case
  proof (cases "48 < i - 48")
    case True
    with 1(1) [OF abc True] 1(2-5) obtain p' i' s0 s1 s2 where
      "wy_loop48 m secret (p + 48) (i - 48) a b c = Some (p', i', s0, s1, s2)"
      "0 \<le> p'" "p' + int i' = int (length m)" by auto
    with abc True show ?thesis by (subst wy_loop48.simps) simp
  next
    case False
    with abc 1(2-5) show ?thesis by (subst wy_loop48.simps) simp
  qed
qed

lemma wy_loop16_ok:
  "length secret = 4 \<Longrightarrow> 0 \<le> p \<Longrightarrow> p + int i = int (length m) \<Longrightarrow>
    \<exists>p' i' s. wy_loop16 m secret p i seed = Some (p', i', s) \<and> 0 \<le> p' \<and> p' + int i' = int (length m)"
proof (induction m secret p i seed rule: wy_loop16.induct)
  case (1 m secret p i seed)
  show ?case
  proof (cases "16 < i")
    case True
    with wy_round_ok [of p m 1 secret seed] 1(2-4) obtain a where
      a: "wy_round m p (wy_at secret 1) seed = Some a" by auto
    with 1(1) [OF True a] 1(2-4) True obtain p' i' s where
      "wy_loop16 m secret (p + 16) (i - 16) a = Some (p', i', s)" "0 \<le> p'" "p' + int i' = int (length m)"
      by auto
    with a True show ?thesis by (subst wy_loop16.simps) simp
  next
    case False
    with 1(2-4) show ?thesis by (subst wy_loop16.simps) simp
  qed
qed

lemma wy_absorb_ok:
  assumes s: "length secret = 4"
  shows "\<exists>r. wy_absorb m (length m) seed secret = Some r"
proof -
  let ?n = "length m"
  consider "?n = 0" | "0 < ?n" "?n < 4" | "4 \<le> ?n" "?n \<le> 16" | "16 < ?n" by linarith
  then show ?thesis
  proof cases
    case 1
    then show ?thesis by (simp add: wy_absorb_def)
  next
    case 2
    then have "int (?n div 2) + 1 \<le> int ?n" by linarith
    with 2 rd_bytes_ok [of 0 1 m] rd_bytes_ok [of "int (?n div 2)" 1 m] rd_bytes_ok [of "int ?n - 1" 1 m]
    show ?thesis by (auto simp: wy_absorb_def wyr3_def)
  next
    case 3
    then have "?n div 8 * 4 + 4 \<le> ?n" by presburger
    with 3 wyr_ok(2) [of 0 m] wyr_ok(2) [of "int (?n div 8 * 4)" m] wyr_ok(2) [of "int ?n - 4" m]
      wyr_ok(2) [of "int ?n - 4 - int (?n div 8 * 4)" m]
    show ?thesis by (auto simp: wy_absorb_def)
  next
    case 4
    have "\<exists>p i s1. (if 48 < ?n then
        do { (p, i, s0, s1, s2) \<leftarrow> wy_loop48 m secret 0 ?n seed seed seed; Some (p, i, s0 XOR (s1 XOR s2)) }
      else Some (0, ?n, seed)) = Some (p, i, s1) \<and> 0 \<le> p \<and> p + int i = int ?n"
      using wy_loop48_ok [OF s, of 0 ?n m seed seed seed] by auto
    then obtain p i s1 where a: "(if 48 < ?n then
        do { (p, i, s0, s1, s2) \<leftarrow> wy_loop48 m secret 0 ?n seed seed seed; Some (p, i, s0 XOR (s1 XOR s2)) }
      else Some (0, ?n, seed)) = Some (p, i, s1)" "0 \<le> p" "p + int i = int ?n" by blast
    from wy_loop16_ok [OF s a(2,3), of s1] obtain p' i' s2 where
      b: "wy_loop16 m secret p i s1 = Some (p', i', s2)" "0 \<le> p'" "p' + int i' = int ?n" by blast
    from wyr_ok(1) [of "p' + int i' - 16" m] wyr_ok(1) [of "p' + int i' - 8" m] b(3) 4 obtain x y where
      "wyr8 m (p' + int i' - 16) = Some x" "wyr8 m (p' + int i' - 8) = Some y" by auto
    with 4 a(1) b(1) show ?thesis by (simp add: wy_absorb_def)
  qed
qed

lemma wyhash_total:
  assumes "length secret = 4"
  shows "\<exists>h. wyhash m (length m) seed secret = Some h"
proof -
  from wy_absorb_ok [OF assms, of m "seed XOR wymix (seed XOR secret ! 0) (secret ! 1)"] obtain r where
    "wy_absorb m (length m) (seed XOR wymix (seed XOR secret ! 0) (secret ! 1)) secret = Some r" by blast
  with assms show ?thesis by (cases r) (simp add: wyhash_def wy_at_def case_prod_beta)
qed


section \<open>Byte order\<close>

lemma be_word_rev: "be_word bs = le_word (rev bs)"
  by (simp add: be_word_def le_word_def foldr_conv_foldl)

lemma bit_le_word:
  "length bs \<le> 8 \<Longrightarrow> bit (le_word bs) n \<longleftrightarrow> n < 8 * length bs \<and> bit (bs ! (n div 8)) (n mod 8)"
proof (induction bs arbitrary: n)
  case Nil
  then show ?case by (simp add: le_word_def)
next
  case (Cons b bs)
  have c: "le_word (b # bs) = push_bit 8 (le_word bs) OR ucast b" by (simp add: le_word_def)
  show ?case
  proof (cases "n < 8")
    case True
    then show ?thesis using Cons.prems by (simp add: c bit_or_iff bit_push_bit_iff bit_ucast_iff)
  next
    case False
    then obtain m where n: "n = 8 + m" using le_Suc_ex not_less by blast
    have d: "(8 + m) div 8 = Suc (m div 8)" "(8 + m) mod 8 = m mod 8" by simp_all
    have nb: "\<not> bit b (8 + m)" by (intro impossible_bit) simp
    have "bit (le_word (b # bs)) (8 + m) \<longleftrightarrow> 8 + m < 64 \<and> bit (le_word bs) m"
      using nb by (simp only: c bit_or_iff bit_push_bit_iff bit_ucast_iff) auto
    also have "\<dots> \<longleftrightarrow> 8 + m < 8 * length (b # bs) \<and> bit (bs ! (m div 8)) (m mod 8)"
      using Cons.IH [of m] Cons.prems by auto
    finally show ?thesis by (simp only: n d nth_Cons_Suc)
  qed
qed

text \<open>Byte masks, and the bits that a swap moves.\<close>

lemma bit_byte_mask:
  "bit (push_bit k (mask 8 :: u64)) n \<longleftrightarrow> n < 64 \<and> k \<le> n \<and> n < k + 8"
  by (auto simp only: bit_push_bit_iff bit_mask_iff) auto

lemma byte_masks:
  "(0xff :: u64) = push_bit 0 (mask 8)" "(0xff00 :: u64) = push_bit 8 (mask 8)" 
  "(0xff0000 :: u64) = push_bit 16 (mask 8)" "(0xff000000 :: u64) = push_bit 24 (mask 8)"
  "(0xff00000000 :: u64) = push_bit 32 (mask 8)" "(0xff0000000000 :: u64) = push_bit 40 (mask 8)"
  "(0xff000000000000 :: u64) = push_bit 48 (mask 8)" "(0xff00000000000000 :: u64) = push_bit 56 (mask 8)"
  by (simp_all add: mask_eq_exp_minus_1)

lemma bit_swap_terms:
  "bit (drop_bit s v AND push_bit k (mask 8 :: u64)) n \<longleftrightarrow> k \<le> n \<and> n < k + 8 \<and> bit v (s + n)"
  "bit (push_bit s v AND push_bit k (mask 8 :: u64)) n \<longleftrightarrow> k \<le> n \<and> n < k + 8 \<and> n < 64 \<and> s \<le> n \<and> bit v (n - s)"
  unfolding bit_and_iff bit_byte_mask
  unfolding bit_push_bit_iff bit_drop_bit_eq
  by (auto dest: bit_imp_le_length)

lemma bit_swap8:
  assumes "q < 8" and r: "r < 8"
  shows "bit (wyswap8 v) (8 * q + r) \<longleftrightarrow> bit v (8 * (7 - q) + r)"
proof -
  from assms(1) consider "q = 0" | "q = 1" | "q = 2" | "q = 3" | "q = 4" | "q = 5" | "q = 6" | "q = 7" by linarith
  then show ?thesis
    unfolding wyswap8_def byte_masks bit_or_iff bit_swap_terms
    using r by cases simp_all
qed

lemma swap8_be:
  assumes "length bs = 8"
  shows "wyswap8 (be_word bs) = le_word bs"
proof (rule bit_word_eqI)
  fix n assume "n < LENGTH(64)"
  then have n: "n < 64" by simp
  have d: "(8 * (7 - n div 8) + n mod 8) div 8 = 7 - n div 8" "(8 * (7 - n div 8) + n mod 8) mod 8 = n mod 8" by simp_all
  have l: "8 * (7 - n div 8) + n mod 8 < 64" "7 - n div 8 < 8" using n by simp_all
  have "rev bs ! (7 - n div 8) = bs ! (n div 8)"
    using n assms l by (simp add: rev_nth less_mult_imp_div_less)
  then show "bit (wyswap8 (be_word bs)) n = bit (le_word bs) n"
    using n assms l bit_swap8 [of "n div 8" "n mod 8" "be_word bs"] by (simp add: be_word_rev bit_le_word d)
qed


lemma bit_swap4_terms:
  "bit (drop_bit s v AND push_bit k (mask 8 :: u32)) n \<longleftrightarrow> k \<le> n \<and> n < k + 8 \<and> bit v (s + n)"
  "bit (push_bit s v AND push_bit k (mask 8 :: u32)) n \<longleftrightarrow> k \<le> n \<and> n < k + 8 \<and> n < 32 \<and> s \<le> n \<and> bit v (n - s)"
proof -
  have m: "bit (push_bit k (mask 8 :: u32)) n \<longleftrightarrow> n < 32 \<and> k \<le> n \<and> n < k + 8"
    by (auto simp only: bit_push_bit_iff bit_mask_iff) auto
  show "bit (drop_bit s v AND push_bit k (mask 8 :: u32)) n \<longleftrightarrow> k \<le> n \<and> n < k + 8 \<and> bit v (s + n)"
    "bit (push_bit s v AND push_bit k (mask 8 :: u32)) n \<longleftrightarrow> k \<le> n \<and> n < k + 8 \<and> n < 32 \<and> s \<le> n \<and> bit v (n - s)"
    unfolding bit_and_iff m
    unfolding bit_push_bit_iff bit_drop_bit_eq by (auto dest: bit_imp_le_length)
qed

lemma bit_swap4:
  assumes "q < 4" and r: "r < 8"
  shows "bit (wyswap4 v) (8 * q + r) \<longleftrightarrow> bit v (8 * (3 - q) + r)"
proof -
  have masks: "(0xff :: u32) = push_bit 0 (mask 8)" "(0xff00 :: u32) = push_bit 8 (mask 8)"
    "(0xff0000 :: u32) = push_bit 16 (mask 8)" "(0xff000000 :: u32) = push_bit 24 (mask 8)"
    by (simp_all add: mask_eq_exp_minus_1)
  from assms(1) consider "q = 0" | "q = 1" | "q = 2" | "q = 3" by linarith
  then show ?thesis
    unfolding wyswap4_def masks bit_or_iff bit_swap4_terms
    using r by cases simp_all
qed

lemma swap4_be:
  assumes "length bs = 4"
  shows "ucast (wyswap4 (ucast (be_word bs))) = le_word bs"
proof (rule bit_word_eqI)
  fix n assume "n < LENGTH(64)"
  show "bit (ucast (wyswap4 (ucast (be_word bs))) :: u64) n = bit (le_word bs) n"
  proof (cases "n < 32")
    case True
    have d: "(8 * (3 - n div 8) + n mod 8) div 8 = 3 - n div 8" "(8 * (3 - n div 8) + n mod 8) mod 8 = n mod 8"
      by simp_all
    have l: "8 * (3 - n div 8) + n mod 8 < 32" "3 - n div 8 < 4" using True by simp_all
    have "rev bs ! (3 - n div 8) = bs ! (n div 8)"
      using True assms l by (simp add: rev_nth less_mult_imp_div_less)
    then show ?thesis
      using True assms l bit_swap4 [of "n div 8" "n mod 8" "ucast (be_word bs)"]
      by (simp add: be_word_rev bit_le_word d bit_ucast_iff)
  next
    case False
    then have "\<not> bit (wyswap4 (ucast (be_word bs))) n" by (intro impossible_bit) simp
    with False show ?thesis using assms by (simp add: bit_ucast_iff bit_le_word)
  qed
qed

lemma wyr_be_eq: "wyr8_be m p = wyr8 m p" "wyr4_be m p = wyr4 m p"
proof -
  have "length bs = n" if "rd_bytes m p n = Some bs" for bs n
    using that by (auto simp: rd_bytes_def split: if_splits)
  then show "wyr8_be m p = wyr8 m p" "wyr4_be m p = wyr4 m p"
    by (auto simp: wyr8_be_def wyr8_def wyr4_be_def wyr4_def swap8_be swap4_be
        intro!: option.map_cong)
qed

section \<open>Secrets\<close>

text \<open>The seed after \<open>n\<close> draws.\<close>

primrec wy_seeds :: "u64 \<Rightarrow> nat \<Rightarrow> u64" where
  "wy_seeds seed 0 = seed"
| "wy_seeds seed (Suc n) = snd (wy_draw 0 0 (wy_seeds seed n))"

lemma wy_seeds_shift: "wy_seeds (snd (wy_draw 0 0 seed)) n = wy_seeds seed (Suc n)"
  by (induction n) simp_all

lemma make_secret_one_found:
  "wy_accept prev (fst (wy_draw 0 0 (wy_seeds seed n))) \<Longrightarrow>
    (\<And>m. m < n \<Longrightarrow> \<not> wy_accept prev (fst (wy_draw 0 0 (wy_seeds seed m)))) \<Longrightarrow>
    make_secret_one prev seed = Some (wy_draw 0 0 (wy_seeds seed n))"
proof (induction n arbitrary: seed)
  case 0
  then show ?case by (subst make_secret_one.simps) (simp add: case_prod_beta)
next
  case (Suc n)
  let ?s = "snd (wy_draw 0 0 seed)"
  have "make_secret_one prev ?s = Some (wy_draw 0 0 (wy_seeds ?s n))"
    using Suc.prems(2) [of "Suc _"] Suc.prems(1)
    by (intro Suc.IH) (simp_all only: wy_seeds_shift Suc_less_eq not_False_eq_True simp_thms)
  moreover have "\<not> wy_accept prev (fst (wy_draw 0 0 seed))" using Suc.prems(2) [of 0] by simp
  ultimately show ?case
    by (subst make_secret_one.simps) (simp add: case_prod_beta wy_seeds_shift del: wy_seeds.simps)
qed

lemma make_secret_one_returns:
  assumes "make_secret_one prev seed = Some r"
  shows "\<exists>n. wy_accept prev (fst (wy_draw 0 0 (wy_seeds seed n)))"
proof (rule make_secret_one.raw_induct [OF _ assms, where P = "\<lambda>prev seed r.
    \<exists>n. wy_accept prev (fst (wy_draw 0 0 (wy_seeds seed n)))"])
  fix f prev seed r
  assume IH: "\<And>prev seed (r :: u64 \<times> u64). f prev seed = Some r \<Longrightarrow>
      \<exists>n. wy_accept prev (fst (wy_draw 0 0 (wy_seeds seed n)))"
    and step: "(let (x, seed') = wy_draw 0 0 seed
      in if wy_accept prev x then Some (x, seed') else f prev seed') = Some r"
  show "\<exists>n. wy_accept prev (fst (wy_draw 0 0 (wy_seeds seed n)))"
  proof (cases "wy_accept prev (fst (wy_draw 0 0 seed))")
    case True
    then show ?thesis by (intro exI [of _ 0]) simp
  next
    case False
    with step have "f prev (snd (wy_draw 0 0 seed)) = Some r" by (simp add: case_prod_beta)
    from IH [OF this] show ?thesis unfolding wy_seeds_shift by blast
  qed
qed

lemma make_secret_one_eq:
  "make_secret_one prev seed =
    (if \<exists>n. wy_accept prev (fst (wy_draw 0 0 (wy_seeds seed n)))
     then Some (wy_draw 0 0 (wy_seeds seed (LEAST n. wy_accept prev (fst (wy_draw 0 0 (wy_seeds seed n))))))
     else None)"
proof (cases "\<exists>n. wy_accept prev (fst (wy_draw 0 0 (wy_seeds seed n)))")
  case True
  let ?acc = "\<lambda>n. wy_accept prev (fst (wy_draw 0 0 (wy_seeds seed n)))"
  from True have "make_secret_one prev seed = Some (wy_draw 0 0 (wy_seeds seed (LEAST n. ?acc n)))"
    by (intro make_secret_one_found LeastI_ex [of ?acc] not_less_Least [of _ ?acc])
  with True show ?thesis by simp
next
  case False
  with make_secret_one_returns have "make_secret_one prev seed = None"
    by (cases "make_secret_one prev seed") blast+
  with False show ?thesis by simp
qed


lemma wy_table_nth: "r < 70 \<Longrightarrow> wy_table ! r \<in> set wy_table"
  by (intro nth_mem) (simp add: wy_table_def)

lemma wy_draw_bytes:
  "j = 8 * k \<Longrightarrow> k \<le> 8 \<Longrightarrow>
    \<exists>bs. length bs = 8 - k \<and> set bs \<subseteq> set wy_table \<and> fst (wy_draw j acc seed) = acc OR push_bit j (le_word bs)"
proof (induction "8 - k" arbitrary: j k acc seed)
  case 0
  then show ?case by (intro exI [of _ "[]"], subst wy_draw.simps) (simp add: le_word_def)
next
  case (Suc n)
  then have k: "k < 8" "8 - Suc k = n" by simp_all
  let ?r = "fst (wyrand seed)" and ?s = "snd (wyrand seed)"
  let ?b = "wy_table ! unat (?r mod 70)"
  have "n = 8 - Suc k" "j + 8 = 8 * Suc k" "Suc k \<le> 8" using k Suc.prems by simp_all
  from Suc.hyps(1) [OF this, of "acc OR push_bit j (ucast ?b)" ?s] k(2) obtain bs where
    bs: "length bs = n" "set bs \<subseteq> set wy_table"
      "fst (wy_draw (j + 8) (acc OR push_bit j (ucast ?b)) ?s) =
        (acc OR push_bit j (ucast ?b)) OR push_bit (j + 8) (le_word bs)" by metis
  have "?b \<in> set wy_table" by (intro wy_table_nth) (simp add: unat_mod)
  moreover have "fst (wy_draw j acc seed) = acc OR push_bit j (le_word (?b # bs))"
  proof -
    have "le_word (?b # bs) = push_bit 8 (le_word bs) OR ucast ?b" by (simp add: le_word_def)
    then have "push_bit j (le_word (?b # bs)) = push_bit (j + 8) (le_word bs) OR push_bit j (ucast ?b)"
      by (simp only: push_bit_or push_bit_push_bit)
    moreover have "j < 64" using k(1) Suc.prems by simp
    ultimately show ?thesis
      using bs(3) by (subst wy_draw.simps) (simp add: case_prod_beta ac_simps)
  qed
  ultimately show ?case using bs(1,2) k(1) Suc.hyps(2) by (intro exI [of _ "?b # bs"]) auto
qed

lemma filter_le_word:
  "length bs \<le> 8 \<Longrightarrow> m \<le> length bs \<Longrightarrow>
    length (filter (bit (le_word bs)) [0..<8 * m]) = (\<Sum>b\<leftarrow>take m bs. length (filter (bit b) [0..<8]))"
proof (induction m)
  case 0
  then show ?case by simp
next
  case (Suc m)
  have "[0..<8 * Suc m] = [0..<8 * m] @ map ((+) (8 * m)) [0..<8]"
    using upt_add_eq_append [of 0 "8 * m" 8] map_add_upt [of "8 * m" 8]
    by (simp add: add.commute [of _ "8 * m"] del: map_add_upt)
  moreover have "filter (bit (le_word bs) \<circ> (+) (8 * m)) [0..<8] = filter (bit (bs ! m)) [0..<8]"
    using Suc.prems by (intro filter_cong) (simp_all add: bit_le_word)
  ultimately show ?case
    using Suc by (simp add: filter_map take_Suc_conv_app_nth)
qed

lemma wy_draw_popcount: "popcount (fst (wy_draw 0 0 seed)) = 32"
proof -
  from wy_draw_bytes [of 0 0 0 seed] obtain bs where
    bs: "length bs = 8" "set bs \<subseteq> set wy_table" "fst (wy_draw 0 0 seed) = le_word bs" by auto
  have "\<forall>b \<in> set wy_table. length (filter (bit b) [0..<8]) = 4" by code_simp
  with bs(2) have "map (\<lambda>b. length (filter (bit b) [0..<8])) bs = map (\<lambda>b. 4) bs" by auto
  with bs(1) filter_le_word [of bs 8] show ?thesis
    by (simp add: popcount_def bs(3) map_replicate_const sum_list_replicate)
qed

definition wy_secret_ok :: "u64 list \<Rightarrow> bool" where
  "wy_secret_ok ss \<longleftrightarrow> (\<forall>x \<in> set ss. x mod 2 \<noteq> 0 \<and> popcount x = 32) \<and>
     (\<forall>j < length ss. \<forall>i < j. popcount (ss ! i XOR ss ! j) = 32)"

lemma make_secrets_ok:
  "wy_secret_ok prev \<Longrightarrow> make_secrets n prev seed = Some ss \<Longrightarrow> wy_secret_ok ss \<and> length ss = n + length prev"
proof (induction n arbitrary: prev seed)
  case 0
  then show ?case by simp
next
  case (Suc n)
  from Suc.prems(2) obtain x s where
    one: "make_secret_one prev seed = Some (x, s)" and rest: "make_secrets n (prev @ [x]) s = Some ss"
    by (auto simp: bind_Some_iff)
  let ?acc = "\<lambda>n. wy_accept prev (fst (wy_draw 0 0 (wy_seeds seed n)))"
  from make_secret_one_returns [OF one] have "?acc (LEAST n. ?acc n)" by (rule LeastI_ex)
  moreover from make_secret_one_returns [OF one] one
  have "wy_draw 0 0 (wy_seeds seed (LEAST n. ?acc n)) = (x, s)" by (simp add: make_secret_one_eq)
  ultimately have "wy_accept prev x" "popcount x = 32"
    using wy_draw_popcount by (metis fst_conv)+
  with Suc.prems(1) have "wy_secret_ok (prev @ [x])"
    by (auto simp: wy_secret_ok_def wy_accept_def nth_append less_Suc_eq)
  from Suc.IH [OF this rest] show ?case by simp
qed


text \<open>The default hash of a table that \<open>fh_create\<close> has set up is defined for each key, so that the
  parameter \<open>wy\<close> of \<open>fh_create\<close> can be \<open>\<lambda>k. the (wyhash_key st k)\<close>.\<close>

lemma wyhash_key_total:
  assumes "wyhash_hash_init now = Some st"
  shows "\<exists>h. wyhash_key st key = Some h"
proof -
  from assms obtain ss where "make_secret (word_of_int now) = Some ss" "st = (word_of_int now, ss)"
    by (auto simp: wyhash_hash_init_def bind_Some_iff)
  moreover from this have "length ss = 4"
    using make_secrets_ok [of "[]" 4 "word_of_int now" ss] by (auto simp: make_secret_def wy_secret_ok_def)
  ultimately show ?thesis
    using wyhash_total [of ss "cbytes key" "word_of_int now"] by (simp add: wyhash_key_def strlen_def)
qed

section \<open>Properties\<close>

text \<open>C29: without 128-bit integers the four partial products and the carries between them give the
  same two words as the 128-bit multiplication, which are the full product.\<close>

theorem wymum_portable_correct:
  "wymum_portable a b = wymum a b \<and>
    unat (fst (wymum a b)) + 2 ^ 64 * unat (snd (wymum a b)) = unat a * unat b"
  using wymum_portable_nat [of a b] by (simp add: wymum_portable_eq)

text \<open>C31: hashing reads no byte outside the key, whatever its length, so that the hash of each key
  is defined; a terminator is not needed.\<close>

theorem wyhash_reads_inside:
  assumes "length secret = 4"
  shows "\<exists>h. wyhash m (length m) seed secret = Some h"
  using assms by (rule wyhash_total)

text \<open>What a big-endian machine reads, swapped, is what a little-endian one reads, so that both
  compute the same hashes.\<close>

theorem wyr_byte_order: "wyr8_be m p = wyr8 m p \<and> wyr4_be m p = wyr4 m p"
  using wyr_be_eq by blast

text \<open>\<open>wy2u0k\<close> scales a random word into the range below \<open>k\<close> without a division.\<close>

theorem wy2u0k_correct:
  assumes "0 < k"
  shows "wy2u0k r k < k \<and> unat (wy2u0k r k) = unat r * unat k div 2 ^ 64"
  using wy2u0k_less [OF assms] wy2u0k_nat by blast

text \<open>C32: the loop for one secret returns exactly when the generator comes to a draw that is
  accepted, and then with the first such draw; the four secrets of \<open>make_secret\<close> are odd, have 32
  bits set each, and any two of them differ in 32 bits.\<close>

theorem make_secret_correct:
  "make_secret_one prev seed =
    (if \<exists>n. wy_accept prev (fst (wy_draw 0 0 (wy_seeds seed n)))
     then Some (wy_draw 0 0 (wy_seeds seed (LEAST n. wy_accept prev (fst (wy_draw 0 0 (wy_seeds seed n))))))
     else None) \<and>
   (make_secret seed = Some ss \<longrightarrow> length ss = 4 \<and>
      (\<forall>x \<in> set ss. x mod 2 \<noteq> 0 \<and> popcount x = 32) \<and>
      (\<forall>j < 4. \<forall>i < j. popcount (ss ! i XOR ss ! j) = 32))"
  using make_secrets_ok [of "[]" 4 seed ss]
  by (auto simp: make_secret_def wy_secret_ok_def make_secret_one_eq)

section \<open>Witnesses\<close>

theorem wyhash_reads_inside_witness:
  "wyhash [97, 98, 99] 3 2 wyp = Some 0x32dd92e4b2915153 \<and>
    (\<exists>h. wyhash (replicate 100 97) 100 5 wyp = Some h)"
proof -
  have "wyhash [97, 98, 99] 3 2 wyp = Some 0x32dd92e4b2915153" by code_simp
  moreover have "\<exists>h. wyhash (replicate 100 97) (length (replicate 100 97 :: byte list)) 5 wyp = Some h"
    by (rule wyhash_reads_inside) (simp add: wyp_def)
  ultimately show ?thesis by simp
qed

theorem wy2u0k_correct_witness: "wy2u0k 0xe7037ed1a0b428db 10 < 10 \<and> wy2u0k 0xe7037ed1a0b428db 10 = 9"
proof -
  have "wy2u0k 0xe7037ed1a0b428db 10 < 10" using wy2u0k_correct [of 10] by simp
  moreover have "wy2u0k 0xe7037ed1a0b428db 10 = 9" by (simp add: wy2u0k_def wymum_def)
  ultimately show ?thesis by simp
qed

text \<open>A seed for which the first four draws are accepted.\<close>

lemma ex_draw0: "make_secret_one [] 11981 = Some (0x630fe86a4be8d155, 0x3b0eb23c5eb5045)"
proof -
  have "wy_draw 0 0 11981 = (0x630fe86a4be8d155, 0x3b0eb23c5eb5045)" by code_simp
  moreover have "wy_accept [] 0x630fe86a4be8d155" by code_simp
  ultimately show ?thesis by (subst make_secret_one.simps) simp
qed

lemma ex_draw1: "make_secret_one [0x630fe86a4be8d155] 0x3b0eb23c5eb5045 = Some (0xd11e87e1b1a5c9c9, 0x761d6478bd671bd)"
proof -
  have "wy_draw 0 0 0x3b0eb23c5eb5045 = (0xd11e87e1b1a5c9c9, 0x761d6478bd671bd)" by code_simp
  moreover have "wy_accept [0x630fe86a4be8d155] 0xd11e87e1b1a5c9c9" by code_simp
  ultimately show ?thesis by (subst make_secret_one.simps) simp
qed

lemma ex_draw2: "make_secret_one [0x630fe86a4be8d155, 0xd11e87e1b1a5c9c9] 0x761d6478bd671bd = Some (0xaa33d1b8743c4759, 0xb12c16b51c19335)"
proof -
  have "wy_draw 0 0 0x761d6478bd671bd = (0xaa33d1b8743c4759, 0xb12c16b51c19335)" by code_simp
  moreover have "wy_accept [0x630fe86a4be8d155, 0xd11e87e1b1a5c9c9] 0xaa33d1b8743c4759" by code_simp
  ultimately show ?thesis by (subst make_secret_one.simps) simp
qed

lemma ex_draw3: "make_secret_one [0x630fe86a4be8d155, 0xd11e87e1b1a5c9c9, 0xaa33d1b8743c4759] 0xb12c16b51c19335 = Some (0x2da9c5a6acc5e133, 0xec3ac8f17acb4ad)"
proof -
  have "wy_draw 0 0 0xb12c16b51c19335 = (0x2da9c5a6acc5e133, 0xec3ac8f17acb4ad)" by code_simp
  moreover have "wy_accept [0x630fe86a4be8d155, 0xd11e87e1b1a5c9c9, 0xaa33d1b8743c4759] 0x2da9c5a6acc5e133" by code_simp
  ultimately show ?thesis by (subst make_secret_one.simps) simp
qed

lemma ex_secret:
  "make_secret 11981 = Some [0x630fe86a4be8d155, 0xd11e87e1b1a5c9c9, 0xaa33d1b8743c4759, 0x2da9c5a6acc5e133]"
  by (simp add: make_secret_def eval_nat_numeral ex_draw0 ex_draw1 ex_draw2 ex_draw3)

theorem make_secret_correct_witness:
  "\<exists>ss. make_secret 11981 = Some ss \<and> length ss = 4 \<and> (\<forall>x \<in> set ss. popcount x = 32) \<and>
    popcount (ss ! 0 XOR ss ! 3) = 32"
proof -
  from ex_secret obtain ss where ss: "make_secret 11981 = Some ss" by blast
  with make_secret_correct [of "[]" 11981 ss] show ?thesis by auto
qed

end
