(* ===== verification/WyhashCount.thy ===== *)
theory WyhashCount
  imports WyhashSpec
begin

unbundle bit_operations_syntax

text \<open>
  The rest of wyhash.h: the count of bits without a built-in function, byte by byte, and the ranges
  of the numbers that \<open>wy2u01\<close> and \<open>wy2gau\<close> make.
\<close>

section \<open>Words as lists of bytes\<close>

lemma unat_byte [simp]: "unat (ucast (b :: byte) :: u64) = unat b"
proof -
  have "unat b < 2 ^ 64" using unat_lt [of b] by simp
  then show ?thesis by (simp add: unsigned_ucast_eq take_bit_nat_eq_self)
qed

lemma le_word_Cons: "le_word (b # bs) = ucast b + 256 * le_word bs"
proof -
  have "le_word (b # bs) = push_bit 8 (le_word bs) OR ucast b" by (simp add: le_word_def)
  also have "\<dots> = push_bit 8 (le_word bs) + ucast b"
    by (rule disjunctive_add_eq_or [symmetric], rule bit_word_eqI)
      (auto simp: bit_and_iff bit_push_bit_iff bit_ucast_iff dest: bit_imp_le_length)
  finally show ?thesis by (simp add: push_bit_eq_mult)
qed

lemma le_word_Nil [simp]: "le_word [] = 0"
  by (simp add: le_word_def)

lemma bit_le_word_at:
  assumes "length bs = 8" and "q < 8" and "r < 8"
  shows "bit (le_word bs) (8 * q + r) \<longleftrightarrow> bit (bs ! q) r"
proof -
  have d: "(8 * q + r) div 8 = q" "(8 * q + r) mod 8 = r" using assms by simp_all
  have "8 * q + r < 64" using assms by linarith
  with assms(1) show ?thesis by (simp only: bit_le_word [of bs] d) simp
qed

lemma le_word_eqI:
  fixes x :: u64
  assumes "length bs = 8" and bits: "\<And>q r. q < 8 \<Longrightarrow> r < 8 \<Longrightarrow> bit x (8 * q + r) \<longleftrightarrow> bit (bs ! q) r"
  shows "x = le_word bs"
proof (rule bit_word_eqI)
  fix n assume "n < LENGTH(64)"
  then have q: "n div 8 < 8" "n mod 8 < 8" by simp_all
  have "8 * (n div 8) + n mod 8 = n" by simp
  with bits [OF q] bit_le_word_at [OF assms(1) q] show "bit x n = bit (le_word bs) n" by (simp only:)
qed

lemma le_word_bytes:
  fixes x :: u64
  obtains bs where "length bs = 8" "x = le_word bs"
proof
  let ?bs = "map (\<lambda>i. ucast (drop_bit (8 * i) x) :: byte) [0..<8]"
  show "length ?bs = 8" by simp
  show "x = le_word ?bs"
    by (rule le_word_eqI) (simp_all add: bit_ucast_iff bit_drop_bit_eq)
qed

text \<open>A shift and a mask that keep the bits of each byte inside it.\<close>

lemma le_word_shift_mask:
  assumes l: "length bs = 8" and m: "\<And>r. r < 8 \<Longrightarrow> bit m r \<Longrightarrow> s + r < 8"
  shows "drop_bit s (le_word bs) AND le_word (replicate 8 m) = le_word (map (\<lambda>b. drop_bit s b AND m) bs)"
proof (rule le_word_eqI)
  show "length (map (\<lambda>b. drop_bit s b AND m) bs) = 8" using l by simp
  fix q r :: nat assume q: "q < 8" and r: "r < 8"
  have e: "s + (8 * q + r) = 8 * q + (s + r)" by simp
  have x: "bit (le_word bs) (s + (8 * q + r)) \<longleftrightarrow> bit (bs ! q) (s + r)" if "bit m r"
    unfolding e using bit_le_word_at [OF l q m [OF r that]] .
  have y: "bit (le_word (replicate 8 m)) (8 * q + r) \<longleftrightarrow> bit m r"
    using bit_le_word_at [of "replicate 8 m" q r] q r by simp
  have z: "map (\<lambda>b. drop_bit s b AND m) bs ! q = drop_bit s (bs ! q) AND m" using l q by simp
  show "bit (drop_bit s (le_word bs) AND le_word (replicate 8 m)) (8 * q + r) =
      bit (map (\<lambda>b. drop_bit s b AND m) bs ! q) r"
    unfolding z bit_and_iff bit_drop_bit_eq comp_def y using x by blast
qed

lemma le_word_add:
  "length bs = length cs \<Longrightarrow> (\<forall>(b, c) \<in> set (zip bs cs). unat b + unat c < 256) \<Longrightarrow>
    le_word bs + le_word cs = le_word (map2 (+) bs cs)"
proof (induction bs cs rule: list_induct2)
  case (Cons b bs c cs)
  then have "ucast (b + c) = (ucast b + ucast c :: u64)"
    by (intro word_unat_eq_iff [THEN iffD2]) (simp add: unat_word_ariths del: unsigned_ucast_eq)
  moreover have "(x + 256 * p) + (y + 256 * q) = (x + y) + 256 * (p + q)" for x y p q :: u64
    by (simp add: algebra_simps)
  ultimately have "le_word (b # bs) + le_word (c # cs) = ucast (b + c) + 256 * (le_word bs + le_word cs)"
    by (simp only: le_word_Cons)
  moreover from Cons have "le_word bs + le_word cs = le_word (map2 (+) bs cs)" by simp
  ultimately show ?case by (simp add: le_word_Cons)
qed simp

lemma le_word_diff:
  "length bs = length cs \<Longrightarrow> (\<forall>(b, c) \<in> set (zip bs cs). c \<le> b) \<Longrightarrow>
    le_word bs - le_word cs = le_word (map2 (-) bs cs)"
proof (induction bs cs rule: list_induct2)
  case (Cons b bs c cs)
  then have "ucast (b - c) = (ucast b - ucast c :: u64)"
    by (intro word_unat_eq_iff [THEN iffD2]) (simp add: unat_sub_if' word_le_nat_alt)
  with Cons show ?case by (simp add: le_word_Cons algebra_simps)
qed simp

text \<open>A shift by half a byte, which brings in the low half of the next one.\<close>

lemma le_word_shift4:
  assumes l: "length bs = 8"
  shows "drop_bit 4 (le_word bs) = le_word (map2 (\<lambda>b c. drop_bit 4 b OR push_bit 4 c) bs (tl bs @ [0]))"
proof (rule le_word_eqI)
  show "length (map2 (\<lambda>b c. drop_bit 4 b OR push_bit 4 c) bs (tl bs @ [0])) = 8" using l by simp
  fix q r :: nat assume q: "q < 8" and r: "r < 8"
  let ?c = "(tl bs @ [0]) ! q"
  have e: "map2 (\<lambda>b c. drop_bit 4 b OR push_bit 4 c) bs (tl bs @ [0]) ! q = drop_bit 4 (bs ! q) OR push_bit 4 ?c"
    using l q by simp
  have "bit (le_word bs) (4 + (8 * q + r)) \<longleftrightarrow> bit (drop_bit 4 (bs ! q) OR push_bit 4 ?c) r"
  proof (cases "r < 4")
    case True
    have "4 + (8 * q + r) = 8 * q + (4 + r)" by simp
    with bit_le_word_at [OF l q, of "4 + r"] True show ?thesis
      by (simp only:) (simp add: bit_or_iff bit_drop_bit_eq bit_push_bit_iff)
  next
    case False
    have n: "\<not> bit (bs ! q) (4 + r)" using False by (intro impossible_bit) simp
    have s: "4 + (8 * q + r) = 8 * Suc q + (r - 4)" using False by simp
    show ?thesis
    proof (cases "q < 7")
      case True
      then have "?c = bs ! Suc q" using l by (simp add: nth_append nth_tl)
      with bit_le_word_at [OF l, of "Suc q" "r - 4"] True False r n show ?thesis
        unfolding s by (simp add: bit_or_iff bit_drop_bit_eq bit_push_bit_iff)
    next
      case q7: False
      then have "?c = 0" using l q by (simp add: nth_append)
      moreover have "\<not> bit (le_word bs) (8 * Suc q + (r - 4))" using q7 by (intro impossible_bit) simp
      ultimately show ?thesis using n unfolding s by (simp add: bit_or_iff bit_drop_bit_eq)
    qed
  qed
  then show "bit (drop_bit 4 (le_word bs)) (8 * q + r) =
      bit (map2 (\<lambda>b c. drop_bit 4 b OR push_bit 4 c) bs (tl bs @ [0]) ! q) r"
    by (simp only: e bit_drop_bit_eq comp_def)
qed

section \<open>The count\<close>

definition byte_pairs :: "byte \<Rightarrow> byte" where
  "byte_pairs b = b - (drop_bit 1 b AND 0x55)"

definition byte_halves :: "byte \<Rightarrow> byte" where
  "byte_halves b = (byte_pairs b AND 0x33) + (drop_bit 2 (byte_pairs b) AND 0x33)"

definition byte_count :: "byte \<Rightarrow> nat" where
  "byte_count b = length (filter (bit b) [0..<8])"

text \<open>What is checked of every byte.\<close>

definition byte_ok :: "byte \<Rightarrow> bool" where
  "byte_ok b \<longleftrightarrow> drop_bit 1 b AND 0x55 \<le> b \<and>
     byte_pairs b AND 0x33 \<le> 0x33 \<and> drop_bit 2 (byte_pairs b) AND 0x33 \<le> 0x33 \<and>
     byte_halves b AND 0x0f \<le> 4 \<and> drop_bit 4 (byte_halves b) \<le> 4 \<and>
     unat ((byte_halves b AND 0x0f) + drop_bit 4 (byte_halves b)) = byte_count b"

lemma byte_upto: "b \<le> n \<Longrightarrow> b \<in> word_of_int ` set [0..uint (n :: byte)]"
  by (intro image_eqI [of _ _ "uint b"]) (simp_all add: word_le_def)

lemma byte_ok_range:
  "list_all (\<lambda>i. byte_ok (word_of_int i)) [0..63]"
  "list_all (\<lambda>i. byte_ok (word_of_int i)) [64..127]"
  "list_all (\<lambda>i. byte_ok (word_of_int i)) [128..191]"
  "list_all (\<lambda>i. byte_ok (word_of_int i)) [192..255]"
  by code_simp+

lemma byte_ok: "byte_ok b"
proof -
  have "b \<le> 255" using uint_lt_0 [of b] unat_lt [of b] by (simp add: word_le_nat_alt)
  from byte_upto [OF this] obtain i where i: "b = word_of_int i" "0 \<le> i" "i \<le> 255" by auto
  then consider "i \<in> {0..63}" | "i \<in> {64..127}" | "i \<in> {128..191}" | "i \<in> {192..255}"
    unfolding atLeastAtMost_iff by linarith
  then show ?thesis using byte_ok_range i(1) unfolding list_all_iff set_upto by cases blast+
qed

text \<open>The counts of two halves of a byte added, with the low half of the next byte above them.\<close>

definition nib_ok :: "byte \<Rightarrow> byte \<Rightarrow> bool" where
  "nib_ok h k \<longleftrightarrow> h \<le> 0x44 \<and> drop_bit 4 h OR k \<le> 0x44 \<and>
     (h + (drop_bit 4 h OR k)) AND 0x0f = (h AND 0x0f) + drop_bit 4 h"

lemma nib_ok_range:
  "list_all (\<lambda>a. list_all (\<lambda>l. list_all (\<lambda>k.
    nib_ok (push_bit 4 (word_of_int a) OR word_of_int l) (push_bit 4 (word_of_int k))) [0..4]) [0..4]) [0..4]"
  by code_simp

lemma byte_split:
  fixes h :: byte
  shows "push_bit 4 (drop_bit 4 h) OR (h AND 0x0f) = h" "push_bit 4 (h AND 0x0f) = push_bit 4 h"
proof -
  have m: "(0x0f :: byte) = mask 4" by (simp add: mask_eq_exp_minus_1)
  show "push_bit 4 (drop_bit 4 h) OR (h AND 0x0f) = h" "push_bit 4 (h AND 0x0f) = push_bit 4 h"
    unfolding m by (rule bit_word_eqI, auto simp: bit_simps dest: bit_imp_le_length)+
qed

lemma nib_ok:
  assumes "h AND 0x0f \<le> 4" and "drop_bit 4 h \<le> 4" and "c AND 0x0f \<le> 4"
  shows "nib_ok h (push_bit 4 c)"
proof -
  have "nib_ok (push_bit 4 (drop_bit 4 h) OR (h AND 0x0f)) (push_bit 4 (c AND 0x0f))"
    using nib_ok_range byte_upto [OF assms(1)] byte_upto [OF assms(2)] byte_upto [OF assms(3)]
    unfolding list_all_iff by (auto simp del: push_bit_and)
  then show ?thesis by (simp only: byte_split)
qed

lemma map2_same: "map2 f xs (map g xs) = map (\<lambda>x. f x (g x)) xs"
  by (induction xs) simp_all

text \<open>The three steps, on the bytes of the word.\<close>

lemma wy_masks:
  "(0x5555555555555555 :: u64) = le_word (replicate 8 0x55)"
  "(0x3333333333333333 :: u64) = le_word (replicate 8 0x33)"
  "(0x0f0f0f0f0f0f0f0f :: u64) = le_word (replicate 8 0x0f)"
  by code_simp+

lemma count_pairs:
  assumes "length bs = 8"
  shows "le_word bs - (drop_bit 1 (le_word bs) AND 0x5555555555555555) = le_word (map byte_pairs bs)"
proof -
  have "1 + r < 8" if "r < 8" "bit (0x55 :: byte) r" for r :: nat
    using that by (cases "r = 7") simp_all
  with assms have "drop_bit 1 (le_word bs) AND 0x5555555555555555 = le_word (map (\<lambda>b. drop_bit 1 b AND 0x55) bs)"
    unfolding wy_masks by (intro le_word_shift_mask) simp_all
  moreover have "\<forall>b. drop_bit 1 b AND 0x55 \<le> (b :: byte)" using byte_ok unfolding byte_ok_def by blast
  then have "le_word bs - le_word (map (\<lambda>b. drop_bit 1 b AND 0x55) bs) =
      le_word (map2 (-) bs (map (\<lambda>b. drop_bit 1 b AND 0x55) bs))"
    by (intro le_word_diff) (auto simp: set_zip simp del: One_nat_def)
  moreover have "map2 (-) bs (map (\<lambda>b. drop_bit 1 b AND 0x55) bs) = map byte_pairs bs"
    unfolding map2_same byte_pairs_def by (rule refl)
  ultimately show ?thesis by simp
qed

lemma count_halves:
  assumes "length bs = 8"
  shows "(le_word (map byte_pairs bs) AND 0x3333333333333333) +
      (drop_bit 2 (le_word (map byte_pairs bs)) AND 0x3333333333333333) = le_word (map byte_halves bs)"
proof -
  have m: "2 + r < 8" if "r < 8" "bit (0x33 :: byte) r" for r :: nat
    using that by (cases "r = 7"; cases "r = 6") simp_all
  let ?p = "map byte_pairs bs"
  have "drop_bit 0 (le_word ?p) AND 0x3333333333333333 = le_word (map (\<lambda>b. drop_bit 0 b AND 0x33) ?p)"
    unfolding wy_masks using assms by (intro le_word_shift_mask) simp_all
  then have "le_word ?p AND 0x3333333333333333 = le_word (map (\<lambda>b. byte_pairs b AND 0x33) bs)"
    by (simp add: comp_def)
  moreover have "drop_bit 2 (le_word ?p) AND 0x3333333333333333 = le_word (map (\<lambda>b. drop_bit 2 b AND 0x33) ?p)"
    unfolding wy_masks using assms m by (intro le_word_shift_mask) simp_all
  then have "drop_bit 2 (le_word ?p) AND 0x3333333333333333 =
      le_word (map (\<lambda>b. drop_bit 2 (byte_pairs b) AND 0x33) bs)"
    by (simp add: comp_def)
  moreover have "unat (byte_pairs b AND 0x33) + unat (drop_bit 2 (byte_pairs b) AND 0x33) < 256" for b
    using byte_ok [of b] unfolding byte_ok_def word_le_nat_alt by simp
  then have "le_word (map (\<lambda>b. byte_pairs b AND 0x33) bs) + le_word (map (\<lambda>b. drop_bit 2 (byte_pairs b) AND 0x33) bs) =
      le_word (map2 (+) (map (\<lambda>b. byte_pairs b AND 0x33) bs) (map (\<lambda>b. drop_bit 2 (byte_pairs b) AND 0x33) bs))"
    by (intro le_word_add) (auto simp: set_zip)
  moreover have "map2 (+) (map (\<lambda>b. byte_pairs b AND 0x33) bs) (map (\<lambda>b. drop_bit 2 (byte_pairs b) AND 0x33) bs) =
      map byte_halves bs"
    by (simp add: byte_halves_def map2_map_map)
  ultimately show ?thesis by simp
qed

text \<open>The last step: the low half of the next byte is masked away.\<close>

lemma count_bytes:
  assumes l: "length bs = 8"
  shows "(le_word (map byte_halves bs) + drop_bit 4 (le_word (map byte_halves bs))) AND 0x0f0f0f0f0f0f0f0f =
    le_word (map (of_nat \<circ> byte_count) bs)"
proof -
  let ?h = "map byte_halves bs"
  let ?cs = "tl ?h @ [0]"
  have lc: "length ?cs = length ?h" using l by simp
  have halves: "x AND 0x0f \<le> 4 \<and> drop_bit 4 x \<le> 4 \<and> (\<exists>b. x = byte_halves b)" if "x \<in> set ?h" for x
    using that byte_ok unfolding byte_ok_def by auto
  have low: "c AND 0x0f \<le> 4" if "c \<in> set ?cs" for c
    using that halves l by (auto dest: list.set_sel(2) [rotated])
  have ok: "nib_ok h (push_bit 4 c)" if "(h, c) \<in> set (zip ?h ?cs)" for h c
    using halves [of h] low [of c] set_zip_leftD [OF that] set_zip_rightD [OF that] by (blast intro: nib_ok)
  have d: "drop_bit 4 (le_word ?h) = le_word (map2 (\<lambda>b c. drop_bit 4 b OR push_bit 4 c) ?h ?cs)"
    using l by (intro le_word_shift4) simp
  have a: "le_word ?h + le_word (map2 (\<lambda>b c. drop_bit 4 b OR push_bit 4 c) ?h ?cs) =
      le_word (map2 (+) ?h (map2 (\<lambda>b c. drop_bit 4 b OR push_bit 4 c) ?h ?cs))"
  proof (rule le_word_add)
    show "length ?h = length (map2 (\<lambda>b c. drop_bit 4 b OR push_bit 4 c) ?h ?cs)" using lc by simp
    have "unat (?h ! i) + unat (drop_bit 4 (?h ! i) OR push_bit 4 (?cs ! i)) < 256" if "i < length ?h" for i
    proof -
      from that lc have "(?h ! i, ?cs ! i) \<in> set (zip ?h ?cs)" by (metis in_set_zip fst_conv snd_conv)
      from ok [OF this] show ?thesis unfolding nib_ok_def word_le_nat_alt by simp
    qed
    with lc show "\<forall>(b, c) \<in> set (zip ?h (map2 (\<lambda>b c. drop_bit 4 b OR push_bit 4 c) ?h ?cs)). unat b + unat c < 256"
      by (auto simp: in_set_zip simp del: append_take_drop_id)
  qed
  let ?s = "map2 (+) ?h (map2 (\<lambda>b c. drop_bit 4 b OR push_bit 4 c) ?h ?cs)"
  have ls: "length ?s = 8" using l by simp
  have "drop_bit 0 (le_word ?s) AND 0x0f0f0f0f0f0f0f0f = le_word (map (\<lambda>b. drop_bit 0 b AND 0x0f) ?s)"
    unfolding wy_masks using ls by (intro le_word_shift_mask) simp_all
  moreover have "map (\<lambda>b. drop_bit 0 b AND 0x0f) ?s = map (of_nat \<circ> byte_count) bs"
  proof (rule nth_equalityI)
    show "length (map (\<lambda>b. drop_bit 0 b AND 0x0f) ?s) = length (map (of_nat \<circ> byte_count) bs)" using l by simp
    fix i assume "i < length (map (\<lambda>b. drop_bit 0 b AND 0x0f) ?s)"
    then have i: "i < 8" using ls by simp
    with lc l have "(?h ! i, ?cs ! i) \<in> set (zip ?h ?cs)" by (metis in_set_zip fst_conv snd_conv length_map)
    from ok [OF this] have "(?h ! i + (drop_bit 4 (?h ! i) OR push_bit 4 (?cs ! i))) AND 0x0f =
        (byte_halves (bs ! i) AND 0x0f) + drop_bit 4 (byte_halves (bs ! i))"
      using i l unfolding nib_ok_def by simp
    also have "\<dots> = of_nat (unat ((byte_halves (bs ! i) AND 0x0f) + drop_bit 4 (byte_halves (bs ! i))))"
      by simp
    also have "\<dots> = of_nat (byte_count (bs ! i))" using byte_ok [of "bs ! i"] by (simp only: byte_ok_def)
    finally show "map (\<lambda>b. drop_bit 0 b AND 0x0f) ?s ! i = map (of_nat \<circ> byte_count) bs ! i"
      using i l by simp
  qed
  ultimately show ?thesis unfolding d a by simp
qed

text \<open>The multiplication adds up the bytes in the highest one.\<close>

lemma unat_le_word:
  "length bs \<le> 8 \<Longrightarrow> unat (le_word bs) = foldr (\<lambda>b n. unat b + 256 * n) bs 0 \<and>
    foldr (\<lambda>b n. unat b + 256 * n) bs 0 < 256 ^ length bs"
proof (induction bs)
  case (Cons b bs)
  let ?n = "foldr (\<lambda>b n. unat b + 256 * n) bs 0"
  from Cons have n: "unat (le_word bs) = ?n" "?n < 256 ^ length bs" by simp_all
  with unat_lt [of b] have lt: "unat b + 256 * ?n < 256 ^ length (b # bs)" by simp
  have "(256 :: nat) ^ length (b # bs) \<le> 256 ^ 8" using Cons.prems by (intro power_increasing) simp_all
  with lt have "unat b + 256 * ?n < 2 ^ 64" by simp
  then have "unat (ucast b + 256 * le_word bs :: u64) = unat b + 256 * ?n"
    using n(1) by (simp add: unat_word_ariths mod_simps)
  with lt show ?case by (simp add: le_word_Cons)
qed simp

lemma le_word_sum:
  assumes l: "length cs = 8" and small: "\<forall>c \<in> set cs. c \<le> 8"
  shows "unat (drop_bit 56 (le_word (map of_nat cs) * 0x0101010101010101)) = sum_list cs"
proof -
  obtain a b c d e f g h where cs: "cs = [a, b, c, d, e, f, g, h]"
    using l by (auto simp: eval_nat_numeral length_Suc_conv)
  have bd: "a \<le> 8" "b \<le> 8" "c \<le> 8" "d \<le> 8" "e \<le> 8" "f \<le> 8" "g \<le> 8" "h \<le> 8"
    using small cs by simp_all
  have small_nat: "unat (of_nat n :: byte) = n" if "n \<le> 8" for n
    using that by (simp add: unat_of_nat)
  let ?x = "a + 256 * (b + 256 * (c + 256 * (d + 256 * (e + 256 * (f + 256 * (g + 256 * h))))))"
  have x: "unat (le_word (map of_nat cs)) = ?x"
    using unat_le_word [of "map of_nat cs"] l by (simp add: cs small_nat bd)
  let ?low = "a + 256 * ((a + b) + 256 * ((a + b + c) + 256 * ((a + b + c + d) + 256 * ((a + b + c + d + e) +
    256 * ((a + b + c + d + e + f) + 256 * (a + b + c + d + e + f + g))))))"
  let ?high = "(b + c + d + e + f + g + h) + 256 * ((c + d + e + f + g + h) + 256 * ((d + e + f + g + h) +
    256 * ((e + f + g + h) + 256 * ((f + g + h) + 256 * ((g + h) + 256 * h)))))"
  have split: "?x * 0x0101010101010101 = ?low + 256 ^ 7 * (sum_list cs + 256 * ?high)" by (simp add: cs)
  have "?low < 256 ^ 7" using bd by simp
  then have div: "?x * 0x0101010101010101 div 256 ^ 7 = sum_list cs + 256 * ?high" unfolding split by simp
  have "sum_list cs < 256" using bd by (simp add: cs)
  have "unat (drop_bit 56 (le_word (map of_nat cs) * 0x0101010101010101)) =
      ?x * 0x0101010101010101 mod (256 ^ 7 * 256) div 256 ^ 7"
    using x by (simp add: drop_bit_eq_div unat_div unat_word_ariths)
  also have "\<dots> = ?x * 0x0101010101010101 div 256 ^ 7 mod 256" by (rule mod_mult2_eq [THEN arg_cong, THEN trans]) simp
  also have "\<dots> = sum_list cs"
  proof -
    have "(sum_list cs + 256 * n) mod 256 = sum_list cs" for n using \<open>sum_list cs < 256\<close> by simp
    then show ?thesis unfolding div .
  qed
  finally show ?thesis .
qed

lemma byte_count_le: "byte_count b \<le> 8"
  using length_filter_le [of "bit b" "[0..<8]"] by (simp add: byte_count_def)

lemma popcount_manual_eq: "unat (popcount_manual x) = popcount x"
proof -
  obtain bs where bs: "length bs = 8" "x = le_word bs" by (rule le_word_bytes)
  have "popcount_manual x = drop_bit 56 (le_word (map (of_nat \<circ> byte_count) bs) * 0x0101010101010101)"
    unfolding popcount_manual_def Let_def bs(2) count_pairs [OF bs(1)] count_halves [OF bs(1)]
      count_bytes [OF bs(1)] by (rule refl)
  then have "unat (popcount_manual x) = sum_list (map byte_count bs)"
    using le_word_sum [of "map byte_count bs"] bs(1) byte_count_le by simp
  moreover have "popcount x = sum_list (map byte_count bs)"
    using filter_le_word [of bs 8] bs by (simp add: popcount_def byte_count_def [abs_def])
  ultimately show ?thesis by simp
qed

section \<open>Numbers of other distributions\<close>

lemma wy2u01_range: "0 \<le> wy2u01 r" "wy2u01 r < 1" "\<exists>n < 2 ^ 52. wy2u01 r = of_nat n / 2 ^ 52"
proof -
  define n where "n = unat (drop_bit 12 r)"
  have n: "n < 2 ^ 52"
    using unat_lt [of r] by (simp add: n_def drop_bit_eq_div unat_div less_mult_imp_div_less)
  have e: "wy2u01 r = of_nat n / 2 ^ 52" by (simp add: wy2u01_def n_def)
  have "of_nat n < (of_nat (2 ^ 52) :: rat)" using n by (simp only: of_nat_less_iff)
  then show "0 \<le> wy2u01 r" "wy2u01 r < 1" unfolding e by simp_all
  show "\<exists>n < 2 ^ 52. wy2u01 r = of_nat n / 2 ^ 52" using n e by blast
qed

lemma wy2gau_range: "- 3 \<le> wy2gau r" "wy2gau r < 3" "\<exists>n < 3 * 2 ^ 21. wy2gau r = of_nat n / 2 ^ 20 - 3"
proof -
  have m: "(0x1fffff :: u64) = mask 21" by (simp add: mask_eq_exp_minus_1)
  have lt: "unat (x AND 0x1fffff) < 2 ^ 21" for x :: u64
    unfolding m take_bit_eq_mask [symmetric] unsigned_take_bit_eq by (rule take_bit_nat_less_exp)
  define n where "n = unat ((r AND 0x1fffff) + (drop_bit 21 r AND 0x1fffff) + (drop_bit 42 r AND 0x1fffff))"
  have n: "n < 3 * 2 ^ 21"
    using lt [of r] lt [of "drop_bit 21 r"] lt [of "drop_bit 42 r"] by (simp add: n_def unat_word_ariths mod_if)
  have e: "wy2gau r = of_nat n / 2 ^ 20 - 3" by (simp add: wy2gau_def n_def)
  have "of_nat n < (of_nat (3 * 2 ^ 21) :: rat)" using n by (simp only: of_nat_less_iff)
  then show "- 3 \<le> wy2gau r" "wy2gau r < 3" unfolding e by simp_all
  show "\<exists>n < 3 * 2 ^ 21. wy2gau r = of_nat n / 2 ^ 20 - 3" using n e by blast
qed

text \<open>With the protection of \<open>WYHASH_CONDOM\<close> 2 a zero does not wipe out the other argument.\<close>

lemma wymum_condom2_zero: "wymum_condom2 0 b = (0, b)" "wymum_condom2 a 0 = (a, 0)" "wymum 0 b = (0, 0)"
  by (simp_all add: wymum_condom2_def wymum_def)

section \<open>Properties\<close>

text \<open>C30: the count of bits of a machine without a built-in one is the count of bits, so that
  \<open>make_secret\<close> accepts the same draws with every compiler.\<close>

theorem popcount_manual_correct: "unat (popcount_manual x) = popcount x"
  by (rule popcount_manual_eq)

text \<open>\<open>wy2u01\<close> is at least 0 and below 1, \<open>wy2gau\<close> at least -3 and below 3; both are multiples of a
  power of two small enough to be represented exactly.\<close>

theorem wy_doubles_range:
  "0 \<le> wy2u01 r \<and> wy2u01 r < 1 \<and> (\<exists>n < 2 ^ 52. wy2u01 r = of_nat n / 2 ^ 52) \<and>
    - 3 \<le> wy2gau r \<and> wy2gau r < 3 \<and> (\<exists>n < 3 * 2 ^ 21. wy2gau r = of_nat n / 2 ^ 20 - 3)"
  using wy2u01_range [of r] wy2gau_range [of r] by blast

end
