(* ===== verification/Thp.thy ===== *)
theory Thp
  imports ChannelSpec
begin

text \<open>
  The thread pool of libthp/thp.c: a channel of jobs to run, a channel of jobs that have been run
  and wait to be collected, and a mutex over the counters of the pool.

  The calls of the pool run in several threads: the runners and those of the caller. A thread is
  a stack of frames, each the point a function of thp.c has reached; \<open>thp_act\<close> is the effect of
  one step of the frame on top. A step is what happens between two points where another thread
  can interfere: the calls of the channel are steps of their own (ChannelThreads shows that they
  are atomic), and what the code does with the mutex of the pool held is cut at each call of a
  channel. No result means that the thread is blocked (on a mutex, in \<open>ch_get\<close>, in
  \<open>pthread_join\<close>) or that the code has no defined behaviour.

  What the functions given to \<open>thp_add\<close> do is a parameter, \<open>body f x\<close>: the calls of \<open>thp_add\<close> that
  the function \<open>f\<close> makes on the same pool when it is called with \<open>x\<close>.
\<close>

section \<open>Data\<close>

definition THP_MAGIC_ID :: int where "THP_MAGIC_ID = 65197"
definition THP_OK :: int where "THP_OK = 1"
definition THP_BAD_HANDLE :: int where "THP_BAD_HANDLE = -1"
definition THP_WRONG_PARAM :: int where "THP_WRONG_PARAM = -2"
definition THP_TOO_MANY_WAIT :: int where "THP_TOO_MANY_WAIT = -3"
definition THP_NO_MEMORY :: int where "THP_NO_MEMORY = -4"
definition THP_INTERNAL_ERROR_CH_CREATE :: int where "THP_INTERNAL_ERROR_CH_CREATE = -5"

lemmas thp_code_defs [codes] =
  THP_MAGIC_ID_def THP_OK_def THP_BAD_HANDLE_def THP_WRONG_PARAM_def THP_TOO_MANY_WAIT_def
  THP_NO_MEMORY_def THP_INTERNAL_ERROR_CH_CREATE_def

record ('f, 'x) thp_job =
  tj_fun :: 'f
  tj_param :: 'x

text \<open>The handle, with the heap of jobs and, for each entry of the array of threads, whether
  \<open>pthread_create\<close> has written it. Jobs are known by their addresses.\<close>

record ('f, 'x) thp =
  thp_magic :: int
  in_queue :: "nat ch"
  wait_queue :: "nat ch"
  wait_running :: int
  submitted :: int
  to_be_waited :: int
  thp_locked :: bool
  num_threads :: int
  thp_threads :: "bool list"
  thp_allocated :: bool
  thp_jobs :: "nat \<rightharpoonup> ('f, 'x) thp_job"
  job_brk :: nat

definition thp_lock :: "('f, 'x) thp \<Rightarrow> ('f, 'x) thp option" where
  "thp_lock p = (if thp_locked p then None else Some (p\<lparr>thp_locked := True\<rparr>))"

definition thp_unlock :: "('f, 'x) thp \<Rightarrow> ('f, 'x) thp" where
  "thp_unlock p = p\<lparr>thp_locked := False\<rparr>"

definition thp_job_create :: "('f, 'x) thp \<Rightarrow> 'f \<Rightarrow> 'x \<Rightarrow> bool \<Rightarrow> (nat \<times> ('f, 'x) thp) option" where
  "thp_job_create p f x ok =
     (if \<not> ok then None
      else Some (job_brk p,
        p\<lparr>thp_jobs := (thp_jobs p)(job_brk p \<mapsto> \<lparr>tj_fun = f, tj_param = x\<rparr>),
          job_brk := Suc (job_brk p)\<rparr>))"

section \<open>Creation\<close>

text \<open>
  \<open>thp_create\<close> on the memory of a handle: the caller's, or the one that \<open>malloc\<close> returns, whose
  contents are arbitrary. \<open>tok\<close> is the outcome of the allocation of the array of threads, which is
  not checked, so that creating a thread then writes through a null pointer; \<open>started\<close> says for
  which threads \<open>pthread_create\<close>, whose result is ignored as well, succeeds. The result is the
  handle or the error code.
\<close>

definition thp_create ::
  "('f, 'x) thp option \<Rightarrow> ('f, 'x) thp \<Rightarrow> int \<Rightarrow> bool \<Rightarrow> bool \<Rightarrow> (nat \<Rightarrow> bool) \<Rightarrow> (int + ('f, 'x) thp) option" where
  "thp_create thp raw n hok tok started =
     (if thp = None \<and> \<not> hok then Some (Inl THP_NO_MEMORY)
      else
        (let h = (case thp of None \<Rightarrow> raw\<lparr>thp_allocated := True\<rparr> | Some t \<Rightarrow> t\<lparr>thp_allocated := False\<rparr>);
             h1 = h\<lparr>thp_magic := CH_MAGIC_ID\<rparr>
         in case (ch_create (Some (in_queue h1)) CH_DATALEN_VOIDP True,
                  ch_create (Some (wait_queue h1)) CH_DATALEN_VOIDP True) of
              (Some c1, Some c2) \<Rightarrow>
                if 0 < n \<and> \<not> tok then None
                else Some (Inr (h1\<lparr>in_queue := c1, wait_queue := c2, wait_running := 0, submitted := 0,
                  to_be_waited := 0, thp_locked := False, num_threads := n,
                  thp_threads := map started [0..<nat n], thp_jobs := Map.empty, job_brk := 0\<rparr>))
            | _ \<Rightarrow> Some (Inl THP_INTERNAL_ERROR_CH_CREATE)))"

section \<open>Steps of the functions\<close>

text \<open>
  The points of \<open>thp_queue_runner\<close> (at \<open>ch_get\<close>; about to pass on the job it has run), of \<open>thp_add\<close>
  (at the allocation; at the mutex; at \<open>ch_put\<close>; at the counters; at the return), of \<open>thp_wait\<close> (at
  the mutex; at the first tests; in the loop) and of \<open>thp_destroy\<close> (in its two loops; after
  \<open>thp_wait\<close>). The calls that the function of a job makes are frames above \<open>RunPut\<close>.
\<close>

datatype ('f, 'x) frame =
    RunGet | RunPut nat
  | AddNew 'f 'x | AddLock nat | AddPut nat | AddCount | AddRet
  | WaitLock | WaitTest | WaitLoop int
  | DestroyPut nat | DestroyJoin nat | DestroyFree

text \<open>What a step does that later steps depend on, or that a caller sees.\<close>

datatype ('f, 'x) event =
    Silent | Returned int | Added 'f 'x | Started 'f 'x | AddFailed nat int | JobLost nat

type_synonym ('f, 'x) act_result = "('f, 'x) thp option \<times> ('f, 'x) frame list \<times> ('f, 'x) event"

text \<open>The steps of \<open>thp_queue_runner\<close>.\<close>

definition runner_get ::
  "('f \<Rightarrow> 'x \<Rightarrow> ('f \<times> 'x) list) \<Rightarrow> ('f, 'x) thp \<Rightarrow> ('f, 'x) act_result option" where
  "runner_get body p =
     do { (rc, out, q) \<leftarrow> ch_get (Some (in_queue p)) (Some 8);
          q1 \<leftarrow> q;
          let p1 = p\<lparr>in_queue := q1\<rparr> in
          if rc = CH_GET_ENDOFTRANSMISSION then Some (Some p1, [], Silent)
          else if rc = CH_OK then
            (case out of
               OutPtr j \<Rightarrow>
                 do { tj \<leftarrow> thp_jobs p j;
                      Some (Some p1,
                        map (\<lambda>(f, x). AddNew f x) (body (tj_fun tj) (tj_param tj)) @ [RunPut j, RunGet],
                        Started (tj_fun tj) (tj_param tj)) }
             | _ \<Rightarrow> None)
          else Some (Some p1, [RunGet], Silent) }"

definition runner_put :: "bool \<Rightarrow> ('f, 'x) thp \<Rightarrow> nat \<Rightarrow> ('f, 'x) act_result option" where
  "runner_put ok p j =
     do { (rc, q) \<leftarrow> ch_put (Some (wait_queue p)) (ArgPtr j []) ok True;
          q1 \<leftarrow> q;
          Some (Some (p\<lparr>wait_queue := q1\<rparr>), [], if rc < 0 then JobLost j else Silent) }"

text \<open>The steps of \<open>thp_add\<close>; the last one reads the counter after the mutex is released.\<close>

definition add_put :: "bool \<Rightarrow> ('f, 'x) thp \<Rightarrow> nat \<Rightarrow> ('f, 'x) act_result option" where
  "add_put ok p j =
     do { (rc, q) \<leftarrow> ch_put (Some (in_queue p)) (ArgPtr j []) ok True;
          q1 \<leftarrow> q;
          let p1 = p\<lparr>in_queue := q1\<rparr> in
          if rc < 0 then Some (Some (thp_unlock p1), [], AddFailed j rc)
          else do { tj \<leftarrow> thp_jobs p j; Some (Some p1, [AddCount], Added (tj_fun tj) (tj_param tj)) } }"

definition add_count :: "('f, 'x) thp \<Rightarrow> ('f, 'x) act_result option" where
  "add_count p =
     do { assert_opt (int_ok (submitted p + 1));
          assert_opt (int_ok (to_be_waited p + 1));
          Some (Some (thp_unlock (p\<lparr>submitted := submitted p + 1, to_be_waited := to_be_waited p + 1\<rparr>)),
            [AddRet], Silent) }"

text \<open>The steps of \<open>thp_wait\<close>, which keeps the mutex while it waits.\<close>

definition wait_test :: "('f, 'x) thp \<Rightarrow> ('f, 'x) act_result option" where
  "wait_test p =
     (if wait_running p \<noteq> 0 then Some (Some (thp_unlock p), [], Returned THP_TOO_MANY_WAIT)
      else
        (let p1 = p\<lparr>wait_running := 1\<rparr> in
         if to_be_waited p1 = 0
         then Some (Some (thp_unlock (p1\<lparr>wait_running := 0\<rparr>)), [], Returned 0)
         else Some (Some p1, [WaitLoop 0], Silent)))"

definition wait_loop :: "('f, 'x) thp \<Rightarrow> int \<Rightarrow> ('f, 'x) act_result option" where
  "wait_loop p n =
     (if to_be_waited p = 0
      then Some (Some (thp_unlock (p\<lparr>wait_running := 0\<rparr>)), [], Returned n)
      else
        do { (rc, out, q) \<leftarrow> ch_get (Some (wait_queue p)) (Some 8);
             q1 \<leftarrow> q;
             let p1 = p\<lparr>wait_queue := q1\<rparr> in
             if rc = CH_OK then
               (case out of
                  OutPtr j \<Rightarrow>
                    do { tj \<leftarrow> thp_jobs p1 j;
                         Some (Some (p1\<lparr>thp_jobs := (thp_jobs p1)(j := None), to_be_waited := to_be_waited p - 1\<rparr>),
                           [WaitLoop (n + 1)], Silent) }
                | _ \<Rightarrow> None)
             else Some (Some p1, [WaitLoop n], Silent) })"

text \<open>The steps of \<open>thp_destroy\<close>; \<open>ended i\<close> says whether runner \<open>i\<close> has ended.\<close>

definition destroy_put :: "bool \<Rightarrow> ('f, 'x) thp \<Rightarrow> nat \<Rightarrow> ('f, 'x) act_result option" where
  "destroy_put ok p i =
     (if int i < num_threads p then
        do { (rc, q) \<leftarrow> ch_put (Some (in_queue p)) ArgEot ok True;
             q1 \<leftarrow> q;
             Some (Some (p\<lparr>in_queue := q1\<rparr>), [DestroyPut (Suc i)], Silent) }
      else Some (Some p, [DestroyJoin 0], Silent))"

definition destroy_join :: "(nat \<Rightarrow> bool) \<Rightarrow> ('f, 'x) thp \<Rightarrow> nat \<Rightarrow> ('f, 'x) act_result option" where
  "destroy_join ended p i =
     (if int i < num_threads p then
        (if i < length (thp_threads p) \<and> thp_threads p ! i \<and> ended i
         then Some (Some p, [DestroyJoin (Suc i)], Silent) else None)
      else Some (Some p, [WaitLock, DestroyFree], Silent))"

definition destroy_free :: "('f, 'x) thp \<Rightarrow> ('f, 'x) act_result option" where
  "destroy_free p =
     do { (rc1, q1) \<leftarrow> ch_destroy (Some (in_queue p));
          (rc2, q2) \<leftarrow> ch_destroy (Some (wait_queue p));
          assert_opt (\<not> thp_locked p);
          Some (None, [], Silent) }"

text \<open>One step of a frame; \<open>ok\<close> is the outcome of the allocation it makes, if it makes one.\<close>

fun thp_act ::
  "('f \<Rightarrow> 'x \<Rightarrow> ('f \<times> 'x) list) \<Rightarrow> bool \<Rightarrow> (nat \<Rightarrow> bool) \<Rightarrow> ('f, 'x) thp \<Rightarrow> ('f, 'x) frame \<Rightarrow>
    ('f, 'x) act_result option" where
  "thp_act body ok ended p RunGet = runner_get body p"
| "thp_act body ok ended p (RunPut j) = runner_put ok p j"
| "thp_act body ok ended p (AddNew f x) =
     (case thp_job_create p f x ok of
        None \<Rightarrow> Some (Some p, [], Returned THP_NO_MEMORY)
      | Some (j, p1) \<Rightarrow> Some (Some p1, [AddLock j], Silent))"
| "thp_act body ok ended p (AddLock j) = do { p1 \<leftarrow> thp_lock p; Some (Some p1, [AddPut j], Silent) }"
| "thp_act body ok ended p (AddPut j) = add_put ok p j"
| "thp_act body ok ended p AddCount = add_count p"
| "thp_act body ok ended p AddRet = Some (Some p, [], Returned (submitted p))"
| "thp_act body ok ended p WaitLock = do { p1 \<leftarrow> thp_lock p; Some (Some p1, [WaitTest], Silent) }"
| "thp_act body ok ended p WaitTest = wait_test p"
| "thp_act body ok ended p (WaitLoop n) = wait_loop p n"
| "thp_act body ok ended p (DestroyPut i) = destroy_put ok p i"
| "thp_act body ok ended p (DestroyJoin i) = destroy_join ended p i"
| "thp_act body ok ended p DestroyFree = destroy_free p"

section \<open>Threads\<close>

text \<open>A configuration: the pool until it is freed, the stacks of the threads, the runners first,
  and the events so far. A thread with an empty stack has ended.\<close>

record ('f, 'x) thp_cfg =
  pool :: "('f, 'x) thp option"
  stacks :: "('f, 'x) frame list list"
  events :: "('f, 'x) event list"

definition thp_exec ::
  "('f \<Rightarrow> 'x \<Rightarrow> ('f \<times> 'x) list) \<Rightarrow> ('f, 'x) thp_cfg \<Rightarrow> nat \<times> bool \<Rightarrow> ('f, 'x) thp_cfg option" where
  "thp_exec body c = (\<lambda>(t, ok).
     if t < length (stacks c) then
       (case stacks c ! t of
          [] \<Rightarrow> None
        | fr # rest \<Rightarrow>
            do { p \<leftarrow> pool c;
                 (p1, new, ev) \<leftarrow> thp_act body ok (\<lambda>i. i < length (stacks c) \<and> stacks c ! i = []) p fr;
                 Some \<lparr>pool = p1, stacks = (stacks c)[t := new @ rest], events = events c @ [ev]\<rparr> })
     else None)"

text \<open>The calls a thread of the caller can make, and a pool just created with such threads.\<close>

fun fr_call :: "('f, 'x) frame \<Rightarrow> bool" where
  "fr_call (AddNew f x) = True"
| "fr_call WaitLock = True"
| "fr_call (DestroyPut i) = (i = 0)"
| "fr_call fr = False"

definition thp_init :: "('f, 'x) thp \<Rightarrow> ('f, 'x) frame list list \<Rightarrow> ('f, 'x) thp_cfg" where
  "thp_init p progs =
     \<lparr>pool = Some p, stacks = map (\<lambda>b. if b then [RunGet] else []) (thp_threads p) @ progs, events = []\<rparr>"

inductive thp_reachable :: "('f \<Rightarrow> 'x \<Rightarrow> ('f \<times> 'x) list) \<Rightarrow> ('f, 'x) thp_cfg \<Rightarrow> bool" for body where
  start: "thp_create h raw n hok tok started = Some (Inr p) \<Longrightarrow>
    \<forall>prog \<in> set progs. list_all fr_call prog \<Longrightarrow> thp_reachable body (thp_init p progs)"
| step: "thp_reachable body c \<Longrightarrow> thp_exec body c a = Some c' \<Longrightarrow> thp_reachable body c'"

text \<open>Runs of a given sequence of steps.\<close>

fun thp_run ::
  "('f \<Rightarrow> 'x \<Rightarrow> ('f \<times> 'x) list) \<Rightarrow> ('f, 'x) thp_cfg \<Rightarrow> (nat \<times> bool) list \<Rightarrow> ('f, 'x) thp_cfg option" where
  "thp_run body c [] = Some c"
| "thp_run body c (a # as) = do { c1 \<leftarrow> thp_exec body c a; thp_run body c1 as }"

lemma thp_run_reachable:
  "thp_reachable body c \<Longrightarrow> thp_run body c as = Some c' \<Longrightarrow> thp_reachable body c'"
  by (induction as arbitrary: c) (auto simp: bind_Some_iff intro: thp_reachable.step)

end
