(* ===== verification/PtrQueue.thy ===== *)
theory PtrQueue
  imports ChannelSpec
begin

text \<open>
  Channels of pointers as the thread pool uses them, blocking and without a limit: what a put and
  a get do, stated so that a proof can run over every result that they can have.
\<close>

section \<open>Channels of pointers that block and have no limit\<close>

definition pq_ok :: "'p ch \<Rightarrow> bool" where
  "pq_ok c \<longleftrightarrow> ch_inv c \<and> datalen c = CH_DATALEN_VOIDP \<and> max_size c = 0 \<and> attr c = 1"

lemma pq_conf: "ch_inv c' \<Longrightarrow> ch_abs c' = (ch_abs c)\<lparr>q_items := xs\<rparr> \<Longrightarrow> pq_ok c \<Longrightarrow> pq_ok c' \<and> ch_items c' = xs"
  by (simp add: pq_ok_def ch_abs_def)

lemma pq_create: "\<exists>c. ch_create (Some h) CH_DATALEN_VOIDP ok = Some c \<and> pq_ok c \<and> ch_items c = []"
proof -
  have "CH_DATALEN_STRING \<le> CH_DATALEN_VOIDP" by (simp add: codes)
  from ch_create_spec [OF _ this, of "Some h" ok] obtain c where
    c: "ch_create (Some h) CH_DATALEN_VOIDP ok = Some c" "ch_inv c" "ch_items c = []"
      "datalen c = CH_DATALEN_VOIDP" "max_size c = 0" by auto
  from c(1) have "attr c = 1" by (auto simp: ch_create_def CH_ATTR_BLOCKING_GETPUT_def)
  with c show ?thesis by (auto simp: pq_ok_def)
qed

lemma pq_put:
  assumes c: "pq_ok c" and n: "int_ok (int (length (ch_items c)) + 1)" and b: "b = ArgEot \<or> b = ArgPtr p []"
  shows "\<exists>c'. ch_put (Some c) b True True = Some (int (length (ch_items c)) + 1, Some c') \<and> pq_ok c' \<and>
    ch_items c' = ch_items c @ [case b of ArgPtr p mem \<Rightarrow> BPtr p | _ \<Rightarrow> BEot]"
proof -
  let ?x = "case b of ArgPtr p mem \<Rightarrow> BPtr p | _ \<Rightarrow> BEot"
  from c have inv: "ch_inv c" and q: "datalen c = CH_DATALEN_VOIDP" "max_size c = 0"
    by (simp_all add: pq_ok_def)
  have blk: "ch_block_of (datalen c) b True = Some (Some ?x)"
    using b q by (auto simp: ch_block_of_def CH_DATALEN_VOIDP_def)
  have nf: "\<not> q_full (ch_abs c)" using q by (simp add: q_full_def)
  have sp: "queue_put (ch_abs c) b CH_PUT_STD True True =
      ((int (length (ch_items c)) + 1, NoOut), (ch_abs c)\<lparr>q_items := ch_items c @ [?x]\<rparr>)"
    using b blk nf by (auto simp: queue_put_def at_place_def)
  have "b = ArgNull \<or> \<not> True \<or> queue_put_ok (ch_abs c) b True"
    using blk nf n by (simp add: queue_put_ok_def)
  from put_sim [OF inv _ this, of CH_PUT_STD] sp obtain c' where
    "ch_put_at (Some c) b CH_PUT_STD True True = Some (int (length (ch_items c)) + 1, Some c')" "ch_inv c'"
    "ch_abs c' = (ch_abs c)\<lparr>q_items := ch_items c @ [?x]\<rparr>" by auto
  with pq_conf [OF _ _ c] show ?thesis by (auto simp: ch_put_def)
qed

text \<open>A put whose count would overflow has no result.\<close>

lemma ch_link_count: "ch_link c a w = Some c1 \<Longrightarrow> count c1 = count c"
  by (auto simp: ch_link_def set_prev_def bind_Some_iff split: if_splits option.splits)

lemma pq_put_room:
  assumes c: "pq_ok c" and b: "b = ArgEot \<or> b = ArgPtr p []" and put: "ch_put (Some c) b True True = Some r"
  shows "int_ok (int (length (ch_items c)) + 1)"
proof -
  from c have inv: "ch_inv c" by (simp add: pq_ok_def)
  with c have q: "datalen c = CH_DATALEN_VOIDP" "max_size c = 0" "\<not> ch_locked c" "magic c = CH_MAGIC_ID"
    by (simp_all add: pq_ok_def ch_inv_def)
  from b q obtain a c1 where
    e: "ch_put_enter c b True True = Some (Inr a, c1)" "count c1 = count c" "max_size c1 = 0" "\<not> ch_locked c1"
    by (auto simp: ch_put_enter_def ch_block_of_def el_alloc_def set_block_def CH_DATALEN_VOIDP_def)
  let ?c2 = "c1\<lparr>ch_locked := True\<rparr>"
  have "\<not> ch_full ?c2" using e(3) by (simp add: ch_full_def)
  with put e obtain c3 where "ch_enqueue ?c2 a CH_PUT_STD = Some c3"
    by (auto simp: ch_put_def ch_put_at_def ch_lock_def bind_Some_iff)
  with e(2) have "int_ok (count c + 1)" by (auto simp: ch_enqueue_def bind_Some_iff dest!: ch_link_count)
  with inv show ?thesis by (simp add: ch_items_length)
qed

lemma pq_put_fail:
  assumes "pq_ok c" and "b = ArgEot \<or> b = ArgPtr p []"
  shows "ch_put (Some c) b False bok = Some (CH_NO_MEMORY, Some c)"
  using assms by (auto simp: ch_put_def ch_put_at_def ch_put_enter_def pq_ok_def ch_inv_def)

text \<open>All that a put can do.\<close>

lemma pq_put_cases:
  assumes c: "pq_ok c" and b: "b = ArgEot \<or> b = ArgPtr p []" and put: "ch_put (Some c) b ok True = Some (rc, Some c')"
  shows "pq_ok c' \<and> (if ok then 0 < rc \<and> ch_items c' = ch_items c @ [case b of ArgPtr p mem \<Rightarrow> BPtr p | _ \<Rightarrow> BEot]
    else rc = CH_NO_MEMORY \<and> c' = c)"
proof (cases ok)
  case True
  with put have "ch_put (Some c) b True True = Some (rc, Some c')" by simp
  from pq_put [OF c pq_put_room [OF c b this] b] this True show ?thesis by auto
next
  case False
  with pq_put_fail [OF c b, of True] put c show ?thesis by auto
qed

lemma pq_get:
  assumes c: "pq_ok c" and items: "ch_items c = x # xs"
  shows "\<exists>c'. ch_get (Some c) (Some 8) =
      Some (if x = BEot then CH_GET_ENDOFTRANSMISSION else CH_OK, case x of BPtr p \<Rightarrow> OutPtr p | _ \<Rightarrow> NoOut, Some c') \<and>
    pq_ok c' \<and> ch_items c' = xs \<and> (x = BEot \<or> (\<exists>p. x = BPtr p))"
proof -
  from c have inv: "ch_inv c" and q: "datalen c = 0" by (simp_all add: pq_ok_def CH_DATALEN_VOIDP_def)
  then have "blk_ok 0 x" using items by (simp add: ch_inv_def)
  then have x: "x = BEot \<or> (\<exists>p. x = BPtr p)"
    by (auto simp: blk_ok_def CH_DATALEN_STRING_def split: blk.splits)
  then have "x = BEot \<or> ch_copy_out (datalen c) x 8 = Some (case x of BPtr p \<Rightarrow> OutPtr p | _ \<Rightarrow> NoOut)"
    using q by (auto simp: ch_copy_out_def CH_DATALEN_VOIDP_def)
  from ch_get_spec [OF inv items this] obtain c' where
    c': "ch_get (Some c) (Some 8) = Some (if x = BEot then CH_GET_ENDOFTRANSMISSION else CH_OK,
        if x = BEot then NoOut else (case x of BPtr p \<Rightarrow> OutPtr p | _ \<Rightarrow> NoOut), Some c')"
      "ch_inv c'" "ch_items c' = xs" "ch_conf c' = ch_conf c" by blast
  with ch_abs_items [OF c'(4,3)] pq_conf [OF c'(2) _ c] x show ?thesis by auto
qed

lemma pq_get_empty: "pq_ok c \<Longrightarrow> ch_items c = [] \<Longrightarrow> ch_get (Some c) (Some 8) = None"
  using ch_get_empty [of c 8] ch_blocking_attr [of c] by (auto simp: pq_ok_def)

lemma pq_get_cases:
  assumes c: "pq_ok c" and get: "ch_get (Some c) (Some 8) = Some (rc, out, Some c')"
  shows "pq_ok c' \<and>
    (rc = CH_GET_ENDOFTRANSMISSION \<and> ch_items c = BEot # ch_items c' \<or>
     (\<exists>p. rc = CH_OK \<and> out = OutPtr p \<and> ch_items c = BPtr p # ch_items c'))"
proof (cases "ch_items c")
  case Nil
  with pq_get_empty [OF c] get show ?thesis by simp
next
  case (Cons x xs)
  from pq_get [OF c this] get Cons show ?thesis by auto
qed

lemma pq_result: "pq_ok c \<Longrightarrow> ch_get (Some c) (Some 8) = Some (rc, out, q) \<Longrightarrow> \<exists>c'. q = Some c'"
  by (cases "ch_items c") (fastforce simp: pq_get_empty dest: pq_get)+

end
