(* ===== verification/ThpInv.thy ===== *)
theory ThpInv
  imports Thp PtrQueue "HOL-Library.Multiset"
begin

text \<open>
  The invariant of the thread pool, over the multiset of the frames of all threads: who holds the
  mutex, what the counters count, where each allocated job is, and that jobs are started in the
  order they were added.
\<close>

section \<open>What frames and events stand for\<close>

text \<open>The frames that hold the mutex; the one between a put and the counters; jobs that run or have
  run and are not passed on yet; the jobs a frame owns.\<close>

fun fr_holds :: "('f, 'x) frame \<Rightarrow> bool" where
  "fr_holds (AddPut j) = True"
| "fr_holds AddCount = True"
| "fr_holds WaitTest = True"
| "fr_holds (WaitLoop n) = True"
| "fr_holds fr = False"

fun fr_loops :: "('f, 'x) frame \<Rightarrow> bool" where
  "fr_loops (WaitLoop n) = True"
| "fr_loops fr = False"

fun fr_runs :: "('f, 'x) frame \<Rightarrow> bool" where
  "fr_runs (RunPut j) = True"
| "fr_runs fr = False"

fun fr_jobs :: "('f, 'x) frame \<Rightarrow> nat multiset" where
  "fr_jobs (RunPut j) = {#j#}"
| "fr_jobs (AddLock j) = {#j#}"
| "fr_jobs (AddPut j) = {#j#}"
| "fr_jobs fr = {#}"

definition tally :: "(('f, 'x) frame \<Rightarrow> bool) \<Rightarrow> ('f, 'x) frame multiset \<Rightarrow> nat" where
  "tally P M = size (filter_mset P M)"

lemma tally_simps [simp]:
  "tally P {#} = 0"
  "tally P (add_mset fr M) = (if P fr then Suc (tally P M) else tally P M)"
  "tally P (M + N) = tally P M + tally P N"
  by (simp_all add: tally_def)

lemma tally_mono: "(\<And>fr. P fr \<Longrightarrow> Q fr) \<Longrightarrow> tally P M \<le> tally Q M"
  by (induction M) auto

definition owned :: "('f, 'x) frame multiset \<Rightarrow> nat multiset" where
  "owned M = (\<Sum>fr \<in># M. fr_jobs fr)"

lemma owned_simps [simp]:
  "owned {#} = {#}" "owned (add_mset fr M) = fr_jobs fr + owned M" "owned (M + N) = owned M + owned N"
  by (simp_all add: owned_def)

definition ev_added :: "('f, 'x) event list \<Rightarrow> ('f \<times> 'x) list" where
  "ev_added evs = concat (map (\<lambda>e. case e of Added f x \<Rightarrow> [(f, x)] | _ \<Rightarrow> []) evs)"

definition ev_started :: "('f, 'x) event list \<Rightarrow> ('f \<times> 'x) list" where
  "ev_started evs = concat (map (\<lambda>e. case e of Started f x \<Rightarrow> [(f, x)] | _ \<Rightarrow> []) evs)"

definition ev_lost :: "('f, 'x) event list \<Rightarrow> nat list" where
  "ev_lost evs = concat (map (\<lambda>e. case e of JobLost j \<Rightarrow> [j] | _ \<Rightarrow> []) evs)"

definition ev_failed :: "('f, 'x) event list \<Rightarrow> nat list" where
  "ev_failed evs = concat (map (\<lambda>e. case e of AddFailed j rc \<Rightarrow> [j] | _ \<Rightarrow> []) evs)"

lemmas ev_defs = ev_added_def ev_started_def ev_lost_def ev_failed_def

section \<open>The invariant\<close>

definition job_of :: "('f, 'x) thp \<Rightarrow> nat \<Rightarrow> 'f \<times> 'x" where
  "job_of p j = (case thp_jobs p j of Some tj \<Rightarrow> (tj_fun tj, tj_param tj) | None \<Rightarrow> undefined)"

definition thp_ok :: "('f, 'x) thp \<Rightarrow> ('f, 'x) frame multiset \<Rightarrow> ('f, 'x) event list \<Rightarrow> bool" where
  "thp_ok p M evs \<longleftrightarrow>
     pq_ok (in_queue p) \<and> pq_ok (wait_queue p) \<and> BEot \<notin> set (ch_items (wait_queue p)) \<and>
     tally fr_holds M = (if thp_locked p then 1 else 0) \<and>
     wait_running p = int (tally fr_loops M) \<and>
     to_be_waited p + int (tally ((=) AddCount) M) =
       int (length (void_ptrs (ch_items (in_queue p))) + tally fr_runs M +
         length (ch_items (wait_queue p)) + length (ev_lost evs)) \<and>
     0 \<le> to_be_waited p \<and> int_ok (to_be_waited p) \<and>
     submitted p + int (tally ((=) AddCount) M) = int (length (ev_added evs)) \<and>
     ev_added evs = ev_started evs @ map (job_of p) (void_ptrs (ch_items (in_queue p))) \<and>
     finite (dom (thp_jobs p)) \<and> (\<forall>j \<in> dom (thp_jobs p). j < job_brk p) \<and>
     mset (void_ptrs (ch_items (in_queue p))) + mset (void_ptrs (ch_items (wait_queue p))) +
       owned M + mset (ev_lost evs) + mset (ev_failed evs) = mset_set (dom (thp_jobs p))"

lemma job_of_frame: "j \<noteq> i \<Longrightarrow> job_of (p\<lparr>thp_jobs := (thp_jobs p)(i := x)\<rparr>) j = job_of p j"
  by (simp add: job_of_def)


lemma thp_ok_lock:
  assumes "thp_ok p (add_mset fr M) evs" and "fr_holds fr"
  shows "thp_locked p" and "tally fr_holds M = 0" and "tally fr_loops M = 0" and "tally ((=) AddCount) M = 0"
proof -
  from assms show h: "thp_locked p" "tally fr_holds M = 0"
    by (auto simp: thp_ok_def split: if_splits)
  have "tally fr_loops M \<le> tally fr_holds M" by (rule tally_mono) (auto elim: fr_loops.elims)
  moreover have "tally ((=) AddCount) M \<le> tally fr_holds M" by (rule tally_mono) auto
  ultimately show "tally fr_loops M = 0" "tally ((=) AddCount) M = 0" using h by simp_all
qed

lemma mset_set_member:
  assumes "A + add_mset j B = mset_set D" and "finite D"
  shows "j \<in> D" and "j \<notin># A" and "j \<notin># B" and "A + B = mset_set (D - {j})"
proof -
  have "j \<in># mset_set D" by (simp flip: assms(1))
  then show j: "j \<in> D" using assms(2) by simp
  have "Multiset.count (A + add_mset j B) j = 1"
    unfolding assms(1) using j assms(2) by (simp add: count_mset_set)
  then show "j \<notin># A" "j \<notin># B" by (auto simp: not_in_iff)
  have "mset_set D = add_mset j (mset_set (D - {j}))" using j assms(2) by (simp add: mset_set.remove)
  with assms(1) show "A + B = mset_set (D - {j})" by simp
qed

lemma thp_ok_queued:
  assumes "thp_ok p M evs" and "j \<in> set (void_ptrs (ch_items (in_queue p)))"
  shows "j \<in> dom (thp_jobs p)"
proof -
  let ?Q = "mset (void_ptrs (ch_items (in_queue p)))"
  from assms(1) have "?Q + (mset (void_ptrs (ch_items (wait_queue p))) +
      (owned M + (mset (ev_lost evs) + mset (ev_failed evs)))) = mset_set (dom (thp_jobs p))"
    and f: "finite (dom (thp_jobs p))" by (simp_all add: thp_ok_def add.assoc)
  then have "?Q \<subseteq># mset_set (dom (thp_jobs p))" by (metis mset_subset_eq_add_left)
  moreover have "j \<in># ?Q" using assms(2) by simp
  ultimately have "j \<in># mset_set (dom (thp_jobs p))" by (rule mset_subset_eqD)
  with f show ?thesis by simp
qed

lemma ev_simps [simp]:
  "ev_added (evs @ [ev]) = ev_added evs @ (case ev of Added f x \<Rightarrow> [(f, x)] | _ \<Rightarrow> [])"
  "ev_started (evs @ [ev]) = ev_started evs @ (case ev of Started f x \<Rightarrow> [(f, x)] | _ \<Rightarrow> [])"
  "ev_lost (evs @ [ev]) = ev_lost evs @ (case ev of JobLost j \<Rightarrow> [j] | _ \<Rightarrow> [])"
  "ev_failed (evs @ [ev]) = ev_failed evs @ (case ev of AddFailed j rc \<Rightarrow> [j] | _ \<Rightarrow> [])"
  by (simp_all add: ev_defs)

section \<open>The steps keep it\<close>

lemma calls_count [simp]:
  "tally fr_holds (image_mset (\<lambda>(f, x). AddNew f x) N) = 0"
  "tally fr_loops (image_mset (\<lambda>(f, x). AddNew f x) N) = 0"
  "tally fr_runs (image_mset (\<lambda>(f, x). AddNew f x) N) = 0"
  "tally ((=) AddCount) (image_mset (\<lambda>(f, x). AddNew f x) N) = 0"
  by (induction N) auto

lemma job_of_same [simp]:
  "job_of (p\<lparr>in_queue := q\<rparr>) = job_of p" "job_of (p\<lparr>wait_queue := q\<rparr>) = job_of p"
  "job_of (p\<lparr>wait_running := n\<rparr>) = job_of p" "job_of (p\<lparr>submitted := n\<rparr>) = job_of p"
  "job_of (p\<lparr>to_be_waited := n\<rparr>) = job_of p" "job_of (p\<lparr>thp_locked := b\<rparr>) = job_of p"
  "job_of (p\<lparr>job_brk := m\<rparr>) = job_of p"
  by (simp_all add: job_of_def fun_eq_iff)

lemma job_of_Some: "thp_jobs p j = Some tj \<Longrightarrow> job_of p j = (tj_fun tj, tj_param tj)"
  by (simp add: job_of_def)

lemma calls_owned [simp]: "owned (image_mset (\<lambda>(f, x). AddNew f x) N) = {#}"
  by (induction N) auto

lemma thp_ok_runner_get:
  assumes ok: "thp_ok p (add_mset RunGet M) evs" and act: "runner_get body p = Some (Some p', new, ev)"
  shows "thp_ok p' (mset new + M) (evs @ [ev])"
proof -
  from ok have q: "pq_ok (in_queue p)" by (simp add: thp_ok_def)
  from act obtain rc out c where g: "ch_get (Some (in_queue p)) (Some 8) = Some (rc, out, Some c)"
    by (auto simp: runner_get_def bind_Some_iff dest: pq_result [OF q])
  from pq_get_cases [OF q g] consider
      (eot) "pq_ok c" "rc = CH_GET_ENDOFTRANSMISSION" "ch_items (in_queue p) = BEot # ch_items c"
    | (job) j where "pq_ok c" "rc = CH_OK" "out = OutPtr j" "ch_items (in_queue p) = BPtr j # ch_items c" by blast
  then show ?thesis
  proof cases
    case eot
    with act g have "p' = p\<lparr>in_queue := c\<rparr>" "new = []" "ev = Silent"
      by (auto simp: runner_get_def)
    with ok eot show ?thesis by (simp add: thp_ok_def job_of_Some)
  next
    case job
    have ne: "CH_OK \<noteq> CH_GET_ENDOFTRANSMISSION" by (simp add: codes)
    with act g job obtain tj where
      tj: "thp_jobs p j = Some tj" "p' = p\<lparr>in_queue := c\<rparr>" "ev = Started (tj_fun tj) (tj_param tj)"
        "new = map (\<lambda>(f, x). AddNew f x) (body (tj_fun tj) (tj_param tj)) @ [RunPut j, RunGet]"
      by (auto simp: runner_get_def bind_Some_iff)
    with ok job show ?thesis by (simp add: thp_ok_def job_of_Some)
  qed
qed


lemma thp_ok_runner_put:
  assumes ok: "thp_ok p (add_mset (RunPut j) M) evs" and act: "runner_put a p j = Some (Some p', new, ev)"
  shows "thp_ok p' (mset new + M) (evs @ [ev])"
proof -
  from ok have q: "pq_ok (wait_queue p)" by (simp add: thp_ok_def)
  from act obtain rc c where g: "ch_put (Some (wait_queue p)) (ArgPtr j []) a True = Some (rc, Some c)"
    and r: "p' = p\<lparr>wait_queue := c\<rparr>" "new = []" "ev = (if rc < 0 then JobLost j else Silent)"
    by (auto simp: runner_put_def bind_Some_iff)
  from pq_put_cases [OF q _ g] have c: "pq_ok c" and
    cs: "if a then 0 < rc \<and> ch_items c = ch_items (wait_queue p) @ [BPtr j]
      else rc = CH_NO_MEMORY \<and> c = wait_queue p" by auto
  show ?thesis
  proof (cases a)
    case True
    with ok r c cs show ?thesis by (simp add: thp_ok_def)
  next
    case False
    moreover have "CH_NO_MEMORY < 0" by (simp add: codes)
    ultimately show ?thesis using ok r c cs by (simp add: thp_ok_def)
  qed
qed

lemma thp_ok_add_put:
  assumes ok: "thp_ok p (add_mset (AddPut j) M) evs" and act: "add_put a p j = Some (Some p', new, ev)"
  shows "thp_ok p' (mset new + M) (evs @ [ev])"
proof -
  from ok have q: "pq_ok (in_queue p)" by (simp add: thp_ok_def)
  note lk = thp_ok_lock [OF ok, simplified]
  from act obtain rc c where g: "ch_put (Some (in_queue p)) (ArgPtr j []) a True = Some (rc, Some c)"
    by (auto simp: add_put_def bind_Some_iff)
  from pq_put_cases [OF q _ g] have c: "pq_ok c" and
    cs: "if a then 0 < rc \<and> ch_items c = ch_items (in_queue p) @ [BPtr j]
      else rc = CH_NO_MEMORY \<and> c = in_queue p" by auto
  show ?thesis
  proof (cases a)
    case True
    with act g cs obtain tj where tj: "thp_jobs p j = Some tj" and
      r: "p' = p\<lparr>in_queue := c\<rparr>" "new = [AddCount]" "ev = Added (tj_fun tj) (tj_param tj)"
      by (auto simp: add_put_def bind_Some_iff)
    with True ok c cs show ?thesis by (simp add: thp_ok_def job_of_Some)
  next
    case False
    moreover have "CH_NO_MEMORY < 0" by (simp add: codes)
    ultimately have "p' = thp_unlock (p\<lparr>in_queue := c\<rparr>)" "new = []" "ev = AddFailed j rc"
      using act g cs by (auto simp: add_put_def)
    with False ok c cs lk show ?thesis by (simp add: thp_ok_def thp_unlock_def int_ok_def)
  qed
qed

lemma thp_ok_add_count:
  assumes ok: "thp_ok p (add_mset AddCount M) evs" and act: "add_count p = Some (Some p', new, ev)"
  shows "thp_ok p' (mset new + M) (evs @ [ev])"
proof -
  note lk = thp_ok_lock [OF ok, simplified]
  from act have "int_ok (to_be_waited p + 1)" and
    r: "p' = p\<lparr>submitted := submitted p + 1, to_be_waited := to_be_waited p + 1, thp_locked := False\<rparr>"
    "new = [AddRet]" "ev = Silent"
    by (auto simp: add_count_def bind_Some_iff thp_unlock_def)
  with ok lk show ?thesis by (simp add: thp_ok_def int_ok_def)
qed

lemma thp_ok_wait_test:
  assumes ok: "thp_ok p (add_mset WaitTest M) evs" and act: "wait_test p = Some (Some p', new, ev)"
  shows "thp_ok p' (mset new + M) (evs @ [ev])"
proof -
  note lk = thp_ok_lock [OF ok, simplified]
  from ok lk have w: "wait_running p = 0" by (simp add: thp_ok_def)
  show ?thesis
  proof (cases "to_be_waited p = 0")
    case True
    with act w have "p' = p\<lparr>wait_running := 0, thp_locked := False\<rparr>" "new = []" "ev = Returned 0"
      by (auto simp: wait_test_def thp_unlock_def)
    with ok lk show ?thesis by (simp add: thp_ok_def int_ok_def)
  next
    case False
    with act w have "p' = p\<lparr>wait_running := 1\<rparr>" "new = [WaitLoop 0]" "ev = Silent"
      by (auto simp: wait_test_def)
    with ok lk show ?thesis by (simp add: thp_ok_def int_ok_def)
  qed
qed

lemma thp_ok_wait_loop:
  assumes ok: "thp_ok p (add_mset (WaitLoop n) M) evs" and act: "wait_loop p n = Some (Some p', new, ev)"
  shows "thp_ok p' (mset new + M) (evs @ [ev])"
proof -
  note lk = thp_ok_lock [OF ok, simplified]
  show ?thesis
  proof (cases "to_be_waited p = 0")
    case True
    with act have "p' = p\<lparr>wait_running := 0, thp_locked := False\<rparr>" "new = []" "ev = Returned n"
      by (auto simp: wait_loop_def thp_unlock_def)
    with ok lk show ?thesis by (simp add: thp_ok_def int_ok_def)
  next
    case False
    from ok have q: "pq_ok (wait_queue p)" "BEot \<notin> set (ch_items (wait_queue p))" by (simp_all add: thp_ok_def)
    from act False obtain rc out c where g: "ch_get (Some (wait_queue p)) (Some 8) = Some (rc, out, Some c)"
      by (auto simp: wait_loop_def bind_Some_iff dest: pq_result [OF q(1)])
    from pq_get_cases [OF q(1) g] q(2) obtain j where
      c: "pq_ok c" "rc = CH_OK" "out = OutPtr j" "ch_items (wait_queue p) = BPtr j # ch_items c" by auto
    let ?in = "void_ptrs (ch_items (in_queue p))"
    from act False g c have r: "p' = p\<lparr>wait_queue := c, thp_jobs := (thp_jobs p)(j := None),
        to_be_waited := to_be_waited p - 1\<rparr>" "new = [WaitLoop (n + 1)]" "ev = Silent"
      by (auto simp: wait_loop_def bind_Some_iff)
    have "mset ?in + add_mset j (mset (void_ptrs (ch_items c)) + owned M + mset (ev_lost evs) +
        mset (ev_failed evs)) = mset_set (dom (thp_jobs p))" and f: "finite (dom (thp_jobs p))"
      using ok c(4) by (simp_all add: thp_ok_def ac_simps)
    note m = mset_set_member [OF this]
    have "map (job_of p') ?in = map (job_of p) ?in"
      using m(2) by (auto simp: r job_of_def)
    moreover have "dom (thp_jobs p') = dom (thp_jobs p) - {j}" by (auto simp: r)
    moreover have "0 \<le> to_be_waited p - 1" "int_ok (to_be_waited p - 1)"
      using ok False by (simp_all add: thp_ok_def int_ok_def)
    ultimately show ?thesis
      using ok lk c r m(4) f by (simp add: thp_ok_def ac_simps)
  qed
qed

lemma thp_ok_add_new:
  assumes ok: "thp_ok p (add_mset (AddNew f x) M) evs"
    and act: "thp_act body a ended p (AddNew f x) = Some (Some p', new, ev)"
  shows "thp_ok p' (mset new + M) (evs @ [ev])"
proof (cases a)
  case False
  with act have "p' = p" "new = []" "ev = Returned THP_NO_MEMORY" by (simp_all add: thp_job_create_def)
  with ok show ?thesis by (simp add: thp_ok_def)
next
  case True
  let ?j = "job_brk p" and ?in = "void_ptrs (ch_items (in_queue p))"
  from act True have r: "p' = p\<lparr>thp_jobs := (thp_jobs p)(?j \<mapsto> \<lparr>tj_fun = f, tj_param = x\<rparr>), job_brk := Suc ?j\<rparr>"
    "new = [AddLock ?j]" "ev = Silent" by (simp_all add: thp_job_create_def)
  from ok have f: "finite (dom (thp_jobs p))" "\<forall>j \<in> dom (thp_jobs p). j < ?j" by (simp_all add: thp_ok_def)
  then have nj: "?j \<notin> dom (thp_jobs p)" by blast
  have "?j \<notin> set ?in" using thp_ok_queued [OF ok] nj by blast
  then have "map (job_of p') ?in = map (job_of p) ?in" by (auto simp: r job_of_def)
  moreover have "dom (thp_jobs p') = insert ?j (dom (thp_jobs p))" by (simp add: r)
  moreover have "mset_set (insert ?j (dom (thp_jobs p))) = add_mset ?j (mset_set (dom (thp_jobs p)))"
    using f nj by simp
  moreover have "\<forall>j \<in> dom (thp_jobs p). j < Suc ?j" using f(2) less_Suc_eq by blast
  ultimately show ?thesis using ok r by (simp add: thp_ok_def)
qed


lemma thp_ok_destroy_put:
  assumes ok: "thp_ok p (add_mset (DestroyPut i) M) evs" and act: "destroy_put a p i = Some (Some p', new, ev)"
  shows "thp_ok p' (mset new + M) (evs @ [ev])"
proof (cases "int i < num_threads p")
  case True
  from ok have q: "pq_ok (in_queue p)" by (simp add: thp_ok_def)
  from act True obtain rc c where g: "ch_put (Some (in_queue p)) ArgEot a True = Some (rc, Some c)"
    and r: "p' = p\<lparr>in_queue := c\<rparr>" "new = [DestroyPut (Suc i)]" "ev = Silent"
    by (auto simp: destroy_put_def bind_Some_iff)
  from pq_put_cases [OF q _ g] have "pq_ok c" "void_ptrs (ch_items c) = void_ptrs (ch_items (in_queue p))"
    by (auto split: if_splits)
  with ok r show ?thesis by (simp add: thp_ok_def)
next
  case False
  with act have "p' = p" "new = [DestroyJoin 0]" "ev = Silent" by (auto simp: destroy_put_def)
  with ok show ?thesis by (simp add: thp_ok_def)
qed

lemma thp_ok_destroy_join:
  assumes ok: "thp_ok p (add_mset (DestroyJoin i) M) evs" and act: "destroy_join e p i = Some (Some p', new, ev)"
  shows "thp_ok p' (mset new + M) (evs @ [ev])"
proof -
  from act have "p' = p" "new = [DestroyJoin (Suc i)] \<or> new = [WaitLock, DestroyFree]" "ev = Silent"
    by (auto simp: destroy_join_def split: if_splits)
  with ok show ?thesis by (auto simp: thp_ok_def)
qed

lemma thp_ok_act:
  assumes ok: "thp_ok p (add_mset fr M) evs" and act: "thp_act body a ended p fr = Some (Some p', new, ev)"
  shows "thp_ok p' (mset new + M) (evs @ [ev])"
proof (cases fr)
  case RunGet
  with ok act thp_ok_runner_get show ?thesis by simp
next
  case (RunPut j)
  with ok act thp_ok_runner_put [of p j M evs a] show ?thesis by simp
next
  case (AddNew f x)
  with ok act thp_ok_add_new [of p f x M evs body a ended] show ?thesis by simp
next
  case (AddLock j)
  with ok act show ?thesis by (auto simp: thp_lock_def thp_ok_def split: if_splits)
next
  case (AddPut j)
  with ok act thp_ok_add_put [of p j M evs a] show ?thesis by simp
next
  case AddCount
  with ok act thp_ok_add_count show ?thesis by simp
next
  case AddRet
  with ok act show ?thesis by (auto simp: thp_ok_def)
next
  case WaitLock
  with ok act show ?thesis by (auto simp: thp_lock_def thp_ok_def split: if_splits)
next
  case WaitTest
  with ok act thp_ok_wait_test show ?thesis by simp
next
  case (WaitLoop n)
  with ok act thp_ok_wait_loop [of p n M evs] show ?thesis by simp
next
  case (DestroyPut i)
  with ok act thp_ok_destroy_put [of p i M evs a] show ?thesis by simp
next
  case (DestroyJoin i)
  with ok act thp_ok_destroy_join [of p i M evs ended] show ?thesis by simp
next
  case DestroyFree
  with act show ?thesis by (auto simp: destroy_free_def bind_Some_iff)
qed

section \<open>Reachable configurations\<close>

definition frames :: "('f, 'x) thp_cfg \<Rightarrow> ('f, 'x) frame multiset" where
  "frames c = mset (concat (stacks c))"

definition thp_inv :: "('f, 'x) thp_cfg \<Rightarrow> bool" where
  "thp_inv c \<longleftrightarrow> (case pool c of None \<Rightarrow> True | Some p \<Rightarrow> thp_ok p (frames c) (events c))"

lemma concat_split:
  assumes "t < length xss"
  shows "mset (concat (xss[t := ys])) + mset (xss ! t) = mset ys + mset (concat xss)"
proof -
  define A y B where "A = take t xss" and "y = xss ! t" and "B = drop (Suc t) xss"
  have xss: "xss = A @ y # B" using assms by (simp add: A_def y_def B_def id_take_nth_drop)
  moreover have "xss[t := ys] = A @ ys # B"
    using assms by (simp add: A_def B_def upd_conv_take_nth_drop)
  ultimately have "mset (concat (xss[t := ys])) + mset y = mset ys + mset (concat xss)"
    by (simp add: ac_simps)
  then show ?thesis by (simp add: y_def)
qed

text \<open>A step taken apart: the thread, its top frame, and the other frames.\<close>

lemma thp_exec_elim:
  assumes "thp_exec body c a = Some c'"
  obtains t ok fr rest p p1 new ev M where
    "a = (t, ok)" "t < length (stacks c)" "stacks c ! t = fr # rest" "pool c = Some p"
    "thp_act body ok (\<lambda>i. i < length (stacks c) \<and> stacks c ! i = []) p fr = Some (p1, new, ev)"
    "c' = \<lparr>pool = p1, stacks = (stacks c)[t := new @ rest], events = events c @ [ev]\<rparr>"
    "frames c = add_mset fr M" "frames c' = mset new + M"
proof -
  obtain t ok where a: "a = (t, ok)" by (cases a)
  with assms obtain fr rest p p1 new ev where
    s: "t < length (stacks c)" "stacks c ! t = fr # rest" "pool c = Some p"
      "thp_act body ok (\<lambda>i. i < length (stacks c) \<and> stacks c ! i = []) p fr = Some (p1, new, ev)"
      "c' = \<lparr>pool = p1, stacks = (stacks c)[t := new @ rest], events = events c @ [ev]\<rparr>"
    by (auto simp: thp_exec_def bind_Some_iff split: if_splits list.splits)
  have "fr # rest \<in> set (stacks c)" using s(1,2) nth_mem [of t "stacks c"] by simp
  then have "fr \<in># frames c" by (auto simp: frames_def intro: bexI [of _ "fr # rest"])
  then obtain M where M: "frames c = add_mset fr M" by (metis multi_member_split)
  have "frames c' + mset (fr # rest) = mset (new @ rest) + frames c"
    using concat_split [OF s(1), of "new @ rest"] s(2,5) by (simp add: frames_def)
  then have "frames c' = mset new + M" by (simp add: M)
  with a s M show thesis by (intro that) simp_all
qed

lemma thp_inv_step:
  assumes "thp_inv c" and "thp_exec body c a = Some c'"
  shows "thp_inv c'"
proof -
  from thp_exec_elim [OF assms(2)] obtain t ok fr rest p p1 new ev M where
    s: "pool c = Some p" "thp_act body ok (\<lambda>i. i < length (stacks c) \<and> stacks c ! i = []) p fr = Some (p1, new, ev)"
      "c' = \<lparr>pool = p1, stacks = (stacks c)[t := new @ rest], events = events c @ [ev]\<rparr>"
      "frames c = add_mset fr M" "frames c' = mset new + M" .
  show ?thesis
  proof (cases p1)
    case None
    with s(3) show ?thesis by (simp add: thp_inv_def)
  next
    case (Some p')
    have "thp_ok p (add_mset fr M) (events c)" using assms(1) s(1,4) by (simp add: thp_inv_def)
    from thp_ok_act [OF this] s(2) Some have "thp_ok p' (mset new + M) (events c @ [ev])" by blast
    with s(3,5) Some show ?thesis by (simp add: thp_inv_def)
  qed
qed

lemma calls_ok:
  "list_all fr_call fs \<Longrightarrow> tally fr_holds (mset fs) = 0 \<and> tally fr_loops (mset fs) = 0 \<and>
    tally fr_runs (mset fs) = 0 \<and> tally ((=) AddCount) (mset fs) = 0 \<and> owned (mset fs) = {#}"
proof (induction fs)
  case (Cons fr fs)
  then show ?case by (cases fr) auto
qed simp

definition idle_runners :: "bool list \<Rightarrow> ('f, 'x) frame multiset" where
  "idle_runners bs = mset (concat (map (\<lambda>b. if b then [RunGet] else []) bs))"

lemma runners_ok [simp]:
  "tally fr_holds (idle_runners bs) = 0" "tally fr_loops (idle_runners bs) = 0"
  "tally fr_runs (idle_runners bs) = 0" "tally ((=) AddCount) (idle_runners bs) = 0"
  "owned (idle_runners bs) = {#}"
  by (induction bs) (auto simp: idle_runners_def)

lemma thp_create_ok:
  assumes "thp_create h raw n hok tok started = Some (Inr p)"
  shows "pq_ok (in_queue p)" "pq_ok (wait_queue p)" "ch_items (in_queue p) = []" "ch_items (wait_queue p) = []"
    "wait_running p = 0" "submitted p = 0" "to_be_waited p = 0" "\<not> thp_locked p" "thp_jobs p = Map.empty"
    "thp_threads p = map started [0..<nat n]" "num_threads p = n" "thp_allocated p \<longleftrightarrow> h = None"
    "thp_magic p = CH_MAGIC_ID"
proof -
  let ?h = "(case h of None \<Rightarrow> raw\<lparr>thp_allocated := True\<rparr> | Some t \<Rightarrow> t\<lparr>thp_allocated := False\<rparr>)"
  obtain c1 c2 where c: "ch_create (Some (in_queue ?h)) CH_DATALEN_VOIDP True = Some c1" "pq_ok c1" "ch_items c1 = []"
    "ch_create (Some (wait_queue ?h)) CH_DATALEN_VOIDP True = Some c2" "pq_ok c2" "ch_items c2 = []"
    using pq_create by metis
  have "p = ?h\<lparr>thp_magic := CH_MAGIC_ID, in_queue := c1, wait_queue := c2, wait_running := 0, submitted := 0,
      to_be_waited := 0, thp_locked := False, num_threads := n, thp_threads := map started [0..<nat n],
      thp_jobs := Map.empty, job_brk := 0\<rparr>"
    using assms c(1,4) by (auto simp: thp_create_def Let_def split: if_splits)
  with c show "pq_ok (in_queue p)" "pq_ok (wait_queue p)" "ch_items (in_queue p) = []" "ch_items (wait_queue p) = []"
    "wait_running p = 0" "submitted p = 0" "to_be_waited p = 0" "\<not> thp_locked p" "thp_jobs p = Map.empty"
    "thp_threads p = map started [0..<nat n]" "num_threads p = n" "thp_allocated p \<longleftrightarrow> h = None"
    "thp_magic p = CH_MAGIC_ID"
    by (simp_all split: option.split)
qed

lemma thp_inv_init:
  assumes "thp_create h raw n hok tok started = Some (Inr p)" and "\<forall>prog \<in> set progs. list_all fr_call prog"
  shows "thp_inv (thp_init p progs)"
proof -
  note c = thp_create_ok [OF assms(1)]
  have "list_all fr_call (concat progs)" using assms(2) by (auto simp: list_all_iff)
  note k = calls_ok [OF this]
  have "frames (thp_init p progs) = idle_runners (thp_threads p) + mset (concat progs)"
    by (simp add: frames_def thp_init_def idle_runners_def)
  then have "thp_ok p (frames (thp_init p progs)) []"
    using c k by (simp add: thp_ok_def int_ok_def ev_defs)
  then show ?thesis by (simp add: thp_inv_def thp_init_def)
qed

lemma thp_inv_reachable: "thp_reachable body c \<Longrightarrow> thp_inv c"
  by (induction rule: thp_reachable.induct) (auto intro: thp_inv_init thp_inv_step)

end
