(* ===== verification/ThpSpec.thy ===== *)
theory ThpSpec
  imports ThpInv
begin

text \<open>
  What the thread pool promises: jobs start in the order they are added, \<open>thp_wait\<close> returns only
  when all of them have been run, and it can always return as long as a runner is left; and where
  it fails: a job that adds a job while another thread waits, and a job that cannot be passed on.
\<close>

lemma tally_0: "tally P M = 0 \<longleftrightarrow> (\<forall>fr \<in># M. \<not> P fr)"
  by (induction M) auto

section \<open>A thread in the loop of thp_wait\<close>

lemma waiter_ok:
  assumes inv: "thp_inv c" and p: "pool c = Some p" and t: "t < length (stacks c)" "stacks c ! t = WaitLoop n # r"
  obtains M where "frames c = add_mset (WaitLoop n) M" and "thp_ok p (add_mset (WaitLoop n) M) (events c)"
    and "thp_locked p" and "tally ((=) AddCount) M = 0"
proof -
  have "stacks c ! t \<in> set (stacks c)" using t(1) by (rule nth_mem)
  then have "WaitLoop n \<in># frames c" using t(2) by (auto simp: frames_def intro!: bexI [of _ "stacks c ! t"])
  then obtain M where M: "frames c = add_mset (WaitLoop n) M" by (metis multi_member_split)
  then have ok: "thp_ok p (add_mset (WaitLoop n) M) (events c)" using inv p by (simp add: thp_inv_def)
  from that [OF M ok] thp_ok_lock [OF ok] show thesis by simp
qed

lemma waiter_count:
  assumes "thp_ok p (add_mset (WaitLoop n) M) evs" and "tally ((=) AddCount) M = 0"
  shows "to_be_waited p = int (length (void_ptrs (ch_items (in_queue p))) + tally fr_runs M +
    length (ch_items (wait_queue p)) + length (ev_lost evs))"
  using assms by (simp add: thp_ok_def)

text \<open>A step of the waiter while jobs are outstanding leaves it in the loop; a step of another
  thread leaves the pool allocated.\<close>

lemma waiter_step:
  assumes inv: "thp_inv c" and p: "pool c = Some p" and t: "t < length (stacks c)" "stacks c ! t = WaitLoop n # r"
    and more: "to_be_waited p \<noteq> 0" and step: "thp_exec body c a = Some c'"
  shows "\<exists>n'. stacks c' ! t = WaitLoop n' # r" and "pool c' \<noteq> None" and "length (stacks c') = length (stacks c)"
proof -
  obtain M0 where lk: "thp_locked p" by (rule waiter_ok [OF inv p t])
  from thp_exec_elim [OF step] obtain u ok fr rest p' p1 new ev M where
    s: "u < length (stacks c)" "stacks c ! u = fr # rest" "pool c = Some p'"
      "thp_act body ok (\<lambda>i. i < length (stacks c) \<and> stacks c ! i = []) p' fr = Some (p1, new, ev)"
      "c' = \<lparr>pool = p1, stacks = (stacks c)[u := new @ rest], events = events c @ [ev]\<rparr>" .
  from p s(3) have p': "p' = p" by simp
  show "length (stacks c') = length (stacks c)" by (simp add: s(5))
  have "\<exists>p2. p1 = Some p2"
  proof (cases fr)
    case DestroyFree
    with s(4) p' lk show ?thesis by (auto simp: destroy_free_def bind_Some_iff)
  qed (use s(4) in \<open>auto simp: runner_get_def runner_put_def add_put_def add_count_def wait_test_def
      wait_loop_def destroy_put_def destroy_join_def Let_def bind_Some_iff
      split: if_splits out.splits option.splits prod.splits\<close>)
  then show "pool c' \<noteq> None" by (auto simp: s(5))
  show "\<exists>n'. stacks c' ! t = WaitLoop n' # r"
  proof (cases "u = t")
    case True
    with s(2) t(2) have f: "fr = WaitLoop n" "rest = r" by simp_all
    with s(4) p' have "wait_loop p n = Some (p1, new, ev)" by simp
    with more have "\<exists>n'. new = [WaitLoop n']"
      by (auto simp: wait_loop_def Let_def bind_Some_iff split: if_splits out.splits)
    with True s(1,5) f(2) show ?thesis by auto
  next
    case False
    with t(2) s(5) show ?thesis by simp
  qed
qed

section \<open>Where thp_wait never returns\<close>

text \<open>A job that has been lost stays counted.\<close>

lemma events_grow: "thp_exec body c a = Some c' \<Longrightarrow> \<exists>ev. events c' = events c @ [ev]"
  by (erule thp_exec_elim) simp

lemma lost_keeps_waiting:
  assumes "thp_inv c" and "pool c \<noteq> None" and "t < length (stacks c)" and "stacks c ! t = WaitLoop n # r"
    and "ev_lost (events c) \<noteq> []" and "thp_run body c as = Some c'"
  shows "\<exists>n'. stacks c' ! t = WaitLoop n' # r"
  using assms
proof (induction as arbitrary: c n)
  case Nil
  then show ?case by simp
next
  case (Cons a as)
  from Cons.prems(2) obtain p where p: "pool c = Some p" by blast
  obtain M where M: "thp_ok p (add_mset (WaitLoop n) M) (events c)" "tally ((=) AddCount) M = 0"
    by (rule waiter_ok [OF Cons.prems(1) p Cons.prems(3,4)])
  from waiter_count [OF M] Cons.prems(5) have tb: "to_be_waited p \<noteq> 0" by (cases "ev_lost (events c)") auto
  from Cons.prems(6) obtain c1 where c1: "thp_exec body c a = Some c1" "thp_run body c1 as = Some c'"
    by (auto simp: bind_Some_iff)
  note w = waiter_step [OF Cons.prems(1) p Cons.prems(3,4) tb c1(1)]
  from w(1) obtain n' where n': "stacks c1 ! t = WaitLoop n' # r" by blast
  from events_grow [OF c1(1)] Cons.prems(5) have "ev_lost (events c1) \<noteq> []" by auto
  from Cons.IH [OF thp_inv_step [OF Cons.prems(1) c1(1)] w(2) _ n' this c1(2)] w(3) Cons.prems(3)
  show ?case by simp
qed

text \<open>A runner that waits for the mutex inside a job keeps its job counted.\<close>

lemma blocked_keeps_waiting:
  assumes "thp_inv c" and "pool c \<noteq> None" and "t < length (stacks c)" and "stacks c ! t = WaitLoop n # r"
    and "u < length (stacks c)" and "stacks c ! u = AddLock j # r2" and "RunPut i \<in> set r2"
    and "thp_run body c as = Some c'"
  shows "(\<exists>n'. stacks c' ! t = WaitLoop n' # r) \<and> stacks c' ! u = AddLock j # r2"
  using assms
proof (induction as arbitrary: c n)
  case Nil
  then show ?case by simp
next
  case (Cons a as)
  from Cons.prems(2) obtain p where p: "pool c = Some p" by blast
  obtain M where M: "frames c = add_mset (WaitLoop n) M" "thp_ok p (add_mset (WaitLoop n) M) (events c)"
    "thp_locked p" "tally ((=) AddCount) M = 0"
    by (rule waiter_ok [OF Cons.prems(1) p Cons.prems(3,4)])
  have "stacks c ! u \<in> set (stacks c)" using Cons.prems(5) by (rule nth_mem)
  then have "RunPut i \<in># frames c"
    using Cons.prems(6,7) by (auto simp: frames_def intro!: bexI [of _ "stacks c ! u"])
  then have "RunPut i \<in># M" using M(1) by simp
  then obtain N where "M = add_mset (RunPut i) N" by (metis multi_member_split)
  with waiter_count [OF M(2,4)] have tb: "to_be_waited p \<noteq> 0" by simp
  from Cons.prems(8) obtain c1 where c1: "thp_exec body c a = Some c1" "thp_run body c1 as = Some c'"
    by (auto simp: bind_Some_iff)
  note w = waiter_step [OF Cons.prems(1) p Cons.prems(3,4) tb c1(1)]
  from w(1) obtain n' where n': "stacks c1 ! t = WaitLoop n' # r" by blast
  have "stacks c1 ! u = AddLock j # r2"
  proof -
    from thp_exec_elim [OF c1(1)] obtain v ok fr rest p' p1 new ev N where
      s: "a = (v, ok)" "stacks c ! v = fr # rest" "pool c = Some p'"
        "thp_act body ok (\<lambda>i. i < length (stacks c) \<and> stacks c ! i = []) p' fr = Some (p1, new, ev)"
        "c1 = \<lparr>pool = p1, stacks = (stacks c)[v := new @ rest], events = events c @ [ev]\<rparr>" .
    have "v \<noteq> u"
    proof
      assume "v = u"
      with s(2-4) p Cons.prems(6) M(3) show False by (auto simp: thp_lock_def)
    qed
    with s(5) Cons.prems(6) show ?thesis by simp
  qed
  from Cons.IH [OF thp_inv_step [OF Cons.prems(1) c1(1)] w(2) _ n' _ this Cons.prems(7) c1(2)] w(3) Cons.prems(3,5)
  show ?case by simp
qed


section \<open>Where thp_wait can return\<close>

text \<open>When jobs make no calls of the pool, a runner is at \<open>ch_get\<close> or about to pass on its job, and
  the threads of the caller have no frames of runners.\<close>

fun fr_runner :: "('f, 'x) frame \<Rightarrow> bool" where
  "fr_runner RunGet = True"
| "fr_runner (RunPut j) = True"
| "fr_runner fr = False"

definition stack_ok :: "('f, 'x) frame list \<Rightarrow> bool" where
  "stack_ok st \<longleftrightarrow> list_all (\<lambda>fr. \<not> fr_runner fr) st \<or> st = [RunGet] \<or> (\<exists>j. st = [RunPut j, RunGet])"

lemma act_stack:
  assumes act: "thp_act (\<lambda>f x. []) ok ended p fr = Some (p1, new, ev)" and st: "stack_ok (fr # rest)"
  shows "stack_ok (new @ rest)"
proof (cases "fr_runner fr")
  case True
  then consider "fr = RunGet" | j where "fr = RunPut j" by (cases fr) auto
  then show ?thesis
  proof cases
    case 1
    then have "rest = []" using st by (auto simp: stack_ok_def)
    moreover have "new = [] \<or> new = [RunGet] \<or> (\<exists>j. new = [RunPut j, RunGet])"
      using act 1 by (auto simp: runner_get_def Let_def bind_Some_iff split: if_splits out.splits)
    ultimately show ?thesis by (auto simp: stack_ok_def)
  next
    case 2
    then have "rest = [RunGet]" using st by (auto simp: stack_ok_def)
    moreover have "new = []" using act 2 by (auto simp: runner_put_def bind_Some_iff)
    ultimately show ?thesis by (simp add: stack_ok_def)
  qed
next
  case False
  then have "list_all (\<lambda>fr. \<not> fr_runner fr) rest" using st by (auto simp: stack_ok_def)
  moreover have "list_all (\<lambda>fr. \<not> fr_runner fr) new"
    using act False by (cases fr)
      (auto simp: add_put_def add_count_def wait_test_def wait_loop_def destroy_put_def destroy_join_def
        destroy_free_def Let_def bind_Some_iff split: if_splits out.splits option.splits prod.splits)
  ultimately show ?thesis by (simp add: stack_ok_def)
qed

lemma stack_ok_step:
  assumes "thp_exec (\<lambda>f x. []) c a = Some c'" and "\<forall>st \<in> set (stacks c). stack_ok st"
  shows "\<forall>st \<in> set (stacks c'). stack_ok st"
proof -
  from thp_exec_elim [OF assms(1)] obtain t ok fr rest p p1 new ev M where
    s: "t < length (stacks c)" "stacks c ! t = fr # rest"
      "thp_act (\<lambda>f x. []) ok (\<lambda>i. i < length (stacks c) \<and> stacks c ! i = []) p fr = Some (p1, new, ev)"
      "c' = \<lparr>pool = p1, stacks = (stacks c)[t := new @ rest], events = events c @ [ev]\<rparr>" .
  have "stack_ok (fr # rest)" using assms(2) s(1,2) nth_mem [of t "stacks c"] by simp
  from act_stack [OF s(3) this] assms(2) s(4) show ?thesis
    using set_update_subset_insert [of "stacks c" t "new @ rest"] by auto
qed

lemma stack_ok_reachable:
  "thp_reachable (\<lambda>f x. []) c \<Longrightarrow> \<forall>st \<in> set (stacks c). stack_ok st"
proof (induction rule: thp_reachable.induct)
  case (start h raw n hok tok started p progs)
  have "list_all (\<lambda>fr. \<not> fr_runner fr) prog" if "list_all fr_call prog" for prog :: "('a, 'b) frame list"
    using that by (induction prog) (auto elim: fr_call.elims)
  with start show ?case by (auto simp: thp_init_def stack_ok_def)
next
  case (step c a c')
  then show ?case using stack_ok_step by blast
qed


lemma thp_execI:
  assumes "t < length (stacks c)" and "stacks c ! t = fr # rest" and "pool c = Some p"
    and "thp_act body ok (\<lambda>i. i < length (stacks c) \<and> stacks c ! i = []) p fr = Some (p1, new, ev)"
  shows "thp_exec body c (t, ok) =
    Some \<lparr>pool = p1, stacks = (stacks c)[t := new @ rest], events = events c @ [ev]\<rparr>"
  using assms by (simp add: thp_exec_def)

text \<open>What is left to do before the waiter can go on.\<close>

definition thp_work :: "('f, 'x) thp \<Rightarrow> ('f, 'x) frame multiset \<Rightarrow> nat" where
  "thp_work p M = 3 * length (ch_items (in_queue p)) + 2 * tally fr_runs M + length (ch_items (wait_queue p))"

definition waiting :: "('f, 'x) thp_cfg \<Rightarrow> ('f, 'x) thp \<Rightarrow> nat \<Rightarrow> ('f, 'x) frame list \<Rightarrow> bool" where
  "waiting c p t r \<longleftrightarrow> thp_inv c \<and> pool c = Some p \<and> t < length (stacks c) \<and>
     (\<exists>n. stacks c ! t = WaitLoop n # r) \<and> (\<forall>st \<in> set (stacks c). stack_ok st) \<and>
     RunGet \<in># frames c \<and> BEot \<notin> set (ch_items (in_queue p)) \<and> ev_lost (events c) = []"

lemma in_frames: "fr \<in># frames c \<longleftrightarrow> (\<exists>u < length (stacks c). fr \<in> set (stacks c ! u))"
proof -
  have "fr \<in># frames c \<longleftrightarrow> (\<exists>st \<in> set (stacks c). fr \<in> set st)" by (simp add: frames_def)
  then show ?thesis by (metis in_set_conv_nth)
qed

lemma waiting_step:
  assumes w: "waiting c p t r" and more: "to_be_waited p \<noteq> 0"
  shows "\<exists>u c1 p1. thp_exec (\<lambda>f x. []) c (u, True) = Some c1 \<and> waiting c1 p1 t r \<and>
    thp_work p1 (frames c1) < thp_work p (frames c)"
proof -
  from w obtain n where inv: "thp_inv c" and p: "pool c = Some p" and t: "t < length (stacks c)" "stacks c ! t = WaitLoop n # r"
    and so: "\<forall>st \<in> set (stacks c). stack_ok st" and run: "RunGet \<in># frames c"
    and ne: "BEot \<notin> set (ch_items (in_queue p))" and lost: "ev_lost (events c) = []"
    by (auto simp: waiting_def)
  obtain M where M: "frames c = add_mset (WaitLoop n) M" "thp_ok p (add_mset (WaitLoop n) M) (events c)"
    "tally ((=) AddCount) M = 0" by (rule waiter_ok [OF inv p t])
  note tb = waiter_count [OF M(2,3)]
  from M(2) have q: "pq_ok (in_queue p)" "pq_ok (wait_queue p)" "BEot \<notin> set (ch_items (wait_queue p))"
    "int_ok (to_be_waited p)" by (simp_all add: thp_ok_def)
  \<comment> \<open>A step that is possible keeps the situation when the right fields come out.\<close>
  have keep: "\<exists>u c1 p1. thp_exec (\<lambda>f x. []) c (u, True) = Some c1 \<and> waiting c1 p1 t r \<and>
      thp_work p1 (frames c1) < thp_work p (frames c)"
    if u: "u < length (stacks c)" "stacks c ! u = fr # rest"
      and act: "thp_act (\<lambda>f x. []) True (\<lambda>i. i < length (stacks c) \<and> stacks c ! i = []) p fr = Some (Some p1, new, ev)"
      and e: "BEot \<notin> set (ch_items (in_queue p1))" "\<forall>j. ev \<noteq> JobLost j" "RunGet \<in> set (new @ rest) \<or> fr \<noteq> RunGet"
      and N: "frames c = add_mset fr N" "thp_work p1 (mset new + N) < thp_work p (frames c)"
    for u fr rest p1 new ev N
  proof -
    let ?c1 = "\<lparr>pool = Some p1, stacks = (stacks c)[u := new @ rest], events = events c @ [ev]\<rparr>"
    have x: "thp_exec (\<lambda>f x. []) c (u, True) = Some ?c1" by (rule thp_execI [OF u p act])
    from waiter_step(1) [OF inv p t more x] obtain n' where "stacks ?c1 ! t = WaitLoop n' # r" by blast
    moreover have "frames ?c1 + mset (fr # rest) = mset (new @ rest) + frames c"
      using concat_split [OF u(1), of "new @ rest"] u(2) by (simp add: frames_def)
    then have F: "frames ?c1 = mset new + N" by (simp add: N(1))
    moreover have "RunGet \<in># frames ?c1"
    proof (cases "fr = RunGet")
      case True
      with e(3) have "RunGet \<in> set (new @ rest)" by blast
      then show ?thesis using u(1) by (auto simp: in_frames intro!: exI [of _ u])
    next
      case False
      with run N(1) show ?thesis by (auto simp: F)
    qed
    moreover have "ev_lost (events ?c1) = []" using lost e(2) by (cases ev) simp_all
    moreover have "thp_inv ?c1" by (rule thp_inv_step [OF inv x])
    moreover have "\<forall>st \<in> set (stacks ?c1). stack_ok st" by (rule stack_ok_step [OF x so])
    ultimately have "waiting ?c1 p1 t r" using t(1) e(1) by (auto simp: waiting_def)
    with x N(2) F show ?thesis by (intro exI [of _ u] exI [of _ ?c1] exI [of _ p1]) simp
  qed
  show ?thesis
  proof (cases "ch_items (wait_queue p)")
    case (Cons b bs)
    with q(3) pq_get [OF q(2) Cons] obtain j c' where
      g: "ch_get (Some (wait_queue p)) (Some 8) = Some (CH_OK, OutPtr j, Some c')" "ch_items c' = bs" "b = BPtr j"
      by auto
    have "j \<in># mset_set (dom (thp_jobs p))"
    proof -
      have "mset_set (dom (thp_jobs p)) = add_mset j (mset (void_ptrs (ch_items (in_queue p))) +
          mset (void_ptrs bs) + owned M + mset (ev_lost (events c)) + mset (ev_failed (events c)))"
        using M(2) Cons g(3) by (simp add: thp_ok_def)
      then show ?thesis by simp
    qed
    then obtain tj where tj: "thp_jobs p j = Some tj" using M(2) by (auto simp: thp_ok_def)
    let ?p1 = "p\<lparr>wait_queue := c', thp_jobs := (thp_jobs p)(j := None), to_be_waited := to_be_waited p - 1\<rparr>"
    have act: "thp_act (\<lambda>f x. []) True (\<lambda>i. i < length (stacks c) \<and> stacks c ! i = []) p (WaitLoop n) =
        Some (Some ?p1, [WaitLoop (n + 1)], Silent)"
      using more g(1) tj by (simp add: wait_loop_def)
    show ?thesis
      using ne Cons g(2) by (intro keep [OF t act _ _ _ M(1)]) (simp_all add: M(1) thp_work_def)
  next
    case Nil
    show ?thesis
    proof (cases "\<exists>j. RunPut j \<in># frames c")
      case True
      then obtain j u where u: "u < length (stacks c)" "RunPut j \<in> set (stacks c ! u)" by (auto simp: in_frames)
      with so have "stack_ok (stacks c ! u)" by simp
      with u(2) have st: "stacks c ! u = [RunPut j, RunGet]" by (auto simp: stack_ok_def list_all_iff)
      have int: "int_ok (int (length (ch_items (wait_queue p))) + 1)" by (simp add: Nil int_ok_def)
      from pq_put [OF q(2) int, of "ArgPtr j []" j] obtain c' where
        g: "ch_put (Some (wait_queue p)) (ArgPtr j []) True True = Some (1, Some c')" "ch_items c' = [BPtr j]"
        by (auto simp: Nil)
      have act: "thp_act (\<lambda>f x. []) True (\<lambda>i. i < length (stacks c) \<and> stacks c ! i = []) p (RunPut j) =
          Some (Some (p\<lparr>wait_queue := c'\<rparr>), [], Silent)"
        using g(1) by (simp add: runner_put_def)
      have "RunPut j \<in># frames c" using u by (auto simp: in_frames)
      then obtain N where N: "frames c = add_mset (RunPut j) N" by (metis multi_member_split)
      show ?thesis
        using ne Nil g(2) by (intro keep [OF u(1) st act _ _ _ N]) (simp_all add: N thp_work_def)
    next
      case False
      then have "tally fr_runs M = 0"
        using M(1) by (auto simp: tally_0 elim: fr_runs.elims)
      with tb more Nil lost have "void_ptrs (ch_items (in_queue p)) \<noteq> []" by auto
      then obtain b bs where items: "ch_items (in_queue p) = b # bs" by (cases "ch_items (in_queue p)") auto
      with ne pq_get [OF q(1) items] obtain j c' where
        g: "ch_get (Some (in_queue p)) (Some 8) = Some (CH_OK, OutPtr j, Some c')" "ch_items c' = bs" "b = BPtr j"
        by auto
      have "j \<in> dom (thp_jobs p)" using thp_ok_queued [OF M(2), of j] items g(3) by simp
      then obtain tj where tj: "thp_jobs p j = Some tj" by blast
      from run obtain u where u: "u < length (stacks c)" "RunGet \<in> set (stacks c ! u)" by (auto simp: in_frames)
      with so have "stack_ok (stacks c ! u)" by simp
      moreover have "RunPut j \<notin> set (stacks c ! u)" for j using False u(1) by (auto simp: in_frames)
      ultimately have st: "stacks c ! u = [RunGet]"
        using u(2) by (fastforce simp: stack_ok_def list_all_iff)
      have "CH_OK \<noteq> CH_GET_ENDOFTRANSMISSION" by (simp add: codes)
      then have act: "thp_act (\<lambda>f x. []) True (\<lambda>i. i < length (stacks c) \<and> stacks c ! i = []) p RunGet =
          Some (Some (p\<lparr>in_queue := c'\<rparr>), [RunPut j, RunGet], Started (tj_fun tj) (tj_param tj))"
        using g(1) tj by (simp add: runner_get_def)
      obtain N where N: "frames c = add_mset RunGet N" using run by (metis multi_member_split)
      show ?thesis
        using ne items g(2) by (intro keep [OF u(1) st act _ _ _ N]) (simp_all add: N thp_work_def)
    qed
  qed
qed

lemma waiting_returns:
  "waiting c p t r \<Longrightarrow> \<exists>as c' n. thp_run (\<lambda>f x. []) c as = Some c' \<and> stacks c' ! t = r \<and>
    last (events c') = Returned n"
proof (induction "thp_work p (frames c)" arbitrary: c p rule: less_induct)
  case less
  show ?case
  proof (cases "to_be_waited p = 0")
    case True
    from less.prems obtain n where t: "pool c = Some p" "t < length (stacks c)" "stacks c ! t = WaitLoop n # r"
      by (auto simp: waiting_def)
    have act: "thp_act (\<lambda>f x. []) True (\<lambda>i. i < length (stacks c) \<and> stacks c ! i = []) p (WaitLoop n) =
        Some (Some (thp_unlock (p\<lparr>wait_running := 0\<rparr>)), [], Returned n)"
      using True by (simp add: wait_loop_def)
    from thp_execI [OF t(2,3,1) act] t(2) show ?thesis
      by (intro exI [of _ "[(t, True)]"]) simp
  next
    case False
    from waiting_step [OF less.prems False] obtain u c1 p1 where
      s: "thp_exec (\<lambda>f x. []) c (u, True) = Some c1" "waiting c1 p1 t r"
        "thp_work p1 (frames c1) < thp_work p (frames c)" by blast
    from less.hyps [OF s(3,2)] obtain as c' n where
      "thp_run (\<lambda>f x. []) c1 as = Some c'" "stacks c' ! t = r" "last (events c') = Returned n" by blast
    with s(1) show ?thesis by (intro exI [of _ "(u, True) # as"]) auto
  qed
qed

end
