(* ===== verification/ThpProps.thy ===== *)
theory ThpProps
  imports ThpSpec
begin

text \<open>
  The properties of the thread pool and the pools and runs that witness them.
\<close>

section \<open>Returned codes\<close>

lemma returned_ok_step:
  assumes step: "thp_exec body c a = Some c'" and inv: "thp_inv c"
    and sub: "\<forall>p. pool c = Some p \<longrightarrow> 0 \<le> submitted p"
    and loop: "\<forall>n. WaitLoop n \<in># frames c \<longrightarrow> 0 \<le> n"
    and ret: "Returned THP_TOO_MANY_WAIT \<notin> set (events c)"
  shows "(\<forall>p. pool c' = Some p \<longrightarrow> 0 \<le> submitted p) \<and> (\<forall>n. WaitLoop n \<in># frames c' \<longrightarrow> 0 \<le> n) \<and>
    Returned THP_TOO_MANY_WAIT \<notin> set (events c')"
proof -
  from thp_exec_elim [OF step] obtain t ok fr rest p p1 new ev M where
    s: "pool c = Some p" "thp_act body ok (\<lambda>i. i < length (stacks c) \<and> stacks c ! i = []) p fr = Some (p1, new, ev)"
      "c' = \<lparr>pool = p1, stacks = (stacks c)[t := new @ rest], events = events c @ [ev]\<rparr>"
      "frames c = add_mset fr M" "frames c' = mset new + M" .
  have ok: "thp_ok p (add_mset fr M) (events c)" using inv s(1,4) by (simp add: thp_inv_def)
  have "wait_running p = 0" if "fr = WaitTest"
    using ok thp_ok_lock [OF ok] that by (simp add: thp_ok_def)
  moreover have "0 \<le> submitted p" using sub s(1) by simp
  moreover have "0 \<le> n" if "fr = WaitLoop n" for n using loop s(4) that by simp
  ultimately have "(\<forall>p2. p1 = Some p2 \<longrightarrow> 0 \<le> submitted p2) \<and> (\<forall>n. WaitLoop n \<in> set new \<longrightarrow> 0 \<le> n) \<and>
      ev \<noteq> Returned THP_TOO_MANY_WAIT"
    using s(2)
    by (cases fr) (auto simp: runner_get_def runner_put_def add_put_def add_count_def wait_test_def
        wait_loop_def destroy_put_def destroy_join_def destroy_free_def thp_lock_def thp_unlock_def
        thp_job_create_def codes Let_def bind_Some_iff
        split: if_splits out.splits option.splits prod.splits)
  then show ?thesis using s(3-5) loop ret by auto
qed

lemma returned_ok:
  "thp_reachable body c \<Longrightarrow> (\<forall>p. pool c = Some p \<longrightarrow> 0 \<le> submitted p) \<and>
    (\<forall>n. WaitLoop n \<in># frames c \<longrightarrow> 0 \<le> n) \<and> Returned THP_TOO_MANY_WAIT \<notin> set (events c)"
proof (induction rule: thp_reachable.induct)
  case (start h raw n hok tok started p progs)
  have "WaitLoop m \<notin> set prog" if "prog \<in> set progs" for m prog
    using start(2) that by (force simp: list_all_iff)
  then show ?case
    using thp_create_ok(6) [OF start(1)]
    by (auto simp: thp_init_def frames_def split: if_splits)
next
  case (step c a c')
  with returned_ok_step [OF step.hyps(2) thp_inv_reachable [OF step.hyps(1)]] show ?case by blast
qed

section \<open>Properties\<close>

text \<open>C24: in any interleaving of the threads, each job that \<open>thp_add\<close> has queued is started at most
  once, and jobs are started in the order in which they were queued; what has not been started
  waits in the channel.\<close>

theorem thp_jobs_in_order:
  assumes "thp_reachable body c" and "pool c = Some p"
  shows "ev_added (events c) = ev_started (events c) @ map (job_of p) (void_ptrs (ch_items (in_queue p)))"
  using thp_inv_reachable [OF assms(1)] assms(2) by (simp add: thp_inv_def thp_ok_def)

text \<open>C8: when \<open>thp_wait\<close> leaves its loop, every job queued so far has been started and has ended,
  none is lost, both channels hold no job, and the jobs still allocated are those of calls of
  \<open>thp_add\<close> under way or failed.\<close>

theorem thp_wait_complete:
  assumes "thp_reachable body c" and "pool c = Some p" and "t < length (stacks c)"
    and "stacks c ! t = WaitLoop n # r" and "to_be_waited p = 0"
  shows "ev_started (events c) = ev_added (events c) \<and> (\<forall>j. RunPut j \<notin># frames c) \<and>
    ev_lost (events c) = [] \<and> void_ptrs (ch_items (in_queue p)) = [] \<and> ch_items (wait_queue p) = [] \<and>
    mset_set (dom (thp_jobs p)) = owned (frames c) + mset (ev_failed (events c)) \<and>
    thp_exec body c (t, ok) = Some \<lparr>pool = Some (thp_unlock (p\<lparr>wait_running := 0\<rparr>)),
      stacks = (stacks c)[t := r], events = events c @ [Returned n]\<rparr>"
proof -
  obtain M where M: "frames c = add_mset (WaitLoop n) M" "thp_ok p (add_mset (WaitLoop n) M) (events c)"
    "tally ((=) AddCount) M = 0" by (rule waiter_ok [OF thp_inv_reachable [OF assms(1)] assms(2-4)])
  from waiter_count [OF M(2,3)] assms(5) have "length (void_ptrs (ch_items (in_queue p))) + tally fr_runs M +
    length (ch_items (wait_queue p)) + length (ev_lost (events c)) = 0" by (simp only: of_nat_eq_0_iff)
  then have z: "void_ptrs (ch_items (in_queue p)) = []"
    "tally fr_runs M = 0" "ch_items (wait_queue p) = []" "ev_lost (events c) = []" by simp_all
  have "RunPut j \<notin># frames c" for j
    using z(2) by (auto simp: M(1) tally_0)
  moreover have "thp_exec body c (t, ok) = Some \<lparr>pool = Some (thp_unlock (p\<lparr>wait_running := 0\<rparr>)),
      stacks = (stacks c)[t := r], events = events c @ [Returned n]\<rparr>"
    using thp_execI [OF assms(3,4,2), of body ok] assms(5) by (simp add: wait_loop_def)
  ultimately show ?thesis using M z by (simp add: thp_ok_def)
qed

text \<open>\<open>thp_wait\<close> can always return: while jobs make no calls of the pool, a runner is left, no
  end of transmission has been sent and no job has been lost, the runners and the waiting thread
  alone, without memory failures, bring it to its return.\<close>

theorem thp_wait_can_return:
  assumes "thp_reachable (\<lambda>f x. []) c" and "pool c = Some p" and "t < length (stacks c)"
    and "stacks c ! t = WaitLoop n # r" and "RunGet \<in># frames c"
    and "BEot \<notin> set (ch_items (in_queue p))" and "ev_lost (events c) = []"
  shows "\<exists>as c' m. thp_run (\<lambda>f x. []) c as = Some c' \<and> stacks c' ! t = r \<and> last (events c') = Returned m"
proof (rule waiting_returns)
  show "waiting c p t r"
    using assms thp_inv_reachable [OF assms(1)] stack_ok_reachable [OF assms(1)] by (auto simp: waiting_def)
qed

text \<open>No call of \<open>thp_wait\<close> ever returns \<open>THP_TOO_MANY_WAIT\<close>: the mutex is held while a wait is
  running, so that a second call blocks instead of seeing \<open>wait_running\<close> set.\<close>

theorem thp_wait_never_too_many:
  assumes "thp_reachable body c"
  shows "Returned THP_TOO_MANY_WAIT \<notin> set (events c)"
  using returned_ok [OF assms] by blast

text \<open>C25: a job that calls \<open>thp_add\<close> while another thread is in \<open>thp_wait\<close> blocks both for ever: the
  job waits for the mutex that \<open>thp_wait\<close> holds until that very job has ended.\<close>

theorem thp_add_in_job_deadlocks:
  assumes "thp_reachable body c" and "pool c = Some p" and "t < length (stacks c)"
    and "stacks c ! t = WaitLoop n # r" and "u < length (stacks c)"
    and "stacks c ! u = AddLock j # r2" and "RunPut i \<in> set r2" and "thp_run body c as = Some c'"
  shows "(\<exists>n'. stacks c' ! t = WaitLoop n' # r) \<and> stacks c' ! u = AddLock j # r2"
  using blocked_keeps_waiting [OF thp_inv_reachable [OF assms(1)] _ assms(3-8)] assms(2) by simp

text \<open>When a runner fails to pass on a job for want of memory, a failure that it ignores, the
  job stays counted, so that a thread in the loop of \<open>thp_wait\<close> never leaves it.\<close>

theorem thp_lost_job_blocks_wait:
  assumes "thp_reachable body c" and "pool c = Some p" and "t < length (stacks c)"
    and "stacks c ! t = WaitLoop n # r" and "ev_lost (events c) \<noteq> []" and "thp_run body c as = Some c'"
  shows "\<exists>n'. stacks c' ! t = WaitLoop n' # r"
  using lost_keeps_waiting [OF thp_inv_reachable [OF assms(1)] _ assms(3-6)] assms(2) by simp

text \<open>\<open>thp_create\<close> fails only when it cannot allocate a handle, and stops at a null pointer when
  the array of threads cannot be allocated; otherwise the pool is empty, remembers whether to
  free the handle, carries the magic number of a channel in place of its own, and has a runner
  for each thread that could be started.\<close>

theorem thp_create_correct:
  "if h = None \<and> \<not> hok then thp_create h raw n hok tok started = Some (Inl THP_NO_MEMORY)
   else if 0 < n \<and> \<not> tok then thp_create h raw n hok tok started = None
   else \<exists>p. thp_create h raw n hok tok started = Some (Inr p) \<and>
     ch_items (in_queue p) = [] \<and> ch_items (wait_queue p) = [] \<and> submitted p = 0 \<and> to_be_waited p = 0 \<and>
     (thp_allocated p \<longleftrightarrow> h = None) \<and> thp_magic p \<noteq> THP_MAGIC_ID \<and>
     (\<forall>i < nat n. stacks (thp_init p progs) ! i = (if started i then [RunGet] else []))"
proof -
  let ?h = "(case h of None \<Rightarrow> raw\<lparr>thp_allocated := True\<rparr> | Some t \<Rightarrow> t\<lparr>thp_allocated := False\<rparr>)"
  obtain c1 c2 where c: "ch_create (Some (in_queue ?h)) CH_DATALEN_VOIDP True = Some c1"
    "ch_create (Some (wait_queue ?h)) CH_DATALEN_VOIDP True = Some c2"
    using pq_create by metis
  have ok: "\<exists>p. thp_create h raw n hok tok started = Some (Inr p)" if "\<not> (h = None \<and> \<not> hok)" "\<not> (0 < n \<and> \<not> tok)"
    using that c by (auto simp: thp_create_def Let_def)
  show ?thesis
  proof (cases "h = None \<and> \<not> hok")
    case True
    then show ?thesis by (simp add: thp_create_def)
  next
    case nm: False
    show ?thesis
    proof (cases "0 < n \<and> \<not> tok")
      case True
      with nm c show ?thesis by (auto simp: thp_create_def Let_def)
    next
      case False
      from ok [OF nm False] obtain p where p: "thp_create h raw n hok tok started = Some (Inr p)" by blast
      note f = thp_create_ok [OF p]
      have "THP_MAGIC_ID \<noteq> CH_MAGIC_ID" by (simp add: codes)
      moreover have "\<forall>i < nat n. stacks (thp_init p progs) ! i = (if started i then [RunGet] else [])"
        by (simp add: thp_init_def f(10) nth_append)
      ultimately have "ch_items (in_queue p) = [] \<and> ch_items (wait_queue p) = [] \<and> submitted p = 0 \<and>
          to_be_waited p = 0 \<and> (thp_allocated p \<longleftrightarrow> h = None) \<and> thp_magic p \<noteq> THP_MAGIC_ID \<and>
          (\<forall>i < nat n. stacks (thp_init p progs) ! i = (if started i then [RunGet] else []))"
        using f by simp
      with p nm False show ?thesis by (simp only: if_False) blast
    qed
  qed
qed


section \<open>Concrete pools\<close>

text \<open>A pool with one runner, and three threads of the caller: one adds a job and waits, one adds
  another job, one waits. Runner and threads are numbered 0, 1, 2, 3.\<close>

definition ex_raw :: "(nat, nat) thp" where
  "ex_raw = (let q = the (ch_create None CH_DATALEN_VOIDP True) in
     \<lparr>thp_magic = 0, in_queue = q, wait_queue = q, wait_running = 0, submitted = 0, to_be_waited = 0,
      thp_locked = True, num_threads = 0, thp_threads = [], thp_allocated = False,
      thp_jobs = Map.empty, job_brk = 0\<rparr>)"

definition ex_pool :: "(nat, nat) thp" where
  "ex_pool = (case thp_create None ex_raw 1 True True (\<lambda>i. True) of Some (Inr p) \<Rightarrow> p | _ \<Rightarrow> ex_raw)"

definition ex_init :: "(nat, nat) thp_cfg" where
  "ex_init = thp_init ex_pool [[AddNew 0 5, WaitLock], [AddNew 0 6], [WaitLock]]"

definition no_calls :: "nat \<Rightarrow> nat \<Rightarrow> (nat \<times> nat) list" where "no_calls = (\<lambda>f x. [])"

definition one_call :: "nat \<Rightarrow> nat \<Rightarrow> (nat \<times> nat) list" where
  "one_call = (\<lambda>f x. if f = 0 then [(1, x)] else [])"

definition ex_view ::
  "(nat, nat) thp_cfg \<Rightarrow> (nat, nat) frame list list \<times> (nat, nat) event list \<times> int option \<times> nat blk list option" where
  "ex_view c = (stacks c, events c, map_option to_be_waited (pool c), map_option (\<lambda>p. ch_items (in_queue p)) (pool c))"

lemma ex_reachable: "thp_reachable body ex_init"
proof -
  have "thp_create None ex_raw 1 True True (\<lambda>i. True) = Some (Inr ex_pool)"
    by (simp add: ex_pool_def thp_create_def Let_def ch_create_def)
  from thp_reachable.start [OF this] show ?thesis by (simp add: ex_init_def)
qed

text \<open>A run of the pool, seen through \<open>ex_view\<close>.\<close>

lemma ex_run:
  assumes "map_option ex_view (thp_run body ex_init as) = Some (st, ev, Some n, Some q)"
  obtains c p where "thp_run body ex_init as = Some c" and "thp_reachable body c" and "pool c = Some p"
    and "stacks c = st" and "events c = ev" and "to_be_waited p = n" and "ch_items (in_queue p) = q"
proof -
  from assms obtain c where c: "thp_run body ex_init as = Some c" "ex_view c = (st, ev, Some n, Some q)" by auto
  then obtain p where "pool c = Some p" by (auto simp: ex_view_def)
  with c that thp_run_reachable [OF ex_reachable c(1)] show thesis by (auto simp: ex_view_def)
qed

text \<open>The first thread of the caller has added its job and waits.\<close>

lemma ex_waits:
  "map_option ex_view (thp_run no_calls ex_init (replicate 7 (1, True))) =
    Some ([[RunGet], [WaitLoop 0], [AddNew 0 6], [WaitLock]],
      [Silent, Silent, Added 0 5, Silent, Returned 1, Silent, Silent], Some 1, Some [BPtr 0])"
  by code_simp

text \<open>The job has been run and collected.\<close>

lemma ex_collected:
  "map_option ex_view (thp_run no_calls ex_init (replicate 7 (1, True) @ [(0, True), (0, True), (1, True)])) =
    Some ([[RunGet], [WaitLoop 1], [AddNew 0 6], [WaitLock]],
      [Silent, Silent, Added 0 5, Silent, Returned 1, Silent, Silent, Started 0 5, Silent, Silent], Some 0, Some [])"
  by code_simp

text \<open>The job has been run, but the runner could not pass it on.\<close>

lemma ex_lost:
  "map_option ex_view (thp_run no_calls ex_init (replicate 7 (1, True) @ [(0, True), (0, False)])) =
    Some ([[RunGet], [WaitLoop 0], [AddNew 0 6], [WaitLock]],
      [Silent, Silent, Added 0 5, Silent, Returned 1, Silent, Silent, Started 0 5, JobLost 0], Some 1, Some [])"
  by code_simp

text \<open>The job is about to add another one.\<close>

lemma ex_nested:
  "map_option ex_view (thp_run one_call ex_init (replicate 7 (1, True) @ [(0, True), (0, True)])) =
    Some ([[AddLock 1, RunPut 0, RunGet], [WaitLoop 0], [AddNew 0 6], [WaitLock]],
      [Silent, Silent, Added 0 5, Silent, Returned 1, Silent, Silent, Started 0 5, Silent], Some 1, Some [])"
  by code_simp

section \<open>Witnesses\<close>

theorem thp_jobs_in_order_witness:
  "\<exists>c p. thp_run no_calls ex_init (replicate 7 (1, True)) = Some c \<and> pool c = Some p \<and>
    ev_started (events c) = [] \<and> map (job_of p) (void_ptrs (ch_items (in_queue p))) = [(0, 5)]"
proof -
  obtain c p where c: "thp_run no_calls ex_init (replicate 7 (1, True)) = Some c" "thp_reachable no_calls c"
    "pool c = Some p" "events c = [Silent, Silent, Added 0 5, Silent, Returned 1, Silent, Silent]"
    by (rule ex_run [OF ex_waits])
  with thp_jobs_in_order [OF c(2,3)] show ?thesis by (auto simp: ev_defs)
qed

theorem thp_wait_complete_witness:
  "\<exists>c p c'. thp_run no_calls ex_init (replicate 7 (1, True) @ [(0, True), (0, True), (1, True)]) = Some c \<and>
    pool c = Some p \<and> mset_set (dom (thp_jobs p)) = {#} \<and>
    thp_exec no_calls c (1, True) = Some c' \<and> events c' = events c @ [Returned 1]"
proof -
  obtain c p where c: "thp_run no_calls ex_init (replicate 7 (1, True) @ [(0, True), (0, True), (1, True)]) = Some c"
    "thp_reachable no_calls c" "pool c = Some p"
    "stacks c = [[RunGet], [WaitLoop 1], [AddNew 0 6], [WaitLock]]"
    "events c = [Silent, Silent, Added 0 5, Silent, Returned 1, Silent, Silent, Started 0 5, Silent, Silent]"
    "to_be_waited p = 0" by (rule ex_run [OF ex_collected])
  have "1 < length (stacks c)" "stacks c ! 1 = WaitLoop 1 # []" by (simp_all add: c(4))
  from thp_wait_complete [OF c(2,3) this c(6), of True] c(1,3) show ?thesis
    by (auto simp: frames_def c(4,5) ev_defs)
qed

theorem thp_wait_can_return_witness:
  "\<exists>c as c' m. thp_run no_calls ex_init (replicate 7 (1, True)) = Some c \<and>
    thp_run no_calls c as = Some c' \<and> stacks c' ! 1 = [] \<and> last (events c') = Returned m"
proof -
  obtain c p where c: "thp_run no_calls ex_init (replicate 7 (1, True)) = Some c" "thp_reachable no_calls c"
    "pool c = Some p" "stacks c = [[RunGet], [WaitLoop 0], [AddNew 0 6], [WaitLock]]"
    "events c = [Silent, Silent, Added 0 5, Silent, Returned 1, Silent, Silent]"
    "ch_items (in_queue p) = [BPtr 0]" by (rule ex_run [OF ex_waits])
  have "1 < length (stacks c)" "stacks c ! 1 = WaitLoop 0 # []" by (simp_all add: c(4))
  from thp_wait_can_return [OF c(2) [unfolded no_calls_def] c(3) this] c(1) show ?thesis
    by (auto simp: frames_def c(4-6) ev_defs simp flip: no_calls_def)
qed

theorem thp_wait_never_too_many_witness:
  "\<exists>c. thp_run no_calls ex_init (replicate 7 (1, True)) = Some c \<and>
    Returned THP_TOO_MANY_WAIT \<notin> set (events c)"
proof -
  obtain c where "thp_run no_calls ex_init (replicate 7 (1, True)) = Some c" "thp_reachable no_calls c"
    by (rule ex_run [OF ex_waits])
  with thp_wait_never_too_many show ?thesis by blast
qed

theorem thp_add_in_job_deadlocks_witness:
  "\<exists>c c' n. thp_run one_call ex_init (replicate 7 (1, True) @ [(0, True), (0, True)]) = Some c \<and>
    thp_run one_call c [(2, True)] = Some c' \<and> stacks c' ! 1 = [WaitLoop n] \<and>
    stacks c' ! 0 = [AddLock 1, RunPut 0, RunGet]"
proof -
  obtain c p where c: "thp_run one_call ex_init (replicate 7 (1, True) @ [(0, True), (0, True)]) = Some c"
    "thp_reachable one_call c" "pool c = Some p"
    "stacks c = [[AddLock 1, RunPut 0, RunGet], [WaitLoop 0], [AddNew 0 6], [WaitLock]]"
    by (rule ex_run [OF ex_nested])
  have s: "1 < length (stacks c)" "stacks c ! 1 = WaitLoop 0 # []" "0 < length (stacks c)"
    "stacks c ! 0 = AddLock 1 # [RunPut 0, RunGet]" "RunPut 0 \<in> set [RunPut 0, RunGet :: (nat, nat) frame]"
    by (simp_all add: c(4))
  obtain c' where c': "thp_run one_call c [(2, True)] = Some c'"
    by (simp add: thp_exec_def c(3,4) thp_job_create_def)
  from thp_add_in_job_deadlocks [OF c(2,3) s c'] c(1) c' show ?thesis by blast
qed

theorem thp_lost_job_blocks_wait_witness:
  "\<exists>c c' n. thp_run no_calls ex_init (replicate 7 (1, True) @ [(0, True), (0, False)]) = Some c \<and>
    thp_run no_calls c [(2, True)] = Some c' \<and> stacks c' ! 1 = [WaitLoop n]"
proof -
  obtain c p where c: "thp_run no_calls ex_init (replicate 7 (1, True) @ [(0, True), (0, False)]) = Some c"
    "thp_reachable no_calls c" "pool c = Some p"
    "stacks c = [[RunGet], [WaitLoop 0], [AddNew 0 6], [WaitLock]]"
    "events c = [Silent, Silent, Added 0 5, Silent, Returned 1, Silent, Silent, Started 0 5, JobLost 0]"
    by (rule ex_run [OF ex_lost])
  have s: "1 < length (stacks c)" "stacks c ! 1 = WaitLoop 0 # []" "ev_lost (events c) \<noteq> []"
    by (simp_all add: c(4,5) ev_defs)
  obtain c' where c': "thp_run no_calls c [(2, True)] = Some c'"
    by (simp add: thp_exec_def c(3,4) thp_job_create_def)
  from thp_lost_job_blocks_wait [OF c(2,3) s c'] c(1) c' show ?thesis by blast
qed


theorem thp_create_correct_witness:
  "\<exists>p. thp_create None ex_raw 2 True True (\<lambda>i. i = 0) = Some (Inr p) \<and>
    thp_magic p \<noteq> THP_MAGIC_ID \<and> stacks (thp_init p []) ! 1 = []"
  using thp_create_correct [of None True ex_raw 2 True "\<lambda>i. i = 0" "[]"] by auto

end
