(* ===== verification/ThpEnds.thy ===== *)
theory ThpEnds
  imports ThpProps
begin

text \<open>
  Threads that add jobs to a pool and wait for them all come to their end: as long as jobs make no
  calls of the pool, no allocation fails and nobody destroys the pool, a run makes a number of steps
  that is known at its start, and when no thread can go on all calls have returned and all jobs
  have been run.
\<close>

section \<open>Threads that add and wait\<close>

fun fr_start :: "('f, 'x) frame \<Rightarrow> bool" where
  "fr_start (AddNew f x) = True"
| "fr_start WaitLock = True"
| "fr_start fr = False"

text \<open>The frames of these threads, and those of them whose job is not yet queued.\<close>

fun fr_client :: "('f, 'x) frame \<Rightarrow> bool" where
  "fr_client RunGet = False"
| "fr_client (RunPut j) = False"
| "fr_client (DestroyPut i) = False"
| "fr_client (DestroyJoin i) = False"
| "fr_client DestroyFree = False"
| "fr_client fr = True"

fun fr_adds :: "('f, 'x) frame \<Rightarrow> bool" where
  "fr_adds (AddNew f x) = True"
| "fr_adds (AddLock j) = True"
| "fr_adds (AddPut j) = True"
| "fr_adds fr = False"

text \<open>The stacks: the first \<open>m\<close> are those of the runners.\<close>

definition shape :: "nat \<Rightarrow> nat \<Rightarrow> ('f, 'x) frame list \<Rightarrow> bool" where
  "shape m t st \<longleftrightarrow>
     (if t < m then st = [] \<or> st = [RunGet] \<or> (\<exists>j. st = [RunPut j, RunGet])
      else list_all fr_client st \<and> list_all fr_start (tl st))"

text \<open>The steps that a frame, and a job on its way, can still make.\<close>

fun fr_cost :: "('f, 'x) frame \<Rightarrow> nat" where
  "fr_cost (AddNew f x) = 8"
| "fr_cost (AddLock j) = 7"
| "fr_cost (AddPut j) = 6"
| "fr_cost AddCount = 2"
| "fr_cost AddRet = 1"
| "fr_cost (RunPut j) = 2"
| "fr_cost WaitLock = 3"
| "fr_cost WaitTest = 2"
| "fr_cost (WaitLoop n) = 1"
| "fr_cost fr = 0"

definition thp_left :: "('f, 'x) thp \<Rightarrow> ('f, 'x) frame multiset \<Rightarrow> nat" where
  "thp_left p M = 3 * length (ch_items (in_queue p)) + length (ch_items (wait_queue p)) + (\<Sum>fr \<in># M. fr_cost fr)"

text \<open>What one step does.\<close>

definition plain_act ::
  "('f, 'x) thp \<Rightarrow> ('f, 'x) frame \<Rightarrow> ('f, 'x) thp \<Rightarrow> ('f, 'x) frame list \<Rightarrow> ('f, 'x) event \<Rightarrow> bool" where
  "plain_act p fr p1 new ev \<longleftrightarrow>
     BEot \<notin> set (ch_items (in_queue p1)) \<and> (\<forall>j. ev \<noteq> JobLost j) \<and>
     (if fr = RunGet then \<exists>j. new = [RunPut j, RunGet] else length new \<le> 1 \<and> list_all fr_client new) \<and>
     (fr_runs fr \<longrightarrow> new = []) \<and>
     tally fr_adds (mset new) + (case ev of Added f x \<Rightarrow> 1 | _ \<Rightarrow> 0) = (if fr_adds fr then 1 else 0) \<and>
     to_be_waited p1 + int (tally ((=) AddCount) (mset new)) \<le>
       to_be_waited p + int (tally ((=) AddCount) {#fr#}) + (case ev of Added f x \<Rightarrow> 1 | _ \<Rightarrow> 0) \<and>
     thp_left p1 (mset new) < thp_left p {#fr#}"

lemma thp_ok_get:
  assumes ok: "thp_ok p M evs" and ne: "BEot \<notin> set (ch_items (in_queue p))"
    and g: "ch_get (Some (in_queue p)) (Some 8) = Some (rc, out, Some c)"
  shows "\<exists>j. rc = CH_OK \<and> out = OutPtr j \<and> ch_items (in_queue p) = BPtr j # ch_items c"
  using pq_get_cases [of "in_queue p" rc out c] ok ne g by (auto simp: thp_ok_def)

lemma plain_runner_get:
  assumes ok: "thp_ok p (add_mset RunGet M) evs" and ne: "BEot \<notin> set (ch_items (in_queue p))"
    and act: "runner_get (\<lambda>f x. []) p = Some (q, new, ev)"
  shows "\<exists>p1. q = Some p1 \<and> plain_act p RunGet p1 new ev"
proof -
  from ok have qok: "pq_ok (in_queue p)" by (simp add: thp_ok_def)
  from act obtain rc out c where g: "ch_get (Some (in_queue p)) (Some 8) = Some (rc, out, Some c)"
    by (auto simp: runner_get_def bind_Some_iff dest: pq_result [OF qok])
  from thp_ok_get [OF ok ne g] obtain j where
    j: "rc = CH_OK" "out = OutPtr j" "ch_items (in_queue p) = BPtr j # ch_items c" by blast
  have "CH_OK \<noteq> CH_GET_ENDOFTRANSMISSION" by (simp add: codes)
  with act g j obtain f x where r: "q = Some (p\<lparr>in_queue := c\<rparr>)" "new = [RunPut j, RunGet]" "ev = Started f x"
    by (auto simp: runner_get_def bind_Some_iff)
  have "plain_act p RunGet (p\<lparr>in_queue := c\<rparr>) new ev"
    using ne j(3) by (simp add: plain_act_def r(2,3) thp_left_def)
  with r(1) show ?thesis by blast
qed

lemma plain_runner_put:
  assumes ok: "thp_ok p (add_mset (RunPut j) M) evs" and ne: "BEot \<notin> set (ch_items (in_queue p))"
    and act: "runner_put True p j = Some (q, new, ev)"
  shows "\<exists>p1. q = Some p1 \<and> plain_act p (RunPut j) p1 new ev"
proof -
  from ok have qok: "pq_ok (wait_queue p)" by (simp add: thp_ok_def)
  from act obtain rc c where g: "ch_put (Some (wait_queue p)) (ArgPtr j []) True True = Some (rc, Some c)"
    and r: "q = Some (p\<lparr>wait_queue := c\<rparr>)" "new = []" "ev = (if rc < 0 then JobLost j else Silent)"
    by (auto simp: runner_put_def bind_Some_iff)
  from pq_put_cases [OF qok _ g] have "0 < rc" "ch_items c = ch_items (wait_queue p) @ [BPtr j]" by auto
  with ne have "plain_act p (RunPut j) (p\<lparr>wait_queue := c\<rparr>) new ev" by (simp add: plain_act_def r(2,3) thp_left_def)
  with r(1) show ?thesis by blast
qed

lemma plain_add_put:
  assumes ok: "thp_ok p (add_mset (AddPut j) M) evs" and ne: "BEot \<notin> set (ch_items (in_queue p))"
    and act: "add_put True p j = Some (q, new, ev)"
  shows "\<exists>p1. q = Some p1 \<and> plain_act p (AddPut j) p1 new ev"
proof -
  from ok have qok: "pq_ok (in_queue p)" by (simp add: thp_ok_def)
  from act obtain rc c where g: "ch_put (Some (in_queue p)) (ArgPtr j []) True True = Some (rc, Some c)"
    by (auto simp: add_put_def bind_Some_iff)
  from pq_put_cases [OF qok _ g] have c: "0 < rc" "ch_items c = ch_items (in_queue p) @ [BPtr j]" by auto
  with act g obtain f x where r: "q = Some (p\<lparr>in_queue := c\<rparr>)" "new = [AddCount]" "ev = Added f x"
    by (auto simp: add_put_def bind_Some_iff)
  have "plain_act p (AddPut j) (p\<lparr>in_queue := c\<rparr>) new ev"
    using ne c(2) by (simp add: plain_act_def r(2,3) thp_left_def)
  with r(1) show ?thesis by blast
qed

lemma plain_wait_loop:
  assumes ok: "thp_ok p (add_mset (WaitLoop n) M) evs" and ne: "BEot \<notin> set (ch_items (in_queue p))"
    and act: "wait_loop p n = Some (q, new, ev)"
  shows "\<exists>p1. q = Some p1 \<and> plain_act p (WaitLoop n) p1 new ev"
proof (cases "to_be_waited p = 0")
  case True
  with act ne show ?thesis by (auto simp: wait_loop_def plain_act_def thp_left_def thp_unlock_def)
next
  case False
  from ok have qok: "pq_ok (wait_queue p)" "BEot \<notin> set (ch_items (wait_queue p))" by (simp_all add: thp_ok_def)
  from act False obtain rc out c where g: "ch_get (Some (wait_queue p)) (Some 8) = Some (rc, out, Some c)"
    by (auto simp: wait_loop_def bind_Some_iff dest: pq_result [OF qok(1)])
  from pq_get_cases [OF qok(1) g] qok(2) obtain j where
    c: "rc = CH_OK" "out = OutPtr j" "ch_items (wait_queue p) = BPtr j # ch_items c" by auto
  from act False g c have "q = Some (p\<lparr>wait_queue := c, thp_jobs := (thp_jobs p)(j := None),
      to_be_waited := to_be_waited p - 1\<rparr>)" "new = [WaitLoop (n + 1)]" "ev = Silent"
    by (auto simp: wait_loop_def bind_Some_iff)
  with ne c(3) show ?thesis by (simp add: plain_act_def thp_left_def)
qed

lemma plain_step:
  assumes ok: "thp_ok p (add_mset fr M) evs" and ne: "BEot \<notin> set (ch_items (in_queue p))"
    and fr: "fr_client fr \<or> fr_runner fr" and act: "thp_act (\<lambda>f x. []) True ended p fr = Some (q, new, ev)"
  shows "\<exists>p1. q = Some p1 \<and> plain_act p fr p1 new ev"
proof (cases fr)
  case RunGet
  with assms plain_runner_get [OF _ ne] show ?thesis by simp
next
  case (RunPut j)
  with assms plain_runner_put [OF _ ne] show ?thesis by simp
next
  case (AddPut j)
  with assms plain_add_put [OF _ ne] show ?thesis by simp
next
  case (WaitLoop n)
  with assms plain_wait_loop [OF _ ne] show ?thesis by simp
qed (use ne fr act in \<open>auto simp: plain_act_def thp_left_def thp_lock_def thp_unlock_def thp_job_create_def add_count_def
    wait_test_def Let_def bind_Some_iff split: if_splits\<close>)

section \<open>Runs\<close>

text \<open>The pool in use by such threads: \<open>m\<close> runners, of which one has been started, and \<open>N\<close> jobs in all.\<close>

definition busy :: "('f, 'x) thp_cfg \<Rightarrow> ('f, 'x) thp \<Rightarrow> nat \<Rightarrow> nat \<Rightarrow> bool" where
  "busy c p m N \<longleftrightarrow> thp_inv c \<and> pool c = Some p \<and> (\<forall>t < length (stacks c). shape m t (stacks c ! t)) \<and>
     RunGet \<in># frames c \<and> BEot \<notin> set (ch_items (in_queue p)) \<and> ev_lost (events c) = [] \<and>
     tally fr_adds (frames c) + length (ev_added (events c)) = N \<and>
     to_be_waited p + int (tally ((=) AddCount) (frames c)) \<le> int (length (ev_added (events c)))"

lemma thp_left_plus: "thp_left p (M + N) = thp_left p M + (\<Sum>fr \<in># N. fr_cost fr)"
  by (simp add: thp_left_def)

lemma shape_top:
  assumes "shape m t (fr # rest)"
  shows "fr_client fr \<or> fr_runner fr"
  using assms by (auto simp: shape_def split: if_splits)

lemma shape_step:
  assumes "shape m t (fr # rest)" and "plain_act p fr p1 new ev"
  shows "shape m t (new @ rest)"
proof (cases "t < m")
  case True
  with assms show ?thesis by (auto simp: shape_def plain_act_def)
next
  case False
  with assms have "fr_client fr" "list_all fr_start rest" by (simp_all add: shape_def)
  moreover have "fr_start fr' \<Longrightarrow> fr_client fr'" for fr' :: "('a, 'b) frame" by (cases fr') simp_all
  ultimately have "list_all fr_client rest" "list_all fr_start (tl rest)" "fr \<noteq> RunGet"
    by (cases rest; auto simp: list_all_iff)+
  moreover from assms(2) \<open>fr \<noteq> RunGet\<close> have "list_all fr_client new" "length new \<le> 1" by (simp_all add: plain_act_def)
  then have "new = [] \<or> (\<exists>fr'. new = [fr'] \<and> fr_client fr')" by (cases new) auto
  ultimately show ?thesis using False \<open>list_all fr_start rest\<close> by (auto simp: shape_def)
qed

lemma busy_step:
  assumes b: "busy c p m N" and step: "thp_exec (\<lambda>f x. []) c (u, True) = Some c1"
  shows "\<exists>p1. busy c1 p1 m N \<and> thp_left p1 (frames c1) < thp_left p (frames c)"
proof -
  have pc: "pool c = Some p" using b by (simp add: busy_def)
  obtain fr rest q new ev M where
    s: "u < length (stacks c)" "stacks c ! u = fr # rest"
      "thp_act (\<lambda>f x. []) True (\<lambda>i. i < length (stacks c) \<and> stacks c ! i = []) p fr = Some (q, new, ev)"
      "c1 = \<lparr>pool = q, stacks = (stacks c)[u := new @ rest], events = events c @ [ev]\<rparr>"
      "frames c = add_mset fr M" "frames c1 = mset new + M"
    by (rule thp_exec_elim [OF step]) (use pc in auto)
  from b s(1,2) have sh: "shape m u (fr # rest)" by (force simp: busy_def)
  have ok: "thp_ok p (add_mset fr M) (events c)" using b pc s(5) by (simp add: busy_def thp_inv_def)
  have ne: "BEot \<notin> set (ch_items (in_queue p))" using b by (simp add: busy_def)
  from plain_step [OF ok ne shape_top [OF sh] s(3)] obtain p1 where p1: "q = Some p1" "plain_act p fr p1 new ev" by blast
  have "\<forall>t < length (stacks c1). shape m t (stacks c1 ! t)"
    using b shape_step [OF sh p1(2)] by (auto simp: busy_def s(1,4) nth_list_update)
  moreover have "RunGet \<in># frames c1"
    using b p1(2) s(5,6) by (cases "fr = RunGet") (auto simp: busy_def plain_act_def)
  moreover have "thp_inv c1" using thp_inv_step [OF _ step] b by (simp add: busy_def)
  moreover have "ev_lost (events c1) = []" using b p1(2) by (cases ev) (auto simp: busy_def plain_act_def s(4))
  moreover have "tally fr_adds (frames c1) + length (ev_added (events c1)) = N"
    "to_be_waited p1 + int (tally ((=) AddCount) (frames c1)) \<le> int (length (ev_added (events c1)))"
    using b p1(2) s(5,6) by (cases ev; auto simp: busy_def plain_act_def s(4) split: if_splits)+
  ultimately have "busy c1 p1 m N" using p1 by (simp add: busy_def plain_act_def s(4))
  moreover have "thp_left p1 (frames c1) < thp_left p (frames c)"
    using p1(2) thp_left_plus [of p1 "mset new" M] thp_left_plus [of p "{#fr#}" M] s(5,6) by (simp add: plain_act_def)
  ultimately show ?thesis by blast
qed

lemma busy_run:
  "busy c p m N \<Longrightarrow> thp_run (\<lambda>f x. []) c (map (\<lambda>u. (u, True)) us) = Some c1 \<Longrightarrow>
    \<exists>p1. busy c1 p1 m N \<and> length us + thp_left p1 (frames c1) \<le> thp_left p (frames c)"
proof (induction us arbitrary: c p)
  case (Cons u us)
  then obtain c2 where c2: "thp_exec (\<lambda>f x. []) c (u, True) = Some c2"
    "thp_run (\<lambda>f x. []) c2 (map (\<lambda>u. (u, True)) us) = Some c1" by (auto simp: bind_Some_iff)
  from busy_step [OF Cons.prems(1) c2(1)] obtain p2 where
    "busy c2 p2 m N" "thp_left p2 (frames c2) < thp_left p (frames c)" by blast
  with Cons.IH [OF _ c2(2)] show ?case by fastforce
qed auto

section \<open>Where a thread can go on\<close>

lemma pq_length:
  assumes "pq_ok c" and "BEot \<notin> set (ch_items c)"
  shows "length (void_ptrs (ch_items c)) = length (ch_items c)"
proof -
  from assms(1) have "\<forall>x \<in> set (ch_items c). blk_ok 0 x" by (auto simp: pq_ok_def ch_inv_def CH_DATALEN_VOIDP_def list_all_iff)
  moreover have "blk_ok 0 x \<Longrightarrow> x = BEot \<or> (\<exists>p. x = BPtr p)" for x :: "'a blk"
    by (auto simp: blk_ok_def CH_DATALEN_STRING_def split: blk.splits)
  ultimately have "\<forall>x \<in> set (ch_items c). \<exists>p. x = BPtr p" using assms(2) by metis
  then have "length (void_ptrs xs) = length xs" if "set xs \<subseteq> set (ch_items c)" for xs
    using that by (induction xs) auto
  then show ?thesis by blast
qed

text \<open>How many jobs there can be in the channels and in the hands of the runners.\<close>

lemma busy_counts:
  assumes b: "busy c p m N"
  shows "length (ch_items (in_queue p)) + tally fr_runs (frames c) + length (ch_items (wait_queue p)) + tally fr_adds (frames c) \<le> N"
    and "to_be_waited p + int (tally ((=) AddCount) (frames c)) =
      int (length (ch_items (in_queue p)) + tally fr_runs (frames c) + length (ch_items (wait_queue p)))"
    and "submitted p + int (tally ((=) AddCount) (frames c)) \<le> int N"
    and "thp_ok p (frames c) (events c)"
proof -
  from b show ok: "thp_ok p (frames c) (events c)" by (auto simp: busy_def thp_inv_def)
  then have "pq_ok (in_queue p)" by (simp add: thp_ok_def)
  from pq_length [OF this] b have "length (void_ptrs (ch_items (in_queue p))) = length (ch_items (in_queue p))"
    by (simp add: busy_def)
  with ok b show e: "to_be_waited p + int (tally ((=) AddCount) (frames c)) =
      int (length (ch_items (in_queue p)) + tally fr_runs (frames c) + length (ch_items (wait_queue p)))"
    by (simp add: thp_ok_def busy_def)
  with b show "length (ch_items (in_queue p)) + tally fr_runs (frames c) + length (ch_items (wait_queue p)) +
      tally fr_adds (frames c) \<le> N" by (simp add: busy_def)
  from ok b show "submitted p + int (tally ((=) AddCount) (frames c)) \<le> int N" by (simp add: thp_ok_def busy_def)
qed

lemma job_allocated:
  assumes ok: "thp_ok p M evs"
    and j: "j \<in># owned M \<or> j \<in> set (void_ptrs (ch_items (in_queue p))) \<or> j \<in> set (void_ptrs (ch_items (wait_queue p)))"
  shows "\<exists>tj. thp_jobs p j = Some tj"
proof -
  let ?A = "mset (void_ptrs (ch_items (in_queue p))) + mset (void_ptrs (ch_items (wait_queue p))) +
      owned M + mset (ev_lost evs) + mset (ev_failed evs)"
  have "j \<in># ?A" using j by auto
  moreover have "?A = mset_set (dom (thp_jobs p))" using ok by (simp add: thp_ok_def)
  ultimately have "j \<in># mset_set (dom (thp_jobs p))" by simp
  then show ?thesis using ok by (auto simp: thp_ok_def)
qed

text \<open>A frame that holds the mutex can go on, the waiting one when no job is queued or running.\<close>

lemma holder_acts:
  assumes b: "busy c p m N" and N: "int_ok (int N)" and fr: "fr \<in># frames c" "fr_holds fr"
    and loop: "fr_loops fr \<Longrightarrow> ch_items (in_queue p) = [] \<and> tally fr_runs (frames c) = 0"
  shows "thp_act (\<lambda>f x. []) True ended p fr \<noteq> None"
proof -
  note B = busy_counts [OF b]
  from fr(1) obtain M where M: "frames c = add_mset fr M" by (metis multi_member_split)
  note lk = thp_ok_lock [OF B(4) [unfolded M] fr(2)]
  from B(4) have q: "pq_ok (in_queue p)" "pq_ok (wait_queue p)" "BEot \<notin> set (ch_items (wait_queue p))"
    "0 \<le> to_be_waited p" by (simp_all add: thp_ok_def)
  show ?thesis
  proof (cases fr)
    case (AddPut j)
    have "int_ok (int (length (ch_items (in_queue p))) + 1)"
      using B(1) N AddPut by (simp add: M int_ok_def)
    from pq_put [OF q(1) this, of "ArgPtr j []" j] obtain c1 where
      "ch_put (Some (in_queue p)) (ArgPtr j []) True True = Some (int (length (ch_items (in_queue p))) + 1, Some c1)" by auto
    moreover from job_allocated [OF B(4), of j] AddPut obtain tj where "thp_jobs p j = Some tj" by (auto simp: M)
    ultimately show ?thesis using AddPut by (simp add: add_put_def)
  next
    case AddCount
    have "to_be_waited p + 1 \<le> int N" "submitted p + 1 \<le> int N" "0 \<le> submitted p + 1"
      using B AddCount lk(4) by (simp_all add: M thp_ok_def)
    with q(4) N AddCount show ?thesis by (simp add: add_count_def int_ok_def)
  next
    case WaitTest
    then show ?thesis by (simp add: wait_test_def Let_def)
  next
    case (WaitLoop n)
    show ?thesis
    proof (cases "to_be_waited p = 0")
      case True
      then show ?thesis using WaitLoop by (simp add: wait_loop_def)
    next
      case False
      with B(2) loop WaitLoop lk(4) have "ch_items (wait_queue p) \<noteq> []" by (auto simp: M)
      then obtain x xs where items: "ch_items (wait_queue p) = x # xs" by (cases "ch_items (wait_queue p)") auto
      with pq_get [OF q(2) items] q(3) obtain j c1 where
        g: "ch_get (Some (wait_queue p)) (Some 8) = Some (CH_OK, OutPtr j, Some c1)" "x = BPtr j" by auto
      from job_allocated [OF B(4), of j] items g(2) obtain tj where "thp_jobs p j = Some tj" by auto
      with False g(1) WaitLoop show ?thesis by (simp add: wait_loop_def)
    qed
  qed (use fr(2) in simp_all)
qed

text \<open>When no thread can go on, the runners wait for jobs and the other threads have ended.\<close>

lemma runner_acts:
  assumes b: "busy c p m N" and N: "int_ok (int N)" and fr: "fr \<in># frames c"
    and run: "fr = RunGet \<and> ch_items (in_queue p) \<noteq> [] \<or> fr = RunPut j"
  shows "thp_act (\<lambda>f x. []) True ended p fr \<noteq> None"
proof -
  note B = busy_counts [OF b]
  from B(4) have q: "pq_ok (in_queue p)" "pq_ok (wait_queue p)" by (simp_all add: thp_ok_def)
  from run show ?thesis
  proof (elim disjE conjE)
    assume "fr = RunGet" and "ch_items (in_queue p) \<noteq> []"
    then obtain x xs where items: "ch_items (in_queue p) = x # xs" by (cases "ch_items (in_queue p)") auto
    with pq_get [OF q(1) items] b obtain j c1 where
      g: "ch_get (Some (in_queue p)) (Some 8) = Some (CH_OK, OutPtr j, Some c1)" "x = BPtr j" by (auto simp: busy_def)
    from job_allocated [OF B(4), of j] items g(2) obtain tj where "thp_jobs p j = Some tj" by auto
    moreover have "CH_OK \<noteq> CH_GET_ENDOFTRANSMISSION" by (simp add: codes)
    ultimately show ?thesis using g(1) \<open>fr = RunGet\<close> by (simp add: runner_get_def)
  next
    assume r: "fr = RunPut j"
    from fr obtain M where "frames c = add_mset fr M" by (metis multi_member_split)
    with B(1) N r have "int_ok (int (length (ch_items (wait_queue p))) + 1)" by (simp add: int_ok_def)
    from pq_put [OF q(2) this, of "ArgPtr j []" j] show ?thesis by (auto simp: r runner_put_def)
  qed
qed

lemma top_acts:
  assumes "pool c = Some p" and "t < length (stacks c)" and "stacks c ! t = fr # rest"
    and "\<And>ended. thp_act body True ended p fr \<noteq> None"
  shows "thp_exec body c (t, True) \<noteq> None"
proof -
  from assms(4) obtain r where "thp_act body True (\<lambda>i. i < length (stacks c) \<and> stacks c ! i = []) p fr = Some r" by blast
  then show ?thesis using thp_execI [OF assms(2,3,1)] by (cases r) auto
qed

lemma client_on_top:
  assumes b: "busy c p m N" and fr: "fr \<in># frames c" "fr_client fr" "\<not> fr_start fr"
  shows "\<exists>t rest. t < length (stacks c) \<and> stacks c ! t = fr # rest"
proof -
  from fr(1) obtain t where t: "t < length (stacks c)" "fr \<in> set (stacks c ! t)" by (auto simp: in_frames)
  with b have "shape m t (stacks c ! t)" by (simp add: busy_def)
  with t(2) fr(2,3) have "stacks c ! t = fr # tl (stacks c ! t)"
    by (cases "stacks c ! t") (auto simp: shape_def list_all_iff split: if_splits)
  with t(1) show ?thesis by blast
qed

lemma busy_stuck:
  assumes b: "busy c p m N" and N: "int_ok (int N)" and stuck: "\<And>u. thp_exec (\<lambda>f x. []) c (u, True) = None"
  shows "ch_items (in_queue p) = []" and "t < length (stacks c) \<Longrightarrow> stacks c ! t = [] \<or> t < m \<and> stacks c ! t = [RunGet]"
proof -
  note B = busy_counts [OF b]
  have pc: "pool c = Some p" and sh: "\<And>t. t < length (stacks c) \<Longrightarrow> shape m t (stacks c ! t)"
    using b by (simp_all add: busy_def)
  have no: False if "t < length (stacks c)" "stacks c ! t = fr # rest" "\<And>ended. thp_act (\<lambda>f x. []) True ended p fr \<noteq> None"
    for t fr rest using top_acts [OF pc that] stuck [of t] by simp
  have put: "RunPut j \<notin># frames c" for j
  proof
    assume j: "RunPut j \<in># frames c"
    then obtain u where u: "u < length (stacks c)" "RunPut j \<in> set (stacks c ! u)" by (auto simp: in_frames)
    with sh [OF u(1)] have "stacks c ! u = [RunPut j, RunGet]" by (auto simp: shape_def list_all_iff split: if_splits)
    with no [OF u(1)] runner_acts [OF b N j] show False by blast
  qed
  then have runs: "tally fr_runs (frames c) = 0" by (auto simp: tally_0 elim: fr_runs.elims)
  show items: "ch_items (in_queue p) = []"
  proof (rule ccontr)
    assume ne: "ch_items (in_queue p) \<noteq> []"
    from b have r: "RunGet \<in># frames c" by (simp add: busy_def)
    then obtain u where u: "u < length (stacks c)" "RunGet \<in> set (stacks c ! u)" by (auto simp: in_frames)
    moreover have "RunPut j \<notin> set (stacks c ! u)" for j using put u(1) by (auto simp: in_frames)
    ultimately have "stacks c ! u = [RunGet]" using sh [OF u(1)] by (fastforce simp: shape_def list_all_iff split: if_splits)
    with no [OF u(1)] runner_acts [OF b N r] ne show False by blast
  qed
  have free: "\<not> thp_locked p"
  proof
    assume "thp_locked p"
    with B(4) have "tally fr_holds (frames c) \<noteq> 0" by (simp add: thp_ok_def)
    then obtain fr where fr: "fr \<in># frames c" "fr_holds fr" by (auto simp: tally_0)
    then have "fr_client fr" "\<not> fr_start fr" by (cases fr; simp)+
    from client_on_top [OF b fr(1) this] no holder_acts [OF b N fr] items runs show False by blast
  qed
  show "stacks c ! t = [] \<or> t < m \<and> stacks c ! t = [RunGet]" if t: "t < length (stacks c)"
  proof (cases "stacks c ! t")
    case (Cons fr rest)
    show ?thesis
    proof (cases "t < m")
      case True
      have "stacks c ! t \<noteq> [RunPut j, RunGet]" for j using put [of j] t by (force simp: in_frames)
      with sh [OF t] True show ?thesis by (auto simp: shape_def)
    next
      case False
      with sh [OF t] Cons have client: "fr_client fr" by (simp add: shape_def)
      have "fr \<in># frames c" using t Cons by (auto simp: in_frames)
      moreover from B(4) free have "\<forall>fr \<in># frames c. \<not> fr_holds fr" by (simp add: thp_ok_def tally_0 flip: tally_0)
      ultimately have "\<not> fr_holds fr" by blast
      with client free have "thp_act (\<lambda>f x. []) True ended p fr \<noteq> None" for ended
        by (cases fr) (simp_all add: thp_lock_def thp_job_create_def)
      with no [OF t Cons] show ?thesis by blast
    qed
  qed simp
qed

section \<open>Property\<close>

lemma busy_init:
  assumes create: "thp_create h raw n hok tok started = Some (Inr p)" and i: "i < nat n" "started i"
    and progs: "\<forall>prog \<in> set progs. list_all fr_start prog"
  shows "busy (thp_init p progs) p (nat n) (length (filter fr_adds (concat progs)))"
    and "thp_left p (frames (thp_init p progs)) \<le> 8 * length (concat progs)"
proof -
  note c = thp_create_ok [OF create]
  let ?c = "thp_init p progs" and ?R = "idle_runners (map started [0..<nat n]) :: ('a, 'b) frame multiset"
  have call: "fr_start fr \<Longrightarrow> fr_call fr \<and> fr_client fr" for fr :: "('a, 'b) frame" by (cases fr) simp_all
  with progs have calls: "\<forall>prog \<in> set progs. list_all fr_call prog" by (auto simp: list_all_iff)
  have f: "frames ?c = ?R + mset (concat progs)" by (simp add: frames_def thp_init_def idle_runners_def c(10))
  have r: "\<forall>fr \<in># ?R. fr = RunGet" by (auto simp: idle_runners_def split: if_splits)
  have "shape (nat n) t (stacks ?c ! t)" if "t < length (stacks ?c)" for t
  proof (cases "t < nat n")
    case True
    then show ?thesis by (simp add: thp_init_def c(10) nth_append shape_def)
  next
    case False
    with that have "stacks ?c ! t \<in> set progs" by (auto simp: thp_init_def c(10) nth_append)
    with progs have s: "list_all fr_start (stacks ?c ! t)" by blast
    then have "list_all fr_start (tl (stacks ?c ! t))" by (cases "stacks ?c ! t") simp_all
    with s call False show ?thesis by (auto simp: shape_def list_all_iff)
  qed
  moreover have "RunGet \<in># ?R" using i by (auto simp: idle_runners_def intro!: bexI [of _ i])
  moreover have "tally fr_adds ?R = 0" "tally ((=) AddCount) ?R = 0" using r by (auto simp: tally_0)
  moreover have "tally fr_adds (mset (concat progs)) = length (filter fr_adds (concat progs))"
    by (simp add: tally_def flip: mset_filter)
  moreover have "tally ((=) AddCount) (mset (concat progs)) = 0"
    using calls_ok [of "concat progs"] calls by (auto simp: list_all_iff)
  ultimately show "busy ?c p (nat n) (length (filter fr_adds (concat progs)))"
    using thp_inv_init [OF create calls] c(3,7) by (simp add: busy_def f) (simp add: thp_init_def ev_defs)
  have "fr_cost fr \<le> 8" for fr :: "('a, 'b) frame" by (cases fr) simp_all
  then have s: "sum_list (map fr_cost fs) \<le> 8 * length fs" for fs :: "('a, 'b) frame list"
    by (induction fs) (auto simp: add_le_mono)
  have z: "(\<Sum>fr \<in># ?R. fr_cost fr) = 0" using r by (intro sum_mset.neutral) auto
  have m: "(\<Sum>fr \<in># mset (concat progs). fr_cost fr) = sum_list (map fr_cost (concat progs))"
    by (simp add: sum_mset_sum_list flip: mset_map)
  have "thp_left p (frames ?c) = (\<Sum>fr \<in># ?R. fr_cost fr) + (\<Sum>fr \<in># mset (concat progs). fr_cost fr)"
    using c(3,4) by (simp add: thp_left_def f)
  then have "thp_left p (frames ?c) = sum_list (map fr_cost (concat progs))" unfolding z m by (rule trans) (rule add_0)
  with s [of "concat progs"] show "thp_left p (frames ?c) \<le> 8 * length (concat progs)" by simp
qed

text \<open>C9: Threads that add jobs to a pool and wait for them always come to their end: when jobs make no
  calls of the pool, a runner has been started, nothing fails for want of memory and there are fewer
  than 2^31 jobs, then whatever the order of their steps they make at most eight for each call, and
  when no thread can go on every call has returned, the runners wait for more jobs, and each of the
  jobs has been run.\<close>

theorem thp_threads_end:
  assumes "thp_create h raw n hok tok started = Some (Inr p)" and "i < nat n" and "started i"
    and "\<forall>prog \<in> set progs. list_all fr_start prog" and "int_ok (int (length (filter fr_adds (concat progs))))"
    and "thp_run (\<lambda>f x. []) (thp_init p progs) (map (\<lambda>u. (u, True)) us) = Some c"
  shows "length us \<le> 8 * length (concat progs) \<and>
    ((\<forall>u. thp_exec (\<lambda>f x. []) c (u, True) = None) \<longrightarrow>
       (\<forall>t < length (stacks c). stacks c ! t = [] \<or> t < nat n \<and> stacks c ! t = [RunGet]) \<and>
       ev_started (events c) = ev_added (events c) \<and>
       length (ev_started (events c)) = length (filter fr_adds (concat progs)))"
proof -
  note I = busy_init [OF assms(1-4)]
  from busy_run [OF I(1) assms(6)] obtain p1 where
    b: "busy c p1 (nat n) (length (filter fr_adds (concat progs)))" "length us + thp_left p1 (frames c) \<le> thp_left p (frames (thp_init p progs))"
    by blast
  have "(\<forall>t < length (stacks c). stacks c ! t = [] \<or> t < nat n \<and> stacks c ! t = [RunGet]) \<and>
      ev_started (events c) = ev_added (events c) \<and> length (ev_started (events c)) = length (filter fr_adds (concat progs))"
    if "\<forall>u. thp_exec (\<lambda>f x. []) c (u, True) = None"
  proof -
    note S = busy_stuck [OF b(1) assms(5) that [rule_format]]
    have "\<not> fr_adds fr" if "fr \<in># frames c" for fr using S(2) that by (fastforce simp: in_frames)
    then have "tally fr_adds (frames c) = 0" by (simp add: tally_0)
    moreover have "ev_started (events c) = ev_added (events c)"
      using busy_counts(4) [OF b(1)] S(1) by (simp add: thp_ok_def)
    ultimately show ?thesis using S(2) b(1) by (simp add: busy_def)
  qed
  moreover have "length us \<le> 8 * length (concat progs)" using b(2) I(2) by simp
  ultimately show ?thesis by blast
qed

section \<open>Witness\<close>

text \<open>A run of the pool with one runner to its end: two jobs are added and run, two threads wait.\<close>

definition ex_turns :: "nat list" where
  "ex_turns = replicate 7 1 @ [0, 0, 1, 1] @ replicate 5 2 @ [0, 0] @ replicate 4 3"

lemma ex_ends:
  "map_option ex_view (thp_run no_calls ex_init (map (\<lambda>u. (u, True)) ex_turns)) = Some ([[RunGet], [], [], []],
     [Silent, Silent, Added 0 5, Silent, Returned 1, Silent, Silent, Started 0 5, Silent, Silent, Returned 1,
      Silent, Silent, Added 0 6, Silent, Returned 2, Started 0 6, Silent, Silent, Silent, Silent, Returned 1],
     Some 0, Some [])"
  by code_simp

theorem thp_threads_end_witness:
  "\<exists>c. thp_run no_calls ex_init (map (\<lambda>u. (u, True)) ex_turns) = Some c \<and> length ex_turns \<le> 32 \<and>
    (\<forall>u. thp_exec no_calls c (u, True) = None) \<and> length (ev_started (events c)) = 2"
proof -
  obtain c p where c: "thp_run no_calls ex_init (map (\<lambda>u. (u, True)) ex_turns) = Some c" "thp_reachable no_calls c"
    "pool c = Some p" "stacks c = [[RunGet], [], [], []]" "ch_items (in_queue p) = []" by (rule ex_run [OF ex_ends])
  from thp_inv_reachable [OF c(2)] c(3) have "pq_ok (in_queue p)" by (simp add: thp_inv_def thp_ok_def)
  from pq_get_empty [OF this c(5)] have "runner_get no_calls p = None" by (simp add: runner_get_def)
  then have "thp_exec no_calls c (u, True) = None" if "u < 4" for u
    using that by (auto simp: thp_exec_def c(3,4) less_Suc_eq numeral_eq_Suc)
  then have stuck: "thp_exec no_calls c (u, True) = None" for u
    by (cases "u < 4") (simp_all add: thp_exec_def c(4))
  let ?progs = "[[AddNew 0 5, WaitLock], [AddNew 0 6], [WaitLock]] :: (nat, nat) frame list list"
  have "thp_create None ex_raw 1 True True (\<lambda>i. True) = Some (Inr ex_pool)"
    by (simp add: ex_pool_def thp_create_def Let_def ch_create_def)
  from thp_threads_end [OF this, of 0 ?progs ex_turns c] c(1) stuck show ?thesis
    by (auto simp: ex_init_def no_calls_def int_ok_def numeral_2_eq_2)
qed

end
