(* ===== verification/FhHeld.thy ===== *)
theory FhHeld
  imports FhProps "HOL-Library.Multiset"
begin

text \<open>
  The hash table in the hands of several threads: what a call does to its chain of buckets while
  other locks are held, that calls for keys of different locks do not interfere, and the
  contract of the calls on a table of which some locks are held.
\<close>

section \<open>What a call does to its chain\<close>

text \<open>The insertion between lock and unlock as a function of the chain alone: the outcome, the new
  chain, and whether a collision is counted.\<close>

definition ins_chain ::
  "bool \<Rightarrow> int \<Rightarrow> 'p fh_bucket list \<Rightarrow> cstr \<Rightarrow> 'p block \<Rightarrow> fh_allocs \<Rightarrow> byte \<Rightarrow>
    ((int + nat \<times> nat) \<times> 'p fh_bucket list \<times> bool) option" where
  "ins_chain dc dl ch0 key blk al mh =
     (if ch0 = [] \<and> \<not> a_bucket al then Some (Inl FH_NO_MEMORY, ch0, False)
      else
        (let ch1 = (if ch0 \<noteq> [] then ch0 else [fh_allocate_bucket]); col = (ch0 \<noteq> []) in
         do { r \<leftarrow> fh_find_slot ch1 key mh;
              if r \<noteq> None then Some (Inl FH_DUPLICATED_ELEMENT, ch1, col)
              else
                (case fh_empty_slot ch1 mh (a_chain al) of
                   None \<Rightarrow> Some (Inl FH_NO_MEMORY, ch1, col)
                 | Some (ch2, pos) \<Rightarrow>
                     if \<not> dc \<and> \<not> a_key al
                     then Some (Inl FH_NO_MEMORY, upd_entry ch2 pos (\<lambda>e. e\<lparr>e_key := None\<rparr>), col)
                     else
                       (let ch3 = upd_entry ch2 pos (\<lambda>e. e\<lparr>e_key := Some key\<rparr>) in
                        case blk of
                          None \<Rightarrow> Some (Inr pos, ch3, col)
                        | Some b \<Rightarrow>
                            do { o1 \<leftarrow> fh_new_obj dl b (a_obj al);
                                 case o1 of
                                   None \<Rightarrow> Some (Inl FH_NO_MEMORY, ch3, col)
                                 | Some v \<Rightarrow> Some (Inr pos, upd_entry ch3 pos (\<lambda>e. e\<lparr>e_obj := v\<rparr>), col) })) }))"

definition put_chain :: "'p fh \<Rightarrow> int \<Rightarrow> 'p fh_bucket list \<Rightarrow> bool \<Rightarrow> 'p fh" where
  "put_chain f idx ch col =
     f\<lparr>hash_table := (hash_table f)[nat idx := ch], h_collision := h_collision f + (if col then 1 else 0)\<rparr>"

lemma put_chain_simps [simp]:
  "h_dim (put_chain f i ch col) = h_dim f" "h_datalen (put_chain f i ch col) = h_datalen f"
  "h_attr (put_chain f i ch col) = h_attr f" "h_held (put_chain f i ch col) = h_held f"
  "n_lock (put_chain f i ch col) = n_lock f" "h_magic (put_chain f i ch col) = h_magic f"
  "hash_function (put_chain f i ch col) = hash_function f" "h_elements (put_chain f i ch col) = h_elements f"
  "hash_table (put_chain f i ch col) = (hash_table f)[nat i := ch]"
  by (simp_all add: put_chain_def)

lemma put_chain_updates:
  "fh_inc_collision f = put_chain f idx (hash_table f ! nat idx) True"
  "upd_chain f idx ch = put_chain f idx ch False"
  "upd_chain (put_chain f idx ch col) idx ch' = put_chain f idx ch' col"
  "put_chain f idx (hash_table f ! nat idx) False = f"
  by (simp_all add: put_chain_def fh_inc_collision_def upd_chain_def)

lemma fh_insert_locked_chain:
  assumes "fh_chain f idx = Some ch"
  shows "fh_insert_locked f key blk al idx mh =
    map_option (\<lambda>(r, ch', col). (r, put_chain f idx ch' col))
      (ins_chain (dont_copy_key f) (h_datalen f) ch key blk al mh)"
proof (cases "ch = [] \<and> \<not> a_bucket al")
  case True
  have "put_chain f idx [] False = f"
    using put_chain_updates(4) [of f idx] assms True by (simp add: fh_chain_def split: if_splits)
  with True assms show ?thesis by (simp add: fh_insert_locked_def ins_chain_def)
next
  case False
  define ch1 where "ch1 = (if ch \<noteq> [] then ch else [fh_allocate_bucket])"
  define f1 where "f1 = put_chain f idx ch1 (ch \<noteq> [])"
  have ch: "ch = hash_table f ! nat idx" using assms by (simp add: fh_chain_def split: if_splits)
  have f1: "(if ch \<noteq> [] then fh_inc_collision f else upd_chain f idx [fh_allocate_bucket]) = f1"
    using put_chain_updates(1) [of f idx] put_chain_updates(2) by (auto simp: f1_def ch1_def ch)
  have dc: "dont_copy_key f1 = dont_copy_key f" "h_datalen f1 = h_datalen f"
    by (simp_all add: dont_copy_key_def f1_def)
  have up: "upd_chain f1 idx c = put_chain f idx c (ch \<noteq> [])" for c
    by (simp add: f1_def put_chain_updates(3))
  note unf = fh_insert_locked_def ins_chain_def assms f1 ch1_def [symmetric] Let_def dc up if_not_P [OF False]
  show ?thesis
  proof (cases "fh_find_slot ch1 key mh")
    case None
    then show ?thesis by (simp add: unf)
  next
    case (Some q)
    show ?thesis
    proof (cases "q = None \<and> (dont_copy_key f \<or> a_key al)")
      case True
      show ?thesis
      proof (cases "fh_empty_slot ch1 mh (a_chain al)")
        case None
        with Some True show ?thesis by (simp add: unf flip: f1_def)
      next
        case s: (Some e)
        show ?thesis
        proof (cases blk)
          case None
          with Some True s show ?thesis by (auto simp: unf split: prod.split)
        next
          case b: (Some b)
          from Some True s b show ?thesis
            by (cases "fh_new_obj (h_datalen f) b (a_obj al)") (auto simp: unf split: prod.split option.split)
        qed
      qed
    next
      case False2: False
      with Some show ?thesis
        by (cases "fh_empty_slot ch1 mh (a_chain al)") (auto simp: unf simp flip: f1_def split: prod.split)
    qed
  qed
qed

section \<open>Calls between lock and unlock\<close>

text \<open>The part of a call that needs the lock of its key, with the change of the count of elements
  that follows it.\<close>

datatype 'p fh_op = WInsert cstr "'p block" fh_allocs | WDelete cstr | WLookup cstr

datatype 'p fh_reply = RCode int | RObj "'p obj option option"

fun work_key :: "'p fh_op \<Rightarrow> cstr" where
  "work_key (WInsert k blk al) = k"
| "work_key (WDelete k) = k"
| "work_key (WLookup k) = k"

fun fh_work :: "'p fh \<Rightarrow> 'p fh_op \<Rightarrow> ('p fh_reply \<times> 'p fh) option" where
  "fh_work f (WInsert k blk al) =
     do { (r, f1) \<leftarrow> fh_insert_locked f k blk al (fh_key_index f k) (make_minihash (hash_function f k));
          Some (case r of Inl rc \<Rightarrow> (RCode rc, f1) | Inr pos \<Rightarrow> (RCode (fh_key_index f k), fh_inc_elem f1)) }"
| "fh_work f (WDelete k) =
     do { (rc, f1) \<leftarrow> fh_del_slot f k (fh_key_index f k) (make_minihash (hash_function f k));
          Some (RCode rc, if 0 \<le> rc then fh_dec_elem f1 else f1) }"
| "fh_work f (WLookup k) = do { e \<leftarrow> fh_lookup_entry f k; Some (RObj (map_option e_obj e), f) }"

text \<open>The same as a function of the chain: the reply, the new chain, whether a collision is
  counted, and the change of the count of elements.\<close>

fun work_chain ::
  "bool \<Rightarrow> int \<Rightarrow> int \<Rightarrow> byte \<Rightarrow> 'p fh_bucket list \<Rightarrow> 'p fh_op \<Rightarrow> ('p fh_reply \<times> 'p fh_bucket list \<times> bool \<times> int) option" where
  "work_chain dc dl idx mh ch (WInsert k blk al) =
     map_option (\<lambda>(r, ch', col). (case r of Inl rc \<Rightarrow> (RCode rc, ch', col, 0) | Inr pos \<Rightarrow> (RCode idx, ch', col, 1)))
       (ins_chain dc dl ch k blk al mh)"
| "work_chain dc dl idx mh ch (WDelete k) =
     map_option (\<lambda>r. case r of
         None \<Rightarrow> (RCode FH_ELEMENT_NOT_FOUND, ch, False, 0)
       | Some pos \<Rightarrow> (RCode idx,
           fh_dealloc_if_empty (upd_entry ch pos (\<lambda>e. e\<lparr>mini := 0, e_obj := None, e_key := None\<rparr>)) (fst pos),
           False, if 0 \<le> idx then -1 else 0))
       (fh_find_slot ch k mh)"
| "work_chain dc dl idx mh ch (WLookup k) =
     map_option (\<lambda>r. (RObj (map_option (\<lambda>(j, i). e_obj (ch ! j ! i)) r), ch, False, 0)) (fh_find_slot ch k mh)"

definition add_elems :: "int \<Rightarrow> 'p fh \<Rightarrow> 'p fh" where
  "add_elems n f = f\<lparr>h_elements := h_elements f + n\<rparr>"

lemma add_elems_0 [simp]: "add_elems 0 f = f"
  by (simp add: add_elems_def)

lemma fh_work_chain:
  assumes ch: "fh_chain f (fh_key_index f (work_key w)) = Some ch"
  shows "fh_work f w =
    map_option (\<lambda>(r, ch', col, n). (r, add_elems n (put_chain f (fh_key_index f (work_key w)) ch' col)))
      (work_chain (dont_copy_key f) (h_datalen f) (fh_key_index f (work_key w))
        (make_minihash (hash_function f (work_key w))) ch w)"
proof (cases w)
  case (WInsert k blk al)
  have a: "(case r of Inl rc \<Rightarrow> (RCode rc, put_chain f i c col)
      | Inr pos \<Rightarrow> (RCode i, fh_inc_elem (put_chain f i c col))) =
    (case (case r of Inl rc \<Rightarrow> (RCode rc, c, col, 0) | Inr pos \<Rightarrow> (RCode i, c, col, 1)) of
      (r, c, col, n) \<Rightarrow> (r, add_elems n (put_chain f i c col)))" for r :: "int + nat \<times> nat" and i c col
    by (simp add: add_elems_def fh_inc_elem_def split: sum.split)
  from ch have c: "fh_chain f (fh_key_index f k) = Some ch" by (simp add: WInsert)
  show ?thesis
    unfolding WInsert fh_work.simps work_chain.simps work_key.simps fh_insert_locked_chain [OF c]
    by (cases "ins_chain (dont_copy_key f) (h_datalen f) ch k blk al (make_minihash (hash_function f k))")
      (simp_all add: a case_prod_beta)
next
  case (WDelete k)
  from ch have c: "fh_chain f (fh_key_index f k) = Some ch" "ch = hash_table f ! nat (fh_key_index f k)"
    and i: "0 \<le> fh_key_index f k" by (simp_all add: WDelete fh_chain_def split: if_splits)
  have "\<not> 0 \<le> FH_ELEMENT_NOT_FOUND" by (simp add: FH_ELEMENT_NOT_FOUND_def)
  with i show ?thesis
    unfolding WDelete fh_work.simps work_chain.simps work_key.simps fh_del_slot_def c(1)
    by (cases "fh_find_slot ch k (make_minihash (hash_function f k))")
      (auto simp: put_chain_updates c(2) Let_def add_elems_def fh_dec_elem_def split: option.split)
next
  case (WLookup k)
  from ch have c: "fh_chain f (fh_index f (hash_function f k)) = Some ch" "ch = hash_table f ! nat (fh_key_index f k)"
    by (simp_all add: WLookup fh_key_index_def fh_chain_def split: if_splits)
  show ?thesis
    unfolding WLookup fh_work.simps work_chain.simps work_key.simps fh_lookup_entry_def c(1)
    by (cases "fh_find_slot ch k (make_minihash (hash_function f k))")
      (auto simp: put_chain_updates c(2) option.map_comp comp_def case_prod_beta' split: option.split)
qed

lemma work_frame [simp]:
  "fh_key_index (add_elems n (put_chain f i ch col)) k = fh_key_index f k"
  "dont_copy_key (add_elems n (put_chain f i ch col)) = dont_copy_key f"
  "h_datalen (add_elems n (put_chain f i ch col)) = h_datalen f"
  "hash_function (add_elems n (put_chain f i ch col)) = hash_function f"
  "nat i \<noteq> nat j \<Longrightarrow> fh_chain (add_elems n (put_chain f i ch col)) j = fh_chain f j"
  by (simp_all add: add_elems_def put_chain_def fh_key_index_def fh_index_def dont_copy_key_def fh_chain_def)

lemma put_chain_commute:
  assumes "nat i \<noteq> nat j"
  shows "add_elems n (put_chain (add_elems m (put_chain f i ch col)) j ch' col') =
    add_elems m (put_chain (add_elems n (put_chain f j ch' col')) i ch col)"
  using assms by (simp add: add_elems_def put_chain_def list_update_swap ac_simps)

text \<open>Insertions, deletions and lookups of keys with different locks do not interfere: what two
  of them do between lock and unlock can be done in either order, with the same replies and the same
  table in the end, whatever the outcomes of their allocations.\<close>

theorem fh_work_commutes:
  assumes ok: "fh_table_ok f"
    and "fh_lock_index f (fh_key_index f (work_key v)) \<noteq> fh_lock_index f (fh_key_index f (work_key w))"
  shows "do { (r, f1) \<leftarrow> fh_work f v; (s, f2) \<leftarrow> fh_work f1 w; Some (r, s, f2) } =
    do { (s, f1) \<leftarrow> fh_work f w; (r, f2) \<leftarrow> fh_work f1 v; Some (r, s, f2) }"
proof -
  let ?i = "fh_key_index f (work_key v)" and ?j = "fh_key_index f (work_key w)"
  from assms(2) have "?i \<noteq> ?j" by auto
  with fh_index_range(1) [OF ok] have ne: "nat ?i \<noteq> nat ?j" "nat ?j \<noteq> nat ?i" by (simp_all add: eq_nat_nat_iff)
  note c = fh_chain_key(1) [OF ok]
  have "fh_work (add_elems n (put_chain f ?i ch col)) w =
      map_option (\<lambda>(r, ch', col', n'). (r, add_elems n' (put_chain (add_elems n (put_chain f ?i ch col)) ?j ch' col')))
        (work_chain (dont_copy_key f) (h_datalen f) ?j (make_minihash (hash_function f (work_key w)))
          (hash_table f ! nat ?j) w)" for n ch col
    using fh_work_chain [of "add_elems n (put_chain f ?i ch col)" w] c [of "work_key w"] ne by simp
  moreover have "fh_work (add_elems n (put_chain f ?j ch col)) v =
      map_option (\<lambda>(r, ch', col', n'). (r, add_elems n' (put_chain (add_elems n (put_chain f ?j ch col)) ?i ch' col')))
        (work_chain (dont_copy_key f) (h_datalen f) ?i (make_minihash (hash_function f (work_key v)))
          (hash_table f ! nat ?i) v)" for n ch col
    using fh_work_chain [of "add_elems n (put_chain f ?j ch col)" v] c [of "work_key v"] ne by simp
  ultimately show ?thesis
    unfolding fh_work_chain [OF c, of v] fh_work_chain [OF c, of w]
    by (cases "work_chain (dont_copy_key f) (h_datalen f) ?i (make_minihash (hash_function f (work_key v)))
          (hash_table f ! nat ?i) v";
        cases "work_chain (dont_copy_key f) (h_datalen f) ?j (make_minihash (hash_function f (work_key w)))
          (hash_table f ! nat ?j) w")
      (auto simp: put_chain_commute [OF ne(1)])
qed

section \<open>Calls while other locks are held\<close>

text \<open>\<open>fh_inv\<close> says that a table is valid, whichever locks are held; \<open>fh_ready\<close> that none is.\<close>

definition key_lock :: "'p fh \<Rightarrow> cstr \<Rightarrow> nat" where
  "key_lock f k = nat (fh_key_index f k mod n_lock f)"

definition fh_free :: "'p fh \<Rightarrow> 'p fh" where
  "fh_free f = f\<lparr>h_held := map (\<lambda>b. False) (h_held f)\<rparr>"

lemma key_lock_ok:
  assumes "fh_table_ok f"
  shows "fh_lock_index f (fh_key_index f k) = Some (key_lock f k)" and "key_lock f k < length (h_held f)"
proof -
  from assms have "0 < n_lock f" "int (length (h_held f)) = n_lock f" by (simp_all add: fh_table_ok_def)
  with fh_index_range(1) [OF assms, of k] show "fh_lock_index f (fh_key_index f k) = Some (key_lock f k)"
    "key_lock f k < length (h_held f)"
    by (simp_all add: fh_lock_index_def key_lock_def nat_less_iff)
qed

lemma conf_key_lock: "fh_conf g = fh_conf f \<Longrightarrow> key_lock g k = key_lock f k"
  using conf_key_index [of g f k] by (simp add: key_lock_def fh_conf_def)

lemma fh_free_ready: "fh_inv f \<Longrightarrow> fh_ready (fh_free f)"
  using held_table_ok [of f "map (\<lambda>b. False) (h_held f)"]
  by (auto simp: fh_ready_def fh_inv_def fh_unlocked_def fh_free_def)

lemma fh_work_held:
  assumes ok: "fh_table_ok f"
  shows "fh_work (f\<lparr>h_held := hs\<rparr>) w = map_option (\<lambda>(r, g). (r, g\<lparr>h_held := hs\<rparr>)) (fh_work f w)"
proof -
  let ?f = "f\<lparr>h_held := hs\<rparr>"
  have c: "fh_chain ?f (fh_key_index ?f (work_key w)) = Some (hash_table f ! nat (fh_key_index f (work_key w)))"
    using fh_chain_key(1) [OF ok, of "work_key w"] by (simp add: fh_chain_def split: if_splits)
  have "add_elems n (put_chain ?f i ch col) = (add_elems n (put_chain f i ch col))\<lparr>h_held := hs\<rparr>" for n i ch col
    by (simp add: add_elems_def put_chain_def)
  then show ?thesis
    unfolding fh_work_chain [OF c] fh_work_chain [OF fh_chain_key(1) [OF ok], of w]
    by (simp add: option.map_comp comp_def case_prod_beta' dont_copy_key_def)
qed

text \<open>Lock, call, unlock: the locks are as before.\<close>

fun reply_code :: "'p fh_reply \<Rightarrow> int" where
  "reply_code (RCode rc) = rc"
| "reply_code (RObj v) = 0"

lemma fh_lock_work:
  assumes ok: "fh_table_ok f" and free: "\<not> h_held f ! key_lock f k"
  obtains f1 where "fh_lock f (fh_key_index f k) = Some f1" and "fh_table_ok f1"
    and "h_held f1 = (h_held f)[key_lock f k := True]" and "fh_conf f1 = fh_conf f"
    and "f1 = f\<lparr>h_held := (h_held f)[key_lock f k := True]\<rparr>"
    and "\<And>g :: 'p fh. n_lock g = n_lock f \<Longrightarrow> h_held g = (h_held f)[key_lock f k := True] \<Longrightarrow>
      fh_unlock g (fh_key_index f k) = Some (g\<lparr>h_held := h_held f\<rparr>)"
proof
  let ?f1 = "f\<lparr>h_held := (h_held f)[key_lock f k := True]\<rparr>"
  note l = key_lock_ok [OF ok, of k]
  show "fh_lock f (fh_key_index f k) = Some ?f1" using l(1) free by (simp add: fh_lock_def)
  show "fh_table_ok ?f1" using ok by (rule held_table_ok) simp
  show "h_held ?f1 = (h_held f)[key_lock f k := True]" "fh_conf ?f1 = fh_conf f" "?f1 = ?f1" by simp_all
  fix g :: "'p fh" assume g: "n_lock g = n_lock f" "h_held g = (h_held f)[key_lock f k := True]"
  have "fh_lock_index g (fh_key_index f k) = Some (key_lock f k)"
    using l(1) g(1) by (auto simp: fh_lock_index_def split: if_splits)
  moreover have "(h_held f)[key_lock f k := False] = h_held f"
    using free l(2) by (intro list_update_same_conv [THEN iffD2]) auto
  ultimately show "fh_unlock g (fh_key_index f k) = Some (g\<lparr>h_held := h_held f\<rparr>)"
    using g(2) l(2) by (simp add: fh_unlock_def)
qed

lemma fh_work_conf:
  assumes "fh_table_ok f" and "fh_work f w = Some (r, g)"
  shows "fh_conf g = fh_conf f" and "h_held g = h_held f"
  using assms(2) unfolding fh_work_chain [OF fh_chain_key(1) [OF assms(1)]]
  by (auto simp: fh_conf_def add_elems_def put_chain_def)

lemma fh_insert_work:
  assumes ok: "fh_table_ok f" and free: "\<not> h_held f ! key_lock f k"
  shows "fh_insert (Some f) (Some k) blk al =
    map_option (\<lambda>(r, g). (reply_code r, Some g)) (fh_work f (WInsert k blk al))"
proof -
  obtain f1 where f1: "fh_lock f (fh_key_index f k) = Some f1" "fh_table_ok f1" "fh_conf f1 = fh_conf f"
    "f1 = f\<lparr>h_held := (h_held f)[key_lock f k := True]\<rparr>"
    "\<And>g :: 'a fh. n_lock g = n_lock f \<Longrightarrow> h_held g = (h_held f)[key_lock f k := True] \<Longrightarrow>
      fh_unlock g (fh_key_index f k) = Some (g\<lparr>h_held := h_held f\<rparr>)"
    by (rule fh_lock_work [OF ok free]) (rule that)
  let ?ins = "fh_insert_locked f1 k blk al (fh_key_index f k) (make_minihash (hash_function f k))"
  have bad: "\<not> fh_bad (Some f)" using ok by (simp add: fh_bad_def fh_table_ok_def)
  have idx: "fh_index f (hash_function f k) = fh_key_index f k" by (simp add: fh_key_index_def)
  have i1: "fh_key_index f1 k = fh_key_index f k" "hash_function f1 = hash_function f"
    using conf_key_index [OF f1(3)] f1(3) by (simp_all add: fh_conf_def)
  have w: "fh_work f (WInsert k blk al) = map_option (\<lambda>(r, g). (r, g\<lparr>h_held := h_held f\<rparr>)) (fh_work f1 (WInsert k blk al))"
    using fh_work_held [OF f1(2), of "h_held f" "WInsert k blk al"] f1(4) by simp
  show ?thesis
  proof (cases ?ins)
    case None
    with w f1(1) show ?thesis by (simp add: fh_insert_def bad idx Let_def i1)
  next
    case (Some q)
    obtain r g where q: "q = (r, g)" by (cases q)
    from fh_insert_locked_chain [OF fh_chain_key(1) [OF f1(2), of k], where key = k and blk = blk and al = al] Some q
    have "n_lock g = n_lock f1" "h_held g = h_held f1" by (auto simp: i1)
    with f1(4) have "fh_unlock g (fh_key_index f k) = Some (g\<lparr>h_held := h_held f\<rparr>)" by (intro f1(5)) simp_all
    with w f1(1) Some q show ?thesis
      by (simp add: fh_insert_def bad idx Let_def i1 fh_inc_elem_def split: sum.split)
  qed
qed

lemma fh_del_work:
  assumes ok: "fh_table_ok f" and free: "\<not> h_held f ! key_lock f k"
  shows "fh_del (Some f) (Some k) = map_option (\<lambda>(r, g). (reply_code r, Some g)) (fh_work f (WDelete k))"
proof -
  obtain f1 where f1: "fh_lock f (fh_key_index f k) = Some f1" "fh_table_ok f1" "fh_conf f1 = fh_conf f"
    "f1 = f\<lparr>h_held := (h_held f)[key_lock f k := True]\<rparr>"
    "\<And>g :: 'a fh. n_lock g = n_lock f \<Longrightarrow> h_held g = (h_held f)[key_lock f k := True] \<Longrightarrow>
      fh_unlock g (fh_key_index f k) = Some (g\<lparr>h_held := h_held f\<rparr>)"
    by (rule fh_lock_work [OF ok free]) (rule that)
  let ?del = "fh_del_slot f1 k (fh_key_index f k) (make_minihash (hash_function f k))"
  have bad: "\<not> fh_bad (Some f)" using ok by (simp add: fh_bad_def fh_table_ok_def)
  have idx: "fh_index f (hash_function f k) = fh_key_index f k" by (simp add: fh_key_index_def)
  have i1: "fh_key_index f1 k = fh_key_index f k" "hash_function f1 = hash_function f"
    using conf_key_index [OF f1(3)] f1(3) by (simp_all add: fh_conf_def)
  have w: "fh_work f (WDelete k) = map_option (\<lambda>(r, g). (r, g\<lparr>h_held := h_held f\<rparr>)) (fh_work f1 (WDelete k))"
    using fh_work_held [OF f1(2), of "h_held f" "WDelete k"] f1(4) by simp
  show ?thesis
  proof (cases ?del)
    case None
    with w f1(1) show ?thesis by (simp add: fh_del_def bad idx Let_def i1)
  next
    case (Some q)
    obtain r g where q: "q = (r, g)" by (cases q)
    have "n_lock g = n_lock f1 \<and> h_held g = h_held f1"
      using Some q by (auto simp: fh_del_slot_def bind_Some_iff upd_chain_def Let_def split: option.splits)
    with f1(4) have "fh_unlock g (fh_key_index f k) = Some (g\<lparr>h_held := h_held f\<rparr>)" by (intro f1(5)) simp_all
    with w f1(1) Some q show ?thesis
      by (simp add: fh_del_def bad idx Let_def i1 fh_dec_elem_def)
  qed
qed

text \<open>So a call does what it does on a table of which no lock is held.\<close>

lemma fh_work_free:
  assumes "fh_inv f"
  shows "fh_work f w = map_option (\<lambda>(r, g). (r, g\<lparr>h_held := h_held f\<rparr>)) (fh_work (fh_free f) w)"
proof -
  have "fh_table_ok (fh_free f)" using fh_free_ready [OF assms] by (simp add: fh_ready_def fh_inv_def)
  from fh_work_held [OF this, of "h_held f" w] show ?thesis by (simp add: fh_free_def)
qed

lemma fh_free_simps [simp]:
  "fh_map (fh_free f) = fh_map f" "fh_conf (fh_free f) = fh_conf f" "key_lock (fh_free f) k = key_lock f k"
  "h_datalen (fh_free f) = h_datalen f" "dont_copy_key (fh_free f) = dont_copy_key f"
  "fh_key_index (fh_free f) k = fh_key_index f k" "length (h_held (fh_free f)) = length (h_held f)"
  "l < length (h_held f) \<Longrightarrow> \<not> h_held (fh_free f) ! l"
  by (simp_all add: fh_free_def key_lock_def dont_copy_key_def)

lemma fh_inv_held:
  "length hs = length (h_held f) \<Longrightarrow> fh_inv (f\<lparr>h_held := hs\<rparr>) \<longleftrightarrow> fh_inv f"
  using held_table_ok [of f hs] held_table_ok [of "f\<lparr>h_held := hs\<rparr>" "h_held f"] by (auto simp: fh_inv_def)

lemma fh_insert_held:
  assumes inv: "fh_inv f" and free: "\<not> h_held f ! key_lock f k"
    and r: "fh_insert (Some (fh_free f)) (Some k) blk al = Some (rc, Some g)"
  shows "fh_insert (Some f) (Some k) blk al = Some (rc, Some (g\<lparr>h_held := h_held f\<rparr>))"
    and "length (h_held g) = length (h_held f)"
proof -
  from inv have ok: "fh_table_ok f" "fh_table_ok (fh_free f)"
    using fh_free_ready [OF inv] by (simp_all add: fh_ready_def fh_inv_def)
  from r have w: "map_option (\<lambda>(r, g). (reply_code r, Some g)) (fh_work (fh_free f) (WInsert k blk al)) = Some (rc, Some g)"
    using fh_insert_work [OF ok(2), of k blk al] key_lock_ok(2) [OF ok(1), of k] by simp
  then show "fh_insert (Some f) (Some k) blk al = Some (rc, Some (g\<lparr>h_held := h_held f\<rparr>))"
    unfolding fh_insert_work [OF ok(1) free] fh_work_free [OF inv, of "WInsert k blk al"] by auto
  from w fh_work_conf(2) [OF ok(2)] show "length (h_held g) = length (h_held f)"
    by (auto simp del: fh_work.simps)
qed

lemma fh_del_held:
  assumes inv: "fh_inv f" and free: "\<not> h_held f ! key_lock f k"
    and r: "fh_del (Some (fh_free f)) (Some k) = Some (rc, Some g)"
  shows "fh_del (Some f) (Some k) = Some (rc, Some (g\<lparr>h_held := h_held f\<rparr>))"
    and "length (h_held g) = length (h_held f)"
proof -
  from inv have ok: "fh_table_ok f" "fh_table_ok (fh_free f)"
    using fh_free_ready [OF inv] by (simp_all add: fh_ready_def fh_inv_def)
  from r have w: "map_option (\<lambda>(r, g). (reply_code r, Some g)) (fh_work (fh_free f) (WDelete k)) = Some (rc, Some g)"
    using fh_del_work [OF ok(2), of k] key_lock_ok(2) [OF ok(1), of k] by simp
  then show "fh_del (Some f) (Some k) = Some (rc, Some (g\<lparr>h_held := h_held f\<rparr>))"
    unfolding fh_del_work [OF ok(1) free] fh_work_free [OF inv, of "WDelete k"] by auto
  from w fh_work_conf(2) [OF ok(2)] show "length (h_held g) = length (h_held f)"
    by (auto simp del: fh_work.simps)
qed

lemma fh_del_shared:
  assumes inv: "fh_inv f" and free: "\<not> h_held f ! key_lock f k"
  shows "\<exists>f'. fh_del (Some f) (Some k) =
      Some (if k \<in> dom (fh_map f) then fh_key_index f k else FH_ELEMENT_NOT_FOUND, Some f') \<and>
    fh_inv f' \<and> fh_conf f' = fh_conf f \<and> h_held f' = h_held f \<and> fh_map f' = (fh_map f)(k := None)"
proof -
  from fh_del_spec [OF fh_free_ready [OF inv], of k] obtain g where
    g: "fh_del (Some (fh_free f)) (Some k) =
        Some (if k \<in> dom (fh_map f) then fh_key_index f k else FH_ELEMENT_NOT_FOUND, Some g)"
      "fh_ready g" "fh_conf g = fh_conf f" "fh_map g = (fh_map f)(k := None)" by auto
  note h = fh_del_held [OF inv free g(1)]
  show ?thesis
    using h g(2-4) fh_inv_held [OF h(2) [symmetric]] by (auto simp: fh_ready_def)
qed

lemma fh_searchlock_held:
  assumes inv: "fh_inv f" and free: "\<not> h_held f ! key_lock f k"
  shows "fh_searchlock (Some f) (Some k) =
    Some (case fh_map f k of
        None \<Rightarrow> (FH_ELEMENT_NOT_FOUND, None, None, Some f)
      | Some v \<Rightarrow> (FH_OK, v, Some (fh_key_index f k), Some (f\<lparr>h_held := (h_held f)[key_lock f k := True]\<rparr>)))"
proof -
  from inv have ok: "fh_table_ok f" by (simp add: fh_inv_def)
  obtain f1 where f1: "fh_lock f (fh_key_index f k) = Some f1" "fh_table_ok f1"
    "f1 = f\<lparr>h_held := (h_held f)[key_lock f k := True]\<rparr>"
    "\<And>g :: 'a fh. n_lock g = n_lock f \<Longrightarrow> h_held g = (h_held f)[key_lock f k := True] \<Longrightarrow>
      fh_unlock g (fh_key_index f k) = Some (g\<lparr>h_held := h_held f\<rparr>)"
    by (rule fh_lock_work [OF ok free]) (rule that)
  have bad: "\<not> fh_bad (Some f)" using ok by (simp add: fh_bad_def fh_table_ok_def)
  have idx: "fh_index f (hash_function f k) = fh_key_index f k" by (simp add: fh_key_index_def)
  from fh_lookup_entry_spec [OF f1(2), of k] f1(3) obtain e where
    e: "fh_lookup_entry f1 k = Some e" "fh_map f k = map_option e_obj e" by auto
  from f1(4) [of f1] f1(3) have "fh_unlock f1 (fh_key_index f k) = Some f" by simp
  with e(1) f1(1) bad show ?thesis
    by (cases e) (simp_all add: fh_searchlock_def idx Let_def e(2) f1(3))
qed

lemma fh_releaselock_held:
  assumes inv: "fh_inv f" and held: "h_held f ! key_lock f k"
  shows "fh_releaselock (Some f) (fh_key_index f k) = Some (FH_OK, Some (f\<lparr>h_held := (h_held f)[key_lock f k := False]\<rparr>))"
  using inv key_lock_ok [of f k] held
  by (simp add: fh_inv_def fh_releaselock_def fh_bad_def fh_table_ok_def fh_unlock_def)

section \<open>Calls that have to wait\<close>

lemma fh_lock_taken: "fh_table_ok f \<Longrightarrow> h_held f ! key_lock f k \<Longrightarrow> fh_lock f (fh_key_index f k) = None"
  using key_lock_ok(1) [of f k] by (simp add: fh_lock_def)

lemma fh_held_blocks:
  assumes "fh_inv f" and "h_held f ! key_lock f k"
  shows "fh_insert (Some f) (Some k) blk al = None" and "fh_del (Some f) (Some k) = None"
    and "fh_searchlock (Some f) (Some k) = None"
proof -
  from assms(1) have ok: "fh_table_ok f" by (simp add: fh_inv_def)
  then have "fh_lock f (fh_index f (hash_function f k)) = None"
    using fh_lock_taken [OF ok assms(2)] by (simp add: fh_key_index_def)
  moreover have "\<not> fh_bad (Some f)" using ok by (simp add: fh_bad_def fh_table_ok_def)
  ultimately show "fh_insert (Some f) (Some k) blk al = None" "fh_del (Some f) (Some k) = None"
    "fh_searchlock (Some f) (Some k) = None"
    by (simp_all add: fh_insert_def fh_del_def fh_searchlock_def Let_def)
qed

section \<open>Who holds a lock\<close>

text \<open>Threads at frames of which each holds the lock of the key that \<open>key\<close> says, if any; no lock is
  held by two of them, and none by nobody.\<close>

definition lock_holders :: "('f \<Rightarrow> cstr option) \<Rightarrow> 'p fh \<Rightarrow> nat \<Rightarrow> 'f multiset \<Rightarrow> nat" where
  "lock_holders key f l M = size {#fr \<in># M. map_option (key_lock f) (key fr) = Some l#}"

lemma lock_holders_simps [simp]:
  "lock_holders key f l {#} = 0" "lock_holders key f l (M + N) = lock_holders key f l M + lock_holders key f l N"
  "lock_holders key f l (add_mset fr M) = (if map_option (key_lock f) (key fr) = Some l then 1 else 0) + lock_holders key f l M"
  unfolding lock_holders_def filter_empty_mset filter_union_mset filter_mset_add_mset
  by (simp, simp, simp only: size_add_mset size_empty add_0 plus_1_eq_Suc split: if_split) blast

lemma lock_holders_conf: "fh_conf g = fh_conf f \<Longrightarrow> lock_holders key g l M = lock_holders key f l M"
  using conf_key_lock [of g f] by (simp add: lock_holders_def)

lemma lock_holders_none: "(\<And>fr. fr \<in># M \<Longrightarrow> key fr = None) \<Longrightarrow> lock_holders key f l M = 0"
  by (auto simp: lock_holders_def)

definition locks_ok :: "('f \<Rightarrow> cstr option) \<Rightarrow> 'p fh \<Rightarrow> 'f multiset \<Rightarrow> bool" where
  "locks_ok key f M \<longleftrightarrow> (\<forall>l < length (h_held f). lock_holders key f l M = (if h_held f ! l then 1 else 0))"

lemma locks_ok_held:
  assumes "locks_ok key f M" and "fr \<in># M" and "key fr = Some k" and ok: "fh_table_ok f"
  shows "h_held f ! key_lock f k"
proof -
  from assms(2) obtain N where "M = add_mset fr N" by (rule mset_add)
  then have "1 \<le> lock_holders key f (key_lock f k) M" using assms(3) by simp
  with assms(1) key_lock_ok(2) [OF ok, of k] show ?thesis by (auto simp: locks_ok_def split: if_splits)
qed

lemma locks_ok_holder:
  assumes "locks_ok key f (add_mset fr N)" and "key fr = None" and "h_held f ! key_lock f k" and ok: "fh_table_ok f"
  shows "\<exists>fr' \<in># N. map_option (key_lock f) (key fr') = Some (key_lock f k)"
proof -
  have "lock_holders key f (key_lock f k) N = 1"
    using assms(1-3) key_lock_ok(2) [OF ok, of k] by (simp add: locks_ok_def)
  then have "{#fr' \<in># N. map_option (key_lock f) (key fr') = Some (key_lock f k)#} \<noteq> {#}"
    unfolding lock_holders_def by (metis size_empty zero_neq_one)
  then show ?thesis by (auto simp: filter_mset_eq_mempty_iff simp del: map_option_eq_Some)
qed

lemma locks_ok_two:
  assumes "locks_ok key f (add_mset fr N)" and "fr' \<in># N" and "key fr = Some k" and "key fr' = Some k'" and ok: "fh_table_ok f"
  shows "key_lock f k \<noteq> key_lock f k'"
proof
  assume l: "key_lock f k = key_lock f k'"
  from assms(2) obtain N' where "N = add_mset fr' N'" by (rule mset_add)
  with assms(3,4) l have "2 \<le> lock_holders key f (key_lock f k) (add_mset fr N)" by simp
  with assms(1) key_lock_ok(2) [OF ok, of k] show False by (auto simp: locks_ok_def split: if_splits)
qed

lemma locks_ok_same:
  assumes "locks_ok key f (add_mset fr N)" and "fh_conf g = fh_conf f" and "h_held g = h_held f"
    and "\<And>l. lock_holders key f l (mset new) = lock_holders key f l {#fr#}"
  shows "locks_ok key g (mset new + N)"
  using assms(1,3,4) lock_holders_conf [OF assms(2), of key] by (simp add: locks_ok_def)

lemma locks_ok_take:
  assumes "locks_ok key f (add_mset fr N)" and "fh_conf g = fh_conf f" and "h_held g = (h_held f)[key_lock f k := True]"
    and "key fr = None" and "key fr' = Some k" and "\<not> h_held f ! key_lock f k" and "fh_table_ok f"
  shows "locks_ok key g (mset [fr'] + N)"
  using assms(1,3-6) lock_holders_conf [OF assms(2), of key] key_lock_ok(2) [OF assms(7), of k] conf_key_lock [OF assms(2)]
  by (auto simp: locks_ok_def nth_list_update)

lemma locks_ok_drop:
  assumes "locks_ok key f (add_mset fr N)" and "fh_conf g = fh_conf f" and "h_held g = (h_held f)[key_lock f k := False]"
    and "key fr = Some k" and new: "\<And>fr'. fr' \<in> set new \<Longrightarrow> key fr' = None" and "fh_table_ok f"
  shows "locks_ok key g (mset new + N)"
proof -
  have "h_held f ! key_lock f k" by (rule locks_ok_held [OF assms(1) _ assms(4,6)]) simp
  moreover have "lock_holders key f l (mset new) = 0" for l using new by (intro lock_holders_none) simp
  ultimately show ?thesis
    using assms(1,3,4) lock_holders_conf [OF assms(2), of key] key_lock_ok(2) [OF assms(6), of k] conf_key_lock [OF assms(2)]
    by (auto simp: locks_ok_def nth_list_update split: if_splits)
qed

section \<open>Witness\<close>

theorem fh_work_commutes_witness:
  "\<exists>f2. do { (r, f1) \<leftarrow> fh_work ex_fh1 (WDelete k1); (s, f2) \<leftarrow> fh_work f1 (WInsert k2 (Some (9, [])) all_ok); Some (r, s, f2) } =
      Some (RCode 1, RCode 0, f2) \<and>
    do { (s, f1) \<leftarrow> fh_work ex_fh1 (WInsert k2 (Some (9, [])) all_ok); (r, f2) \<leftarrow> fh_work f1 (WDelete k1); Some (r, s, f2) } =
      Some (RCode 1, RCode 0, f2)"
proof -
  have ok: "fh_table_ok ex_fh1" using ex_fh1_ready by (simp add: fh_ready_def fh_inv_def)
  have ne: "fh_lock_index ex_fh1 (fh_key_index ex_fh1 k1) \<noteq> fh_lock_index ex_fh1 (fh_key_index ex_fh1 k2)"
    unfolding ex_fh1_index by (simp add: fh_lock_index_def ex_fh1_def ex_fh_def)
  have "map_option (\<lambda>(r, s, f). (r, s))
      (do { (r, f1) \<leftarrow> fh_work ex_fh1 (WDelete k1); (s, f2) \<leftarrow> fh_work f1 (WInsert k2 (Some (9, [])) all_ok);
        Some (r, s, f2) }) = Some (RCode 1, RCode 0)"
    by code_simp
  with fh_work_commutes [OF ok, of "WDelete k1" "WInsert k2 (Some (9, [])) all_ok"] ne show ?thesis
    by (auto simp del: fh_work.simps)
qed

end
