(* ===== verification/Threads.thy ===== *)
theory Threads
  imports Prelude "HOL-Library.Multiset"
begin

text \<open>
  Threads over a shared state, each with a stack of frames: a step runs the top frame of one
  thread, which changes the shared state, is replaced by other frames and leaves an event. The
  locales say what makes an invariant hold in every run, what bounds the steps of every run, and
  what keeps the threads from waiting for each other for good.
\<close>

section \<open>Runs\<close>

record ('s, 'f, 'e) sys =
  shared :: 's
  todo :: "'f list list"
  trace :: "'e list"

definition sys_exec ::
  "('a \<Rightarrow> 's \<Rightarrow> 'f \<Rightarrow> ('s \<times> 'f list \<times> 'e) option) \<Rightarrow> ('s, 'f, 'e) sys \<Rightarrow> nat \<times> 'a \<Rightarrow> ('s, 'f, 'e) sys option" where
  "sys_exec act c = (\<lambda>(t, a).
     if t < length (todo c) then
       (case todo c ! t of
          [] \<Rightarrow> None
        | fr # rest \<Rightarrow>
            do { (s, new, ev) \<leftarrow> act a (shared c) fr;
                 Some \<lparr>shared = s, todo = (todo c)[t := new @ rest], trace = trace c @ [ev]\<rparr> })
     else None)"

fun sys_run ::
  "('a \<Rightarrow> 's \<Rightarrow> 'f \<Rightarrow> ('s \<times> 'f list \<times> 'e) option) \<Rightarrow> ('s, 'f, 'e) sys \<Rightarrow> (nat \<times> 'a) list \<Rightarrow> ('s, 'f, 'e) sys option" where
  "sys_run act c [] = Some c"
| "sys_run act c (a # as) = do { c1 \<leftarrow> sys_exec act c a; sys_run act c1 as }"

definition frames :: "('s, 'f, 'e) sys \<Rightarrow> 'f multiset" where
  "frames c = mset (concat (todo c))"

definition ended :: "('s, 'f, 'e) sys \<Rightarrow> bool" where
  "ended c \<longleftrightarrow> concat (todo c) = []"

lemma sys_run_append:
  "sys_run act c (as @ bs) = Option.bind (sys_run act c as) (\<lambda>c1. sys_run act c1 bs)"
  by (induction as arbitrary: c) (simp_all add: Option.bind_assoc)

lemma mset_concat_update:
  "t < length xss \<Longrightarrow> xss ! t = fr # rest \<Longrightarrow>
    \<exists>M. mset (concat xss) = add_mset fr M \<and> mset (concat (xss[t := new @ rest])) = mset new + M"
proof (induction xss arbitrary: t)
  case (Cons xs xss)
  show ?case
  proof (cases t)
    case 0
    with Cons.prems show ?thesis by simp
  next
    case (Suc n)
    with Cons.prems Cons.IH [of n] obtain M where
      "mset (concat xss) = add_mset fr M" "mset (concat (xss[n := new @ rest])) = mset new + M" by auto
    then show ?thesis by (intro exI [of _ "mset xs + M"]) (simp add: Suc ac_simps)
  qed
qed simp

lemma top_in_frames: "t < length (todo c) \<Longrightarrow> todo c ! t = fr # rest \<Longrightarrow> fr \<in># frames c"
  using mset_concat_update [of t "todo c" fr rest "[]"] by (auto simp: frames_def simp del: set_mset_mset)

lemma frames_two:
  assumes "t < length (todo c)" and "todo c ! t = fr # r" and "u < length (todo c)" and "todo c ! u = fr' # r'" and "u \<noteq> t"
  shows "\<exists>M. frames c = add_mset fr' (add_mset fr M)"
proof -
  from mset_concat_update [OF assms(3,4), of "[]"] obtain N where
    N: "frames c = add_mset fr' N" "mset (concat ((todo c)[u := r'])) = N" by (auto simp: frames_def)
  have "(todo c)[u := r'] ! t = fr # r" using assms(1,2,5) by simp
  with assms(1) have "fr # r \<in> set ((todo c)[u := r'])" by (metis length_list_update nth_mem)
  then have "fr \<in># N" by (force simp flip: N(2))
  then obtain M where "N = add_mset fr M" by (rule mset_add)
  with N(1) show ?thesis by blast
qed

lemma sys_exec_cases:
  assumes "sys_exec act c (t, a) = Some c'"
  obtains fr rest s new ev M where "t < length (todo c)" and "todo c ! t = fr # rest"
    and "act a (shared c) fr = Some (s, new, ev)" and "frames c = add_mset fr M"
    and "c' = \<lparr>shared = s, todo = (todo c)[t := new @ rest], trace = trace c @ [ev]\<rparr>"
    and "frames c' = mset new + M"
proof -
  from assms obtain fr rest s new ev where c:
    "t < length (todo c)" "todo c ! t = fr # rest" "act a (shared c) fr = Some (s, new, ev)"
    "c' = \<lparr>shared = s, todo = (todo c)[t := new @ rest], trace = trace c @ [ev]\<rparr>"
    by (auto simp: sys_exec_def bind_Some_iff split: if_splits list.splits)
  from mset_concat_update [OF c(1,2), of new] obtain M where
    "frames c = add_mset fr M" "frames c' = mset new + M" by (auto simp: frames_def c(4))
  with c show ?thesis by (intro that) auto
qed

lemma run_length: "sys_run act c as = Some c' \<Longrightarrow> length (todo c') = length (todo c)"
proof (induction as arbitrary: c)
  case (Cons a as)
  then obtain c1 where c1: "sys_exec act c a = Some c1" "sys_run act c1 as = Some c'" by (auto simp: bind_Some_iff)
  obtain t e where a: "a = (t, e)" by (cases a)
  from c1(1) a have "length (todo c1) = length (todo c)"
    by (auto simp: sys_exec_def bind_Some_iff split: if_splits list.splits)
  with Cons.IH [OF c1(2)] show ?case by simp
qed simp

section \<open>A call without interruption\<close>

text \<open>The frame \<open>fr\<close>, started in the state \<open>c\<close> on top of any thread of any system, comes to the
  frames \<open>new\<close> in the state \<open>c'\<close> with the last event \<open>ev\<close>, if the other threads do not run in the
  meantime; it comes to an end when there are none.\<close>

definition sys_upto ::
  "('a \<Rightarrow> 's \<Rightarrow> 'f \<Rightarrow> ('s \<times> 'f list \<times> 'e) option) \<Rightarrow> 'a \<Rightarrow> 's \<Rightarrow> 'f \<Rightarrow> 's \<Rightarrow> 'f list \<Rightarrow> 'e \<Rightarrow> bool" where
  "sys_upto act a c fr c' new ev \<longleftrightarrow>
     (\<exists>n evs. \<forall>s t rest. shared s = c \<and> t < length (todo s) \<and> todo s ! t = fr # rest \<longrightarrow>
        sys_run act s (replicate n (t, a)) =
          Some \<lparr>shared = c', todo = (todo s)[t := new @ rest], trace = trace s @ evs @ [ev]\<rparr>)"

abbreviation sys_solo ::
  "('a \<Rightarrow> 's \<Rightarrow> 'f \<Rightarrow> ('s \<times> 'f list \<times> 'e) option) \<Rightarrow> 'a \<Rightarrow> 's \<Rightarrow> 'f \<Rightarrow> 's \<Rightarrow> 'e \<Rightarrow> bool" where
  "sys_solo act a c fr c' ev \<equiv> sys_upto act a c fr c' [] ev"

lemma solo_end: "act a c fr = Some (c', new, ev) \<Longrightarrow> sys_upto act a c fr c' new ev"
  unfolding sys_upto_def by (intro exI [of _ 1] exI [of _ "[]"]) (simp add: sys_exec_def)

lemma solo_step:
  assumes "act a c fr = Some (c1, [fr1], ev1)" and "sys_upto act a c1 fr1 c' new ev"
  shows "sys_upto act a c fr c' new ev"
proof -
  from assms(2) obtain n evs where run: "\<And>s t rest. shared s = c1 \<Longrightarrow> t < length (todo s) \<Longrightarrow> todo s ! t = fr1 # rest \<Longrightarrow>
      sys_run act s (replicate n (t, a)) = Some \<lparr>shared = c', todo = (todo s)[t := new @ rest], trace = trace s @ evs @ [ev]\<rparr>"
    unfolding sys_upto_def by blast
  have "sys_run act s (replicate (Suc n) (t, a)) =
      Some \<lparr>shared = c', todo = (todo s)[t := new @ rest], trace = trace s @ (ev1 # evs) @ [ev]\<rparr>"
    if "shared s = c" "t < length (todo s)" "todo s ! t = fr # rest" for s t rest
    using run [of "\<lparr>shared = c1, todo = (todo s)[t := fr1 # rest], trace = trace s @ [ev1]\<rparr>" t rest] that assms(1)
    by (simp add: sys_exec_def)
  then show ?thesis unfolding sys_upto_def by blast
qed

lemma solo_run:
  assumes "sys_upto act a c fr c' new ev" and "t < length fss" and "fss ! t = fr # rest"
  shows "\<exists>n evs. sys_run act \<lparr>shared = c, todo = fss, trace = tr\<rparr> (replicate n (t, a)) =
    Some \<lparr>shared = c', todo = fss[t := new @ rest], trace = tr @ evs @ [ev]\<rparr>"
proof -
  from assms(1) obtain n evs where run: "\<forall>s t rest. shared s = c \<and> t < length (todo s) \<and> todo s ! t = fr # rest \<longrightarrow>
      sys_run act s (replicate n (t, a)) =
        Some \<lparr>shared = c', todo = (todo s)[t := new @ rest], trace = trace s @ evs @ [ev]\<rparr>"
    unfolding sys_upto_def by blast
  from run [rule_format, of "\<lparr>shared = c, todo = fss, trace = tr\<rparr>" t rest] assms(2,3) show ?thesis by auto
qed

section \<open>An invariant and a bound for all runs\<close>

text \<open>\<open>weight\<close> and \<open>cost\<close> give the steps that the shared state and the frames can still pay for.\<close>

locale bounded_threads =
  fixes act :: "'a \<Rightarrow> 's \<Rightarrow> 'f \<Rightarrow> ('s \<times> 'f list \<times> 'e) option"
    and ok :: "'s \<Rightarrow> 'f multiset \<Rightarrow> 'e list \<Rightarrow> bool"
    and weight :: "'s \<Rightarrow> nat"
    and cost :: "'f \<Rightarrow> nat"
  assumes keeps: "ok s (add_mset fr M) evs \<Longrightarrow> act a s fr = Some (s', new, ev) \<Longrightarrow> ok s' (mset new + M) (evs @ [ev])"
    and pays: "ok s (add_mset fr M) evs \<Longrightarrow> act a s fr = Some (s', new, ev) \<Longrightarrow>
      weight s' + sum_list (map cost new) < weight s + cost fr"
begin

definition okc :: "('s, 'f, 'e) sys \<Rightarrow> bool" where
  "okc c \<longleftrightarrow> ok (shared c) (frames c) (trace c)"

definition budget :: "('s, 'f, 'e) sys \<Rightarrow> nat" where
  "budget c = weight (shared c) + (\<Sum>fr \<in># frames c. cost fr)"

lemma exec_ok:
  assumes "okc c" and "sys_exec act c a = Some c'"
  shows "okc c'" and "budget c' < budget c"
proof -
  obtain t e where a: "a = (t, e)" by (cases a)
  from assms(2) a have "sys_exec act c (t, e) = Some c'" by simp
  then obtain fr rest s new ev M where
    x: "act e (shared c) fr = Some (s, new, ev)" "frames c = add_mset fr M"
      "shared c' = s" "trace c' = trace c @ [ev]" "frames c' = mset new + M"
    by (rule sys_exec_cases) auto
  with assms(1) keeps [of "shared c" fr M "trace c" e s new ev] show "okc c'" by (simp add: okc_def)
  from x assms(1) pays [of "shared c" fr M "trace c" e s new ev]
  have "weight s + sum_list (map cost new) < weight (shared c) + cost fr" by (simp add: okc_def)
  moreover have "(\<Sum>fr \<in># mset new. cost fr) = sum_list (map cost new)"
    by (simp add: sum_mset_sum_list flip: mset_map)
  ultimately show "budget c' < budget c" using x by (simp add: budget_def)
qed

lemma run_ok:
  "okc c \<Longrightarrow> sys_run act c as = Some c' \<Longrightarrow> okc c' \<and> length as + budget c' \<le> budget c"
proof (induction as arbitrary: c)
  case (Cons a as)
  from Cons.prems(2) obtain c1 where c1: "sys_exec act c a = Some c1" "sys_run act c1 as = Some c'"
    by (auto simp: bind_Some_iff)
  from exec_ok [OF Cons.prems(1) c1(1)] Cons.IH [OF _ c1(2)] show ?case by auto
qed simp

end

section \<open>Progress\<close>

text \<open>A frame that cannot run waits for one that is not the start of a call and can run; under each
  frame there are only starts of calls.\<close>

locale live_threads = bounded_threads act ok weight cost
  for act :: "'a \<Rightarrow> 's \<Rightarrow> 'f \<Rightarrow> ('s \<times> 'f list \<times> 'e) option" and ok weight cost +
  fixes call :: "'f \<Rightarrow> bool"
  assumes one: "ok s (add_mset fr M) evs \<Longrightarrow> act a s fr = Some (s', new, ev) \<Longrightarrow> length new \<le> 1"
    and waits: "ok s (add_mset fr M) evs \<Longrightarrow> act a s fr = None \<Longrightarrow> \<exists>fr' \<in># M. \<not> call fr' \<and> (\<forall>b. act b s fr' \<noteq> None)"
begin

definition stacked :: "('s, 'f, 'e) sys \<Rightarrow> bool" where
  "stacked c \<longleftrightarrow> (\<forall>st \<in> set (todo c). \<forall>fr \<in> set (tl st). call fr)"

lemma exec_stacked:
  assumes "stacked c" and "sys_exec act c a = Some c'" and "okc c"
  shows "stacked c'"
proof -
  obtain t e where a: "a = (t, e)" by (cases a)
  from assms(2) a have "sys_exec act c (t, e) = Some c'" by simp
  then obtain fr rest s new ev M where
    x: "t < length (todo c)" "todo c ! t = fr # rest" "act e (shared c) fr = Some (s, new, ev)"
      "todo c' = (todo c)[t := new @ rest]" "frames c = add_mset fr M"
    by (rule sys_exec_cases) auto
  from x(1,2) have "fr # rest \<in> set (todo c)" by (metis nth_mem)
  with assms(1) have r: "\<forall>fr \<in> set rest. call fr" by (auto simp: stacked_def)
  from one [OF _ x(3), of M "trace c"] assms(3) x(5) have "length new \<le> 1" by (simp add: okc_def)
  then have "new = [] \<or> (\<exists>fr'. new = [fr'])" by (cases new) auto
  with r have "\<forall>fr \<in> set (tl (new @ rest)). call fr" by (cases rest) auto
  with assms(1) x(4) show ?thesis by (auto simp: stacked_def dest: set_update_subset_insert [THEN subsetD])
qed

lemma run_stacked: "okc c \<Longrightarrow> stacked c \<Longrightarrow> sys_run act c as = Some c' \<Longrightarrow> stacked c'"
  by (induction as arbitrary: c) (auto simp: bind_Some_iff dest: exec_stacked exec_ok(1))

lemma top_frame:
  assumes st: "stacked c" and "fr \<in># frames c" and "\<not> call fr"
  shows "\<exists>t rest. t < length (todo c) \<and> todo c ! t = fr # rest"
proof -
  from assms(2) obtain xs where xs: "xs \<in> set (todo c)" "fr \<in> set xs" by (auto simp: frames_def)
  with st assms(3) have "xs = fr # tl xs" by (cases xs) (auto simp: stacked_def)
  with xs(1) show ?thesis by (metis in_set_conv_nth)
qed

lemma not_stuck:
  assumes ok: "okc c" and st: "stacked c" and more: "\<not> ended c"
  shows "\<exists>t. \<forall>a. sys_exec act c (t, a) \<noteq> None"
proof -
  have run: "\<forall>a. sys_exec act c (t, a) \<noteq> None"
    if "t < length (todo c)" "todo c ! t = fr # rest" "\<forall>a. act a (shared c) fr \<noteq> None" for t fr rest
  proof
    fix a
    from that(3) obtain r where "act a (shared c) fr = Some r" by blast
    with that(1,2) show "sys_exec act c (t, a) \<noteq> None" by (cases r) (simp add: sys_exec_def)
  qed
  from more obtain xs where "xs \<in> set (todo c)" "xs \<noteq> []" by (auto simp: ended_def)
  then obtain t fr rest where t: "t < length (todo c)" "todo c ! t = fr # rest"
    by (metis in_set_conv_nth neq_Nil_conv)
  show ?thesis
  proof (cases "\<forall>a. act a (shared c) fr \<noteq> None")
    case True
    with run t show ?thesis by blast
  next
    case False
    then obtain a where a: "act a (shared c) fr = None" by blast
    from mset_concat_update [OF t] obtain M where M: "frames c = add_mset fr M" by (auto simp: frames_def)
    with ok have "ok (shared c) (add_mset fr M) (trace c)" by (simp add: okc_def)
    from waits [OF this a] obtain fr' where
      fr': "fr' \<in># M" "\<not> call fr'" "\<forall>b. act b (shared c) fr' \<noteq> None" by blast
    with M top_frame [OF st] obtain t' rest' where "t' < length (todo c)" "todo c ! t' = fr' # rest'" by fastforce
    with run fr'(3) show ?thesis by blast
  qed
qed

text \<open>So every run can be continued until all threads have ended, and no run goes on for longer
  than the budget.\<close>

lemma run_ends:
  assumes "okc c" and "stacked c" and "sys_run act c as = Some c'"
  shows "length as \<le> budget c" and "(\<forall>a. sys_exec act c' a = None) \<longleftrightarrow> ended c'"
proof -
  from run_ok [OF assms(1,3)] have o: "okc c'" "length as + budget c' \<le> budget c" by blast+
  then show "length as \<le> budget c" by simp
  have "sys_exec act c' a = None" if "ended c'" for a
  proof -
    have "todo c' ! t = []" if "t < length (todo c')" for t
      using \<open>ended c'\<close> that by (auto simp: ended_def)
    then show ?thesis by (cases a) (auto simp: sys_exec_def)
  qed
  then show "(\<forall>a. sys_exec act c' a = None) \<longleftrightarrow> ended c'"
    using not_stuck [OF o(1) run_stacked [OF assms]] by blast
qed

lemma completes:
  "okc c \<Longrightarrow> stacked c \<Longrightarrow> \<exists>as c'. sys_run act c as = Some c' \<and> ended c'"
proof (induction "budget c" arbitrary: c rule: less_induct)
  case less
  show ?case
  proof (cases "ended c")
    case True
    then show ?thesis by (intro exI [of _ "[]"]) simp
  next
    case False
    from not_stuck [OF less.prems False] obtain t where "\<forall>a. sys_exec act c (t, a) \<noteq> None" by blast
    then obtain a c1 where c1: "sys_exec act c a = Some c1" by fastforce
    from less.hyps [OF exec_ok(2,1) [OF less.prems(1) c1] exec_stacked [OF less.prems(2) c1 less.prems(1)]]
    obtain as c' where "sys_run act c1 as = Some c'" "ended c'" by blast
    with c1 show ?thesis by (intro exI [of _ "a # as"]) simp
  qed
qed

text \<open>A run from a state without events and with starts of calls only.\<close>

lemma run_from_start:
  assumes ok: "ok s0 (mset (concat progs)) []" and starts: "\<forall>fr \<in> set (concat progs). call fr"
    and run: "sys_run act \<lparr>shared = s0, todo = progs, trace = []\<rparr> as = Some s"
  shows "ok (shared s) (frames s) (trace s)" and "stacked s"
    and "length as \<le> weight s0 + sum_list (map cost (concat progs))"
    and "(\<forall>a. sys_exec act s a = None) \<longleftrightarrow> ended s"
proof -
  let ?s0 = "\<lparr>shared = s0, todo = progs, trace = []\<rparr> :: ('s, 'f, 'e) sys"
  have o: "okc ?s0" using ok by (simp add: okc_def frames_def)
  have in_tl: "fr \<in> set xs" if "fr \<in> set (tl xs)" for fr :: 'f and xs using that by (cases xs) auto
  have st: "stacked ?s0" using starts by (auto simp: stacked_def dest: in_tl)
  have "(\<Sum>fr \<in># mset (concat progs). cost fr) = sum_list (map cost (concat progs))"
    by (simp add: sum_mset_sum_list flip: mset_map)
  then have b: "budget ?s0 = weight s0 + sum_list (map cost (concat progs))" by (simp add: budget_def frames_def)
  from run_ok [OF o run] show "ok (shared s) (frames s) (trace s)" by (simp add: okc_def)
  from run_stacked [OF o st run] show "stacked s" .
  from run_ends [OF o st run] show "length as \<le> weight s0 + sum_list (map cost (concat progs))"
    "(\<forall>a. sys_exec act s a = None) \<longleftrightarrow> ended s" by (simp_all only: b)
qed

end

end
