(* ===== verification/FhThreads.thy ===== *)
theory FhThreads
  imports FhHeld Threads
begin

text \<open>
  The hash table used by several threads, with the calls cut at every point at which another thread
  can come in between. \<open>fh_insert\<close>, \<open>fh_del\<close> and \<open>fh_get\<close> take the lock of their key, work on its
  chain, release the lock and, after that, count. \<open>fh_searchlock\<close> and \<open>fh_insertlock\<close> keep the lock of
  a key they have found or inserted: a session, in which the caller may change the object and then
  calls \<open>fh_releaselock\<close>, or \<open>fh_dellocked\<close> before. The tables are those whose allocations succeed;
  what a failed allocation leaves behind is the subject of \<open>FhProps\<close>.
\<close>

section \<open>Steps\<close>

text \<open>A frame is a call before it takes its lock, with its lock, before it releases it, and before
  it changes the count of elements by \<open>d\<close>, with the reply that it will give. The frames of a session
  are: before the lock is taken, with the lock, before the call that opens the session returns, in
  the hands of the caller, after a deletion that is still to be counted, and before the release. The
  caller has the object at \<open>pos\<close>, has still to apply the functions \<open>us\<close> to it, and deletes the
  key at the end when \<open>del\<close> is set.\<close>

datatype 'p fht_frame =
    FtLock "'p fh_op" | FtWork "'p fh_op" | FtUnlock "'p fh_op" "'p fh_reply" int | FtCount "'p fh_op" "'p fh_reply" int
  | FtOpen "'p fh_op" "('p obj option \<Rightarrow> 'p obj option) list" bool
  | FtSearch "'p fh_op" "('p obj option \<Rightarrow> 'p obj option) list" bool
  | FtEnter cstr "nat \<times> nat" int "('p obj option \<Rightarrow> 'p obj option) list" bool
  | FtHeld cstr "nat \<times> nat" "('p obj option \<Rightarrow> 'p obj option) list" bool
  | FtDropped cstr
  | FtRelease cstr

text \<open>The events: what a call does under its lock, with the reply it finds; a call that returns;
  a session that begins with the object \<open>v\<close>, an object replaced in it, and its end.\<close>

datatype 'p fht_event =
    FtSilent | FtEffect "'p fh_op" "'p fh_reply" | FtDone "'p fh_op" "'p fh_reply"
  | FtKept cstr "'p obj option" | FtWrite cstr "'p obj option" "'p obj option" | FtLeft cstr

type_synonym 'p fht_result = "'p fh \<times> 'p fht_frame list \<times> 'p fht_event"

definition ft_lock :: "'p fh \<Rightarrow> 'p fh_op \<Rightarrow> 'p fht_frame \<Rightarrow> 'p fht_result option" where
  "ft_lock f w fr = do { f1 \<leftarrow> fh_lock f (fh_key_index f (work_key w)); Some (f1, [fr], FtSilent) }"

fun ft_work :: "'p fh \<Rightarrow> 'p fh_op \<Rightarrow> ('p fh_reply \<times> int \<times> 'p fh) option" where
  "ft_work f (WInsert k blk al) =
     do { (r, f1) \<leftarrow> fh_insert_locked f k blk al (fh_key_index f k) (make_minihash (hash_function f k));
          Some (case r of Inl rc \<Rightarrow> (RCode rc, 0, f1) | Inr pos \<Rightarrow> (RCode (fh_key_index f k), 1, f1)) }"
| "ft_work f (WDelete k) =
     do { (rc, f1) \<leftarrow> fh_del_slot f k (fh_key_index f k) (make_minihash (hash_function f k));
          Some (RCode rc, if 0 \<le> rc then -1 else 0, f1) }"
| "ft_work f (WLookup k) = do { e \<leftarrow> fh_lookup_entry f k; Some (RObj (map_option e_obj e), 0, f) }"

definition ft_unlock :: "'p fh \<Rightarrow> 'p fh_op \<Rightarrow> 'p fh_reply \<Rightarrow> int \<Rightarrow> 'p fht_result option" where
  "ft_unlock f w r d =
     do { f1 \<leftarrow> fh_unlock f (fh_key_index f (work_key w));
          Some (if d = 0 then (f1, [], FtDone w r) else (f1, [FtCount w r d], FtSilent)) }"

definition ft_count :: "'p fh \<Rightarrow> 'p fh_op \<Rightarrow> 'p fh_reply \<Rightarrow> int \<Rightarrow> 'p fht_result" where
  "ft_count f w r d = (if 0 < d then fh_inc_elem f else fh_dec_elem f, [], FtDone w r)"

text \<open>What \<open>fh_searchlock\<close> and \<open>fh_insertlock\<close> do with the lock: the reply, the position of the key if
  it keeps the lock, and the change of the count.\<close>

fun ft_open :: "'p fh \<Rightarrow> 'p fh_op \<Rightarrow> ('p fh_reply \<times> (nat \<times> nat) option \<times> int \<times> 'p fh) option" where
  "ft_open f (WInsert k blk al) =
     do { (r, f1) \<leftarrow> fh_insert_locked f k blk al (fh_key_index f k) (make_minihash (hash_function f k));
          Some (case r of Inl rc \<Rightarrow> (RCode rc, None, 0, f1) | Inr pos \<Rightarrow> (RCode (fh_key_index f k), Some pos, 1, f1)) }"
| "ft_open f (WLookup k) =
     do { ch \<leftarrow> fh_chain f (fh_key_index f k);
          r \<leftarrow> fh_find_slot ch k (make_minihash (hash_function f k));
          Some (RObj (map_option (\<lambda>(j, i). e_obj (ch ! j ! i)) r), r, 0, f) }"
| "ft_open f (WDelete k) = None"

definition ft_search ::
  "'p fh \<Rightarrow> 'p fh_op \<Rightarrow> ('p obj option \<Rightarrow> 'p obj option) list \<Rightarrow> bool \<Rightarrow> 'p fht_result option" where
  "ft_search f w us del =
     do { (r, at, d, f1) \<leftarrow> ft_open f w;
          Some (f1, case at of None \<Rightarrow> [FtUnlock w r 0] | Some pos \<Rightarrow> [FtEnter (work_key w) pos d us del], FtEffect w r) }"

text \<open>The call counts, reads the object and returns it with the lock held.\<close>

definition ft_enter ::
  "'p fh \<Rightarrow> cstr \<Rightarrow> nat \<times> nat \<Rightarrow> int \<Rightarrow> ('p obj option \<Rightarrow> 'p obj option) list \<Rightarrow> bool \<Rightarrow> 'p fht_result option" where
  "ft_enter f k pos d us del =
     do { ch \<leftarrow> fh_chain f (fh_key_index f k);
          Some (if 0 < d then fh_inc_elem f else f, [FtHeld k pos us del], FtKept k (e_obj (ch ! fst pos ! snd pos))) }"

text \<open>What the caller does: a change of the object, in place or through the address that
  \<open>fh_insertlock\<close> gives out, the deletion, and the release.\<close>

definition ft_store :: "'p fh \<Rightarrow> cstr \<Rightarrow> nat \<times> nat \<Rightarrow> 'p obj option \<Rightarrow> 'p fh" where
  "ft_store f k pos v =
     upd_chain f (fh_key_index f k) (upd_entry (hash_table f ! nat (fh_key_index f k)) pos (\<lambda>e. e\<lparr>e_obj := v\<rparr>))"

definition ft_dellocked :: "'p fh \<Rightarrow> cstr \<Rightarrow> 'p fht_result option" where
  "ft_dellocked f k =
     do { (rc, f1) \<leftarrow> fh_del_slot f k (fh_key_index f k) (make_minihash (hash_function f k));
          Some (f1, [if 0 \<le> rc then FtDropped k else FtRelease k], FtEffect (WDelete k) (RCode rc)) }"

definition ft_release :: "'p fh \<Rightarrow> cstr \<Rightarrow> 'p fht_result option" where
  "ft_release f k = do { f1 \<leftarrow> fh_unlock f (fh_key_index f k); Some (f1, [], FtLeft k) }"

fun ft_held :: "'p fh \<Rightarrow> cstr \<Rightarrow> nat \<times> nat \<Rightarrow> ('p obj option \<Rightarrow> 'p obj option) list \<Rightarrow> bool \<Rightarrow> 'p fht_result option" where
  "ft_held f k pos (g # us) del =
     (let v = e_obj (entry_at f k pos) in Some (ft_store f k pos (g v), [FtHeld k pos us del], FtWrite k v (g v)))"
| "ft_held f k pos [] del = (if del then ft_dellocked f k else ft_release f k)"

fun fht_act :: "unit \<Rightarrow> 'p fh \<Rightarrow> 'p fht_frame \<Rightarrow> 'p fht_result option" where
  "fht_act a f (FtLock w) = ft_lock f w (FtWork w)"
| "fht_act a f (FtWork w) = do { (r, d, f1) \<leftarrow> ft_work f w; Some (f1, [FtUnlock w r d], FtEffect w r) }"
| "fht_act a f (FtUnlock w r d) = ft_unlock f w r d"
| "fht_act a f (FtCount w r d) = Some (ft_count f w r d)"
| "fht_act a f (FtOpen w us del) = ft_lock f w (FtSearch w us del)"
| "fht_act a f (FtSearch w us del) = ft_search f w us del"
| "fht_act a f (FtEnter k pos d us del) = ft_enter f k pos d us del"
| "fht_act a f (FtHeld k pos us del) = ft_held f k pos us del"
| "fht_act a f (FtDropped k) = Some (fh_dec_elem f, [FtRelease k], FtSilent)"
| "fht_act a f (FtRelease k) = ft_release f k"

text \<open>A thread's program is a list of calls and sessions.\<close>

definition fht_start :: "'p fh \<Rightarrow> 'p fht_frame list list \<Rightarrow> ('p fh, 'p fht_frame, 'p fht_event) sys" where
  "fht_start f progs = \<lparr>shared = f, todo = progs, trace = []\<rparr>"

fun ft_starts :: "'p fht_frame \<Rightarrow> bool" where
  "ft_starts (FtLock w) = True"
| "ft_starts (FtOpen w us del) = (case w of WDelete k \<Rightarrow> False | _ \<Rightarrow> True)"
| "ft_starts fr = False"

section \<open>The specification\<close>

text \<open>What a call with the reply \<open>r\<close> requires of a map and does to it.\<close>

fun op_effect :: "int \<Rightarrow> (cstr \<rightharpoonup> 'p obj option) \<Rightarrow> 'p fh_op \<Rightarrow> 'p fh_reply \<Rightarrow> (cstr \<rightharpoonup> 'p obj option) option" where
  "op_effect dl m (WInsert k blk al) (RCode rc) =
     (if m k \<noteq> None then (if rc = FH_DUPLICATED_ELEMENT then Some m else None)
      else case blk_obj dl blk (a_obj al) of
        Some (Some v) \<Rightarrow> if 0 \<le> rc then Some (m(k \<mapsto> v)) else None
      | _ \<Rightarrow> None)"
| "op_effect dl m (WDelete k) (RCode rc) =
     (if m k = None then (if rc = FH_ELEMENT_NOT_FOUND then Some m else None)
      else if 0 \<le> rc then Some (m(k := None)) else None)"
| "op_effect dl m (WLookup k) (RObj r) = (if r = m k then Some m else None)"
| "op_effect dl m w r = None"

text \<open>What one event requires of the map and does to it.\<close>

fun event_effect :: "int \<Rightarrow> (cstr \<rightharpoonup> 'p obj option) \<Rightarrow> 'p fht_event \<Rightarrow> (cstr \<rightharpoonup> 'p obj option) option" where
  "event_effect dl m (FtEffect w r) = op_effect dl m w r"
| "event_effect dl m (FtKept k v) = (if m k = Some v then Some m else None)"
| "event_effect dl m (FtWrite k v v') = (if m k = Some v then Some (m(k \<mapsto> v')) else None)"
| "event_effect dl m ev = Some m"

fun fht_replay :: "int \<Rightarrow> (cstr \<rightharpoonup> 'p obj option) \<Rightarrow> 'p fht_event list \<Rightarrow> (cstr \<rightharpoonup> 'p obj option) option" where
  "fht_replay dl m [] = Some m"
| "fht_replay dl m (ev # evs) = do { m1 \<leftarrow> event_effect dl m ev; fht_replay dl m1 evs }"

lemma fht_replay_snoc:
  "fht_replay dl m (evs @ [ev]) = Option.bind (fht_replay dl m evs) (\<lambda>m1. event_effect dl m1 ev)"
  by (induction evs arbitrary: m) (simp_all add: Option.bind_assoc)

end
