(* ===== verification/FhThreadsInv.thy ===== *)
theory FhThreadsInv
  imports FhThreads
begin

text \<open>
  The invariant of the threads on a hash table: a lock has one holder, which is at a point of its
  call or session that needs it, the entry that a session is about is where it was found, the count
  of elements is that of the entries once the threads have counted, and the events are a run of the
  map. Each step keeps it, so that the threads are never stuck.
\<close>

section \<open>The invariant\<close>

fun ft_key :: "'p fht_frame \<Rightarrow> cstr option" where
  "ft_key (FtWork w) = Some (work_key w)"
| "ft_key (FtUnlock w r d) = Some (work_key w)"
| "ft_key (FtSearch w us del) = Some (work_key w)"
| "ft_key (FtEnter k pos d us del) = Some k"
| "ft_key (FtHeld k pos us del) = Some k"
| "ft_key (FtDropped k) = Some k"
| "ft_key (FtRelease k) = Some k"
| "ft_key fr = None"

text \<open>The change of the count of elements that is still to come.\<close>

fun ft_due :: "'p fht_frame \<Rightarrow> int" where
  "ft_due (FtUnlock w r d) = d"
| "ft_due (FtCount w r d) = d"
| "ft_due (FtEnter k pos d us del) = d"
| "ft_due (FtDropped k) = -1"
| "ft_due fr = 0"

text \<open>Insertions with their memory.\<close>

fun op_ok :: "int \<Rightarrow> 'p fh_op \<Rightarrow> bool" where
  "op_ok dl (WInsert k blk al) =
     (a_bucket al \<and> a_chain al \<and> a_key al \<and>
      (case blk_obj dl blk (a_obj al) of Some (Some v) \<Rightarrow> True | _ \<Rightarrow> False))"
| "op_ok dl w = True"

fun ft_ok :: "int \<Rightarrow> 'p fht_event list \<Rightarrow> 'p fht_frame \<Rightarrow> bool" where
  "ft_ok dl evs (FtLock w) = op_ok dl w"
| "ft_ok dl evs (FtWork w) = op_ok dl w"
| "ft_ok dl evs (FtUnlock w r d) = (FtEffect w r \<in> set evs \<and> d \<in> {-1, 0, 1})"
| "ft_ok dl evs (FtCount w r d) = (FtEffect w r \<in> set evs \<and> d \<in> {-1, 1})"
| "ft_ok dl evs (FtOpen w us del) = (op_ok dl w \<and> ft_starts (FtOpen w us del))"
| "ft_ok dl evs (FtSearch w us del) = (op_ok dl w \<and> ft_starts (FtOpen w us del))"
| "ft_ok dl evs (FtEnter k pos d us del) = (d \<in> {0, 1})"
| "ft_ok dl evs fr = True"

text \<open>The entry of a session is where the session has it.\<close>

fun ft_here :: "'p fh \<Rightarrow> 'p fht_frame \<Rightarrow> bool" where
  "ft_here f (FtEnter k pos d us del) = at_pos f k pos"
| "ft_here f (FtHeld k pos us del) = at_pos f k pos"
| "ft_here f fr = True"

fun ft_event_ok :: "'p fht_event list \<Rightarrow> 'p fht_event \<Rightarrow> bool" where
  "ft_event_ok evs (FtDone w r) = (FtEffect w r \<in> set evs)"
| "ft_event_ok evs ev = True"

lemma ft_ok_more: "ft_ok dl evs fr \<Longrightarrow> ft_ok dl (evs @ [ev]) fr"
  by (cases fr) auto

lemma ft_event_ok_more: "ft_event_ok evs ev \<Longrightarrow> ft_event_ok (evs @ [ev']) ev"
  by (cases ev) auto

definition fht_ok :: "'p fh \<Rightarrow> 'p fh \<Rightarrow> 'p fht_frame multiset \<Rightarrow> 'p fht_event list \<Rightarrow> bool" where
  "fht_ok f0 f M evs \<longleftrightarrow>
     fh_table_ok f \<and> fh_conf f = fh_conf f0 \<and> h_elements f + (\<Sum>fr \<in># M. ft_due fr) = int (fh_size f) \<and>
     locks_ok ft_key f M \<and> (\<forall>fr \<in># M. ft_ok (h_datalen f0) evs fr \<and> ft_here f fr) \<and>
     fht_replay (h_datalen f0) (fh_map f0) evs = Some (fh_map f) \<and> (\<forall>ev \<in> set evs. ft_event_ok evs ev)"

fun ft_cost :: "'p fht_frame \<Rightarrow> nat" where
  "ft_cost (FtLock w) = 4"
| "ft_cost (FtWork w) = 3"
| "ft_cost (FtUnlock w r d) = 2"
| "ft_cost (FtCount w r d) = 1"
| "ft_cost (FtOpen w us del) = 6 + length us"
| "ft_cost (FtSearch w us del) = 5 + length us"
| "ft_cost (FtEnter k pos d us del) = 4 + length us"
| "ft_cost (FtHeld k pos us del) = 3 + length us"
| "ft_cost (FtDropped k) = 2"
| "ft_cost (FtRelease k) = 1"

lemma ft_key_start: "ft_starts fr \<Longrightarrow> ft_key fr = None"
  by (cases fr) simp_all

text \<open>The chain of a key that is as it was holds the same entries at the same places.\<close>

definition same_chain :: "'p fh \<Rightarrow> 'p fh \<Rightarrow> cstr \<Rightarrow> bool" where
  "same_chain f g k \<longleftrightarrow> hash_table g ! nat (fh_key_index f k) = hash_table f ! nat (fh_key_index f k)"

lemma same_chain_entry:
  assumes "fh_conf g = fh_conf f" and "same_chain f g k"
  shows "entry_at g k pos = entry_at f k pos" and "at_pos g k pos = at_pos f k pos" and "fh_map g k = fh_map f k"
  using assms by (simp_all add: same_chain_def at_pos_def entry_at_def fh_map_def conf_key_index [OF assms(1)])

lemma same_table_chain: "hash_table g = hash_table f \<Longrightarrow> same_chain f g k"
  by (simp add: same_chain_def)

text \<open>What a step needs to keep the invariant: the chains of the keys whose locks it has not got
  stay as they are.\<close>

lemma fht_step:
  assumes inv: "fht_ok f0 f (add_mset fr N) evs"
    and f: "fh_table_ok f'" "fh_conf f' = fh_conf f" and locks: "locks_ok ft_key f' (mset new + N)"
    and count: "h_elements f' + (\<Sum>fr \<in># mset new. ft_due fr) - int (fh_size f') = h_elements f + ft_due fr - int (fh_size f)"
    and chains: "\<And>k. (\<And>k'. ft_key fr = Some k' \<Longrightarrow> key_lock f k' \<noteq> key_lock f k) \<Longrightarrow> ft_key fr \<noteq> None \<Longrightarrow> same_chain f f' k"
      "ft_key fr = None \<Longrightarrow> hash_table f' = hash_table f"
    and new: "\<And>fr'. fr' \<in> set new \<Longrightarrow> ft_ok (h_datalen f0) (evs @ [ev]) fr' \<and> ft_here f' fr'"
    and eff: "event_effect (h_datalen f0) (fh_map f) ev = Some (fh_map f')"
    and ev: "ft_event_ok evs ev"
  shows "fht_ok f0 f' (mset new + N) (evs @ [ev])"
proof -
  have here: "ft_here f' fr'" if "fr' \<in># N" for fr'
  proof (cases "ft_key fr'")
    case None
    then show ?thesis by (cases fr') simp_all
  next
    case (Some k)
    have "same_chain f f' k"
    proof (cases "ft_key fr")
      case None
      then show ?thesis by (intro same_table_chain chains(2))
    next
      case l: (Some k')
      from inv have "locks_ok ft_key f (add_mset fr N)" "fh_table_ok f" by (simp_all add: fht_ok_def)
      from locks_ok_two [OF this(1) that l Some this(2)] l show ?thesis by (intro chains(1)) auto
    qed
    then show ?thesis
      using inv that same_chain_entry(2) [OF f(2)] Some by (cases fr') (auto simp: fht_ok_def)
  qed
  have "ft_event_ok (evs @ [ev]) ev'" if "ev' \<in> set (evs @ [ev])" for ev'
    using inv ev that by (auto simp: fht_ok_def intro: ft_event_ok_more)
  moreover have "ft_ok (h_datalen f0) (evs @ [ev]) fr' \<and> ft_here f' fr'" if "fr' \<in># mset new + N" for fr'
    using inv new here that by (auto simp: fht_ok_def intro: ft_ok_more)
  moreover have "fht_replay (h_datalen f0) (fh_map f0) (evs @ [ev]) = Some (fh_map f')"
    using inv eff by (simp add: fht_replay_snoc fht_ok_def)
  ultimately show ?thesis using inv f locks count unfolding fht_ok_def by auto
qed

text \<open>A step that leaves the table alone.\<close>

lemma fht_step_same:
  assumes inv: "fht_ok f0 f (add_mset fr N) evs"
    and f: "fh_conf f' = fh_conf f" "length (h_held f') = length (h_held f)" "hash_table f' = hash_table f"
    and locks: "locks_ok ft_key f' (mset new + N)"
    and count: "h_elements f' + (\<Sum>fr \<in># mset new. ft_due fr) = h_elements f + ft_due fr"
    and new: "\<And>fr'. fr' \<in> set new \<Longrightarrow> ft_ok (h_datalen f0) (evs @ [ev]) fr' \<and> ft_here f fr'"
    and eff: "event_effect (h_datalen f0) (fh_map f) ev = Some (fh_map f)"
    and ev: "ft_event_ok evs ev"
  shows "fht_ok f0 f' (mset new + N) (evs @ [ev])"
proof -
  from inv have "fh_table_ok f" by (simp add: fht_ok_def)
  note T = fh_same_table [OF this f]
  have here: "ft_here f' fr' = ft_here f fr'" for fr'
    using same_chain_entry(2) [OF f(1) same_table_chain [OF f(3)]] by (cases fr') simp_all
  show ?thesis
    by (rule fht_step [OF inv T(1) f(1) locks _ same_table_chain [OF f(3)] f(3)]) (use count new eff ev here T in auto)
qed

section \<open>The steps of a call keep the invariant\<close>

definition fht_good ::
  "'p fh \<Rightarrow> 'p fht_frame \<Rightarrow> 'p fht_frame multiset \<Rightarrow> 'p fht_event list \<Rightarrow> 'p fht_result option \<Rightarrow> bool" where
  "fht_good f0 fr N evs res \<longleftrightarrow> (\<exists>f' new ev. res = Some (f', new, ev) \<and> fht_ok f0 f' (mset new + N) (evs @ [ev]) \<and>
     length new \<le> 1 \<and> sum_list (map ft_cost new) < ft_cost fr)"

lemma fht_facts:
  assumes "fht_ok f0 f (add_mset fr N) evs"
  shows "fh_table_ok f" and "locks_ok ft_key f (add_mset fr N)" and "ft_ok (h_datalen f0) evs fr"
    and "h_datalen f = h_datalen f0" and "ft_here f fr"
  using assms by (simp_all add: fht_ok_def fh_conf_def)

lemma good_lock:
  assumes inv: "fht_ok f0 f (add_mset fr N) evs" and free: "\<not> h_held f ! key_lock f (work_key w)"
    and fr: "ft_starts fr" and n: "ft_key fr2 = Some (work_key w)" "ft_due fr2 = ft_due fr"
      "\<And>evs'. ft_ok (h_datalen f0) evs' fr2 = ft_ok (h_datalen f0) evs' fr" "\<And>g. ft_here g fr2" "ft_cost fr2 < ft_cost fr"
  shows "fht_good f0 fr N evs (ft_lock f w fr2)"
proof -
  note F = fht_facts [OF inv]
  let ?f = "f\<lparr>h_held := (h_held f)[key_lock f (work_key w) := True]\<rparr>"
  have "locks_ok ft_key ?f (mset [fr2] + N)"
    by (rule locks_ok_take [OF F(2) _ _ _ n(1) free F(1)]) (simp_all add: ft_key_start [OF fr])
  then have "fht_ok f0 ?f (mset [fr2] + N) (evs @ [FtSilent])"
    by (intro fht_step_same [OF inv]) (use F(3) n ft_ok_more in auto)
  moreover have "ft_lock f w fr2 = Some (?f, [fr2], FtSilent)"
    using key_lock_ok(1) [OF F(1)] free by (simp add: ft_lock_def fh_lock_def)
  ultimately show ?thesis using n(5) unfolding fht_good_def by auto
qed

lemma held_unlock:
  assumes inv: "fht_ok f0 f (add_mset fr N) evs" and key: "ft_key fr = Some k"
    and new: "\<And>fr'. fr' \<in> set new \<Longrightarrow> ft_key fr' = None"
  obtains "fh_unlock f (fh_key_index f k) = Some (f\<lparr>h_held := (h_held f)[key_lock f k := False]\<rparr>)"
    and "locks_ok ft_key (f\<lparr>h_held := (h_held f)[key_lock f k := False]\<rparr>) (mset new + N)"
proof -
  note F = fht_facts [OF inv]
  have "h_held f ! key_lock f k" by (rule locks_ok_held [OF F(2) _ key F(1)]) simp
  then have "fh_unlock f (fh_key_index f k) = Some (f\<lparr>h_held := (h_held f)[key_lock f k := False]\<rparr>)"
    using key_lock_ok(1) [OF F(1)] by (simp add: fh_unlock_def)
  moreover have "locks_ok ft_key (f\<lparr>h_held := (h_held f)[key_lock f k := False]\<rparr>) (mset new + N)"
    by (rule locks_ok_drop [OF F(2) _ _ key new F(1)]) simp_all
  ultimately show thesis by (rule that)
qed

lemma good_unlock:
  assumes inv: "fht_ok f0 f (add_mset (FtUnlock w r d) N) evs"
  shows "fht_good f0 (FtUnlock w r d) N evs (ft_unlock f w r d)"
proof -
  note F = fht_facts [OF inv]
  let ?f = "f\<lparr>h_held := (h_held f)[key_lock f (work_key w) := False]\<rparr>"
  let ?new = "if d = 0 then [] else [FtCount w r d]" and ?ev = "if d = 0 then FtDone w r else FtSilent"
  obtain u: "fh_unlock f (fh_key_index f (work_key w)) = Some ?f" and "locks_ok ft_key ?f (mset ?new + N)"
    by (rule held_unlock [OF inv, of "work_key w" ?new]) (auto split: if_splits)
  then have "fht_ok f0 ?f (mset ?new + N) (evs @ [?ev])"
    by (intro fht_step_same [OF inv]) (use F(3) in \<open>auto split: if_splits\<close>)
  with u show ?thesis unfolding fht_good_def ft_unlock_def by auto
qed

lemma good_count:
  assumes inv: "fht_ok f0 f (add_mset (FtCount w r d) N) evs"
  shows "fht_good f0 (FtCount w r d) N evs (Some (ft_count f w r d))"
proof -
  note F = fht_facts [OF inv]
  let ?f = "f\<lparr>h_elements := h_elements f + d\<rparr>"
  have c: "fh_conf ?f = fh_conf f" by (simp add: fh_conf_def)
  have "locks_ok ft_key ?f (mset [] + N)" by (rule locks_ok_same [OF F(2) c]) simp_all
  then have "fht_ok f0 ?f (mset [] + N) (evs @ [FtDone w r])"
    by (intro fht_step_same [OF inv c]) (use F(3) in simp_all)
  moreover have "ft_count f w r d = (?f, [], FtDone w r)"
    using F(3) by (auto simp: ft_count_def fh_inc_elem_def fh_dec_elem_def)
  ultimately show ?thesis unfolding fht_good_def by auto
qed

text \<open>The work under the lock: the step that changes the entries.\<close>

lemma ft_work_spec:
  assumes ok: "fh_table_ok f" and w: "op_ok (h_datalen f) w"
  shows "\<exists>r d f'. ft_work f w = Some (r, d, f') \<and> fh_table_ok f' \<and> fh_conf f' = fh_conf f \<and> h_held f' = h_held f \<and>
    h_elements f' = h_elements f \<and> int (fh_size f') = int (fh_size f) + d \<and> d \<in> {-1, 0, 1} \<and>
    op_effect (h_datalen f) (fh_map f) w r = Some (fh_map f')"
proof (cases w)
  case (WInsert k blk al)
  show ?thesis
  proof (cases "k \<in> dom (fh_map f)")
    case True
    have c: "fh_conf (fh_inc_collision f) = fh_conf f" "h_held (fh_inc_collision f) = h_held f"
      "h_elements (fh_inc_collision f) = h_elements f" "hash_table (fh_inc_collision f) = hash_table f"
      by (simp_all add: fh_inc_collision_def fh_conf_def)
    have "fh_table_ok (fh_inc_collision f)" "fh_size (fh_inc_collision f) = fh_size f" "fh_map (fh_inc_collision f) = fh_map f"
      using fh_same_table [OF ok c(1) _ c(4)] c(2) by simp_all
    with fh_insert_locked_duplicate [OF ok True] True c show ?thesis by (auto simp: WInsert)
  next
    case False
    with w WInsert obtain v where v: "blk_obj (h_datalen f) blk (a_obj al) = Some (Some v)"
      and al: "a_bucket al" "a_chain al" "a_key al"
      by (auto split: option.splits)
    from fh_insert_locked_new [OF ok False al v] obtain pos f' where
      "fh_insert_locked f k blk al (fh_key_index f k) (make_minihash (hash_function f k)) = Some (Inr pos, f')"
      "fh_table_ok f'" "fh_size f' = fh_size f + 1" "fh_map f' = (fh_map f)(k \<mapsto> v)"
      "fh_conf f' = fh_conf f" "h_held f' = h_held f" "h_elements f' = h_elements f" by blast
    with False v fh_index_range(1) [OF ok, of k] show ?thesis by (auto simp: WInsert)
  qed
next
  case (WDelete k)
  note D = fh_del_slot_spec [OF ok refl refl, of k]
  show ?thesis
  proof (cases "k \<in> dom (fh_map f)")
    case True
    with D obtain f' where
      "fh_del_slot f k (fh_key_index f k) (make_minihash (hash_function f k)) = Some (fh_key_index f k, f')"
      "fh_table_ok f'" "fh_size f' + 1 = fh_size f" "fh_map f' = (fh_map f)(k := None)"
      "fh_conf f' = fh_conf f" "h_held f' = h_held f" "h_elements f' = h_elements f" by auto
    with True fh_index_range(1) [OF ok, of k] show ?thesis by (auto simp: WDelete)
  next
    case False
    with D have "fh_del_slot f k (fh_key_index f k) (make_minihash (hash_function f k)) = Some (FH_ELEMENT_NOT_FOUND, f)"
      by simp
    moreover have "FH_ELEMENT_NOT_FOUND < 0" by (simp add: FH_ELEMENT_NOT_FOUND_def)
    ultimately show ?thesis using False ok by (auto simp: WDelete)
  qed
next
  case (WLookup k)
  from fh_lookup_entry_spec [OF ok, of k] obtain e where
    "fh_lookup_entry f k = Some e" "map_option e_obj e = fh_map f k" by blast
  with ok show ?thesis by (simp add: WLookup)
qed

text \<open>It changes no other chain.\<close>

lemma ft_work_frame:
  assumes "ft_work f w = Some (r, d, f1)"
  shows "fh_conf f1 = fh_conf f" and "i \<noteq> nat (fh_key_index f (work_key w)) \<Longrightarrow> hash_table f1 ! i = hash_table f ! i"
proof -
  have "fh_conf f1 = fh_conf f \<and> 
      (\<forall>i. i \<noteq> nat (fh_key_index f (work_key w)) \<longrightarrow> hash_table f1 ! i = hash_table f ! i)"
  proof (cases w)
    case (WInsert k blk al)
    let ?ins = "fh_insert_locked f k blk al (fh_key_index f k) (make_minihash (hash_function f k))"
    from assms WInsert obtain q where q: "?ins = Some q" by (auto simp: bind_Some_iff)
    with assms WInsert have f1: "f1 = snd q" by (cases q) (auto split: sum.splits)
    from q obtain ch where ch: "fh_chain f (fh_key_index f k) = Some ch"
      by (cases "fh_chain f (fh_key_index f k)") (simp_all add: fh_insert_locked_def)
    from fh_insert_locked_chain [OF ch] q show ?thesis by (auto simp: f1 WInsert fh_conf_def put_chain_def)
  next
    case (WDelete k)
    with assms show ?thesis
      by (auto simp: bind_Some_iff fh_del_slot_def Let_def upd_chain_def fh_conf_def split: option.splits)
  next
    case (WLookup k)
    with assms show ?thesis by (auto simp: bind_Some_iff)
  qed
  then show "fh_conf f1 = fh_conf f" "i \<noteq> nat (fh_key_index f (work_key w)) \<Longrightarrow> hash_table f1 ! i = hash_table f ! i"
    by blast+
qed

lemma other_chain:
  assumes ok: "fh_table_ok f" and "key_lock f k' \<noteq> key_lock f k"
    and "\<And>i. i \<noteq> nat (fh_key_index f k') \<Longrightarrow> hash_table f1 ! i = hash_table f ! i"
  shows "same_chain f f1 k"
proof -
  have "fh_key_index f k' \<noteq> fh_key_index f k" using assms(2) by (auto simp: key_lock_def)
  with fh_index_range(1) [OF ok] have "nat (fh_key_index f k) \<noteq> nat (fh_key_index f k')" by (simp add: eq_nat_nat_iff)
  with assms(3) show ?thesis by (simp add: same_chain_def)
qed

lemma good_work:
  assumes inv: "fht_ok f0 f (add_mset (FtWork w) N) evs"
  shows "fht_good f0 (FtWork w) N evs (fht_act a f (FtWork w))"
proof -
  note F = fht_facts [OF inv]
  have "op_ok (h_datalen f) w" using F(3,4) by simp
  from ft_work_spec [OF F(1) this] obtain r d f' where
    r: "ft_work f w = Some (r, d, f')" "fh_table_ok f'" "fh_conf f' = fh_conf f" "h_held f' = h_held f"
      "h_elements f' = h_elements f" "int (fh_size f') = int (fh_size f) + d" "d \<in> {-1, 0, 1}"
      "op_effect (h_datalen f) (fh_map f) w r = Some (fh_map f')" by blast
  have "locks_ok ft_key f' (mset [FtUnlock w r d] + N)" by (rule locks_ok_same [OF F(2) r(3,4)]) simp
  then have "fht_ok f0 f' (mset [FtUnlock w r d] + N) (evs @ [FtEffect w r])"
    by (intro fht_step [OF inv r(2,3)])
      (use r F(4) other_chain [OF F(1) _ ft_work_frame(2) [OF r(1)]] in simp_all)
  then show ?thesis using r(1) unfolding fht_good_def by auto
qed

section \<open>The steps of a session keep the invariant\<close>

lemma ft_open_work:
  assumes "ft_starts (FtOpen w us del)"
  shows "ft_work f w = map_option (\<lambda>(r, at, d, f1). (r, d, f1)) (ft_open f w)"
proof (cases w)
  case (WInsert k blk al)
  show ?thesis
    by (cases "fh_insert_locked f k blk al (fh_key_index f k) (make_minihash (hash_function f k))")
      (auto simp: WInsert split: sum.split)
next
  case (WLookup k)
  show ?thesis
    by (cases "fh_chain f (fh_key_index f k)")
      (simp_all add: WLookup fh_lookup_entry_def option.map_comp comp_def case_prod_beta' map_conv_bind_option
        flip: fh_key_index_def)
qed (use assms in simp)

lemma ft_open_frame:
  assumes "ft_open f w = Some (r, at, d, f1)"
  shows "fh_conf f1 = fh_conf f" and "i \<noteq> nat (fh_key_index f (work_key w)) \<Longrightarrow> hash_table f1 ! i = hash_table f ! i"
proof -
  from assms have "ft_starts (FtOpen w us del)" for us del by (cases w) simp_all
  from ft_open_work [OF this, of f] assms have w: "ft_work f w = Some (r, d, f1)" by simp
  show "fh_conf f1 = fh_conf f" "i \<noteq> nat (fh_key_index f (work_key w)) \<Longrightarrow> hash_table f1 ! i = hash_table f ! i"
    using ft_work_frame [OF w] by blast+
qed

lemma ft_open_at:
  assumes ok: "fh_table_ok f" and w: "op_ok (h_datalen f) w" and r: "ft_open f w = Some (r, at, d, f1)"
  shows "case at of None \<Rightarrow> d = 0 | Some pos \<Rightarrow> d \<in> {0, 1} \<and> at_pos f1 (work_key w) pos"
proof (cases w)
  case (WInsert k blk al)
  show ?thesis
  proof (cases "k \<in> dom (fh_map f)")
    case True
    with r fh_insert_locked_duplicate [OF ok True] show ?thesis by (auto simp: WInsert)
  next
    case False
    with w WInsert obtain v where "blk_obj (h_datalen f) blk (a_obj al) = Some (Some v)"
      "a_bucket al" "a_chain al" "a_key al" by (auto split: option.splits)
    from fh_insert_locked_new [OF ok False this(2-4,1)] r show ?thesis by (auto simp: WInsert)
  qed
next
  case (WLookup k)
  from fh_find_slot_table [OF ok, of k] r show ?thesis
    by (auto simp: WLookup fh_chain_key(1) [OF ok] split: option.splits)
qed (use r in simp)

text \<open>The caller's change of the object.\<close>

lemma ft_store_spec:
  assumes ok: "fh_table_ok f" and at: "at_pos f k pos"
  shows "fh_table_ok (ft_store f k pos v)" and "fh_conf (ft_store f k pos v) = fh_conf f"
    and "h_held (ft_store f k pos v) = h_held f" and "h_elements (ft_store f k pos v) = h_elements f"
    and "fh_size (ft_store f k pos v) = fh_size f" and "fh_map (ft_store f k pos v) = (fh_map f)(k \<mapsto> v)"
    and "at_pos (ft_store f k pos v) k pos"
    and "i \<noteq> nat (fh_key_index f k) \<Longrightarrow> hash_table (ft_store f k pos v) ! i = hash_table f ! i"
proof -
  let ?i = "nat (fh_key_index f k)" and ?g = "ft_store f k pos v"
  let ?ch = "hash_table f ! ?i"
  define e where "e = (entry_at f k pos)\<lparr>e_obj := v\<rparr>"
  define ch where "ch = ?ch[fst pos := (?ch ! fst pos)[snd pos := e]]"
  note range = fh_index_range [OF ok, of k] and chain = fh_chain_key(2) [OF ok, of k]
  have p: "fst pos < length ?ch" "snd pos < length (?ch ! fst pos)" "mini (entry_at f k pos) \<noteq> 0"
    "e_key (entry_at f k pos) = Some k" using at by (simp_all add: at_pos_def)
  have t: "hash_table ?g = (hash_table f)[?i := ch]"
    by (simp add: ft_store_def upd_chain_def upd_entry_def ch_def e_def entry_at_def)
  show c: "fh_conf ?g = fh_conf f" "h_held ?g = h_held f" "h_elements ?g = h_elements f"
    by (simp_all add: ft_store_def upd_chain_def fh_conf_def)
  from pairs_at [OF p(1,2)] p(3,4) obtain xs ys where
    xs: "pairs ch = xs @ (k, v) # ys" "pairs ?ch = xs @ (k, e_obj (entry_at f k pos)) # ys"
    by (auto simp: ch_def e_def entry_at_def)
  have b: "list_all (bucket_ok (hash_function f)) ?ch" "list_all (\<lambda>b. bucket_pairs b \<noteq> []) ?ch"
    "distinct (map fst (pairs ?ch))" using chain by (simp_all add: chain_ok_def)
  then have "entry_ok (hash_function f) (entry_at f k pos)"
    using p(1,2) by (auto simp: list_all_length bucket_ok_def entry_at_def)
  then have "entry_ok (hash_function f) e" using p(3) by (simp add: e_def entry_ok_def)
  from bucket_ok_update [OF b(1) p(1,2) this] have "list_all (bucket_ok (hash_function f)) ch" by (simp add: ch_def)
  moreover have "list_all (\<lambda>b. bucket_pairs b \<noteq> []) ch"
    unfolding ch_def by (rule nonempty_update) (use b(2) p in \<open>simp_all add: list_all_length e_def\<close>)
  moreover have "distinct (map fst (pairs ch))" using b(3) xs by simp
  ultimately have co: "chain_ok (hash_function f) ch" by (simp add: chain_ok_def)
  have idx: "fh_key_index f k' = int ?i" if "k' \<in> fst ` set (pairs ch)" for k'
    using fh_table_keys [OF ok range(3), of k'] that xs by auto
  note rep = fh_replace_chain [OF ok c(1) _ range(3) t co idx]
  show "fh_table_ok ?g" "fh_size ?g = fh_size f" using rep(1,2) c(2) xs by simp_all
  show "fh_map ?g = (fh_map f)(k \<mapsto> v)"
  proof
    fix k'
    have d: "distinct (map fst (xs @ ys))" "k \<notin> fst ` set (xs @ ys)" using b(3) xs(2) by auto
    from map_of_insert [OF d] xs have "map_of (pairs ch) = (map_of (pairs ?ch))(k \<mapsto> v)" by (simp add: fun_upd_upd)
    with rep(3) [of k'] c(2) range(1) show "fh_map ?g k' = ((fh_map f)(k \<mapsto> v)) k'"
      by (auto simp: fh_map_def)
  qed
  show "at_pos ?g k pos"
    using p range(3) by (simp add: at_pos_def entry_at_def t ch_def conf_key_index [OF c(1)] e_def)
  show "i \<noteq> ?i \<Longrightarrow> hash_table ?g ! i = hash_table f ! i" by (simp add: t)
qed

lemma ft_good_search:
  assumes inv: "fht_ok f0 f (add_mset (FtSearch w us del) N) evs"
  shows "fht_good f0 (FtSearch w us del) N evs (ft_search f w us del)"
proof -
  note F = fht_facts [OF inv]
  have w: "op_ok (h_datalen f) w" "ft_starts (FtOpen w us del)" using F(3,4) by simp_all
  from ft_work_spec [OF F(1) w(1)] obtain r d f' where
    r: "ft_work f w = Some (r, d, f')" "fh_table_ok f'" "fh_conf f' = fh_conf f" "h_held f' = h_held f"
      "h_elements f' = h_elements f" "int (fh_size f') = int (fh_size f) + d"
      "op_effect (h_datalen f) (fh_map f) w r = Some (fh_map f')" by blast
  from r(1) [unfolded ft_open_work [OF w(2)]] obtain at where o: "ft_open f w = Some (r, at, d, f')" by auto
  let ?fr = "case at of None \<Rightarrow> FtUnlock w r 0 | Some pos \<Rightarrow> FtEnter (work_key w) pos d us del"
  note at = ft_open_at [OF F(1) w(1) o]
  have n: "ft_key ?fr = Some (work_key w)" "ft_due ?fr = d" "ft_ok (h_datalen f0) (evs @ [FtEffect w r]) ?fr"
    "ft_here f' ?fr" using at by (auto split: option.splits)
  have "locks_ok ft_key f' (mset [?fr] + N)" by (rule locks_ok_same [OF F(2) r(3,4)]) (simp add: n(1))
  then have "fht_ok f0 f' (mset [?fr] + N) (evs @ [FtEffect w r])"
    by (intro fht_step [OF inv r(2,3)])
      (use r(5-7) n F(4) other_chain [OF F(1) _ ft_work_frame(2) [OF r(1)]] in \<open>simp_all del: ft_starts.simps\<close>)
  moreover have "ft_search f w us del = Some (f', [?fr], FtEffect w r)"
    by (simp add: ft_search_def o split: option.split)
  ultimately show ?thesis unfolding fht_good_def by (auto split: option.split)
qed

lemma good_enter:
  assumes inv: "fht_ok f0 f (add_mset (FtEnter k pos d us del) N) evs"
  shows "fht_good f0 (FtEnter k pos d us del) N evs (ft_enter f k pos d us del)"
proof -
  note F = fht_facts [OF inv]
  let ?f = "f\<lparr>h_elements := h_elements f + d\<rparr>" and ?fr = "FtHeld k pos us del"
  let ?ev = "FtKept k (e_obj (entry_at f k pos))"
  have c: "fh_conf ?f = fh_conf f" by (simp add: fh_conf_def)
  have "fh_map f k = Some (e_obj (entry_at f k pos))" using at_pos_map [OF F(1)] F(5) by simp
  moreover have "locks_ok ft_key ?f (mset [?fr] + N)" by (rule locks_ok_same [OF F(2) c]) simp_all
  ultimately have "fht_ok f0 ?f (mset [?fr] + N) (evs @ [?ev])"
    by (intro fht_step_same [OF inv c]) (use F(5) in simp_all)
  moreover have "ft_enter f k pos d us del = Some (?f, [?fr], ?ev)"
    using F(3) by (auto simp: ft_enter_def fh_chain_key(1) [OF F(1)] fh_inc_elem_def entry_at_def)
  ultimately show ?thesis unfolding fht_good_def by auto
qed

lemma good_store:
  assumes inv: "fht_ok f0 f (add_mset (FtHeld k pos (g # us) del) N) evs"
  shows "fht_good f0 (FtHeld k pos (g # us) del) N evs (ft_held f k pos (g # us) del)"
proof -
  note F = fht_facts [OF inv]
  let ?v = "e_obj (entry_at f k pos)" and ?fr = "FtHeld k pos us del"
  let ?f = "ft_store f k pos (g ?v)"
  have at: "at_pos f k pos" using F(5) by simp
  note S = ft_store_spec [OF F(1) at, where v = "g ?v"]
  have "locks_ok ft_key ?f (mset [?fr] + N)" by (rule locks_ok_same [OF F(2) S(2,3)]) simp_all
  then have "fht_ok f0 ?f (mset [?fr] + N) (evs @ [FtWrite k ?v (g ?v)])"
    by (intro fht_step [OF inv S(1,2)])
      (use S at_pos_map [OF F(1) at] other_chain [OF F(1) _ S(8)] in simp_all)
  then show ?thesis unfolding fht_good_def by (auto simp: Let_def)
qed

lemma good_dellocked:
  assumes inv: "fht_ok f0 f (add_mset (FtHeld k pos [] True) N) evs"
  shows "fht_good f0 (FtHeld k pos [] True) N evs (ft_dellocked f k)"
proof -
  note F = fht_facts [OF inv]
  let ?mh = "make_minihash (hash_function f k)"
  have k: "fh_map f k = Some (e_obj (entry_at f k pos))" using at_pos_map [OF F(1)] F(5) by simp
  then have "k \<in> dom (fh_map f)" by blast
  with fh_del_slot_spec [OF F(1) refl refl, of k] obtain f' where
    r: "fh_del_slot f k (fh_key_index f k) ?mh = Some (fh_key_index f k, f')" "fh_table_ok f'" "fh_size f' + 1 = fh_size f"
      "fh_map f' = (fh_map f)(k := None)" "fh_conf f' = fh_conf f" "h_held f' = h_held f" "h_elements f' = h_elements f"
    by auto
  note i = fh_index_range(1) [OF F(1), of k]
  have "ft_work f (WDelete k) = Some (RCode (fh_key_index f k), -1, f')" using r(1) i by simp
  note O = other_chain [OF F(1) _ ft_work_frame(2) [OF this]]
  have "locks_ok ft_key f' (mset [FtDropped k] + N)" by (rule locks_ok_same [OF F(2) r(5,6)]) simp_all
  then have "fht_ok f0 f' (mset [FtDropped k] + N) (evs @ [FtEffect (WDelete k) (RCode (fh_key_index f k))])"
    by (intro fht_step [OF inv r(2,5)]) (use r(3,4,7) k i O in simp_all)
  moreover have "ft_dellocked f k = Some (f', [FtDropped k], FtEffect (WDelete k) (RCode (fh_key_index f k)))"
    using r(1) i by (simp add: ft_dellocked_def)
  ultimately show ?thesis unfolding fht_good_def by auto
qed

lemma good_dropped:
  assumes inv: "fht_ok f0 f (add_mset (FtDropped k) N) evs"
  shows "fht_good f0 (FtDropped k) N evs (Some (fh_dec_elem f, [FtRelease k], FtSilent))"
proof -
  note F = fht_facts [OF inv]
  have c: "fh_conf (fh_dec_elem f) = fh_conf f" by (simp add: fh_dec_elem_def fh_conf_def)
  have "locks_ok ft_key (fh_dec_elem f) (mset [FtRelease k] + N)"
    by (rule locks_ok_same [OF F(2) c]) (simp_all add: fh_dec_elem_def)
  then have "fht_ok f0 (fh_dec_elem f) (mset [FtRelease k] + N) (evs @ [FtSilent])"
    by (intro fht_step_same [OF inv c]) (simp_all add: fh_dec_elem_def)
  then show ?thesis unfolding fht_good_def by auto
qed

lemma ft_good_release:
  assumes inv: "fht_ok f0 f (add_mset fr N) evs" and fr: "ft_key fr = Some k" "ft_due fr = 0"
  shows "fht_good f0 fr N evs (ft_release f k)"
proof -
  let ?f = "f\<lparr>h_held := (h_held f)[key_lock f k := False]\<rparr>"
  obtain u: "fh_unlock f (fh_key_index f k) = Some ?f" and "locks_ok ft_key ?f (mset [] + N)"
    by (rule held_unlock [OF inv fr(1), of "[]"]) simp
  then have "fht_ok f0 ?f (mset [] + N) (evs @ [FtLeft k])"
    by (intro fht_step_same [OF inv]) (use fr(2) in simp_all)
  moreover have "0 < ft_cost fr" by (cases fr) simp_all
  ultimately show ?thesis using u unfolding fht_good_def ft_release_def by auto
qed

section \<open>Every step, and what a thread waits for\<close>

text \<open>Every step but the taking of a lock that is held.\<close>

fun ft_takes :: "'p fht_frame \<Rightarrow> cstr option" where
  "ft_takes (FtLock w) = Some (work_key w)"
| "ft_takes (FtOpen w us del) = Some (work_key w)"
| "ft_takes fr = None"

lemma fht_good_step:
  assumes inv: "fht_ok f0 f (add_mset fr N) evs" and free: "\<And>k. ft_takes fr = Some k \<Longrightarrow> \<not> h_held f ! key_lock f k"
  shows "fht_good f0 fr N evs (fht_act a f fr)"
proof (cases fr)
  case (FtLock w)
  have "fht_good f0 fr N evs (ft_lock f w (FtWork w))"
    by (rule good_lock [OF inv free]) (simp_all add: FtLock)
  then show ?thesis by (simp add: FtLock)
next
  case (FtOpen w us del)
  have "ft_starts fr" using fht_facts(3) [OF inv] by (simp add: FtOpen)
  then have "fht_good f0 fr N evs (ft_lock f w (FtSearch w us del))"
    by (intro good_lock [OF inv free]) (simp_all add: FtOpen)
  then show ?thesis by (simp add: FtOpen)
next
  case (FtHeld k pos us del)
  show ?thesis
  proof (cases us)
    case Nil
    with inv ft_good_release [OF inv, of k] good_dellocked [of f0 f k pos N evs] FtHeld show ?thesis by (cases del) simp_all
  next
    case (Cons g vs)
    with inv good_store FtHeld show ?thesis by (metis fht_act.simps(8))
  qed
qed (use inv good_work [of f0 f _ N evs a] ft_good_release [OF inv] in
  \<open>simp_all add: good_unlock good_count ft_good_search good_enter good_dropped del: ft_work.simps\<close>)

lemma fht_ok_step:
  assumes inv: "fht_ok f0 f (add_mset fr M) evs" and act: "fht_act a f fr = Some (f', new, ev)"
  shows "fht_ok f0 f' (mset new + M) (evs @ [ev])" and "sum_list (map ft_cost new) < ft_cost fr" and "length new \<le> 1"
proof -
  have "fht_good f0 fr M evs (fht_act a f fr)"
  proof (rule fht_good_step [OF inv])
    fix k assume k: "ft_takes fr = Some k"
    show "\<not> h_held f ! key_lock f k"
    proof
      assume "h_held f ! key_lock f k"
      with fh_lock_taken fht_facts(1) [OF inv] have "fh_lock f (fh_key_index f k) = None" by blast
      with act k show False by (cases fr) (auto simp: ft_lock_def)
    qed
  qed
  with act show "fht_ok f0 f' (mset new + M) (evs @ [ev])" "sum_list (map ft_cost new) < ft_cost fr" "length new \<le> 1"
    by (auto simp: fht_good_def)
qed

lemma fht_waits:
  assumes inv: "fht_ok f0 f (add_mset fr M) evs" and act: "fht_act a f fr = None"
  shows "\<exists>fr' \<in># M. \<not> ft_starts fr' \<and> (\<forall>b. fht_act b f fr' \<noteq> None)"
proof -
  note F = fht_facts [OF inv]
  from fht_good_step [OF inv, of a] act obtain k where k: "ft_takes fr = Some k" "h_held f ! key_lock f k"
    by (auto simp: fht_good_def)
  then have "ft_key fr = None" by (cases fr) simp_all
  with locks_ok_holder [OF F(2) _ k(2) F(1)] obtain fr' k' where fr': "fr' \<in># M" "ft_key fr' = Some k'" by fastforce
  then obtain M' where "M = add_mset fr' M'" by (meson mset_add)
  with inv have inv': "fht_ok f0 f (add_mset fr' (add_mset fr M')) evs" by (simp add: add_mset_commute)
  have "ft_takes fr' = None" using fr'(2) by (cases fr') simp_all
  then have "fht_good f0 fr' (add_mset fr M') evs (fht_act b f fr')" for b by (intro fht_good_step [OF inv']) simp
  then have "fht_act b f fr' \<noteq> None" for b by (auto simp: fht_good_def)
  moreover have "\<not> ft_starts fr'" using fr'(2) ft_key_start by force
  ultimately show ?thesis using fr'(1) by blast
qed

interpretation fht: live_threads fht_act "fht_ok f0" "\<lambda>f. 0" ft_cost ft_starts for f0
proof unfold_locales
qed (use fht_ok_step fht_waits in \<open>auto simp del: fht_act.simps\<close>)

section \<open>What a session excludes\<close>

text \<open>A step changes no chain but the one of the key whose lock it has.\<close>

lemma fht_act_chain:
  assumes "fht_act a f fr = Some (f', new, ev)"
  shows "case ft_key fr of None \<Rightarrow> hash_table f' = hash_table f
    | Some k \<Rightarrow> \<forall>i. i \<noteq> nat (fh_key_index f k) \<longrightarrow> hash_table f' ! i = hash_table f ! i"
proof -
  have l: "fh_lock f i = Some f' \<Longrightarrow> hash_table f' = hash_table f" "fh_unlock f i = Some f' \<Longrightarrow> hash_table f' = hash_table f"
    for i by (auto simp: fh_lock_def fh_unlock_def bind_Some_iff split: if_splits)
  have d: "ft_dellocked f k = Some (f', new, ev) \<Longrightarrow> i \<noteq> nat (fh_key_index f k) \<Longrightarrow> hash_table f' ! i = hash_table f ! i" for k i
    by (auto simp: ft_dellocked_def bind_Some_iff fh_del_slot_def upd_chain_def Let_def split: option.splits)
  show ?thesis
  proof (cases fr)
    case (FtSearch w us del)
    with assms obtain r at n where "ft_open f w = Some (r, at, n, f')" by (auto simp: ft_search_def bind_Some_iff)
    from ft_open_frame(2) [OF this] show ?thesis by (simp add: FtSearch)
  next
    case (FtHeld k pos us del)
    with assms d show ?thesis
      by (cases us; cases del) (auto simp: Let_def ft_store_def upd_chain_def ft_release_def bind_Some_iff dest: l)
  qed (use assms ft_work_frame(2) in \<open>auto simp: ft_lock_def ft_unlock_def ft_count_def ft_enter_def ft_release_def
      fh_inc_elem_def fh_dec_elem_def bind_Some_iff dest: l split: if_splits\<close>)
qed

lemma session_step:
  assumes ok: "fht_ok f0 (shared s) (frames s) (trace s)" and t: "t < length (todo s)" "todo s ! t = fr # rest" "ft_key fr = Some k"
    and step: "sys_exec fht_act s (u, x) = Some s'" and "u \<noteq> t"
  shows "todo s' ! t = todo s ! t" and "length (todo s') = length (todo s)"
    and "fht_ok f0 (shared s') (frames s') (trace s')" and "fh_conf (shared s') = fh_conf (shared s)"
    and "key_lock (shared s) k' = key_lock (shared s) k \<Longrightarrow> same_chain (shared s) (shared s') k'"
proof -
  from step obtain fr' rest' f' new ev where
    x: "u < length (todo s)" "todo s ! u = fr' # rest'" "fht_act x (shared s) fr' = Some (f', new, ev)"
      "shared s' = f'" "todo s' = (todo s)[u := new @ rest']"
    by (rule sys_exec_cases) auto
  show "todo s' ! t = todo s ! t" "length (todo s') = length (todo s)" using x(5) \<open>u \<noteq> t\<close> by simp_all
  from fht.exec_ok(1) [OF _ step, of f0] ok show ok': "fht_ok f0 (shared s') (frames s') (trace s')"
    by (simp add: fht.okc_def)
  with ok show "fh_conf (shared s') = fh_conf (shared s)" by (simp add: fht_ok_def)
  from frames_two [OF t(1,2) x(1,2) \<open>u \<noteq> t\<close>] obtain M where "frames s = add_mset fr' (add_mset fr M)" by blast
  with ok have l: "locks_ok ft_key (shared s) (add_mset fr' (add_mset fr M))" and T: "fh_table_ok (shared s)"
    by (simp_all add: fht_ok_def)
  show "same_chain (shared s) (shared s') k'" if k': "key_lock (shared s) k' = key_lock (shared s) k"
  proof (cases "ft_key fr'")
    case None
    with fht_act_chain [OF x(3)] x(4) show ?thesis by (intro same_table_chain) simp
  next
    case (Some j)
    have "key_lock (shared s) j \<noteq> key_lock (shared s) k" by (rule locks_ok_two [OF l _ Some t(3) T]) simp
    with k' fht_act_chain [OF x(3)] Some x(4) show ?thesis by (intro other_chain [OF T]) auto
  qed
qed

lemma session_run:
  "fht_ok f0 (shared s) (frames s) (trace s) \<Longrightarrow> t < length (todo s) \<Longrightarrow> todo s ! t = fr # rest \<Longrightarrow> ft_key fr = Some k \<Longrightarrow>
    \<forall>(u, x) \<in> set as. u \<noteq> t \<Longrightarrow> sys_run fht_act s as = Some s' \<Longrightarrow>
    todo s' ! t = fr # rest \<and> fh_conf (shared s') = fh_conf (shared s) \<and>
    (\<forall>k'. key_lock (shared s) k' = key_lock (shared s) k \<longrightarrow> same_chain (shared s) (shared s') k')"
proof (induction as arbitrary: s)
  case (Cons a as)
  obtain u x where a: "a = (u, x)" by (cases a)
  from Cons.prems(6) a obtain s1 where s1: "sys_exec fht_act s (u, x) = Some s1" "sys_run fht_act s1 as = Some s'"
    by (auto simp: bind_Some_iff)
  from Cons.prems(5) a have u: "u \<noteq> t" by simp
  note S = session_step [OF Cons.prems(1-4) s1(1) u]
  from Cons.IH [OF S(3) _ _ Cons.prems(4) _ s1(2)] S(1,2) Cons.prems(2,3,5) have
    R: "todo s' ! t = fr # rest" "fh_conf (shared s') = fh_conf (shared s1)"
      "\<And>k'. key_lock (shared s1) k' = key_lock (shared s1) k \<Longrightarrow> same_chain (shared s1) (shared s') k'" by auto
  have "same_chain (shared s) (shared s') k'" if "key_lock (shared s) k' = key_lock (shared s) k" for k'
  proof -
    have "key_lock (shared s1) k' = key_lock (shared s1) k" using that conf_key_lock [OF S(4)] by simp
    from R(3) [OF this] S(5) [OF that] conf_key_index [OF S(4)] show ?thesis by (simp add: same_chain_def)
  qed
  with R(1,2) S(4) show ?case by simp
qed (simp add: same_chain_def)

text \<open>So everything about the keys of its lock is as it was, and calls for them wait.\<close>

lemma session_excludes:
  assumes inv: "fht_ok f0 (shared s) (frames s) (trace s)" and t: "t < length (todo s)" "todo s ! t = fr # rest" "ft_key fr = Some k"
    and bs: "\<forall>(u, x) \<in> set bs. u \<noteq> t" "sys_run fht_act s bs = Some s'" and k': "key_lock (shared s) k' = key_lock (shared s) k"
  shows "todo s' ! t = todo s ! t" and "fh_map (shared s') k' = fh_map (shared s) k'"
    and "entry_at (shared s') k pos = entry_at (shared s) k pos"
    and "u < length (todo s') \<Longrightarrow> todo s' ! u = fr' # r \<Longrightarrow> ft_takes fr' = Some k' \<Longrightarrow> sys_exec fht_act s' (u, x) = None"
proof -
  from session_run [OF inv t bs] have R: "todo s' ! t = fr # rest" "fh_conf (shared s') = fh_conf (shared s)"
    "\<And>k'. key_lock (shared s) k' = key_lock (shared s) k \<Longrightarrow> same_chain (shared s) (shared s') k'" by blast+
  show "todo s' ! t = todo s ! t" using R(1) t(2) by simp
  show "fh_map (shared s') k' = fh_map (shared s) k'" "entry_at (shared s') k pos = entry_at (shared s) k pos"
    using same_chain_entry [OF R(2) R(3)] k' by simp_all
  show "sys_exec fht_act s' (u, x) = None"
    if u: "u < length (todo s')" "todo s' ! u = fr' # r" "ft_takes fr' = Some k'"
  proof -
    from fht.run_ok [of f0 s bs s'] inv bs(2) have inv': "fht_ok f0 (shared s') (frames s') (trace s')"
      by (simp add: fht.okc_def)
    then have T: "fh_table_ok (shared s')" and l: "locks_ok ft_key (shared s') (frames s')" by (simp_all add: fht_ok_def)
    have len: "length (todo s') = length (todo s)" using run_length [OF bs(2)] .
    with t(1) have "fr \<in># frames s'" using R(1) by (intro top_in_frames) simp_all
    from locks_ok_held [OF l this t(3) T] have "h_held (shared s') ! key_lock (shared s') k'"
      using k' conf_key_lock [OF R(2)] by simp
    from fh_lock_taken [OF T this] have "fht_act x (shared s') fr' = None"
      using u(3) by (cases fr') (auto simp: ft_lock_def)
    with u(1,2) show ?thesis by (simp add: sys_exec_def)
  qed
qed

end
