(* ===== verification/FhThreadsSpec.thy ===== *)
theory FhThreadsSpec
  imports FhThreadsInv
begin

text \<open>
  What several threads that use one hash table can rely on: their calls and sessions are a run of
  one map, a session has its key for itself, no thread waits for good, and a call that nobody
  interrupts is the call of \<open>Fh\<close>.
\<close>

section \<open>Runs from a valid table\<close>

text \<open>A call or a session that a thread may start with.\<close>

definition call_ok :: "int \<Rightarrow> 'p fht_frame \<Rightarrow> bool" where
  "call_ok dl fr \<longleftrightarrow> ft_starts fr \<and> ft_ok dl [] fr"

lemma start_facts:
  assumes "call_ok (h_datalen f) fr"
  shows "ft_starts fr" and "ft_ok (h_datalen f) [] fr" and "ft_here f fr" and "ft_due fr = 0" and "ft_key fr = None"
  using assms by (cases fr; simp add: call_ok_def)+

lemma fht_ok_start:
  assumes "fh_ready f" and progs: "\<forall>fr \<in> set (concat progs). call_ok (h_datalen f) fr"
  shows "fht_ok f f (mset (concat progs)) []"
proof -
  let ?M = "mset (concat progs)"
  note fr = start_facts [OF progs [THEN bspec]]
  have "\<not> h_held f ! l" if "l < length (h_held f)" for l
    using assms(1) nth_mem [OF that] by (metis (full_types) fh_ready_def fh_unlocked_def)
  moreover have "lock_holders ft_key f l ?M = 0" for l using fr(5) by (intro lock_holders_none) simp
  ultimately have "locks_ok ft_key f ?M" by (simp add: locks_ok_def)
  moreover have "(\<Sum>fr \<in># ?M. ft_due fr) = 0" using fr(4) by (intro sum_mset.neutral) simp
  moreover have "ft_ok (h_datalen f) [] fr \<and> ft_here f fr" if "fr \<in># ?M" for fr using fr(2,3) that by simp
  ultimately show ?thesis using assms(1) by (simp add: fht_ok_def fh_ready_def fh_inv_def)
qed

lemma fht_run:
  assumes "fh_ready f" and progs: "\<forall>fr \<in> set (concat progs). call_ok (h_datalen f) fr"
    and run: "sys_run fht_act (fht_start f progs) as = Some s"
  shows "fht_ok f (shared s) (frames s) (trace s)" and "length as \<le> sum_list (map ft_cost (concat progs))"
    and "(\<forall>a. sys_exec fht_act s a = None) \<longleftrightarrow> ended s"
proof -
  have st: "\<forall>fr \<in> set (concat progs). ft_starts fr" using progs by (simp add: call_ok_def)
  note R = fht.run_from_start [OF fht_ok_start [OF assms(1,2)] st run [unfolded fht_start_def]]
  from R(1) show "fht_ok f (shared s) (frames s) (trace s)" .
  from R(3) show "length as \<le> sum_list (map ft_cost (concat progs))" by (simp only: add_0)
  from R(4) show "(\<forall>a. sys_exec fht_act s a = None) \<longleftrightarrow> ended s" .
qed

section \<open>A call without interruption\<close>

lemmas ft_solo_step = solo_step [where act = fht_act]
lemmas ft_solo_end = solo_end [where act = fht_act]

lemma ft_solo:
  assumes "fh_lock f (fh_key_index f (work_key w)) = Some f1" and "fh_conf f1 = fh_conf f"
    and "ft_work f1 w = Some (r, d, f2)" and "fh_unlock f2 (fh_key_index f (work_key w)) = Some f3"
  shows "sys_solo fht_act () f (FtLock w) (if d = 0 then f3 else if 0 < d then fh_inc_elem f3 else fh_dec_elem f3) (FtDone w r)"
proof -
  have i: "fh_key_index f2 k = fh_key_index f k" for k
    using conf_key_index ft_work_frame(1) [OF assms(3)] assms(2) by metis
  have l: "fht_act () f (FtLock w) = Some (f1, [FtWork w], FtSilent)" using assms(1) by (simp add: ft_lock_def)
  have k: "fht_act () f1 (FtWork w) = Some (f2, [FtUnlock w r d], FtEffect w r)" using assms(3) by simp
  show ?thesis
  proof (cases "d = 0")
    case True
    then have "fht_act () f2 (FtUnlock w r d) = Some (f3, [], FtDone w r)" using assms(4) by (simp add: ft_unlock_def i)
    from ft_solo_step [OF l ft_solo_step [OF k ft_solo_end [OF this]]] True show ?thesis by simp
  next
    case False
    then have u: "fht_act () f2 (FtUnlock w r d) = Some (f3, [FtCount w r d], FtSilent)"
      using assms(4) by (simp add: ft_unlock_def i)
    have "fht_act () f3 (FtCount w r d) = Some (if 0 < d then fh_inc_elem f3 else fh_dec_elem f3, [], FtDone w r)"
      by (simp add: ft_count_def)
    from ft_solo_step [OF l ft_solo_step [OF k ft_solo_step [OF u ft_solo_end [OF this]]]] False show ?thesis by simp
  qed
qed

lemma fh_lock_conf: "fh_lock f i = Some f1 \<Longrightarrow> fh_conf f1 = fh_conf f \<and> hash_function f1 = hash_function f"
  by (auto simp: fh_lock_def bind_Some_iff split: if_splits)

lemma ft_solo_insert:
  fixes k :: cstr
  fixes blk :: "'a block"
  assumes ok: "\<not> fh_bad (Some f)" and call: "fh_insert (Some f) (Some k) blk al = Some (rc, Some f')"
  shows "sys_solo fht_act () f (FtLock (WInsert k blk al)) f' (FtDone (WInsert k blk al) (RCode rc))"
proof -
  have e: "fh_insert (Some f) (Some k) blk al = do {
      f1 \<leftarrow> fh_lock f (fh_key_index f k);
      (r, f2) \<leftarrow> fh_insert_locked f1 k blk al (fh_key_index f k) (make_minihash (hash_function f k));
      f3 \<leftarrow> fh_unlock f2 (fh_key_index f k);
      Some (case r of Inl c \<Rightarrow> (c, Some f3) | Inr pos \<Rightarrow> (fh_key_index f k, Some (fh_inc_elem f3))) }"
    unfolding fh_key_index_def using ok by (simp add: fh_insert_def Let_def sum.case_distrib [of Some])
  from call [unfolded e] obtain f1 q f3 where y: "fh_lock f (fh_key_index f k) = Some f1"
    "fh_insert_locked f1 k blk al (fh_key_index f k) (make_minihash (hash_function f k)) = Some q"
    "fh_unlock (snd q) (fh_key_index f k) = Some f3"
    "(case fst q of Inl c \<Rightarrow> (c, Some f3) | Inr pos \<Rightarrow> (fh_key_index f k, Some (fh_inc_elem f3))) = (rc, Some f')"
    by (auto simp: bind_Some_iff)
  obtain r f2 where "q = (r, f2)" by (cases q)
  with y have x: "fh_lock f (fh_key_index f k) = Some f1"
    "fh_insert_locked f1 k blk al (fh_key_index f k) (make_minihash (hash_function f k)) = Some (r, f2)"
    "fh_unlock f2 (fh_key_index f k) = Some f3"
    "case r of Inl c \<Rightarrow> rc = c \<and> f' = f3 | Inr pos \<Rightarrow> rc = fh_key_index f k \<and> f' = fh_inc_elem f3"
    by (auto split: sum.splits)
  note c = fh_lock_conf [OF x(1)]
  have "fh_key_index f1 k = fh_key_index f k" using c conf_key_index by blast
  then have w: "ft_work f1 (WInsert k blk al) = Some (case r of Inl c \<Rightarrow> (RCode c, 0, f2) | Inr pos \<Rightarrow> (RCode rc, 1, f2))"
    using x(2,4) c by (auto split: sum.splits)
  show ?thesis
    using ft_solo [of f "WInsert k blk al" f1 "RCode rc" "case r of Inl c \<Rightarrow> 0 | Inr pos \<Rightarrow> 1" f2 f3] x w c
    by (auto simp del: ft_work.simps split: sum.splits)
qed

lemma ft_solo_del:
  fixes k :: cstr
  assumes ok: "\<not> fh_bad (Some f)" and call: "fh_del (Some f) (Some k) = Some (rc, Some f')"
  shows "sys_solo fht_act () f (FtLock (WDelete k)) f' (FtDone (WDelete k) (RCode rc))"
proof -
  from ok call obtain f1 f2 f3 where x: "fh_lock f (fh_key_index f k) = Some f1"
    "fh_del_slot f1 k (fh_key_index f k) (make_minihash (hash_function f k)) = Some (rc, f2)"
    "fh_unlock f2 (fh_key_index f k) = Some f3" "f' = (if 0 \<le> rc then fh_dec_elem f3 else f3)"
    by (auto simp: fh_del_def bind_Some_iff Let_def fh_key_index_def)
  note c = fh_lock_conf [OF x(1)]
  have "fh_key_index f1 k = fh_key_index f k" using c conf_key_index by blast
  then have w: "ft_work f1 (WDelete k) = Some (RCode rc, if 0 \<le> rc then -1 else 0, f2)" using x(2) c by simp
  show ?thesis
    using ft_solo [of f "WDelete k" f1, OF _ _ w, of f3] x c by (auto split: if_splits)
qed

lemma ft_solo_get:
  fixes k :: cstr
  assumes ok: "\<not> fh_bad (Some f)" and call: "fh_get (Some f) (Some k) = Some (rc, v, Some f')"
  shows "sys_solo fht_act () f (FtLock (WLookup k)) f' (FtDone (WLookup k) (RObj (if rc = FH_OK then Some v else None)))"
proof -
  from ok call obtain f1 e where x: "fh_lock f (fh_key_index f k) = Some f1" "fh_lookup_entry f1 k = Some e"
    "fh_unlock f1 (fh_key_index f k) = Some f'"
    "case e of None \<Rightarrow> rc = FH_ELEMENT_NOT_FOUND | Some y \<Rightarrow> rc = FH_OK \<and> v = e_obj y"
    by (auto simp: fh_get_def bind_Some_iff Let_def fh_key_index_def split: option.splits)
  have "RObj (map_option e_obj e) = RObj (if rc = FH_OK then Some v else None)"
    using x(4) by (auto simp: FH_OK_def FH_ELEMENT_NOT_FOUND_def split: option.splits)
  then have w: "ft_work f1 (WLookup k) = Some (RObj (if rc = FH_OK then Some v else None), 0, f1)" using x(2) by simp
  show ?thesis
    using ft_solo [of f "WLookup k" f1, OF _ _ w, of f'] x fh_lock_conf [OF x(1)] by simp
qed

section \<open>A session without interruption\<close>

lemma ft_solo_open:
  assumes "fh_lock f (fh_key_index f (work_key w)) = Some f1" and "ft_open f1 w = Some (r, at, d, f2)"
    and "sys_upto fht_act () f2 (case at of None \<Rightarrow> FtUnlock w r 0 | Some pos \<Rightarrow> FtEnter (work_key w) pos d us del) f3 new ev"
  shows "sys_upto fht_act () f (FtOpen w us del) f3 new ev"
proof -
  have l: "fht_act () f (FtOpen w us del) = Some (f1, [FtSearch w us del], FtSilent)"
    using assms(1) by (simp add: ft_lock_def)
  have "fht_act () f1 (FtSearch w us del) =
      Some (f2, [case at of None \<Rightarrow> FtUnlock w r 0 | Some pos \<Rightarrow> FtEnter (work_key w) pos d us del], FtEffect w r)"
    using assms(2) by (simp add: ft_search_def split: option.split)
  from ft_solo_step [OF l ft_solo_step [OF this assms(3)]] show ?thesis .
qed

lemma ft_solo_refused:
  assumes "fh_unlock f (fh_key_index f (work_key w)) = Some f1"
  shows "sys_solo fht_act () f (FtUnlock w r 0) f1 (FtDone w r)"
  by (rule ft_solo_end) (use assms in \<open>simp add: ft_unlock_def\<close>)

lemma ft_solo_enter:
  assumes "fh_chain f (fh_key_index f k) = Some ch"
  shows "sys_upto fht_act () f (FtEnter k pos d us del) (if 0 < d then fh_inc_elem f else f) [FtHeld k pos us del]
    (FtKept k (e_obj (ch ! fst pos ! snd pos)))"
  by (rule ft_solo_end) (use assms in \<open>simp add: ft_enter_def\<close>)

lemma ft_solo_searchlock:
  fixes k :: cstr
  assumes ok: "\<not> fh_bad (Some f)" and call: "fh_searchlock (Some f) (Some k) = Some (rc, v, slot, Some f')"
  shows "if rc = FH_OK
    then slot = Some (fh_key_index f k) \<and>
      (\<exists>pos. sys_upto fht_act () f (FtOpen (WLookup k) us del) f' [FtHeld k pos us del] (FtKept k v))
    else sys_solo fht_act () f (FtOpen (WLookup k) us del) f' (FtDone (WLookup k) (RObj None))"
proof -
  from ok call obtain f1 e where x: "fh_lock f (fh_key_index f k) = Some f1" "fh_lookup_entry f1 k = Some e"
    "case e of None \<Rightarrow> rc = FH_ELEMENT_NOT_FOUND \<and> fh_unlock f1 (fh_key_index f k) = Some f'
      | Some y \<Rightarrow> rc = FH_OK \<and> v = e_obj y \<and> slot = Some (fh_key_index f k) \<and> f' = f1"
    by (auto simp: fh_searchlock_def bind_Some_iff Let_def fh_key_index_def split: option.splits)
  have i: "fh_key_index f1 k = fh_key_index f k" using fh_lock_conf [OF x(1)] conf_key_index by blast
  from x(2) obtain ch r where c: "fh_chain f1 (fh_key_index f1 k) = Some ch"
    "fh_find_slot ch k (make_minihash (hash_function f1 k)) = Some r" "e = map_option (\<lambda>(j, i). ch ! j ! i) r"
    by (auto simp: fh_lookup_entry_def bind_Some_iff simp flip: fh_key_index_def)
  then have o: "ft_open f1 (WLookup k) = Some (RObj (map_option (\<lambda>(j, i). e_obj (ch ! j ! i)) r), r, 0, f1)"
    by simp
  note S = ft_solo_open [of f "WLookup k", OF _ o, of us del]
  show ?thesis
  proof (cases r)
    case None
    with c(3) x(3) have u: "fh_unlock f1 (fh_key_index f1 k) = Some f'" and rc: "rc \<noteq> FH_OK"
      by (simp_all add: i FH_OK_def FH_ELEMENT_NOT_FOUND_def)
    have "sys_solo fht_act () f1 (FtUnlock (WLookup k) (RObj None) 0) f' (FtDone (WLookup k) (RObj None))"
      by (rule ft_solo_refused) (use u in simp)
    with S x(1) None rc show ?thesis by simp
  next
    case (Some pos)
    with c(3) x(3) have v: "rc = FH_OK" "v = e_obj (ch ! fst pos ! snd pos)" "slot = Some (fh_key_index f k)" "f' = f1"
      by (auto simp: case_prod_beta')
    from ft_solo_enter [OF c(1), of pos 0 us del] S x(1) Some v
    have "sys_upto fht_act () f (FtOpen (WLookup k) us del) f' [FtHeld k pos us del] (FtKept k v)" by simp
    with v(3) show ?thesis unfolding if_P [OF v(1)] by blast
  qed
qed

lemma insert_locked_error:
  assumes "fh_insert_locked f k blk al idx mh = Some (Inl c, f')"
  shows "c \<noteq> FH_OK"
proof -
  from assms obtain ch where "fh_chain f idx = Some ch"
    by (cases "fh_chain f idx") (simp_all add: fh_insert_locked_def)
  from fh_insert_locked_chain [OF this] assms obtain ch' col where
    "ins_chain (dont_copy_key f) (h_datalen f) ch k blk al mh = Some (Inl c, ch', col)" by auto
  then have "c = FH_NO_MEMORY \<or> c = FH_DUPLICATED_ELEMENT"
    by (auto simp: ins_chain_def bind_Some_iff Let_def split: if_splits option.splits)
  then show ?thesis by (auto simp: FH_OK_def FH_NO_MEMORY_def FH_DUPLICATED_ELEMENT_def)
qed

lemma ft_solo_insertlock:
  fixes k :: cstr
  fixes blk :: "'a block"
  assumes ok: "\<not> fh_bad (Some f)" and call: "fh_insertlock (Some f) (Some k) blk True wa al = Some (rc, v, slot, adr, Some f')"
  shows "if rc = FH_OK
    then slot = Some (fh_key_index f k) \<and>
      (\<exists>pos. sys_upto fht_act () f (FtOpen (WInsert k blk al) us del) f' [FtHeld k pos us del] (FtKept k v) \<and>
        (adr \<noteq> None \<longrightarrow> adr = Some pos))
    else sys_solo fht_act () f (FtOpen (WInsert k blk al) us del) f' (FtDone (WInsert k blk al) (RCode rc))"
proof -
  let ?ins = "\<lambda>f1. fh_insert_locked f1 k blk al (fh_key_index f k) (make_minihash (hash_function f k))"
  have e: "fh_insertlock (Some f) (Some k) blk True wa al = do {
      f1 \<leftarrow> fh_lock f (fh_key_index f k);
      p \<leftarrow> ?ins f1;
      case fst p of
        Inl c \<Rightarrow> do { f3 \<leftarrow> fh_unlock (snd p) (fh_key_index f k); Some (c, None, None, None, Some f3) }
      | Inr pos \<Rightarrow> do { ch \<leftarrow> fh_chain (snd p) (fh_key_index f k);
          Some (FH_OK, e_obj (ch ! fst pos ! snd pos), Some (fh_key_index f k),
            if wa \<and> h_datalen (snd p) = FH_DATALEN_VOIDP then Some pos else None, Some (fh_inc_elem (snd p))) } }"
    unfolding fh_key_index_def using ok by (simp add: fh_insertlock_def Let_def case_prod_beta')
  from call [unfolded e] obtain f1 p where y: "fh_lock f (fh_key_index f k) = Some f1" "?ins f1 = Some p"
    by (auto simp: bind_Some_iff)
  obtain q f2 where p: "p = (q, f2)" by (cases p)
  have x: "fh_lock f (fh_key_index f k) = Some f1" "?ins f1 = Some (q, f2)"
    "case q of Inl c \<Rightarrow> rc = c \<and> fh_unlock f2 (fh_key_index f k) = Some f'
      | Inr pos \<Rightarrow> rc = FH_OK \<and> slot = Some (fh_key_index f k) \<and> f' = fh_inc_elem f2 \<and> (adr \<noteq> None \<longrightarrow> adr = Some pos) \<and>
          (\<exists>ch. fh_chain f2 (fh_key_index f k) = Some ch \<and> v = e_obj (ch ! fst pos ! snd pos))"
    using call [unfolded e] y p by (auto simp: bind_Some_iff split: sum.split if_splits)
  have i: "fh_key_index f1 k = fh_key_index f k" "hash_function f1 = hash_function f"
    using fh_lock_conf [OF x(1)] conf_key_index by blast+
  have o: "ft_open f1 (WInsert k blk al) = Some (case q of Inl c \<Rightarrow> (RCode c, None, 0, f2)
      | Inr pos \<Rightarrow> (RCode (fh_key_index f k), Some pos, 1, f2))" using x(2) by (simp add: i split: sum.split)
  have "fh_conf f2 = fh_conf f1" using ft_open_frame(1) [of f1 "WInsert k blk al"] o by (cases q) (simp_all del: ft_open.simps)
  then have i2: "fh_key_index f2 k = fh_key_index f k" using conf_key_index i(1) by metis
  show ?thesis
  proof (cases q)
    case (Inl c)
    from insert_locked_error [OF x(2) [unfolded Inl]] have neg: "c \<noteq> FH_OK" .
    have "fh_unlock f2 (fh_key_index f2 k) = Some f'" using x(3) Inl i2 by simp
    then have "sys_solo fht_act () f2 (FtUnlock (WInsert k blk al) (RCode c) 0) f' (FtDone (WInsert k blk al) (RCode c))"
      by (intro ft_solo_refused) simp
    with ft_solo_open [of f "WInsert k blk al" f1 "RCode c" None 0 f2 us del f'] x o Inl neg show ?thesis by (simp del: ft_open.simps)
  next
    case (Inr pos)
    with x(3) obtain ch where v: "rc = FH_OK" "slot = Some (fh_key_index f k)" "f' = fh_inc_elem f2" "adr \<noteq> None \<longrightarrow> adr = Some pos"
      "fh_chain f2 (fh_key_index f2 k) = Some ch" "v = e_obj (ch ! fst pos ! snd pos)" by (auto simp: i2)
    from ft_solo_enter [OF v(5), of pos 1 us del] v(3,6)
    have "sys_upto fht_act () f2 (FtEnter k pos 1 us del) f' [FtHeld k pos us del] (FtKept k v)" by simp
    with ft_solo_open [of f "WInsert k blk al" f1 "RCode (fh_key_index f k)" "Some pos" 1 f2 us del f'] x(1) o Inr
    have "sys_upto fht_act () f (FtOpen (WInsert k blk al) us del) f' [FtHeld k pos us del] (FtKept k v)"
      by (simp del: ft_open.simps)
    with v(2,4) show ?thesis unfolding if_P [OF v(1)] by blast
  qed
qed

lemma ft_solo_release:
  assumes ok: "\<not> fh_bad (Some f)" and call: "fh_releaselock (Some f) (fh_key_index f k) = Some (rc, Some f')"
  shows "sys_solo fht_act () f (FtRelease k) f' (FtLeft k)" and "sys_solo fht_act () f (FtHeld k pos [] False) f' (FtLeft k)"
  using assms by (auto intro!: ft_solo_end simp: fh_releaselock_def ft_release_def bind_Some_iff)

lemma ft_solo_dellocked:
  fixes k :: cstr
  assumes ok: "\<not> fh_bad (Some f)" and call: "fh_dellocked (Some f) (Some k) (fh_key_index f k) = Some (rc, Some f1)"
    and release: "fh_releaselock (Some f1) (fh_key_index f k) = Some (c, Some f2)"
  shows "sys_solo fht_act () f (FtHeld k pos [] True) f2 (FtLeft k)"
proof -
  from ok call obtain g where g: "fh_del_slot f k (fh_key_index f k) (make_minihash (hash_function f k)) = Some (rc, g)"
    "f1 = (if 0 \<le> rc then fh_dec_elem g else g)"
    by (auto simp: fh_dellocked_def bind_Some_iff)
  then have "ft_work f (WDelete k) = Some (RCode rc, if 0 \<le> rc then -1 else 0, g)" by simp
  from ft_work_frame(1) [OF this] have c: "fh_conf f1 = fh_conf f" by (simp add: g(2) fh_dec_elem_def fh_conf_def)
  from c ok have "\<not> fh_bad (Some f1)" by (simp add: fh_bad_def fh_conf_def)
  note R = ft_solo_release(1) [OF this release [folded conf_key_index [OF c]]]
  have d: "fht_act () f (FtHeld k pos [] True) =
      Some (g, [if 0 \<le> rc then FtDropped k else FtRelease k], FtEffect (WDelete k) (RCode rc))"
    using g(1) by (simp add: ft_dellocked_def)
  show ?thesis
  proof (cases "0 \<le> rc")
    case True
    then have "fht_act () g (FtDropped k) = Some (f1, [FtRelease k], FtSilent)" by (simp add: g(2))
    from ft_solo_step [OF d [simplified True if_True] ft_solo_step [OF this R]] show ?thesis .
  next
    case False
    from ft_solo_step [OF d [simplified False if_False]] R show ?thesis by (simp add: g(2) False)
  qed
qed

section \<open>Properties\<close>




text \<open>C7: A session has its key for itself: while a thread holds the lock that \<open>fh_searchlock\<close> or
  \<open>fh_insertlock\<close> has left it, its object is the one of its key, whatever the other threads do it
  stays where it is with the value it has, like all keys of the same lock, and a call of another
  thread for such a key waits.\<close>

theorem fh_session_exclusive:
  assumes "fh_ready f" and "\<forall>fr \<in> set (concat progs). call_ok (h_datalen f) fr"
    and "sys_run fht_act (fht_start f progs) as = Some s"
    and "t < length (todo s)" and "todo s ! t = FtHeld k pos us del # rest"
  shows "fh_map (shared s) k = Some (e_obj (entry_at (shared s) k pos)) \<and>
    (\<forall>bs s' k'. (\<forall>(u, x) \<in> set bs. u \<noteq> t) \<and> sys_run fht_act s bs = Some s' \<and>
        key_lock (shared s) k' = key_lock (shared s) k \<longrightarrow>
      todo s' ! t = todo s ! t \<and> fh_map (shared s') k' = fh_map (shared s) k' \<and>
      entry_at (shared s') k pos = entry_at (shared s) k pos \<and>
      (\<forall>u fr r. u < length (todo s') \<and> todo s' ! u = fr # r \<and> ft_takes fr = Some k' \<longrightarrow>
        sys_exec fht_act s' (u, ()) = None))"
proof -
  note inv = fht_run(1) [OF assms(1-3)]
  then have T: "fh_table_ok (shared s)" and l: "locks_ok ft_key (shared s) (frames s)" by (simp_all add: fht_ok_def)
  from inv top_in_frames [OF assms(4,5)] have "ft_here (shared s) (FtHeld k pos us del)" by (auto simp: fht_ok_def)
  then have "fh_map (shared s) k = Some (e_obj (entry_at (shared s) k pos))" using at_pos_map [OF T] by simp
  moreover have "todo s' ! t = todo s ! t \<and> fh_map (shared s') k' = fh_map (shared s) k' \<and>
      entry_at (shared s') k pos = entry_at (shared s) k pos \<and>
      (\<forall>u fr r. u < length (todo s') \<and> todo s' ! u = fr # r \<and> ft_takes fr = Some k' \<longrightarrow> sys_exec fht_act s' (u, ()) = None)"
    if "\<forall>(u, x) \<in> set bs. u \<noteq> t" "sys_run fht_act s bs = Some s'" "key_lock (shared s) k' = key_lock (shared s) k" for bs s' k'
    using session_excludes [OF inv assms(4,5) _ that] by simp
  ultimately show ?thesis by blast
qed

section \<open>Witnesses\<close>

text \<open>On a table of pointers with \<open>k1\<close>, one thread opens a session for \<open>k1\<close>, puts another pointer in
  its place and deletes it, while another thread inserts \<open>k2\<close> in a session of its own and looks \<open>k1\<close>
  up, for which it has to wait.\<close>

definition ex_progs :: "nat fht_frame list list" where
  "ex_progs = [[FtOpen (WLookup k1) [\<lambda>v. Some (OPtr 8)] True],
     [FtOpen (WInsert k2 (Some (9, [])) all_ok) [] False, FtLock (WLookup k1)]]"

definition ex_steps :: "nat list \<Rightarrow> (nat \<times> unit) list" where
  "ex_steps ts = map (\<lambda>t. (t, ())) ts"

lemma ex_progs_ok: "\<forall>fr \<in> set (concat ex_progs). call_ok (h_datalen ex_fh1) fr"
  by (simp add: ex_progs_def call_ok_def all_ok_def blk_obj_def fh_new_obj_def ex_fh1_fields
      FH_DATALEN_STRING_def FH_DATALEN_VOIDP_def)

definition ex_trace :: "nat fht_event list" where
  "ex_trace = [FtSilent, FtEffect (WLookup k1) (RObj (Some (Some (OPtr 7)))), FtKept k1 (Some (OPtr 7)),
     FtSilent, FtEffect (WInsert k2 (Some (9, [])) all_ok) (RCode 0), FtKept k2 (Some (OPtr 9)), FtLeft k2,
     FtWrite k1 (Some (OPtr 7)) (Some (OPtr 8)), FtEffect (WDelete k1) (RCode 1), FtSilent, FtLeft k1,
     FtSilent, FtEffect (WLookup k1) (RObj None), FtDone (WLookup k1) (RObj None)]"

lemma ex_ft_run:
  "\<exists>s. sys_run fht_act (fht_start ex_fh1 ex_progs) (ex_steps [0, 0, 0, 1, 1, 1, 1, 0, 0, 0, 0, 1, 1, 1]) = Some s \<and>
    trace s = ex_trace \<and> ended s \<and> h_elements (shared s) = 1"
proof -
  have "map_option (\<lambda>s. (trace s, map length (todo s), h_elements (shared s)))
      (sys_run fht_act (fht_start ex_fh1 ex_progs) (ex_steps [0, 0, 0, 1, 1, 1, 1, 0, 0, 0, 0, 1, 1, 1])) =
    Some (ex_trace, [0, 0], 1)"
    by code_simp
  then show ?thesis by (auto simp: ended_def map_eq_Cons_conv)
qed

text \<open>The first thread has its session, and the second one has had its own.\<close>

definition ex_session :: "nat fht_frame list \<Rightarrow> (cstr \<times> nat \<times> nat \<times> bool) option" where
  "ex_session fs = (case fs of [FtHeld k pos us del] \<Rightarrow> Some (k, fst pos, snd pos, del) | _ \<Rightarrow> None)"

lemma ex_ft_held:
  "\<exists>s us. sys_run fht_act (fht_start ex_fh1 ex_progs) (ex_steps [0, 0, 0]) = Some s \<and> length (todo s) = 2 \<and>
    todo s ! 0 = FtHeld k1 (0, 0) us True # [] \<and> key_lock (shared s) k1 = 1"
proof -
  have "map_option (\<lambda>s. (length (todo s), ex_session (todo s ! 0), key_lock (shared s) k1))
      (sys_run fht_act (fht_start ex_fh1 ex_progs) (ex_steps [0, 0, 0])) = Some (2, Some (k1, 0, 0, True), 1)"
    by code_simp
  then show ?thesis
    by (fastforce simp: ex_session_def prod_eq_iff split: list.splits fht_frame.splits)
qed

lemma ex_ft_waits:
  "\<exists>s' fr. sys_run fht_act (fht_start ex_fh1 ex_progs) (ex_steps [0, 0, 0] @ ex_steps [1, 1, 1, 1]) = Some s' \<and>
    length (todo s') = 2 \<and> todo s' ! 1 = [fr] \<and> ft_takes fr = Some k1"
proof -
  have "map_option (\<lambda>s. (length (todo s), length (todo s ! 1), ft_takes (hd (todo s ! 1))))
      (sys_run fht_act (fht_start ex_fh1 ex_progs) (ex_steps [0, 0, 0] @ ex_steps [1, 1, 1, 1])) = Some (2, 1, Some k1)"
    by code_simp
  then show ?thesis by (auto simp: length_Suc_conv)
qed



theorem fh_session_exclusive_witness:
  "\<exists>s s' v. sys_run fht_act (fht_start ex_fh1 ex_progs) (ex_steps [0, 0, 0]) = Some s \<and> fh_map (shared s) k1 = Some v \<and>
    sys_run fht_act s (ex_steps [1, 1, 1, 1]) = Some s' \<and> fh_map (shared s') k1 = Some v \<and>
    sys_exec fht_act s' (1, ()) = None"
proof -
  from ex_ft_held obtain s us where s: "sys_run fht_act (fht_start ex_fh1 ex_progs) (ex_steps [0, 0, 0]) = Some s"
    "length (todo s) = 2" "todo s ! 0 = FtHeld k1 (0, 0) us True # []" by blast
  from ex_ft_waits s(1) obtain s' fr where s': "sys_run fht_act s (ex_steps [1, 1, 1, 1]) = Some s'"
    "length (todo s') = 2" "todo s' ! 1 = [fr]" "ft_takes fr = Some k1" by (auto simp: sys_run_append)
  have "0 < length (todo s)" "\<forall>(u, x) \<in> set (ex_steps [1, 1, 1, 1]). u \<noteq> 0" by (simp_all add: s(2) ex_steps_def)
  with fh_session_exclusive [OF ex_fh1_ready ex_progs_ok s(1) _ s(3)] s s' show ?thesis by fastforce
qed


end
