(* ===== verification/FhAtomic.thy ===== *)
theory FhAtomic
  imports FhThreadsSpec
begin

text \<open>
  A client of the sessions: threads that change the object of one key with \<open>fh_searchlock\<close> and
  \<open>fh_releaselock\<close>, as a counter is incremented, do not lose each other's changes.
\<close>

section \<open>Changes that are still to come\<close>

fun ft_writes :: "cstr \<Rightarrow> 'p fht_frame \<Rightarrow> nat" where
  "ft_writes k (FtOpen w us del) = (if work_key w = k then length us else 0)"
| "ft_writes k (FtSearch w us del) = (if work_key w = k then length us else 0)"
| "ft_writes k (FtEnter k' pos d us del) = (if k' = k then length us else 0)"
| "ft_writes k (FtHeld k' pos us del) = (if k' = k then length us else 0)"
| "ft_writes k fr = 0"

text \<open>The key \<open>k\<close> is only looked up, and changed in sessions that apply \<open>g\<close> to its object; the other
  keys are used in any way.\<close>

fun ft_steady :: "cstr \<Rightarrow> ('p obj option \<Rightarrow> 'p obj option) \<Rightarrow> 'p fht_frame \<Rightarrow> bool" where
  "ft_steady k g (FtLock w) = (work_key w \<noteq> k \<or> w = WLookup k)"
| "ft_steady k g (FtWork w) = (work_key w \<noteq> k \<or> w = WLookup k)"
| "ft_steady k g (FtOpen w us del) = (work_key w \<noteq> k \<or> w = WLookup k \<and> us = [g] \<and> \<not> del)"
| "ft_steady k g (FtSearch w us del) = (work_key w \<noteq> k \<or> w = WLookup k \<and> us = [g] \<and> \<not> del)"
| "ft_steady k g (FtEnter k' pos d us del) = (k' \<noteq> k \<or> us = [g] \<and> \<not> del)"
| "ft_steady k g (FtHeld k' pos us del) = (k' \<noteq> k \<or> us \<in> {[], [g]} \<and> \<not> del)"
| "ft_steady k g fr = True"

lemma op_effect_other:
  "op_effect dl m w r = Some m' \<Longrightarrow> work_key w \<noteq> k \<or> w = WLookup k \<Longrightarrow> m' k = m k"
  by (cases w; cases r) (auto split: if_splits option.splits)

lemma delete_other: "op_effect dl m (WDelete k') (RCode rc) = Some m' \<Longrightarrow> k' \<noteq> k \<Longrightarrow> m' k = m k"
  by (auto split: if_splits)

text \<open>What a step does to the map is what its event says.\<close>

lemma fht_act_event:
  assumes "fht_ok f0 f (add_mset fr N) evs" and "fht_act a f fr = Some (f', new, ev)"
  shows "event_effect (h_datalen f0) (fh_map f) ev = Some (fh_map f')"
  using assms(1) fht_ok_step(1) [OF assms] by (simp add: fht_ok_def fht_replay_snoc)

text \<open>A step applies \<open>g\<close> once or leaves the object alone.\<close>

lemma steady_step:
  assumes inv: "fht_ok f0 f (add_mset fr N) evs" and st: "ft_steady k g fr" and k: "fh_map f k = Some u"
    and act: "fht_act a f fr = Some (f', new, ev)"
  shows "(\<forall>fr' \<in> set new. ft_steady k g fr') \<and>
    (fh_map f' k = Some u \<and> sum_list (map (ft_writes k) new) = ft_writes k fr \<or>
     fh_map f' k = Some (g u) \<and> Suc (sum_list (map (ft_writes k) new)) = ft_writes k fr)"
proof -
  note E = fht_act_event [OF inv act]
  show ?thesis
  proof (cases fr)
    case (FtWork w)
    with act E obtain r d where "new = [FtUnlock w r d]" "op_effect (h_datalen f0) (fh_map f) w r = Some (fh_map f')"
      by (auto simp: bind_Some_iff)
    with op_effect_other [OF this(2)] st k FtWork show ?thesis by auto
  next
    case (FtSearch w us del)
    with act E obtain r at d where o: "ft_open f w = Some (r, at, d, f')"
      "new = (case at of None \<Rightarrow> [FtUnlock w r 0] | Some pos \<Rightarrow> [FtEnter (work_key w) pos d us del])"
      "op_effect (h_datalen f0) (fh_map f) w r = Some (fh_map f')"
      by (auto simp: ft_search_def bind_Some_iff)
    have "at \<noteq> None" if "w = WLookup k"
      using o(1,3) that k by (auto simp: bind_Some_iff split: if_splits)
    with o(2) op_effect_other [OF o(3), of k] st k FtSearch show ?thesis by (auto split: option.splits)
  next
    case (FtHeld k' pos us del)
    show ?thesis
    proof (cases us)
      case Nil
      show ?thesis
      proof (cases del)
        case True
        with act FtHeld Nil st obtain rc where r: "ev = FtEffect (WDelete k') (RCode rc)" "k' \<noteq> k"
          "new = [if 0 \<le> rc then FtDropped k' else FtRelease k']"
          by (auto simp: ft_dellocked_def bind_Some_iff)
        with E delete_other [of "h_datalen f0" "fh_map f" k' rc "fh_map f'" k] k have "fh_map f' k = Some u" by simp
        with r(2,3) FtHeld show ?thesis by simp
      next
        case False
        with act FtHeld Nil st E k show ?thesis by (auto simp: ft_release_def bind_Some_iff)
      qed
    next
      case (Cons h hs)
      define v where "v = e_obj (entry_at f k' pos)"
      have e: "ev = FtWrite k' v (h v)" "new = [FtHeld k' pos hs del]"
        using act FtHeld Cons by (simp_all add: Let_def v_def)
      with E have "fh_map f' = (fh_map f)(k' \<mapsto> h v)" "fh_map f k' = Some v" by (simp_all split: if_splits)
      with e(2) FtHeld Cons st k show ?thesis by auto
    qed
  qed (use act E st k in \<open>auto simp: ft_lock_def ft_unlock_def ft_count_def ft_enter_def ft_release_def
      bind_Some_iff split: if_splits\<close>)
qed

definition steady_ok ::
  "'p fh \<Rightarrow> cstr \<Rightarrow> ('p obj option \<Rightarrow> 'p obj option) \<Rightarrow> 'p obj option \<Rightarrow> nat \<Rightarrow> 'p fh \<Rightarrow> 'p fht_frame multiset \<Rightarrow>
    'p fht_event list \<Rightarrow> bool" where
  "steady_ok f0 k g v n f M evs \<longleftrightarrow> fht_ok f0 f M evs \<and> (\<forall>fr \<in># M. ft_steady k g fr) \<and>
     (\<exists>d. d + (\<Sum>fr \<in># M. ft_writes k fr) = n \<and> fh_map f k = Some ((g ^^ d) v))"

lemma steady_ok_step:
  assumes ok: "steady_ok f0 k g v n f (add_mset fr M) evs" and act: "fht_act a f fr = Some (f', new, ev)"
  shows "steady_ok f0 k g v n f' (mset new + M) (evs @ [ev])" and "sum_list (map ft_cost new) < ft_cost fr"
proof -
  from ok obtain d where inv: "fht_ok f0 f (add_mset fr M) evs" and st: "\<forall>fr \<in># add_mset fr M. ft_steady k g fr"
    and d: "d + (ft_writes k fr + (\<Sum>fr \<in># M. ft_writes k fr)) = n" "fh_map f k = Some ((g ^^ d) v)"
    by (auto simp: steady_ok_def)
  have s: "(\<Sum>fr \<in># mset new. ft_writes k fr) = sum_list (map (ft_writes k) new)"
    by (simp add: sum_mset_sum_list flip: mset_map)
  have "ft_steady k g fr" using st by simp
  from steady_step [OF inv this d(2) act] have new: "\<forall>fr' \<in> set new. ft_steady k g fr'" and
    "fh_map f' k = Some ((g ^^ d) v) \<and> sum_list (map (ft_writes k) new) = ft_writes k fr \<or>
     fh_map f' k = Some ((g ^^ Suc d) v) \<and> Suc (sum_list (map (ft_writes k) new)) = ft_writes k fr" by simp_all
  then have "\<exists>d. d + (\<Sum>fr \<in># mset new + M. ft_writes k fr) = n \<and> fh_map f' k = Some ((g ^^ d) v)"
  proof (elim disjE conjE)
    assume "fh_map f' k = Some ((g ^^ d) v)" "sum_list (map (ft_writes k) new) = ft_writes k fr"
    with d(1) s show ?thesis by (intro exI [of _ d]) simp
  next
    assume "fh_map f' k = Some ((g ^^ Suc d) v)" "Suc (sum_list (map (ft_writes k) new)) = ft_writes k fr"
    with d(1) s show ?thesis by (intro exI [of _ "Suc d"]) simp
  qed
  with fht_ok_step(1) [OF inv act] st new show "steady_ok f0 k g v n f' (mset new + M) (evs @ [ev])"
    by (auto simp: steady_ok_def)
  show "sum_list (map ft_cost new) < ft_cost fr" by (rule fht_ok_step(2) [OF inv act])
qed

interpretation steady: bounded_threads fht_act "steady_ok f0 k g v n" "\<lambda>f. 0" ft_cost for f0 k g v n
proof unfold_locales
qed (use steady_ok_step in \<open>auto simp del: fht_act.simps\<close>)

section \<open>Property\<close>


section \<open>Witness\<close>

text \<open>Two threads change the object of \<open>k1\<close>, the second one after it has inserted \<open>k2\<close>.\<close>

definition next_ptr :: "nat obj option \<Rightarrow> nat obj option" where
  "next_ptr v = (case v of Some (OPtr n) \<Rightarrow> Some (OPtr (Suc n)) | _ \<Rightarrow> v)"

definition ex_clients :: "nat fht_frame list list" where
  "ex_clients = [[FtOpen (WLookup k1) [next_ptr] False],
     [FtLock (WInsert k2 (Some (9, [])) all_ok), FtOpen (WLookup k1) [next_ptr] False]]"

lemma ex_clients_ok: "\<forall>fr \<in> set (concat ex_clients). call_ok (h_datalen ex_fh1) fr \<and> ft_steady k1 next_ptr fr"
  by (simp add: ex_clients_def call_ok_def all_ok_def blk_obj_def fh_new_obj_def ex_fh1_fields
      FH_DATALEN_STRING_def FH_DATALEN_VOIDP_def k1_def k2_def)

lemma ex_clients_run:
  "\<exists>s. sys_run fht_act (fht_start ex_fh1 ex_clients) (ex_steps [0, 1, 0, 1, 0, 1, 0, 1, 0, 1, 1, 1, 1, 1]) = Some s \<and> ended s"
proof -
  have "map_option (\<lambda>s. map length (todo s))
      (sys_run fht_act (fht_start ex_fh1 ex_clients) (ex_steps [0, 1, 0, 1, 0, 1, 0, 1, 0, 1, 1, 1, 1, 1])) = Some [0, 0]"
    by code_simp
  then show ?thesis by (auto simp: ended_def map_eq_Cons_conv)
qed


end
