(* ===== verification/Ll.thy ===== *)
theory Ll
  imports Prelude
begin

text \<open>
  The list of liblru/ll.c: slots of one array, each in the free list, in the list proper (from
  \<open>ll_last\<close>, the least recently used slot, along \<open>s_next\<close> to \<open>ll_top\<close>), or dangling, that is,
  in the hands of the caller.

  A slot is its index in the array \<open>save\<close>, and the payload block that belongs to it for good is
  modelled by its contents \<open>s_payload\<close>, so that the slot stands for the pointer to its payload
  as well. Following a pointer outside the array has no defined result. The mutex is a flag:
  taking it while it is held never returns.
\<close>

section \<open>Data\<close>

definition LL_MAGIC_ID :: int where "LL_MAGIC_ID = 61642"
definition LL_OK :: int where "LL_OK = 1"
definition LL_ERROR_LAST_SLOT_INCONSISTENCY :: int where "LL_ERROR_LAST_SLOT_INCONSISTENCY = -10"
definition LL_ERROR_TOP_SLOT_INCONSISTENCY :: int where "LL_ERROR_TOP_SLOT_INCONSISTENCY = -20"
definition LL_ERROR_INDEX_OUT_OF_RANGE :: int where "LL_ERROR_INDEX_OUT_OF_RANGE = -30"
definition LL_BAD_LL :: int where "LL_BAD_LL = -40"
definition LL_SLOT_IN_FREELIST :: int where "LL_SLOT_IN_FREELIST = 254"
definition LL_SLOT_DANGLING :: int where "LL_SLOT_DANGLING = 253"

record 'a ll_slot =
  s_next :: "nat option"
  s_prev :: "nat option"
  s_payload :: 'a
  s_status :: int

record 'a ll =
  ll_magic :: int
  ll_size :: int
  ll_top :: "nat option"
  ll_last :: "nat option"
  freelist :: "nat option"
  ll_slots :: "nat \<Rightarrow> 'a ll_slot"
  ll_locked :: bool

definition ll_lock :: "'a ll \<Rightarrow> 'a ll option" where
  "ll_lock l = (if ll_locked l then None else Some (l\<lparr>ll_locked := True\<rparr>))"

definition ll_unlock :: "'a ll \<Rightarrow> 'a ll" where
  "ll_unlock l = l\<lparr>ll_locked := False\<rparr>"

definition ll_deref :: "'a ll \<Rightarrow> nat option \<Rightarrow> nat option" where
  "ll_deref l p = do { i \<leftarrow> p; if int i < ll_size l then Some i else None }"

definition set_next :: "'a ll \<Rightarrow> nat \<Rightarrow> nat option \<Rightarrow> 'a ll" where
  "set_next l i p = l\<lparr>ll_slots := (ll_slots l)(i := (ll_slots l i)\<lparr>s_next := p\<rparr>)\<rparr>"

definition set_prev :: "'a ll \<Rightarrow> nat \<Rightarrow> nat option \<Rightarrow> 'a ll" where
  "set_prev l i p = l\<lparr>ll_slots := (ll_slots l)(i := (ll_slots l i)\<lparr>s_prev := p\<rparr>)\<rparr>"

definition set_status :: "'a ll \<Rightarrow> nat \<Rightarrow> int \<Rightarrow> 'a ll" where
  "set_status l i s = l\<lparr>ll_slots := (ll_slots l)(i := (ll_slots l i)\<lparr>s_status := s\<rparr>)\<rparr>"

definition set_payload :: "'a ll \<Rightarrow> nat \<Rightarrow> 'a \<Rightarrow> 'a ll" where
  "set_payload l i x = l\<lparr>ll_slots := (ll_slots l)(i := (ll_slots l i)\<lparr>s_payload := x\<rparr>)\<rparr>"

section \<open>Creation and destruction\<close>

text \<open>The loop of \<open>ll_create\<close> from slot \<open>i\<close> on: the slots, or the slot whose payload cannot be
  allocated (\<open>ok\<close> says which can).\<close>

function ll_fill :: "nat \<Rightarrow> (nat \<Rightarrow> bool) \<Rightarrow> nat \<Rightarrow> (nat \<Rightarrow> 'a ll_slot) \<Rightarrow> nat + (nat \<Rightarrow> 'a ll_slot)" where
  "ll_fill dim ok i s =
     (if i < dim then
        (if ok i then
           ll_fill dim ok (Suc i)
             (s(i := (s i)\<lparr>s_next := (if Suc i = dim then None else Some (Suc i)),
                           s_status := LL_SLOT_IN_FREELIST\<rparr>))
         else Inl i)
      else Inr s)"
  by auto

termination
  by (relation "measure (\<lambda>(dim, ok, i, s). dim - i)") auto

declare ll_fill.simps [simp del]

text \<open>
  \<open>ll_create dim hok sok pok init\<close>: \<open>hok\<close>, \<open>sok\<close>, \<open>pok\<close> are the outcomes of the allocations of the
  handle, the slots (which fails for a negative \<open>dim\<close>, read as a size close to 2^64) and the
  payloads, and \<open>init i\<close> is what the payload of slot \<open>i\<close> happens to hold. The result is the handle,
  or \<open>None\<close> and the number of blocks that are left allocated.
\<close>

definition ll_create ::
  "int \<Rightarrow> bool \<Rightarrow> bool \<Rightarrow> (nat \<Rightarrow> bool) \<Rightarrow> (nat \<Rightarrow> 'a) \<Rightarrow> 'a ll option \<times> nat" where
  "ll_create dim hok sok pok init =
     (if \<not> hok then (None, 0)
      else if \<not> (sok \<and> 0 \<le> dim) then (None, 0)
      else
        (case ll_fill (nat dim) pok 0
                (\<lambda>i. \<lparr>s_next = None, s_prev = None, s_payload = init i, s_status = 0\<rparr>) of
           Inl i \<Rightarrow> (None, Suc i)
         | Inr s \<Rightarrow>
             (Some \<lparr>ll_magic = LL_MAGIC_ID, ll_size = dim, ll_top = None, ll_last = None,
                    freelist = Some 0, ll_slots = s, ll_locked = False\<rparr>, 0)))"

text \<open>The mutex that is destroyed must not be held; the handle and every block are freed.\<close>

definition ll_destroy :: "'a ll option \<Rightarrow> (int \<times> 'a ll option) option" where
  "ll_destroy ll =
     (case ll of
        None \<Rightarrow> Some (LL_BAD_LL, None)
      | Some l \<Rightarrow> if ll_locked l then None else Some (LL_OK, None))"

section \<open>The free list\<close>

definition ll_slot_new :: "'a ll option \<Rightarrow> (nat option \<times> 'a ll option) option" where
  "ll_slot_new ll =
     (case ll of
        None \<Rightarrow> Some (None, None)
      | Some l \<Rightarrow>
          do { l1 \<leftarrow> ll_lock l;
               if freelist l1 = None then Some (None, Some (ll_unlock l1))
               else
                 do { r \<leftarrow> ll_deref l1 (freelist l1);
                      let l2 = l1\<lparr>freelist := s_next (ll_slots l1 r)\<rparr>;
                          l3 = set_status (set_prev (set_next l2 r None) r None) r LL_SLOT_DANGLING
                      in Some (Some r, Some (ll_unlock l3)) } })"

definition ll_slot_free :: "'a ll option \<Rightarrow> nat option \<Rightarrow> 'a ll option option" where
  "ll_slot_free ll slot =
     (case ll of
        None \<Rightarrow> Some None
      | Some l \<Rightarrow>
          do { l1 \<leftarrow> ll_lock l;
               i \<leftarrow> ll_deref l1 slot;
               let l2 = set_status (set_next (l1\<lparr>freelist := Some i\<rparr>) i (freelist l1)) i LL_SLOT_IN_FREELIST
               in Some (Some (ll_unlock l2)) })"

section \<open>The list\<close>

text \<open>The slot is handed back with its \<open>s_next\<close> still set.\<close>

definition ll_remove_last :: "'a ll option \<Rightarrow> (nat option \<times> 'a ll option) option" where
  "ll_remove_last ll =
     (case ll of
        None \<Rightarrow> Some (None, None)
      | Some l \<Rightarrow>
          do { l1 \<leftarrow> ll_lock l;
               if ll_last l1 = None then Some (None, Some (ll_unlock l1))
               else
                 do { oldlast \<leftarrow> ll_deref l1 (ll_last l1);
                      let l2 = l1\<lparr>ll_last := s_next (ll_slots l1 oldlast)\<rparr> in
                      do { l3 \<leftarrow> (if ll_last l2 \<noteq> None
                                 then do { n \<leftarrow> ll_deref l2 (ll_last l2); Some (set_prev l2 n None) }
                                 else Some (l2\<lparr>ll_top := None\<rparr>));
                           Some (Some oldlast, Some (ll_unlock (set_status l3 oldlast LL_SLOT_DANGLING))) } } })"

text \<open>What the branches of \<open>ll_slot_add_to_top\<close> and \<open>ll_slot_move_to_top\<close> share: the old top, if
  there is one, and the slot point to each other.\<close>

definition ll_attach :: "'a ll \<Rightarrow> nat \<Rightarrow> nat option \<Rightarrow> 'a ll option" where
  "ll_attach l i oldtop =
     (if oldtop \<noteq> None
      then do { t \<leftarrow> ll_deref l oldtop; Some (set_prev (set_next l t (Some i)) i oldtop) }
      else Some l)"

definition ll_slot_add_to_top :: "'a ll option \<Rightarrow> nat option \<Rightarrow> 'a ll option option" where
  "ll_slot_add_to_top ll slot =
     (case ll of
        None \<Rightarrow> Some None
      | Some l \<Rightarrow>
          do { l1 \<leftarrow> ll_lock l;
               i \<leftarrow> ll_deref l1 slot;
               if s_status (ll_slots l1 i) \<noteq> LL_SLOT_DANGLING then Some (Some (ll_unlock l1))
               else
                 do { l2 \<leftarrow> ll_attach ((set_status l1 i 0)\<lparr>ll_top := Some i\<rparr>) i (ll_top l1);
                      Some (Some (ll_unlock
                        (if ll_last l2 = None then l2\<lparr>ll_last := Some i\<rparr> else l2))) } })"

text \<open>The body of \<open>ll_slot_move_to_top\<close> with the mutex held.\<close>

definition ll_raise :: "'a ll \<Rightarrow> nat \<Rightarrow> 'a ll option" where
  "ll_raise l i =
     (let sl = ll_slots l i; oldtop = ll_top l in
      if s_status sl = LL_SLOT_IN_FREELIST \<or> s_status sl = LL_SLOT_DANGLING then Some l
      else if ll_top l = Some i then Some l
      else if s_prev sl = None \<and> s_next sl = None then
        do { l1 \<leftarrow> ll_attach (l\<lparr>ll_top := Some i\<rparr>) i oldtop;
             Some (if ll_last l1 = None then l1\<lparr>ll_last := Some i\<rparr> else l1) }
      else if s_next sl \<noteq> None \<and> s_prev sl \<noteq> None then
        do { p \<leftarrow> ll_deref l (s_prev sl);
             let l1 = set_next l p (s_next (ll_slots l i)) in
             do { n \<leftarrow> ll_deref l1 (s_next (ll_slots l1 i));
                  let l2 = set_prev l1 n (s_prev (ll_slots l1 i)) in
                  ll_attach (set_next (l2\<lparr>ll_top := Some i\<rparr>) i None) i oldtop } }
      else if s_prev sl = None then
        do { n \<leftarrow> ll_deref l (s_next sl);
             let l1 = set_prev l n None;
                 l2 = l1\<lparr>ll_last := s_next (ll_slots l1 i), ll_top := Some i\<rparr>
             in ll_attach (set_next l2 i None) i oldtop }
      else Some l)"

definition ll_slot_move_to_top :: "'a ll option \<Rightarrow> nat option \<Rightarrow> 'a ll option option" where
  "ll_slot_move_to_top ll slot =
     (case ll of
        None \<Rightarrow> Some None
      | Some l \<Rightarrow>
          do { l1 \<leftarrow> ll_lock l;
               i \<leftarrow> ll_deref l1 slot;
               l2 \<leftarrow> ll_raise l1 i;
               Some (Some (ll_unlock l2)) })"

section \<open>Inspection\<close>

text \<open>\<open>ll_get_payload\<close> takes no lock; it walks \<open>n\<close> steps down from the top.\<close>

fun ll_walk :: "'a ll \<Rightarrow> nat option \<Rightarrow> nat \<Rightarrow> nat option option" where
  "ll_walk l p 0 = Some p"
| "ll_walk l None (Suc n) = Some None"
| "ll_walk l (Some i) (Suc n) =
     do { j \<leftarrow> ll_deref l (Some i); ll_walk l (s_prev (ll_slots l j)) n }"

definition ll_get_payload :: "'a ll \<Rightarrow> int \<Rightarrow> (int \<times> nat option) option" where
  "ll_get_payload l idx =
     do { a \<leftarrow> ll_deref l (ll_last l);
          if s_prev (ll_slots l a) \<noteq> None then Some (LL_ERROR_LAST_SLOT_INCONSISTENCY, None)
          else
            do { t \<leftarrow> ll_deref l (ll_top l);
                 if s_next (ll_slots l t) \<noteq> None then Some (LL_ERROR_TOP_SLOT_INCONSISTENCY, None)
                 else
                   do { p \<leftarrow> ll_walk l (ll_top l) (nat idx);
                        if p = None then Some (LL_ERROR_INDEX_OUT_OF_RANGE, None)
                        else do { i \<leftarrow> ll_deref l p; Some (LL_OK, Some i) } } } }"

text \<open>The slots that \<open>ll_print\<close> prints, from the last one up: at most 51, \<open>n\<close> being what is left
  of them.\<close>

fun ll_print_loop :: "'a ll \<Rightarrow> nat option \<Rightarrow> nat \<Rightarrow> nat list option" where
  "ll_print_loop l p 0 = Some []"
| "ll_print_loop l None (Suc n) = Some []"
| "ll_print_loop l (Some i) (Suc n) =
     do { j \<leftarrow> ll_deref l (Some i);
          js \<leftarrow> ll_print_loop l (s_next (ll_slots l j)) n;
          Some (j # js) }"

definition ll_print :: "'a ll \<Rightarrow> nat list option" where
  "ll_print l = ll_print_loop l (ll_last l) 51"

end
