(* ===== verification/Lru.thy ===== *)
theory Lru
  imports Ll FhEnum
begin

text \<open>
  The LRU cache of liblru/lru.c: a hash table of pointers (libfh) from keys to the payload
  blocks of the slots of a list (liblru/ll.c), the list being kept in the order of use.

  The table runs with \<open>FH_SETATTR_DONTCOPYKEY\<close>: the only copy of a key is the one that the
  payload block of its slot points to. \<open>key_ptr\<close> says what such a pointer points to: it is
  null, or dangling after a free, or points to a string. The field \<open>attr\<close> of the cache, which
  no operation reads or writes, is left out.
\<close>

section \<open>Data\<close>

definition LRU_MAGIC_ID :: int where "LRU_MAGIC_ID = 789706"
definition LRU_OK :: int where "LRU_OK = 1"
definition LRU_BAD_HANDLE :: int where "LRU_BAD_HANDLE = -1"
definition LRU_ELEMENT_NOT_FOUND :: int where "LRU_ELEMENT_NOT_FOUND = -2000"
definition LRU_DUPLICATED_ELEMENT :: int where "LRU_DUPLICATED_ELEMENT = -3000"
definition LRU_NO_MEMORY :: int where "LRU_NO_MEMORY = -4000"

lemmas lru_code_defs [codes] =
  LRU_OK_def LRU_BAD_HANDLE_def LRU_ELEMENT_NOT_FOUND_def LRU_DUPLICATED_ELEMENT_def LRU_NO_MEMORY_def

datatype key_ptr = KNull | KFreed | KStr cstr

record 'v lru_payload =
  lp_payload :: 'v
  lp_slot :: nat
  lp_key :: key_ptr

record 'v lru =
  lru_magic :: int
  lru_size :: int
  lru_fh :: "nat fh"
  lru_ll :: "'v lru_payload ll"

definition lru_bad :: "'v lru option \<Rightarrow> bool" where
  "lru_bad lru = (case lru of None \<Rightarrow> True | Some l \<Rightarrow> lru_magic l \<noteq> LRU_MAGIC_ID)"

section \<open>Creation\<close>

text \<open>
  What \<open>lru_create\<close> needs of the allocator: the outcomes for its handle, for the table of
  \<open>fh_create\<close> and for \<open>ll_create\<close>, and what the new payload blocks hold. When it fails it
  returns null and loses what it has made so far: its handle, the table, blocks of the list.
\<close>

record 'v lru_allocs =
  al_handle :: bool
  al_table :: bool
  al_fh :: bool
  al_locks :: bool
  al_ll :: bool
  al_slots :: bool
  al_payload :: "nat \<Rightarrow> bool"
  al_garbage :: "nat \<Rightarrow> 'v lru_payload"

datatype lru_lost = LostHandle | LostTable | LostBlocks nat

definition lru_create ::
  "(cstr \<Rightarrow> u64) \<Rightarrow> int \<Rightarrow> 'v lru_allocs \<Rightarrow> ('v lru option \<times> lru_lost list) option" where
  "lru_create wy dim al =
     (if dim \<le> 0 then Some (None, [])
      else if \<not> al_handle al then Some (None, [])
      else
        do { fh \<leftarrow> fh_create wy dim FH_DATALEN_VOIDP None (al_table al) (al_fh al) (al_locks al);
             if fh = None then Some (None, [LostHandle])
             else
               do { (rc, fh1) \<leftarrow> fh_setattr fh FH_SETATTR_DONTCOPYKEY 0 True;
                    f1 \<leftarrow> fh1;
                    case ll_create dim (al_ll al) (al_slots al) (al_payload al) (al_garbage al) of
                      (None, n) \<Rightarrow> Some (None, [LostHandle, LostTable, LostBlocks n])
                    | (Some l, n) \<Rightarrow>
                        Some (Some \<lparr>lru_magic = LRU_MAGIC_ID, lru_size = dim, lru_fh = f1, lru_ll = l\<rparr>, []) } })"

section \<open>Eviction\<close>

text \<open>\<open>fh_del\<close> by the key of a payload block, and \<open>free\<close> of that key; both are undefined on a
  key that has been freed.\<close>

definition lru_fh_del :: "'v lru \<Rightarrow> key_ptr \<Rightarrow> (int \<times> 'v lru) option" where
  "lru_fh_del lru kp =
     do { k \<leftarrow> (case kp of KNull \<Rightarrow> Some None | KFreed \<Rightarrow> None | KStr s \<Rightarrow> Some (Some s));
          (rc, fh1) \<leftarrow> fh_del (Some (lru_fh lru)) k;
          f1 \<leftarrow> fh1;
          Some (rc, lru\<lparr>lru_fh := f1\<rparr>) }"

definition lru_free_key :: "'v lru_payload ll \<Rightarrow> nat \<Rightarrow> 'v lru_payload ll option" where
  "lru_free_key l i =
     (let p = s_payload (ll_slots l i) in
      if lp_key p = KFreed then None else Some (set_payload l i (p\<lparr>lp_key := KFreed\<rparr>)))"

text \<open>The key of the slot is freed and the slot goes back to the free list.\<close>

definition lru_drop :: "'v lru \<Rightarrow> nat \<Rightarrow> 'v lru option" where
  "lru_drop lru i =
     do { l1 \<leftarrow> lru_free_key (lru_ll lru) i;
          ll2 \<leftarrow> ll_slot_free (Some l1) (Some i);
          l2 \<leftarrow> ll2;
          Some (lru\<lparr>lru_ll := l2\<rparr>) }"

text \<open>The loop at the start of \<open>lru_add\<close>: a free slot, after evictions of the least recently used
  entry; a failure to delete its key from the table is reported on the terminal only.\<close>

partial_function (option) lru_take_slot :: "'v lru \<Rightarrow> (nat option \<times> 'v lru) option" where
  "lru_take_slot lru =
     do { (slot, ll1) \<leftarrow> ll_slot_new (Some (lru_ll lru));
          l1 \<leftarrow> ll1;
          case slot of
            Some i \<Rightarrow> Some (Some i, lru\<lparr>lru_ll := l1\<rparr>)
          | None \<Rightarrow>
              do { (r, ll2) \<leftarrow> ll_remove_last (Some l1);
                   l2 \<leftarrow> ll2;
                   case r of
                     None \<Rightarrow> Some (None, lru\<lparr>lru_ll := l2\<rparr>)
                   | Some j \<Rightarrow>
                       do { (rc, lru1) \<leftarrow> lru_fh_del (lru\<lparr>lru_ll := l2\<rparr>) (lp_key (s_payload (ll_slots l2 j)));
                            lru2 \<leftarrow> lru_drop lru1 j;
                            lru_take_slot lru2 } } }"

section \<open>Operations\<close>

text \<open>\<open>kok\<close> is the outcome of the allocation of the copy of the key, \<open>al\<close> those of \<open>fh_insert\<close>.
  \<open>fh_insert\<close> returns an index when it succeeds, so that its result hardly ever is \<open>LRU_OK\<close>;
  any result but the two errors tested for counts as success.\<close>

definition lru_add ::
  "'v lru option \<Rightarrow> cstr option \<Rightarrow> 'v \<Rightarrow> bool \<Rightarrow> fh_allocs \<Rightarrow> (int \<times> 'v lru option) option" where
  "lru_add lru key v kok al =
     (if lru_bad lru then Some (LRU_BAD_HANDLE, lru)
      else
        do { c \<leftarrow> lru;
             (slot, c1) \<leftarrow> lru_take_slot c;
             case slot of
               None \<Rightarrow> Some (LRU_NO_MEMORY, Some c1)
             | Some i \<Rightarrow>
                 (let new = (s_payload (ll_slots (lru_ll c1) i))\<lparr>lp_payload := v, lp_slot := i\<rparr> in
                  do { k \<leftarrow> key;
                       if \<not> kok then
                         do { ll2 \<leftarrow> ll_slot_free (Some (set_payload (lru_ll c1) i (new\<lparr>lp_key := KNull\<rparr>))) (Some i);
                              l2 \<leftarrow> ll2;
                              Some (LRU_NO_MEMORY, Some (c1\<lparr>lru_ll := l2\<rparr>)) }
                       else
                         do { (rc, fh2) \<leftarrow> fh_insert (Some (lru_fh c1)) (Some k) (Some (i, [])) al;
                              f2 \<leftarrow> fh2;
                              let c2 = c1\<lparr>lru_fh := f2, lru_ll := set_payload (lru_ll c1) i (new\<lparr>lp_key := KStr k\<rparr>)\<rparr> in
                              if rc \<noteq> LRU_OK \<and> rc = FH_DUPLICATED_ELEMENT
                              then do { c3 \<leftarrow> lru_drop c2 i; Some (LRU_DUPLICATED_ELEMENT, Some c3) }
                              else if rc \<noteq> LRU_OK \<and> rc = FH_NO_MEMORY
                              then do { c3 \<leftarrow> lru_drop c2 i; Some (LRU_NO_MEMORY, Some c3) }
                              else
                                do { ll3 \<leftarrow> ll_slot_add_to_top (Some (lru_ll c2)) (Some i);
                                     l3 \<leftarrow> ll3;
                                     Some (LRU_OK, Some (c2\<lparr>lru_ll := l3\<rparr>)) } } }) })"

text \<open>The payload found; the slot is moved to the top while the lock of the key is held.\<close>

definition lru_check :: "'v lru option \<Rightarrow> cstr option \<Rightarrow> (int \<times> 'v option \<times> 'v lru option) option" where
  "lru_check lru key =
     (if lru_bad lru then Some (LRU_BAD_HANDLE, None, lru)
      else
        do { c \<leftarrow> lru;
             (rc, obj, slot, fh1) \<leftarrow> fh_searchlock (Some (lru_fh c)) key;
             f1 \<leftarrow> fh1;
             case obj of
               None \<Rightarrow> Some (LRU_ELEMENT_NOT_FOUND, None, Some (c\<lparr>lru_fh := f1\<rparr>))
             | Some (OMem bs) \<Rightarrow> None
             | Some (OPtr i) \<Rightarrow>
                 (let p = s_payload (ll_slots (lru_ll c) i) in
                  do { ll2 \<leftarrow> ll_slot_move_to_top (Some (lru_ll c)) (Some (lp_slot p));
                       l2 \<leftarrow> ll2;
                       s \<leftarrow> slot;
                       (rc2, fh3) \<leftarrow> fh_releaselock (Some f1) s;
                       f3 \<leftarrow> fh3;
                       Some (LRU_OK, Some (lp_payload p), Some (c\<lparr>lru_fh := f3, lru_ll := l2\<rparr>)) }) })"

text \<open>The loop of \<open>lru_clear\<close>.\<close>

partial_function (option) lru_clear_loop :: "'v lru \<Rightarrow> (int \<times> 'v lru) option" where
  "lru_clear_loop c =
     do { (r, ll1) \<leftarrow> ll_remove_last (Some (lru_ll c));
          l1 \<leftarrow> ll1;
          case r of
            None \<Rightarrow> Some (LRU_OK, c\<lparr>lru_ll := l1\<rparr>)
          | Some j \<Rightarrow>
              do { (rc, c1) \<leftarrow> lru_fh_del (c\<lparr>lru_ll := l1\<rparr>) (lp_key (s_payload (ll_slots l1 j)));
                   if rc < 0 then Some (LRU_ELEMENT_NOT_FOUND, c1)
                   else do { c2 \<leftarrow> lru_drop c1 j; lru_clear_loop c2 } } }"

definition lru_clear :: "'v lru option \<Rightarrow> (int \<times> 'v lru option) option" where
  "lru_clear lru =
     (if lru_bad lru then Some (LRU_BAD_HANDLE, lru)
      else do { c \<leftarrow> lru; (rc, c1) \<leftarrow> lru_clear_loop c; Some (rc, Some c1) })"

text \<open>\<open>lru_destroy\<close> also returns the entries of the table that \<open>fh_destroy\<close> loses, given the
  outcomes of the allocations of its enumerator.\<close>

definition lru_destroy ::
  "'v lru option \<Rightarrow> bool \<Rightarrow> bool \<Rightarrow> (int \<times> nat fh_elem list \<times> 'v lru option) option" where
  "lru_destroy lru eok lok =
     (if lru_bad lru then Some (LRU_BAD_HANDLE, [], lru)
      else
        do { (rc, lru1) \<leftarrow> lru_clear lru;
             c1 \<leftarrow> lru1;
             (rc2, l2) \<leftarrow> ll_destroy (Some (lru_ll c1));
             (rc3, lost, f3) \<leftarrow> fh_destroy (Some (lru_fh c1)) eok lok;
             Some (1, lost, None) })"

section \<open>Inspection\<close>

definition lru_print :: "'v lru option \<Rightarrow> (int \<times> nat list) option" where
  "lru_print lru =
     (if lru_bad lru then Some (LRU_BAD_HANDLE, [])
      else do { c \<leftarrow> lru; is \<leftarrow> ll_print (lru_ll c); Some (0, is) })"

definition lru_get_ll_data :: "'v lru option \<Rightarrow> int \<Rightarrow> (int \<times> 'v lru_payload option) option" where
  "lru_get_ll_data lru idx =
     (if lru_bad lru then Some (LRU_BAD_HANDLE, None)
      else
        do { c \<leftarrow> lru;
             (err, r) \<leftarrow> ll_get_payload (lru_ll c) idx;
             if err \<noteq> LL_OK then Some (err, None)
             else do { i \<leftarrow> r; Some (LRU_OK, Some (s_payload (ll_slots (lru_ll c) i))) } })"

partial_function (option) lru_position_loop :: "'v lru \<Rightarrow> cstr \<Rightarrow> int \<Rightarrow> int option" where
  "lru_position_loop c key idx =
     do { (err, r) \<leftarrow> ll_get_payload (lru_ll c) idx;
          if err = LL_OK then
            do { i \<leftarrow> r;
                 k \<leftarrow> (case lp_key (s_payload (ll_slots (lru_ll c) i)) of KStr s \<Rightarrow> Some s | _ \<Rightarrow> None);
                 if strcmp key k = 0 then Some idx else lru_position_loop c key (idx + 1) }
          else Some (-1) }"

definition lru_get_ll_key_position :: "'v lru option \<Rightarrow> cstr \<Rightarrow> int option" where
  "lru_get_ll_key_position lru key =
     (if lru_bad lru then Some LRU_BAD_HANDLE
      else do { c \<leftarrow> lru; lru_position_loop c key 0 })"

end
