(* ===== verification/LruThreads.thy ===== *)
theory LruThreads
  imports Lru Threads
begin

text \<open>
  The cache of liblru/lru.c used by several threads. A step is a call of the list or of the hash
  table, each of which works under a lock of its own, together with what the thread does to the
  slot in its hands; between the steps of one thread the others run. \<open>lru_check\<close> keeps the lock of
  its key from \<open>fh_searchlock\<close> to \<open>fh_releaselock\<close>: a call of the table that needs this lock has no
  result in the meantime, and its thread waits.

  A frame is the point that a thread has come to: in \<open>lru_add\<close> before \<open>ll_slot_new\<close>; before
  \<open>ll_remove_last\<close>; before \<open>fh_del\<close> and after it, with the slot taken from the list; with a free
  slot; before \<open>fh_insert\<close>; before \<open>ll_slot_free\<close> on an error; before \<open>ll_slot_add_to_top\<close>; in
  \<open>lru_check\<close> before \<open>fh_searchlock\<close>; before the payload block is read; before
  \<open>ll_slot_move_to_top\<close> and \<open>fh_releaselock\<close>, with the payload to return; in \<open>lru_clear\<close> before
  \<open>ll_remove_last\<close>, before \<open>fh_del\<close> and after it.
\<close>

datatype 'v lru_frame =
    NewSlot cstr 'v | TakeLast cstr 'v | DelOld cstr 'v nat | FreeOld cstr 'v nat
  | FillNew cstr 'v nat | InsertNew cstr 'v nat | DropNew nat int | TopNew nat
  | Search cstr | ReadHit cstr nat int | MoveTop cstr 'v nat int | Release cstr 'v int
  | TakeAll | DelAll nat | FreeAll nat

text \<open>What a step does to the entries, finds out about them, or returns.\<close>

datatype 'v lru_event =
    Silent | Inserted cstr 'v | Removed cstr | Present cstr | Hit cstr 'v | Missed cstr
  | Returned int | Found cstr 'v

type_synonym 'v lru_result = "'v lru \<times> 'v lru_frame list \<times> 'v lru_event"

section \<open>Steps\<close>

text \<open>A slot for a new entry.\<close>

definition step_new_slot :: "'v lru \<Rightarrow> cstr \<Rightarrow> 'v \<Rightarrow> 'v lru_result option" where
  "step_new_slot c k v =
     do { (slot, ll1) \<leftarrow> ll_slot_new (Some (lru_ll c));
          l1 \<leftarrow> ll1;
          Some (c\<lparr>lru_ll := l1\<rparr>, [case slot of Some i \<Rightarrow> FillNew k v i | None \<Rightarrow> TakeLast k v], Silent) }"

definition step_take_last :: "'v lru \<Rightarrow> cstr \<Rightarrow> 'v \<Rightarrow> 'v lru_result option" where
  "step_take_last c k v =
     do { (r, ll1) \<leftarrow> ll_remove_last (Some (lru_ll c));
          l1 \<leftarrow> ll1;
          Some (case r of
              None \<Rightarrow> (c\<lparr>lru_ll := l1\<rparr>, [], Returned LRU_NO_MEMORY)
            | Some j \<Rightarrow> (c\<lparr>lru_ll := l1\<rparr>, [DelOld k v j], Silent)) }"

definition slot_key :: "'v lru \<Rightarrow> nat \<Rightarrow> key_ptr" where
  "slot_key c j = lp_key (s_payload (ll_slots (lru_ll c) j))"

text \<open>What \<open>fh_del\<close> by the key of a slot shows: the key that is gone.\<close>

definition del_event :: "int \<Rightarrow> key_ptr \<Rightarrow> 'v lru_event" where
  "del_event rc kp = (if rc < 0 then Silent else case kp of KStr k \<Rightarrow> Removed k | _ \<Rightarrow> Silent)"

definition step_del_old :: "'v lru \<Rightarrow> cstr \<Rightarrow> 'v \<Rightarrow> nat \<Rightarrow> 'v lru_result option" where
  "step_del_old c k v j =
     do { (rc, c1) \<leftarrow> lru_fh_del c (slot_key c j);
          Some (c1, [FreeOld k v j], del_event rc (slot_key c j)) }"

definition step_free_old :: "'v lru \<Rightarrow> cstr \<Rightarrow> 'v \<Rightarrow> nat \<Rightarrow> 'v lru_result option" where
  "step_free_old c k v j = do { c1 \<leftarrow> lru_drop c j; Some (c1, [NewSlot k v], Silent) }"

text \<open>The new entry; \<open>kok\<close> is the outcome of the allocation of the copy of its key.\<close>

definition step_fill_new :: "bool \<Rightarrow> 'v lru \<Rightarrow> cstr \<Rightarrow> 'v \<Rightarrow> nat \<Rightarrow> 'v lru_result option" where
  "step_fill_new kok c k v i =
     (let new = (s_payload (ll_slots (lru_ll c) i))\<lparr>lp_payload := v, lp_slot := i\<rparr> in
      if \<not> kok then
        do { ll2 \<leftarrow> ll_slot_free (Some (set_payload (lru_ll c) i (new\<lparr>lp_key := KNull\<rparr>))) (Some i);
             l2 \<leftarrow> ll2;
             Some (c\<lparr>lru_ll := l2\<rparr>, [], Returned LRU_NO_MEMORY) }
      else Some (c\<lparr>lru_ll := set_payload (lru_ll c) i (new\<lparr>lp_key := KStr k\<rparr>)\<rparr>, [InsertNew k v i], Silent))"

definition step_insert_new :: "fh_allocs \<Rightarrow> 'v lru \<Rightarrow> cstr \<Rightarrow> 'v \<Rightarrow> nat \<Rightarrow> 'v lru_result option" where
  "step_insert_new al c k v i =
     do { (rc, fh1) \<leftarrow> fh_insert (Some (lru_fh c)) (Some k) (Some (i, [])) al;
          f1 \<leftarrow> fh1;
          Some (c\<lparr>lru_fh := f1\<rparr>,
            if rc \<noteq> LRU_OK \<and> rc = FH_DUPLICATED_ELEMENT then ([DropNew i LRU_DUPLICATED_ELEMENT], Present k)
            else if rc \<noteq> LRU_OK \<and> rc = FH_NO_MEMORY then ([DropNew i LRU_NO_MEMORY], Silent)
            else ([TopNew i], Inserted k v)) }"

definition step_drop_new :: "'v lru \<Rightarrow> nat \<Rightarrow> int \<Rightarrow> 'v lru_result option" where
  "step_drop_new c i rc = do { c1 \<leftarrow> lru_drop c i; Some (c1, [], Returned rc) }"

definition step_top_new :: "'v lru \<Rightarrow> nat \<Rightarrow> 'v lru_result option" where
  "step_top_new c i =
     do { ll1 \<leftarrow> ll_slot_add_to_top (Some (lru_ll c)) (Some i);
          l1 \<leftarrow> ll1;
          Some (c\<lparr>lru_ll := l1\<rparr>, [], Returned LRU_OK) }"

text \<open>A lookup.\<close>

definition step_search :: "'v lru \<Rightarrow> cstr \<Rightarrow> 'v lru_result option" where
  "step_search c k =
     do { (rc, obj, slot, fh1) \<leftarrow> fh_searchlock (Some (lru_fh c)) (Some k);
          f1 \<leftarrow> fh1;
          case obj of
            None \<Rightarrow> Some (c\<lparr>lru_fh := f1\<rparr>, [], Missed k)
          | Some (OMem bs) \<Rightarrow> None
          | Some (OPtr i) \<Rightarrow> do { s \<leftarrow> slot; Some (c\<lparr>lru_fh := f1\<rparr>, [ReadHit k i s], Silent) } }"

definition step_read_hit :: "'v lru \<Rightarrow> cstr \<Rightarrow> nat \<Rightarrow> int \<Rightarrow> 'v lru_result option" where
  "step_read_hit c k i s =
     (let p = s_payload (ll_slots (lru_ll c) i) in
      Some (c, [MoveTop k (lp_payload p) (lp_slot p) s], Hit k (lp_payload p)))"

definition step_move_top :: "'v lru \<Rightarrow> cstr \<Rightarrow> 'v \<Rightarrow> nat \<Rightarrow> int \<Rightarrow> 'v lru_result option" where
  "step_move_top c k v i s =
     do { ll1 \<leftarrow> ll_slot_move_to_top (Some (lru_ll c)) (Some i);
          l1 \<leftarrow> ll1;
          Some (c\<lparr>lru_ll := l1\<rparr>, [Release k v s], Silent) }"

definition step_release :: "'v lru \<Rightarrow> cstr \<Rightarrow> 'v \<Rightarrow> int \<Rightarrow> 'v lru_result option" where
  "step_release c k v s =
     do { (rc, fh1) \<leftarrow> fh_releaselock (Some (lru_fh c)) s;
          f1 \<leftarrow> fh1;
          Some (c\<lparr>lru_fh := f1\<rparr>, [], Found k v) }"

text \<open>Clearing.\<close>

definition step_take_all :: "'v lru \<Rightarrow> 'v lru_result option" where
  "step_take_all c =
     do { (r, ll1) \<leftarrow> ll_remove_last (Some (lru_ll c));
          l1 \<leftarrow> ll1;
          Some (case r of
              None \<Rightarrow> (c\<lparr>lru_ll := l1\<rparr>, [], Returned LRU_OK)
            | Some j \<Rightarrow> (c\<lparr>lru_ll := l1\<rparr>, [DelAll j], Silent)) }"

definition step_del_all :: "'v lru \<Rightarrow> nat \<Rightarrow> 'v lru_result option" where
  "step_del_all c j =
     do { (rc, c1) \<leftarrow> lru_fh_del c (slot_key c j);
          Some (c1, if rc < 0 then ([], Returned LRU_ELEMENT_NOT_FOUND)
                    else ([FreeAll j], del_event rc (slot_key c j))) }"

definition step_free_all :: "'v lru \<Rightarrow> nat \<Rightarrow> 'v lru_result option" where
  "step_free_all c j = do { c1 \<leftarrow> lru_drop c j; Some (c1, [TakeAll], Silent) }"

text \<open>One step of a frame, given the outcomes of the allocations of \<open>lru_add\<close>.\<close>

fun lru_act :: "bool \<times> fh_allocs \<Rightarrow> 'v lru \<Rightarrow> 'v lru_frame \<Rightarrow> 'v lru_result option" where
  "lru_act a c (NewSlot k v) = step_new_slot c k v"
| "lru_act a c (TakeLast k v) = step_take_last c k v"
| "lru_act a c (DelOld k v j) = step_del_old c k v j"
| "lru_act a c (FreeOld k v j) = step_free_old c k v j"
| "lru_act a c (FillNew k v i) = step_fill_new (fst a) c k v i"
| "lru_act a c (InsertNew k v i) = step_insert_new (snd a) c k v i"
| "lru_act a c (DropNew i rc) = step_drop_new c i rc"
| "lru_act a c (TopNew i) = step_top_new c i"
| "lru_act a c (Search k) = step_search c k"
| "lru_act a c (ReadHit k i s) = step_read_hit c k i s"
| "lru_act a c (MoveTop k v i s) = step_move_top c k v i s"
| "lru_act a c (Release k v s) = step_release c k v s"
| "lru_act a c TakeAll = step_take_all c"
| "lru_act a c (DelAll j) = step_del_all c j"
| "lru_act a c (FreeAll j) = step_free_all c j"

text \<open>The starts of the calls: \<open>lru_add\<close>, \<open>lru_check\<close>, \<open>lru_clear\<close>.\<close>

fun fr_start :: "'v lru_frame \<Rightarrow> bool" where
  "fr_start (NewSlot k v) = True"
| "fr_start (Search k) = True"
| "fr_start TakeAll = True"
| "fr_start fr = False"

section \<open>Threads\<close>

type_synonym 'v lru_sys = "('v lru, 'v lru_frame, 'v lru_event) sys"

definition lru_start :: "'v lru \<Rightarrow> 'v lru_frame list list \<Rightarrow> 'v lru_sys" where
  "lru_start c progs = \<lparr>shared = c, todo = progs, trace = []\<rparr>"

definition lru_run :: "'v lru_sys \<Rightarrow> (nat \<times> bool \<times> fh_allocs) list \<Rightarrow> 'v lru_sys option" where
  "lru_run = sys_run lru_act"

end
