(* ===== verification/LlInv.thy ===== *)
theory LlInv
  imports Ll
begin

text \<open>
  The invariant of the slot list and what each operation does to it: \<open>ll_inv l fs xs\<close> says that
  the free list of \<open>l\<close> visits exactly \<open>fs\<close>, that the list proper is the doubly linked list \<open>xs\<close>,
  least recently used slot first, and that every other slot is dangling.
\<close>

section \<open>Doubly linked lists\<close>

fun fst_or :: "'a list \<Rightarrow> 'a option \<Rightarrow> 'a option" where
  "fst_or [] b = b"
| "fst_or (x # xs) b = Some x"

definition last_or :: "'a list \<Rightarrow> 'a option \<Rightarrow> 'a option" where
  "last_or xs a = (if xs = [] then a else Some (last xs))"

lemma last_or_simps [simp]:
  "last_or [] a = a" "last_or (xs @ [x]) a = Some x" "last_or (x # xs) a = last_or xs (Some x)"
  by (simp_all add: last_or_def)

lemma last_or_append [simp]: "last_or (xs @ ys) a = last_or ys (last_or xs a)"
  by (simp add: last_or_def)

lemma fst_or_append [simp]: "fst_or (xs @ ys) b = fst_or xs (fst_or ys b)"
  by (cases xs) simp_all

lemma fst_or_None [simp]:
  "fst_or xs b = None \<longleftrightarrow> xs = [] \<and> b = None" "None = fst_or xs b \<longleftrightarrow> xs = [] \<and> b = None"
  by (cases xs; auto)+

text \<open>\<open>dl nx pv a xs b\<close>: the cells \<open>xs\<close> point to each other in both directions; the first one
  points back to \<open>a\<close> and the last one on to \<open>b\<close>.\<close>

primrec dl :: "('a \<Rightarrow> 'a option) \<Rightarrow> ('a \<Rightarrow> 'a option) \<Rightarrow> 'a option \<Rightarrow> 'a list \<Rightarrow> 'a option \<Rightarrow> bool" where
  "dl nx pv a [] b = True"
| "dl nx pv a (x # xs) b = (pv x = a \<and> nx x = fst_or xs b \<and> dl nx pv (Some x) xs b)"

lemma dl_append [simp]:
  "dl nx pv a (xs @ ys) b \<longleftrightarrow> dl nx pv a xs (fst_or ys b) \<and> dl nx pv (last_or xs a) ys b"
  by (induction xs arbitrary: a) auto

lemma dl_frame [simp]:
  "y \<notin> set xs \<Longrightarrow> dl (nx(y := v)) pv a xs b = dl nx pv a xs b"
  "y \<notin> set xs \<Longrightarrow> dl nx (pv(y := v)) a xs b = dl nx pv a xs b"
  by (induction xs arbitrary: a) auto

section \<open>The state through its link functions\<close>

definition nx :: "'a ll \<Rightarrow> nat \<Rightarrow> nat option" where "nx l i = s_next (ll_slots l i)"
definition pv :: "'a ll \<Rightarrow> nat \<Rightarrow> nat option" where "pv l i = s_prev (ll_slots l i)"
definition st :: "'a ll \<Rightarrow> nat \<Rightarrow> int" where "st l i = s_status (ll_slots l i)"
definition pl :: "'a ll \<Rightarrow> nat \<Rightarrow> 'a" where "pl l i = s_payload (ll_slots l i)"

lemma set_fields [simp]:
  "nx (set_next l i p) = (nx l)(i := p)" "pv (set_next l i p) = pv l"
  "st (set_next l i p) = st l" "pl (set_next l i p) = pl l"
  "nx (set_prev l i p) = nx l" "pv (set_prev l i p) = (pv l)(i := p)"
  "st (set_prev l i p) = st l" "pl (set_prev l i p) = pl l"
  "nx (set_status l i s) = nx l" "pv (set_status l i s) = pv l"
  "st (set_status l i s) = (st l)(i := s)" "pl (set_status l i s) = pl l"
  "nx (set_payload l i x) = nx l" "pv (set_payload l i x) = pv l"
  "st (set_payload l i x) = st l" "pl (set_payload l i x) = (pl l)(i := x)"
  by (auto simp: nx_def pv_def st_def pl_def set_next_def set_prev_def set_status_def set_payload_def)

lemma set_rest [simp]:
  "ll_size (set_next l i p) = ll_size l" "ll_top (set_next l i p) = ll_top l"
  "ll_last (set_next l i p) = ll_last l" "freelist (set_next l i p) = freelist l"
  "ll_locked (set_next l i p) = ll_locked l"
  "ll_size (set_prev l i p) = ll_size l" "ll_top (set_prev l i p) = ll_top l"
  "ll_last (set_prev l i p) = ll_last l" "freelist (set_prev l i p) = freelist l"
  "ll_locked (set_prev l i p) = ll_locked l"
  "ll_size (set_status l i s) = ll_size l" "ll_top (set_status l i s) = ll_top l"
  "ll_last (set_status l i s) = ll_last l" "freelist (set_status l i s) = freelist l"
  "ll_locked (set_status l i s) = ll_locked l"
  "ll_size (set_payload l i x) = ll_size l" "ll_top (set_payload l i x) = ll_top l"
  "ll_last (set_payload l i x) = ll_last l" "freelist (set_payload l i x) = freelist l"
  "ll_locked (set_payload l i x) = ll_locked l"
  by (simp_all add: set_next_def set_prev_def set_status_def set_payload_def)

lemma field_updates [simp]:
  "nx (l\<lparr>ll_top := p\<rparr>) = nx l" "pv (l\<lparr>ll_top := p\<rparr>) = pv l" "st (l\<lparr>ll_top := p\<rparr>) = st l" "pl (l\<lparr>ll_top := p\<rparr>) = pl l"
  "nx (l\<lparr>ll_last := p\<rparr>) = nx l" "pv (l\<lparr>ll_last := p\<rparr>) = pv l" "st (l\<lparr>ll_last := p\<rparr>) = st l" "pl (l\<lparr>ll_last := p\<rparr>) = pl l"
  "nx (l\<lparr>freelist := p\<rparr>) = nx l" "pv (l\<lparr>freelist := p\<rparr>) = pv l" "st (l\<lparr>freelist := p\<rparr>) = st l" "pl (l\<lparr>freelist := p\<rparr>) = pl l"
  "nx (l\<lparr>ll_locked := b\<rparr>) = nx l" "pv (l\<lparr>ll_locked := b\<rparr>) = pv l" "st (l\<lparr>ll_locked := b\<rparr>) = st l" "pl (l\<lparr>ll_locked := b\<rparr>) = pl l"
  by (simp_all add: nx_def pv_def st_def pl_def fun_eq_iff)

lemma ll_deref_simps [simp]:
  "ll_deref l None = None"
  "ll_deref l (Some i) = (if int i < ll_size l then Some i else None)"
  by (simp_all add: ll_deref_def)

lemma status_distinct [simp]:
  "LL_SLOT_DANGLING \<noteq> LL_SLOT_IN_FREELIST" "LL_SLOT_IN_FREELIST \<noteq> LL_SLOT_DANGLING"
  "LL_SLOT_DANGLING \<noteq> 0" "LL_SLOT_IN_FREELIST \<noteq> 0"
  by (simp_all add: LL_SLOT_DANGLING_def LL_SLOT_IN_FREELIST_def)

definition ll_core :: "'a ll \<Rightarrow> nat list \<Rightarrow> nat list \<Rightarrow> bool" where
  "ll_core l fs xs \<longleftrightarrow>
     (\<forall>i \<in> set fs \<union> set xs. int i < ll_size l) \<and> distinct (fs @ xs) \<and>
     chain (nx l) (freelist l) fs \<and> dl (nx l) (pv l) None xs None \<and>
     ll_last l = fst_or xs None \<and> ll_top l = last_or xs None \<and>
     (\<forall>i. int i < ll_size l \<longrightarrow>
        st l i = (if i \<in> set fs then LL_SLOT_IN_FREELIST else if i \<in> set xs then 0 else LL_SLOT_DANGLING))"

definition ll_inv :: "'a ll \<Rightarrow> nat list \<Rightarrow> nat list \<Rightarrow> bool" where
  "ll_inv l fs xs \<longleftrightarrow> \<not> ll_locked l \<and> ll_core l fs xs"

lemma ll_core_locked [simp]: "ll_core (l\<lparr>ll_locked := b\<rparr>) fs xs = ll_core l fs xs"
  by (simp add: ll_core_def)

lemma ll_inv_lock: "ll_inv l fs xs \<Longrightarrow> ll_lock l = Some (l\<lparr>ll_locked := True\<rparr>)"
  by (simp add: ll_inv_def ll_lock_def)

lemma ll_unlock_simps [simp]:
  "ll_inv (ll_unlock l) fs xs = ll_core l fs xs"
  "nx (ll_unlock l) = nx l" "pv (ll_unlock l) = pv l" "pl (ll_unlock l) = pl l"
  "ll_size (ll_unlock l) = ll_size l"
  by (simp_all add: ll_unlock_def ll_inv_def)

lemma ll_unlock_same: "ll_inv l fs xs \<Longrightarrow> ll_unlock (l\<lparr>ll_locked := True\<rparr>) = l"
  by (simp add: ll_inv_def ll_unlock_def)

section \<open>Creation\<close>

lemma ll_fill_spec:
  "case ll_fill dim ok i s of
     Inl j \<Rightarrow> i \<le> j \<and> j < dim \<and> \<not> ok j \<and> (\<forall>k. i \<le> k \<and> k < j \<longrightarrow> ok k)
   | Inr t \<Rightarrow> (\<forall>k. i \<le> k \<and> k < dim \<longrightarrow> ok k) \<and>
       (\<forall>k. t k = (if i \<le> k \<and> k < dim
          then (s k)\<lparr>s_next := (if Suc k = dim then None else Some (Suc k)), s_status := LL_SLOT_IN_FREELIST\<rparr>
          else s k))"
proof (induction dim ok i s rule: ll_fill.induct)
  case (1 dim ok i s)
  show ?case
  proof (cases "i < dim \<and> ok i")
    case False
    then show ?thesis by (auto simp: ll_fill.simps [of dim ok i s])
  next
    case True
    let ?s = "s(i := (s i)\<lparr>s_next := (if Suc i = dim then None else Some (Suc i)),
      s_status := LL_SLOT_IN_FREELIST\<rparr>)"
    have IH: "case ll_fill dim ok (Suc i) ?s of
        Inl j \<Rightarrow> Suc i \<le> j \<and> j < dim \<and> \<not> ok j \<and> (\<forall>k. Suc i \<le> k \<and> k < j \<longrightarrow> ok k)
      | Inr t \<Rightarrow> (\<forall>k. Suc i \<le> k \<and> k < dim \<longrightarrow> ok k) \<and>
          (\<forall>k. t k = (if Suc i \<le> k \<and> k < dim
             then (?s k)\<lparr>s_next := (if Suc k = dim then None else Some (Suc k)), s_status := LL_SLOT_IN_FREELIST\<rparr>
             else ?s k))"
      using True by (intro 1) simp_all
    have eq: "ll_fill dim ok i s = ll_fill dim ok (Suc i) ?s"
      using True by (subst ll_fill.simps) simp
    show ?thesis
    proof (cases "ll_fill dim ok (Suc i) ?s")
      case (Inl j)
      with IH have j: "Suc i \<le> j" "j < dim" "\<not> ok j" "\<forall>k. Suc i \<le> k \<and> k < j \<longrightarrow> ok k" by simp_all
      have "ok k" if "i \<le> k" "k < j" for k
        using that j(4) True by (cases "k = i") auto
      with eq Inl j show ?thesis by auto
    next
      case (Inr t)
      with IH have t: "\<forall>k. Suc i \<le> k \<and> k < dim \<longrightarrow> ok k"
        "\<forall>k. t k = (if Suc i \<le> k \<and> k < dim
             then (?s k)\<lparr>s_next := (if Suc k = dim then None else Some (Suc k)), s_status := LL_SLOT_IN_FREELIST\<rparr>
             else ?s k)" by simp_all
      have ok: "ok k" if "i \<le> k" "k < dim" for k
        using that t(1) True by (cases "k = i") auto
      have "t k = (if i \<le> k \<and> k < dim
          then (s k)\<lparr>s_next := (if Suc k = dim then None else Some (Suc k)), s_status := LL_SLOT_IN_FREELIST\<rparr>
          else s k)" for k
        using t(2) [THEN spec, of k] True by (cases "k = i") simp_all
      with eq Inr ok show ?thesis by simp
    qed
  qed
qed

lemma chain_upt:
  assumes "\<And>k. i \<le> k \<Longrightarrow> k < n \<Longrightarrow> f k = (if Suc k = n then None else Some (Suc k))" and "i < n"
  shows "chain f (Some i) [i..<n]"
  using assms
proof (induction "n - i" arbitrary: i)
  case 0
  then show ?case by simp
next
  case (Suc d)
  show ?case
  proof (cases "Suc i = n")
    case True
    with Suc.prems show ?thesis by (simp add: upt_conv_Cons)
  next
    case False
    with Suc have "chain f (Some (Suc i)) [Suc i..<n]" by (intro Suc.hyps(1)) simp_all
    with False Suc.prems show ?thesis by (simp add: upt_conv_Cons)
  qed
qed

lemma ll_create_spec:
  assumes "0 < dim"
  shows "ll_create dim hok sok pok init = (None, 0) \<and> \<not> (hok \<and> sok) \<or>
    (\<exists>i < nat dim. \<not> pok i \<and> ll_create dim hok sok pok init = (None, Suc i) \<and> hok \<and> sok) \<or>
    (\<exists>l. ll_create dim hok sok pok init = (Some l, 0) \<and> hok \<and> sok \<and> (\<forall>i < nat dim. pok i) \<and>
       ll_inv l [0..<nat dim] [] \<and> ll_size l = dim)"
proof (cases "hok \<and> sok")
  case False
  then show ?thesis by (auto simp: ll_create_def)
next
  case True
  let ?s = "\<lambda>i. \<lparr>s_next = None, s_prev = None, s_payload = init i, s_status = 0\<rparr>"
  note fill = ll_fill_spec [where dim = "nat dim" and ok = pok and i = 0 and s = ?s]
  show ?thesis
  proof (cases "ll_fill (nat dim) pok 0 ?s")
    case (Inl i)
    with fill True assms show ?thesis by (auto simp: ll_create_def)
  next
    case (Inr t)
    let ?l = "\<lparr>ll_magic = LL_MAGIC_ID, ll_size = dim, ll_top = None, ll_last = None,
      freelist = Some 0, ll_slots = t, ll_locked = False\<rparr>"
    from fill Inr have t: "\<forall>k < nat dim. pok k"
      "\<forall>k. t k = (if k < nat dim then (?s k)\<lparr>s_next := (if Suc k = nat dim then None else Some (Suc k)),
         s_status := LL_SLOT_IN_FREELIST\<rparr> else ?s k)" by simp_all
    have "chain (nx ?l) (Some 0) [0..<nat dim]"
      using t(2) assms by (intro chain_upt) (simp_all add: nx_def)
    moreover have "st ?l k = LL_SLOT_IN_FREELIST" if "k < nat dim" for k
      using t(2) that by (simp add: st_def)
    ultimately have "ll_inv ?l [0..<nat dim] []"
      using assms by (auto simp: ll_inv_def ll_core_def)
    moreover have "ll_create dim hok sok pok init = (Some ?l, 0)"
      using True assms Inr by (simp add: ll_create_def)
    ultimately show ?thesis using True t(1) by auto
  qed
qed

section \<open>The operations\<close>

lemma ll_slot_new_empty:
  "ll_inv l [] xs \<Longrightarrow> ll_slot_new (Some l) = Some (None, Some l)"
  by (simp add: ll_slot_new_def ll_inv_lock ll_unlock_same) (simp add: ll_inv_def ll_core_def)

lemma ll_slot_new_spec:
  assumes inv: "ll_inv l (i # fs) xs"
  shows "\<exists>l'. ll_slot_new (Some l) = Some (Some i, Some l') \<and> ll_inv l' fs xs \<and>
    nx l' i = None \<and> pv l' i = None \<and> pl l' = pl l \<and> ll_size l' = ll_size l"
proof -
  let ?l1 = "l\<lparr>ll_locked := True\<rparr>"
  let ?l2 = "?l1\<lparr>freelist := s_next (ll_slots l i)\<rparr>"
  let ?l3 = "set_status (set_prev (set_next ?l2 i None) i None) i LL_SLOT_DANGLING"
  from inv have c: "ll_core l (i # fs) xs" by (simp add: ll_inv_def)
  then have f: "freelist l = Some i" "int i < ll_size l" by (simp_all add: ll_core_def)
  have "s_next (ll_slots l i) = nx l i" by (simp add: nx_def)
  with c have "ll_core ?l3 fs xs" by (auto simp: ll_core_def)
  moreover have "ll_slot_new (Some l) = Some (Some i, Some (ll_unlock ?l3))"
    using f by (simp add: ll_slot_new_def ll_inv_lock [OF inv])
  ultimately show ?thesis by simp
qed

lemma ll_slot_free_spec:
  assumes inv: "ll_inv l fs xs" and i: "int i < ll_size l" "i \<notin> set fs" "i \<notin> set xs"
  shows "\<exists>l'. ll_slot_free (Some l) (Some i) = Some (Some l') \<and> ll_inv l' (i # fs) xs \<and>
    pl l' = pl l \<and> ll_size l' = ll_size l"
proof -
  let ?l1 = "l\<lparr>ll_locked := True\<rparr>"
  let ?l2 = "set_status (set_next (?l1\<lparr>freelist := Some i\<rparr>) i (freelist l)) i LL_SLOT_IN_FREELIST"
  from inv have "ll_core l fs xs" by (simp add: ll_inv_def)
  with i have "ll_core ?l2 (i # fs) xs" by (auto simp: ll_core_def)
  moreover have "ll_slot_free (Some l) (Some i) = Some (Some (ll_unlock ?l2))"
    using i(1) by (simp add: ll_slot_free_def ll_inv_lock [OF inv])
  ultimately show ?thesis by simp
qed

lemma ll_remove_last_empty:
  "ll_inv l fs [] \<Longrightarrow> ll_remove_last (Some l) = Some (None, Some l)"
  by (simp add: ll_remove_last_def ll_inv_lock ll_unlock_same) (simp add: ll_inv_def ll_core_def)

lemma ll_remove_last_spec:
  assumes inv: "ll_inv l fs (i # xs)"
  shows "\<exists>l'. ll_remove_last (Some l) = Some (Some i, Some l') \<and> ll_inv l' fs xs \<and>
    nx l' i = fst_or xs None \<and> pl l' = pl l \<and> ll_size l' = ll_size l"
proof -
  let ?l2 = "l\<lparr>ll_locked := True, ll_last := nx l i\<rparr>"
  from inv have c: "ll_core l fs (i # xs)" by (simp add: ll_inv_def)
  then have f: "ll_last l = Some i" "int i < ll_size l" "nx l i = fst_or xs None"
    by (simp_all add: ll_core_def)
  have nxs: "s_next (ll_slots l i) = nx l i" by (simp add: nx_def)
  note unf = ll_remove_last_def ll_inv_lock [OF inv] nxs f
  show ?thesis
  proof (cases xs)
    case Nil
    let ?l3 = "set_status (?l2\<lparr>ll_top := None\<rparr>) i LL_SLOT_DANGLING"
    have "ll_core ?l3 fs xs" using c Nil by (auto simp: ll_core_def)
    moreover have "ll_remove_last (Some l) = Some (Some i, Some (ll_unlock ?l3))"
      using Nil f by (simp add: unf Let_def)
    moreover have "nx ?l3 i = fst_or xs None" by (simp add: f(3))
    ultimately show ?thesis by simp
  next
    case (Cons n ys)
    let ?l3 = "set_status (set_prev ?l2 n None) i LL_SLOT_DANGLING"
    have n: "int n < ll_size l" using c Cons by (simp add: ll_core_def)
    have "ll_core ?l3 fs xs" using c Cons by (auto simp: ll_core_def)
    moreover have "ll_remove_last (Some l) = Some (Some i, Some (ll_unlock ?l3))"
      using Cons n by (simp add: unf Let_def)
    moreover have "nx ?l3 i = fst_or xs None" by (simp add: f(3))
    ultimately show ?thesis by simp
  qed
qed

lemma ll_slot_add_to_top_spec:
  assumes inv: "ll_inv l fs xs" and i: "int i < ll_size l" "i \<notin> set fs" "i \<notin> set xs"
    and clear: "nx l i = None" "pv l i = None"
  shows "\<exists>l'. ll_slot_add_to_top (Some l) (Some i) = Some (Some l') \<and> ll_inv l' fs (xs @ [i]) \<and>
    pl l' = pl l \<and> ll_size l' = ll_size l"
proof -
  let ?l2 = "(set_status (l\<lparr>ll_locked := True\<rparr>) i 0)\<lparr>ll_top := Some i\<rparr>"
  from inv have c: "ll_core l fs xs" by (simp add: ll_inv_def)
  with i have s: "s_status (ll_slots l i) = LL_SLOT_DANGLING"
    by (simp add: ll_core_def flip: st_def)
  note unf = ll_slot_add_to_top_def ll_inv_lock [OF inv] s ll_attach_def
  show ?thesis
  proof (cases xs rule: rev_cases)
    case Nil
    let ?l3 = "?l2\<lparr>ll_last := Some i\<rparr>"
    have t: "ll_top l = None" "ll_last l = None" using c Nil by (simp_all add: ll_core_def)
    have "ll_core ?l3 fs (xs @ [i])" using c Nil i clear by (auto simp: ll_core_def)
    moreover have "ll_slot_add_to_top (Some l) (Some i) = Some (Some (ll_unlock ?l3))"
      using i(1) t by (simp add: unf)
    ultimately show ?thesis by simp
  next
    case (snoc ys t)
    let ?l3 = "set_prev (set_next ?l2 t (Some i)) i (Some t)"
    have t: "ll_top l = Some t" "int t < ll_size l" and "ll_last l \<noteq> None"
      using c snoc by (simp_all add: ll_core_def)
    then obtain a where a: "ll_last l = Some a" by auto
    have "ll_core ?l3 fs (xs @ [i])" using c snoc i clear by (auto simp: ll_core_def)
    moreover have "ll_slot_add_to_top (Some l) (Some i) = Some (Some (ll_unlock ?l3))"
      using i(1) t a by (simp add: unf)
    ultimately show ?thesis by simp
  qed
qed

text \<open>Moving a slot of the list to the top; a slot that is not in the list stays where it is.\<close>

lemma ll_raise_stays:
  assumes "ll_core l fs xs" and "int i < ll_size l" and "i \<notin> set xs"
  shows "ll_raise l i = Some l"
  using assms by (auto simp: ll_core_def ll_raise_def Let_def simp flip: st_def)

lemma ll_raise_spec:
  assumes c: "ll_core l fs (as @ i # bs)"
  shows "\<exists>l'. ll_raise l i = Some l' \<and> ll_core l' fs (as @ bs @ [i]) \<and> pl l' = pl l \<and>
    ll_size l' = ll_size l"
proof (cases bs rule: rev_cases)
  case Nil
  with c have "ll_top l = Some i" "st l i = 0" by (simp_all add: ll_core_def)
  with c Nil show ?thesis by (auto simp: ll_raise_def Let_def simp flip: st_def)
next
  case (snoc bs' t)
  from c snoc have ne: "t \<noteq> i" by (simp add: ll_core_def)
  from c snoc have f: "ll_top l = Some t" "st l i = 0" "int t < ll_size l" "nx l i = fst_or bs None"
    "pv l i = last_or as None"
    by (simp_all add: ll_core_def)
  then have stat: "s_status (ll_slots l i) = 0" and links: "s_next (ll_slots l i) = nx l i"
    "s_prev (ll_slots l i) = pv l i"
    by (simp_all add: st_def nx_def pv_def)
  have nx_some: "nx l i \<noteq> None" using f(4) snoc by simp
  then obtain n where n: "nx l i = Some n" by auto
  with f(4) snoc have bs: "fst_or bs' (Some t) = Some n" by simp
  have n_size: "int n < ll_size l" "n \<noteq> i"
    using c snoc bs by (cases bs'; auto simp: ll_core_def)+
  note base = ll_raise_def Let_def stat links f(1,3) ne ll_attach_def
  show ?thesis
  proof (cases as rule: rev_cases)
    case Nil
    let ?l2 = "(set_prev l n None)\<lparr>ll_last := Some n, ll_top := Some i\<rparr>"
    let ?l3 = "set_prev (set_next (set_next ?l2 i None) t (Some i)) i (Some t)"
    have p: "pv l i = None" using f(5) Nil by simp
    have "s_next (ll_slots (set_prev l n None) i) = nx l i"
      using nx_def [of "set_prev l n None" i] by simp
    then have "ll_raise l i = Some ?l3"
      using n n_size p by (simp add: base)
    moreover have "ll_core ?l3 fs (bs @ [i])"
      using c snoc Nil bs ne by (cases bs') (auto simp: ll_core_def)
    ultimately show ?thesis using Nil by simp
  next
    case (snoc as' p)
    let ?l1 = "set_next l p (Some n)"
    let ?l2 = "(set_prev ?l1 n (Some p))\<lparr>ll_top := Some i\<rparr>"
    let ?l3 = "set_prev (set_next (set_next ?l2 i None) t (Some i)) i (Some t)"
    have p: "pv l i = Some p" using f(5) snoc by simp
    have ps: "int p < ll_size l" "p \<noteq> i" using c snoc by (simp_all add: ll_core_def)
    have l1: "s_next (ll_slots ?l1 i) = Some n" "s_prev (ll_slots ?l1 i) = Some p"
      using nx_def [of ?l1 i] pv_def [of ?l1 i] n p ps(2) by simp_all
    have "ll_raise l i = Some ?l3"
      using n n_size p ps l1 by (simp add: base)
    moreover have "ll_core ?l3 fs (as @ bs @ [i])"
      using c \<open>bs = bs' @ [t]\<close> snoc bs ne by (cases bs') (auto simp: ll_core_def)
    ultimately show ?thesis by auto
  qed
qed

lemma ll_slot_move_to_top_spec:
  assumes inv: "ll_inv l fs (as @ i # bs)"
  shows "\<exists>l'. ll_slot_move_to_top (Some l) (Some i) = Some (Some l') \<and> ll_inv l' fs (as @ bs @ [i]) \<and>
    pl l' = pl l \<and> ll_size l' = ll_size l"
proof -
  let ?l1 = "l\<lparr>ll_locked := True\<rparr>"
  from inv have c: "ll_core ?l1 fs (as @ i # bs)" by (simp add: ll_inv_def)
  from ll_raise_spec [OF this] obtain l2 where
    l2: "ll_raise ?l1 i = Some l2" "ll_core l2 fs (as @ bs @ [i])" "pl l2 = pl ?l1" "ll_size l2 = ll_size ?l1"
    by blast
  have "int i < ll_size l" using c by (simp add: ll_core_def)
  with l2 show ?thesis by (simp add: ll_slot_move_to_top_def ll_inv_lock [OF inv])
qed

lemma ll_slot_move_to_top_stays:
  assumes inv: "ll_inv l fs xs" and i: "int i < ll_size l" "i \<notin> set xs"
  shows "ll_slot_move_to_top (Some l) (Some i) = Some (Some l)"
proof -
  have "ll_raise (l\<lparr>ll_locked := True\<rparr>) i = Some (l\<lparr>ll_locked := True\<rparr>)"
    using inv i by (intro ll_raise_stays [where fs = fs and xs = xs]) (simp_all add: ll_inv_def)
  then show ?thesis
    using i(1) by (simp add: ll_slot_move_to_top_def ll_inv_lock [OF inv] ll_unlock_same [OF inv])
qed

section \<open>Inspection\<close>

lemma ll_walk_spec:
  assumes "dl (nx l) (pv l) None xs b" and "\<forall>i \<in> set xs. int i < ll_size l"
  shows "ll_walk l (last_or xs None) n = Some (if n < length xs then Some (rev xs ! n) else None)"
  using assms
proof (induction n arbitrary: xs b)
  case 0
  then show ?case by (cases xs rule: rev_cases) auto
next
  case (Suc n)
  show ?case
  proof (cases xs rule: rev_cases)
    case Nil
    then show ?thesis by simp
  next
    case (snoc ys y)
    with Suc.prems have "s_prev (ll_slots l y) = last_or ys None" "int y < ll_size l"
      "dl (nx l) (pv l) None ys (Some y)" "\<forall>i \<in> set ys. int i < ll_size l"
      by (simp_all flip: pv_def)
    with Suc.IH snoc show ?thesis by simp
  qed
qed

lemma ll_get_payload_spec:
  assumes inv: "ll_inv l fs xs" and ne: "xs \<noteq> []"
  shows "ll_get_payload l idx =
    Some (if nat idx < length xs then (LL_OK, Some (rev xs ! nat idx)) else (LL_ERROR_INDEX_OUT_OF_RANGE, None))"
proof -
  from inv have c: "ll_core l fs xs" by (simp add: ll_inv_def)
  then have d: "dl (nx l) (pv l) None xs None" "\<forall>i \<in> set xs. int i < ll_size l" by (simp_all add: ll_core_def)
  obtain a as where a: "xs = a # as" using ne by (cases xs) auto
  obtain t ts where t: "xs = ts @ [t]" using ne by (cases xs rule: rev_cases) auto
  have "dl (nx l) (pv l) None (a # as) None" using d(1) unfolding a .
  moreover have "dl (nx l) (pv l) None (ts @ [t]) None" using d(1) unfolding t .
  ultimately have ends: "s_prev (ll_slots l a) = None" "s_next (ll_slots l t) = None"
    by (simp_all flip: nx_def pv_def)
  have "fst_or xs None = Some a" by (simp add: a)
  moreover have "last_or xs None = Some t" by (simp add: t)
  ultimately have "ll_last l = Some a" "ll_top l = Some t" using c by (simp_all add: ll_core_def)
  moreover have "a \<in> set xs" "t \<in> set xs" by (simp add: a, simp add: t)
  then have "int a < ll_size l" "int t < ll_size l" using d(2) by blast+
  moreover have "last_or xs None = Some t" using t by simp
  moreover have "int (rev xs ! nat idx) < ll_size l" if "nat idx < length xs"
    using d(2) that nth_mem [of "nat idx" "rev xs"] by simp
  ultimately show ?thesis
    using ll_walk_spec [OF d, of "nat idx"] ends by (simp add: ll_get_payload_def)
qed

lemma ll_print_loop_spec:
  assumes "dl (nx l) (pv l) a xs None" and "\<forall>i \<in> set xs. int i < ll_size l"
  shows "ll_print_loop l (fst_or xs None) n = Some (take n xs)"
  using assms
proof (induction n arbitrary: a xs)
  case 0
  then show ?case by simp
next
  case (Suc n)
  show ?case
  proof (cases xs)
    case Nil
    then show ?thesis by simp
  next
    case (Cons y ys)
    with Suc.prems have "s_next (ll_slots l y) = fst_or ys None" "int y < ll_size l"
      "dl (nx l) (pv l) (Some y) ys None" "\<forall>i \<in> set ys. int i < ll_size l"
      by (simp_all flip: nx_def)
    with Suc.IH Cons show ?thesis by simp
  qed
qed

section \<open>Links of slots that are in neither list\<close>

lemma ll_slot_new_links:
  "ll_slot_new (Some l) = Some (Some i, Some l') \<Longrightarrow> j \<noteq> i \<Longrightarrow> nx l' j = nx l j \<and> pv l' j = pv l j"
  by (auto simp: ll_slot_new_def bind_Some_iff ll_lock_def ll_deref_def Let_def split: if_splits)

lemma ll_slot_free_links:
  "ll_slot_free (Some l) (Some i) = Some (Some l') \<Longrightarrow> j \<noteq> i \<Longrightarrow> nx l' j = nx l j \<and> pv l' j = pv l j"
  by (auto simp: ll_slot_free_def bind_Some_iff ll_lock_def ll_deref_def Let_def split: if_splits)

lemma ll_remove_last_links:
  assumes "ll_inv l fs (i # xs)" and "ll_remove_last (Some l) = Some (Some i, Some l')" and "j \<notin> set xs"
  shows "nx l' j = nx l j \<and> pv l' j = pv l j"
proof -
  from assms(1) have "nx l i = fst_or xs None" "ll_last l = Some i" by (auto simp: ll_inv_def ll_core_def)
  with assms(2,3) show ?thesis
    by (cases xs) (auto simp: ll_remove_last_def bind_Some_iff ll_lock_def ll_deref_def Let_def nx_def [symmetric]
        split: if_splits)
qed

lemma ll_attach_links:
  "ll_attach l i t = Some l' \<Longrightarrow> j \<noteq> i \<Longrightarrow> t \<noteq> Some j \<Longrightarrow> nx l' j = nx l j \<and> pv l' j = pv l j"
  by (auto simp: ll_attach_def bind_Some_iff ll_deref_def split: if_splits)

lemma ll_top_member: "ll_inv l fs xs \<Longrightarrow> j \<notin> set xs \<Longrightarrow> ll_top l \<noteq> Some j"
  by (cases xs rule: rev_cases) (auto simp: ll_inv_def ll_core_def)

lemma ll_slot_add_to_top_links:
  assumes "ll_inv l fs xs" and "ll_slot_add_to_top (Some l) (Some i) = Some (Some l')" and "j \<notin> set xs" and "j \<noteq> i"
  shows "nx l' j = nx l j \<and> pv l' j = pv l j"
  using assms(2) ll_top_member [OF assms(1,3)] ll_attach_links [OF _ assms(4)]
  by (fastforce simp: ll_slot_add_to_top_def bind_Some_iff ll_lock_def ll_deref_def split: if_splits)

lemma or_members: "last_or xs None = Some j \<Longrightarrow> j \<in> set xs" "fst_or xs None = Some j \<Longrightarrow> j \<in> set xs"
  by (cases xs rule: rev_cases; simp) (cases xs; simp)

lemma ll_raise_links:
  assumes c: "ll_core l fs xs" and i: "i \<in> set xs" and r: "ll_raise l i = Some l'" and j: "j \<notin> set xs"
  shows "nx l' j = nx l j \<and> pv l' j = pv l j"
proof -
  obtain as bs where xs: "xs = as @ i # bs" using i by (meson split_list)
  with c have "nx l i = fst_or bs None" "pv l i = last_or as None" "ll_top l = last_or xs None"
    by (auto simp: ll_core_def)
  moreover have "last_or as None \<noteq> Some j" "fst_or bs None \<noteq> Some j" "last_or xs None \<noteq> Some j" "j \<noteq> i"
    using j or_members(1) [of as j] or_members(2) [of bs j] or_members(1) [of xs j] by (auto simp: xs)
  ultimately have links: "nx l i \<noteq> Some j" "pv l i \<noteq> Some j" "ll_top l \<noteq> Some j" "j \<noteq> i" by simp_all
  note a = ll_attach_links [OF _ links(4)]
  have e: "s_next (ll_slots l i) = nx l i" "s_prev (ll_slots l i) = pv l i"
    "s_next (ll_slots (set_next l p (nx l i)) i) = nx l i" "s_prev (ll_slots (set_next l p q) i) = pv l i" for p q
    by (simp_all add: nx_def pv_def set_next_def)
  consider "l' = l"
    | l1 where "ll_attach (l\<lparr>ll_top := Some i\<rparr>) i (ll_top l) = Some l1" "nx l' = nx l1" "pv l' = pv l1"
    | p n where "pv l i = Some p" "nx l i = Some n"
        "ll_attach (set_next ((set_prev (set_next l p (Some n)) n (Some p))\<lparr>ll_top := Some i\<rparr>) i None) i (ll_top l) = Some l'"
    | n p where "nx l i = Some n"
        "ll_attach (set_next ((set_prev l n None)\<lparr>ll_last := p, ll_top := Some i\<rparr>) i None) i (ll_top l) = Some l'"
    using r unfolding ll_raise_def Let_def e by (auto simp: bind_Some_iff ll_deref_def split: if_splits)
  then show ?thesis
  proof cases
    case 1
    then show ?thesis by simp
  next
    case (2 l1)
    with a [of "l\<lparr>ll_top := Some i\<rparr>" "ll_top l" l1] links show ?thesis by simp
  next
    case (3 p n)
    from a [OF this(3) links(3)] this links show ?thesis by auto
  next
    case (4 n p)
    from a [OF this(2) links(3)] this links show ?thesis by auto
  qed
qed

lemma ll_slot_move_to_top_links:
  assumes inv: "ll_inv l fs xs" and m: "ll_slot_move_to_top (Some l) (Some i) = Some (Some l')"
    and i: "int i < ll_size l" and j: "j \<notin> set xs"
  shows "nx l' j = nx l j \<and> pv l' j = pv l j"
proof (cases "i \<in> set xs")
  case True
  from inv have "ll_core (l\<lparr>ll_locked := True\<rparr>) fs xs" by (simp add: ll_inv_def)
  from ll_raise_links [OF this True _ j] m i show ?thesis
    by (auto simp: ll_slot_move_to_top_def bind_Some_iff ll_inv_lock [OF inv])
next
  case False
  with ll_slot_move_to_top_stays [OF inv i] m show ?thesis by simp
qed

end
