(* ===== verification/LruInv.thy ===== *)
theory LruInv
  imports Lru LlInv FhSpec
begin

text \<open>
  The invariant of the LRU cache, its abstraction to the list of its entries, least recently
  used first, and what the parts of the operations do to them.
\<close>

section \<open>Insertion into a table that does not copy keys\<close>

lemma fh_empty_slot_mono: "fh_empty_slot ch mh False = Some r \<Longrightarrow> fh_empty_slot ch mh True = Some r"
  by (induction ch arbitrary: r) (auto split: option.splits if_splits)

text \<open>Whatever the allocator does, the insertion of a pointer either is that of an allocator that
  never fails, or changes nothing but the count of collisions.\<close>

lemma fh_insert_locked_ptr:
  assumes "fh_chain f idx = Some ch" and "dont_copy_key f" and "h_datalen f = FH_DATALEN_VOIDP"
    and "fh_insert_locked f k (Some (p, [])) all_ok idx mh = Some r"
  shows "fh_insert_locked f k (Some (p, [])) al idx mh = Some r \<or>
    \<not> (a_bucket al \<and> a_chain al) \<and>
    (\<exists>n. fh_insert_locked f k (Some (p, [])) al idx mh = Some (Inl FH_NO_MEMORY, f\<lparr>h_collision := n\<rparr>))"
proof (cases "ch = []")
  case True
  have e: "fh_empty_slot [fh_allocate_bucket :: 'a fh_bucket] mh (a_chain al) =
      fh_empty_slot [fh_allocate_bucket] mh True"
    by (simp add: fh_allocate_bucket_def BUCKET_SIZE_def empty_entry_def eval_nat_numeral)
  have dc: "dont_copy_key (upd_chain f idx c)" "h_datalen (upd_chain f idx c) = h_datalen f" for c
    using assms(2) by (simp_all add: dont_copy_key_def upd_chain_def)
  show ?thesis
  proof (cases "a_bucket al")
    case False
    have "f = f\<lparr>h_collision := h_collision f\<rparr>" by simp
    with False True assms(1) show ?thesis
      by (auto simp: fh_insert_locked_def intro: exI [of _ "h_collision f"])
  next
    case True2: True
    from assms(1,4) True obtain q where q: "fh_find_slot [fh_allocate_bucket :: 'a fh_bucket] k mh = Some q"
      by (auto simp: fh_insert_locked_def all_ok_def Let_def bind_Some_iff
          simp del: fh_empty_slot.simps fh_find_slot.simps)
    have "fh_insert_locked f k (Some (p, [])) al idx mh = fh_insert_locked f k (Some (p, [])) all_ok idx mh"
      using True True2 assms(1,3) dc
      by (cases q; cases "fh_empty_slot [fh_allocate_bucket :: 'a fh_bucket] mh True")
        (simp_all add: fh_insert_locked_def all_ok_def Let_def fh_new_obj_def FH_DATALEN_VOIDP_def e q
          del: fh_empty_slot.simps fh_find_slot.simps split: prod.split)
    with assms(4) show ?thesis by simp
  qed
next
  case False
  have dc: "dont_copy_key (fh_inc_collision f)" "h_datalen (fh_inc_collision f) = h_datalen f"
    using assms(2) by (simp_all add: dont_copy_key_def fh_inc_collision_def)
  show ?thesis
  proof (cases "a_chain al \<or> fh_empty_slot ch mh False \<noteq> None")
    case True
    then have e: "fh_empty_slot ch mh (a_chain al) = fh_empty_slot ch mh True"
      using fh_empty_slot_mono [of ch mh] by (cases "a_chain al") auto
    from assms(1,4) False obtain q where q: "fh_find_slot ch k mh = Some q"
      by (auto simp: fh_insert_locked_def Let_def bind_Some_iff)
    have "fh_insert_locked f k (Some (p, [])) al idx mh = fh_insert_locked f k (Some (p, [])) all_ok idx mh"
      using False assms(1,3) dc
      by (cases q; cases "fh_empty_slot ch mh True")
        (simp_all add: fh_insert_locked_def all_ok_def Let_def fh_new_obj_def FH_DATALEN_VOIDP_def e q
          split: prod.split)
    with assms(4) show ?thesis by simp
  next
    case False2: False
    from assms(1,4) False obtain s where "fh_find_slot ch k mh = Some s"
      by (auto simp: fh_insert_locked_def Let_def bind_Some_iff)
    from False2 have none: "fh_empty_slot ch mh False = None" "a_chain al = False" by blast+
    show ?thesis
    proof (cases s)
      case None
      have "fh_insert_locked f k (Some (p, [])) al idx mh =
          Some (Inl FH_NO_MEMORY, f\<lparr>h_collision := h_collision f + 1\<rparr>)"
        using False assms(1) \<open>fh_find_slot ch k mh = Some s\<close> None none
        by (simp add: fh_insert_locked_def fh_inc_collision_def)
      with none(2) show ?thesis by blast
    next
      case (Some q)
      with False assms(1,4) \<open>fh_find_slot ch k mh = Some s\<close> show ?thesis
        by (simp add: fh_insert_locked_def)
    qed
  qed
qed

lemma fh_insert_ptr_spec:
  fixes f :: "'p fh"
  assumes r: "fh_ready f" and dc: "dont_copy_key f" and dl: "h_datalen f = FH_DATALEN_VOIDP"
  shows "\<exists>rc f'. fh_insert (Some f) (Some k) (Some (p, [])) al = Some (rc, Some f') \<and>
    fh_ready f' \<and> fh_conf f' = fh_conf f \<and>
    (if k \<in> dom (fh_map f) then rc = FH_DUPLICATED_ELEMENT \<and> fh_map f' = fh_map f
     else rc = FH_NO_MEMORY \<and> \<not> (a_bucket al \<and> a_chain al) \<and> fh_map f' = fh_map f \<or>
       0 \<le> rc \<and> fh_map f' = (fh_map f)(k \<mapsto> Some (OPtr p)))"
proof -
  let ?idx = "fh_key_index f k" and ?mh = "make_minihash (hash_function f k)"
  from r have ok: "fh_table_ok f" and un: "fh_unlocked f" and el: "h_elements f = int (fh_size f)"
    by (simp_all add: fh_ready_def fh_inv_def)
  obtain l where
    l: "fh_lock f ?idx = Some (f\<lparr>h_held := (h_held f)[l := True]\<rparr>)"
      "\<And>g :: 'p fh. n_lock g = n_lock f \<Longrightarrow> h_held g = (h_held f)[l := True] \<Longrightarrow>
        fh_unlock g ?idx = Some (g\<lparr>h_held := h_held f\<rparr>)"
    by (rule fh_lock_unlocked [OF ok un fh_index_range(1) [OF ok, of k]]) (rule that)
  let ?f1 = "f\<lparr>h_held := (h_held f)[l := True]\<rparr>"
  have ok1: "fh_table_ok ?f1" using ok by (rule held_table_ok) simp
  have idx: "fh_index f (hash_function f k) = ?idx" by (simp add: fh_key_index_def)
  have v: "blk_obj (h_datalen f) (Some (p, [])) (a_obj all_ok) = Some (Some (Some (OPtr p)))"
    by (simp add: blk_obj_def fh_new_obj_def dl FH_DATALEN_VOIDP_def)
  from fh_insert_spec [OF r _ _ _ v, of k] obtain f' where
    f': "fh_insert (Some f) (Some k) (Some (p, [])) all_ok =
        Some (if k \<in> dom (fh_map f) then FH_DUPLICATED_ELEMENT else ?idx, Some f')"
      "fh_ready f'" "fh_conf f' = fh_conf f"
      "fh_map f' = (if k \<in> dom (fh_map f) then fh_map f else (fh_map f)(k \<mapsto> Some (OPtr p)))"
    by (auto simp: all_ok_def)
  from f'(1) l(1) fh_ready_bad [OF r] obtain res where
    res: "fh_insert_locked ?f1 k (Some (p, [])) all_ok ?idx ?mh = Some res"
    by (auto simp: fh_insert_def idx Let_def bind_Some_iff)
  have "dont_copy_key ?f1" "h_datalen ?f1 = FH_DATALEN_VOIDP"
    using dc dl by (simp_all add: dont_copy_key_def)
  moreover have "fh_chain ?f1 ?idx = Some (hash_table f ! nat ?idx)"
    using fh_chain_key(1) [OF ok1, of k] by simp
  ultimately consider
      (same) "fh_insert_locked ?f1 k (Some (p, [])) al ?idx ?mh = Some res"
    | (fail) n where "\<not> (a_bucket al \<and> a_chain al)"
        "fh_insert_locked ?f1 k (Some (p, [])) al ?idx ?mh = Some (Inl FH_NO_MEMORY, ?f1\<lparr>h_collision := n\<rparr>)"
    using fh_insert_locked_ptr [OF _ _ _ res, of _ al] by blast
  then show ?thesis
  proof cases
    case same
    then have "fh_insert (Some f) (Some k) (Some (p, [])) al = fh_insert (Some f) (Some k) (Some (p, [])) all_ok"
      using l(1) res by (simp add: fh_insert_def idx Let_def)
    with f' fh_index_range(1) [OF ok, of k] show ?thesis
      by (cases "k \<in> dom (fh_map f)") auto
  next
    case fail
    let ?g = "f\<lparr>h_collision := n\<rparr>"
    have u: "fh_unlock (?f1\<lparr>h_collision := n\<rparr>) ?idx = Some ?g"
      using l(2) [of "?f1\<lparr>h_collision := n\<rparr>"] by simp
    have "fh_insert (Some f) (Some k) (Some (p, [])) al = Some (FH_NO_MEMORY, Some ?g)"
      using l(1) fail(2) u fh_ready_bad [OF r] by (simp add: fh_insert_def idx Let_def)
    moreover have "fh_table_ok ?g" "fh_size ?g = fh_size f" "fh_map ?g = fh_map f"
      using fh_same_table [OF ok, of ?g] by (simp_all add: fh_conf_def)
    then have "fh_ready ?g" "fh_conf ?g = fh_conf f" "fh_map ?g = fh_map f"
      using un el by (simp_all add: fh_ready_def fh_inv_def fh_unlocked_def fh_conf_def)
    moreover have "k \<notin> dom (fh_map f)"
      using fail(2) fh_insert_locked_duplicate [OF ok1, of k "Some (p, [])" al]
      by (auto simp: FH_NO_MEMORY_def FH_DUPLICATED_ELEMENT_def)
    ultimately show ?thesis using fail(1) by auto
  qed
qed

section \<open>The invariant\<close>

definition key_at :: "'v lru \<Rightarrow> nat \<Rightarrow> cstr" where
  "key_at c i = (case lp_key (pl (lru_ll c) i) of KStr k \<Rightarrow> k | _ \<Rightarrow> CStr [])"

definition items_at :: "'v lru \<Rightarrow> nat list \<Rightarrow> (cstr \<times> 'v) list" where
  "items_at c xs = map (\<lambda>i. (key_at c i, lp_payload (pl (lru_ll c) i))) xs"

text \<open>\<open>lru_state c fs xs\<close>: the slots \<open>xs\<close> of the list hold distinct keys and know where they are,
  and the table maps these keys, and no others, to their payload blocks.\<close>

definition lru_state :: "'v lru \<Rightarrow> nat list \<Rightarrow> nat list \<Rightarrow> bool" where
  "lru_state c fs xs \<longleftrightarrow>
     lru_magic c = LRU_MAGIC_ID \<and> lru_size c = ll_size (lru_ll c) \<and> 0 < lru_size c \<and>
     fh_ready (lru_fh c) \<and> h_datalen (lru_fh c) = FH_DATALEN_VOIDP \<and> dont_copy_key (lru_fh c) \<and>
     ll_inv (lru_ll c) fs xs \<and>
     (\<forall>i \<in> set xs. lp_slot (pl (lru_ll c) i) = i \<and> lp_key (pl (lru_ll c) i) = KStr (key_at c i)) \<and>
     distinct (map (key_at c) xs) \<and>
     fh_map (lru_fh c) = map_of (map (\<lambda>i. (key_at c i, Some (OPtr i))) xs)"

text \<open>Between calls no slot is dangling.\<close>

definition lru_inv :: "'v lru \<Rightarrow> bool" where
  "lru_inv c \<longleftrightarrow> (\<exists>fs xs. lru_state c fs xs \<and> length fs + length xs = nat (lru_size c))"

text \<open>The slots of the list, least recently used first, found by following the links.\<close>

definition lru_slots :: "'v lru \<Rightarrow> nat list" where
  "lru_slots c = the (ll_print_loop (lru_ll c) (ll_last (lru_ll c)) (nat (lru_size c)))"

definition lru_items :: "'v lru \<Rightarrow> (cstr \<times> 'v) list" where
  "lru_items c = items_at c (lru_slots c)"

lemma lru_state_ll: "lru_state c fs xs \<Longrightarrow> ll_inv (lru_ll c) fs xs"
  by (simp add: lru_state_def)

lemma ll_inv_card:
  assumes "ll_inv l fs xs"
  shows "length fs + length xs \<le> nat (ll_size l)"
    and "length fs + length xs = nat (ll_size l) \<Longrightarrow> int i < ll_size l \<Longrightarrow> i \<in> set fs \<union> set xs"
proof -
  from assms have lt: "\<forall>i \<in> set fs \<union> set xs. int i < ll_size l" and d: "distinct (fs @ xs)"
    by (simp_all add: ll_inv_def ll_core_def)
  have sub: "set (fs @ xs) \<subseteq> {..<nat (ll_size l)}"
    using lt by (auto simp: zless_nat_eq_int_zless)
  have card: "card (set (fs @ xs)) = length fs + length xs" using distinct_card [OF d] by simp
  with card_mono [OF _ sub] show "length fs + length xs \<le> nat (ll_size l)" by simp
  assume "length fs + length xs = nat (ll_size l)" and i: "int i < ll_size l"
  then have "set (fs @ xs) = {..<nat (ll_size l)}"
    using card by (intro card_subset_eq sub) simp_all
  with i show "i \<in> set fs \<union> set xs" by auto
qed

lemma ll_inv_slots:
  assumes s: "ll_inv (lru_ll c) fs xs" and z: "lru_size c = ll_size (lru_ll c)"
  shows "lru_slots c = xs"
proof -
  from s have c: "ll_core (lru_ll c) fs xs" by (simp add: ll_inv_def)
  from c have d: "dl (nx (lru_ll c)) (pv (lru_ll c)) None xs None" "\<forall>i \<in> set xs. int i < ll_size (lru_ll c)"
    "ll_last (lru_ll c) = fst_or xs None"
    by (simp_all add: ll_core_def)
  have "length xs \<le> nat (lru_size c)"
    using ll_inv_card(1) [OF s] z by simp
  with ll_print_loop_spec [OF d(1,2)] d(3) show ?thesis by (simp add: lru_slots_def)
qed

lemma lru_state_slots: "lru_state c fs xs \<Longrightarrow> lru_slots c = xs"
  using ll_inv_slots [of c fs xs] by (simp add: lru_state_def)

lemma lru_state_items: "lru_state c fs xs \<Longrightarrow> lru_items c = items_at c xs"
  by (simp add: lru_items_def lru_state_slots)

lemma items_keys [simp]: "map fst (items_at c xs) = map (key_at c) xs" "length (items_at c xs) = length xs"
  by (simp_all add: items_at_def comp_def)

lemma lru_state_dom: "lru_state c fs xs \<Longrightarrow> dom (fh_map (lru_fh c)) = key_at c ` set xs"
  by (simp add: lru_state_def dom_map_of_conv_image_fst image_image)

lemma lru_state_map:
  assumes "lru_state c fs xs" and "i \<in> set xs"
  shows "fh_map (lru_fh c) (key_at c i) = Some (Some (OPtr i))"
proof -
  from assms(1) have "distinct (map fst (map (\<lambda>i. (key_at c i, Some (OPtr i))) xs))"
    by (simp add: lru_state_def comp_def)
  then have "map_of (map (\<lambda>i. (key_at c i, Some (OPtr i))) xs) (key_at c i) = Some (Some (OPtr i))"
    using assms(2) by (intro map_of_is_SomeI) auto
  with assms(1) show ?thesis by (simp add: lru_state_def)
qed

text \<open>The state after a change of the payload blocks of slots outside the list.\<close>

lemma key_at_cong: "pl (lru_ll c') i = pl (lru_ll c) i \<Longrightarrow> key_at c' i = key_at c i"
  by (simp add: key_at_def)

lemma items_at_cong:
  "(\<And>i. i \<in> set xs \<Longrightarrow> pl (lru_ll c') i = pl (lru_ll c) i) \<Longrightarrow> items_at c' xs = items_at c xs"
  by (simp add: items_at_def key_at_def)

definition lru_conf :: "'v lru \<Rightarrow> int \<times> int" where
  "lru_conf c = (lru_magic c, lru_size c)"

lemma lru_state_change:
  assumes s: "lru_state c fs xs" and conf: "lru_conf c' = lru_conf c" and size: "ll_size (lru_ll c') = ll_size (lru_ll c)"
    and f: "fh_ready (lru_fh c')" "fh_conf (lru_fh c') = fh_conf (lru_fh c)"
    and ll: "ll_inv (lru_ll c') fs' xs'"
    and keys: "distinct (map (key_at c') xs')"
    and pls: "\<And>i. i \<in> set xs' \<Longrightarrow> lp_slot (pl (lru_ll c') i) = i \<and> lp_key (pl (lru_ll c') i) = KStr (key_at c' i)"
    and map: "fh_map (lru_fh c') = map_of (map (\<lambda>i. (key_at c' i, Some (OPtr i))) xs')"
  shows "lru_state c' fs' xs'"
proof -
  have "h_datalen (lru_fh c') = h_datalen (lru_fh c)" "dont_copy_key (lru_fh c') = dont_copy_key (lru_fh c)"
    using f(2) by (simp_all add: fh_conf_def dont_copy_key_def)
  moreover have "lru_magic c' = LRU_MAGIC_ID" "lru_size c' = ll_size (lru_ll c')" "0 < lru_size c'"
    "h_datalen (lru_fh c) = FH_DATALEN_VOIDP" "dont_copy_key (lru_fh c)"
    using s conf size by (simp_all add: lru_state_def lru_conf_def)
  ultimately show ?thesis
    unfolding lru_state_def using f(1) ll keys pls map by (intro conjI ballI) simp_all
qed

text \<open>The same table and the same entries in the list, with other slots.\<close>

lemma lru_state_same:
  assumes s: "lru_state c fs xs" and conf: "lru_conf c' = lru_conf c" and size: "ll_size (lru_ll c') = ll_size (lru_ll c)"
    and f: "fh_ready (lru_fh c')" "fh_conf (lru_fh c') = fh_conf (lru_fh c)" "fh_map (lru_fh c') = fh_map (lru_fh c)"
    and ll: "ll_inv (lru_ll c') fs' xs"
    and pls: "\<And>i. i \<in> set xs \<Longrightarrow> pl (lru_ll c') i = pl (lru_ll c) i"
  shows "lru_state c' fs' xs" and "items_at c' xs = items_at c xs"
proof -
  have k: "key_at c' i = key_at c i" if "i \<in> set xs" for i using pls [OF that] by (rule key_at_cong)
  have m: "map (key_at c') xs = map (key_at c) xs"
    "map (\<lambda>i. (key_at c' i, Some (OPtr i))) xs = map (\<lambda>i. (key_at c i, Some (OPtr i))) xs"
    using k by simp_all
  show "lru_state c' fs' xs"
    using s k pls by (intro lru_state_change [OF s conf size f(1,2) ll]) (auto simp: m f(3) lru_state_def)
  show "items_at c' xs = items_at c xs" using pls by (rule items_at_cong)
qed

section \<open>Slots that come and go\<close>

lemma ll_inv_payload [simp]: "ll_inv (set_payload l i x) fs xs = ll_inv l fs xs"
  by (simp add: ll_inv_def ll_core_def)

lemma s_payload_pl: "s_payload (ll_slots l i) = pl l i"
  by (simp add: pl_def)

lemma lru_drop_spec:
  assumes "ll_inv (lru_ll c) fs xs" and i: "int i < ll_size (lru_ll c)" "i \<notin> set fs" "i \<notin> set xs"
    and k: "lp_key (pl (lru_ll c) i) \<noteq> KFreed"
  shows "\<exists>l. lru_drop c i = Some (c\<lparr>lru_ll := l\<rparr>) \<and> ll_inv l (i # fs) xs \<and>
    (\<forall>j. j \<noteq> i \<longrightarrow> pl l j = pl (lru_ll c) j) \<and> ll_size l = ll_size (lru_ll c)"
proof -
  let ?l = "set_payload (lru_ll c) i ((pl (lru_ll c) i)\<lparr>lp_key := KFreed\<rparr>)"
  have "ll_inv ?l fs xs" using assms(1) by simp
  from ll_slot_free_spec [OF this, of i] i obtain l where
    l: "ll_slot_free (Some ?l) (Some i) = Some (Some l)" "ll_inv l (i # fs) xs" "pl l = pl ?l"
      "ll_size l = ll_size ?l" by auto
  have "lru_free_key (lru_ll c) i = Some ?l"
    using k by (simp add: lru_free_key_def Let_def s_payload_pl)
  with l show ?thesis by (intro exI [of _ l]) (simp add: lru_drop_def)
qed

text \<open>The least recently used entry leaves the list and the table.\<close>

lemma lru_evict_spec:
  assumes s: "lru_state c fs (j # xs)"
  shows "\<exists>l2 rc c2 c3. ll_remove_last (Some (lru_ll c)) = Some (Some j, Some l2) \<and>
    lru_fh_del (c\<lparr>lru_ll := l2\<rparr>) (lp_key (s_payload (ll_slots l2 j))) = Some (rc, c2) \<and> 0 \<le> rc \<and>
    lru_drop c2 j = Some c3 \<and> lru_state c3 (j # fs) xs \<and> items_at c3 xs = items_at c xs \<and>
    lru_conf c3 = lru_conf c \<and> ll_size (lru_ll c3) = ll_size (lru_ll c)"
proof -
  from s have inv: "ll_inv (lru_ll c) fs (j # xs)" and r: "fh_ready (lru_fh c)" by (simp_all add: lru_state_def)
  from ll_remove_last_spec [OF inv] obtain l2 where
    l2: "ll_remove_last (Some (lru_ll c)) = Some (Some j, Some l2)" "ll_inv l2 fs xs" "pl l2 = pl (lru_ll c)"
      "ll_size l2 = ll_size (lru_ll c)" by blast
  from inv have j: "int j < ll_size l2" "j \<notin> set fs" "j \<notin> set xs"
    using l2(4) by (auto simp: ll_inv_def ll_core_def)
  from s have k: "lp_key (pl l2 j) = KStr (key_at c j)" and dist: "distinct (map (key_at c) (j # xs))"
    and map: "fh_map (lru_fh c) = map_of (map (\<lambda>i. (key_at c i, Some (OPtr i))) (j # xs))"
    by (simp_all add: lru_state_def l2(3))
  have "key_at c j \<in> dom (fh_map (lru_fh c))" by (simp add: lru_state_dom [OF s])
  with fh_del_spec [OF r, of "key_at c j"] obtain f2 where
    f2: "fh_del (Some (lru_fh c)) (Some (key_at c j)) = Some (fh_key_index (lru_fh c) (key_at c j), Some f2)"
      "fh_ready f2" "fh_conf f2 = fh_conf (lru_fh c)" "fh_map f2 = (fh_map (lru_fh c))(key_at c j := None)"
    by auto
  let ?c2 = "c\<lparr>lru_ll := l2, lru_fh := f2\<rparr>"
  have del: "lru_fh_del (c\<lparr>lru_ll := l2\<rparr>) (lp_key (s_payload (ll_slots l2 j))) =
      Some (fh_key_index (lru_fh c) (key_at c j), ?c2)"
    using f2(1) k by (simp add: lru_fh_del_def s_payload_pl)
  have "fh_table_ok (lru_fh c)" using r by (simp add: fh_ready_def fh_inv_def)
  then have pos: "0 \<le> fh_key_index (lru_fh c) (key_at c j)" by (rule fh_index_range(1))
  from lru_drop_spec [of ?c2 fs xs j] l2(2) j k obtain l3 where
    l3: "lru_drop ?c2 j = Some (?c2\<lparr>lru_ll := l3\<rparr>)" "ll_inv l3 (j # fs) xs"
      "\<forall>i. i \<noteq> j \<longrightarrow> pl l3 i = pl l2 i" "ll_size l3 = ll_size l2" by auto
  let ?c3 = "c\<lparr>lru_fh := f2, lru_ll := l3\<rparr>"
  have pls: "pl (lru_ll ?c3) i = pl (lru_ll c) i" if "i \<in> set xs" for i
    using that j(3) l3(3) l2(3) by auto
  have keys: "key_at ?c3 i = key_at c i" if "i \<in> set xs" for i using pls [OF that] by (rule key_at_cong)
  have m: "map (key_at ?c3) xs = map (key_at c) xs"
    "map (\<lambda>i. (key_at ?c3 i, Some (OPtr i))) xs = map (\<lambda>i. (key_at c i, Some (OPtr i))) xs"
    using keys by simp_all
  have "fh_map f2 = map_of (map (\<lambda>i. (key_at c i, Some (OPtr i))) xs)"
  proof -
    have "map_of (map (\<lambda>i. (key_at c i, Some (OPtr i))) xs) (key_at c j) = None"
      using dist by (auto simp: map_of_eq_None_iff)
    then show ?thesis by (auto simp: f2(4) map fun_eq_iff)
  qed
  then have "lru_state ?c3 (j # fs) xs"
    using s keys pls dist l2(4) l3 f2(2,3)
    by (intro lru_state_change [OF s]) (auto simp: m lru_conf_def lru_state_def)
  moreover have "items_at ?c3 xs = items_at c xs" using pls by (rule items_at_cong)
  moreover have "lru_drop ?c2 j = Some ?c3" using l3(1) by simp
  moreover have "lru_conf ?c3 = lru_conf c" "ll_size (lru_ll ?c3) = ll_size (lru_ll c)"
    using l2(4) l3(4) by (simp_all add: lru_conf_def)
  ultimately show ?thesis using l2(1) del pos by blast
qed

lemma lru_take_slot_spec:
  assumes s: "lru_state c fs xs" and all: "length fs + length xs = nat (lru_size c)"
  shows "\<exists>i c1 fs1 xs1. lru_take_slot c = Some (Some i, c1) \<and> lru_state c1 fs1 xs1 \<and>
    i \<notin> set fs1 \<and> i \<notin> set xs1 \<and> int i < ll_size (lru_ll c1) \<and>
    nx (lru_ll c1) i = None \<and> pv (lru_ll c1) i = None \<and>
    Suc (length fs1 + length xs1) = nat (lru_size c) \<and> lru_conf c1 = lru_conf c \<and>
    items_at c1 xs1 = (if length xs = nat (lru_size c) then tl (items_at c xs) else items_at c xs)"
proof -
  have free: "\<exists>c1. lru_take_slot c = Some (Some i, c1) \<and> lru_state c1 fs xs \<and>
      i \<notin> set fs \<and> i \<notin> set xs \<and> int i < ll_size (lru_ll c1) \<and>
      nx (lru_ll c1) i = None \<and> pv (lru_ll c1) i = None \<and> lru_conf c1 = lru_conf c \<and>
      items_at c1 xs = items_at c xs"
    if s: "lru_state c (i # fs) xs" for c :: "'a lru" and i fs xs
  proof -
    from lru_state_ll [OF s] have inv: "ll_inv (lru_ll c) (i # fs) xs" .
    from ll_slot_new_spec [OF inv] obtain l where
      l: "ll_slot_new (Some (lru_ll c)) = Some (Some i, Some l)" "ll_inv l fs xs" "nx l i = None"
        "pv l i = None" "pl l = pl (lru_ll c)" "ll_size l = ll_size (lru_ll c)" by blast
    let ?c1 = "c\<lparr>lru_ll := l\<rparr>"
    have "lru_state ?c1 fs xs" "items_at ?c1 xs = items_at c xs"
      using s l by (intro lru_state_same [OF s]; simp add: lru_conf_def lru_state_def)+
    moreover have "lru_take_slot c = Some (Some i, ?c1)"
      using l(1) by (subst lru_take_slot.simps) simp
    moreover have "i \<notin> set fs" "i \<notin> set xs" "int i < ll_size l"
      using inv l(6) by (auto simp: ll_inv_def ll_core_def)
    ultimately show ?thesis using l by (auto simp: lru_conf_def)
  qed
  show ?thesis
  proof (cases fs)
    case (Cons i fs')
    with s have "lru_state c (i # fs') xs" by simp
    from free [OF this] all Cons show ?thesis by fastforce
  next
    case Nil
    from s all Nil obtain j ys where xs: "xs = j # ys"
      by (cases xs) (auto simp: lru_state_def)
    with s Nil have "lru_state c [] (j # ys)" by simp
    from lru_evict_spec [OF this] obtain l2 rc c2 c3 where
      e: "ll_remove_last (Some (lru_ll c)) = Some (Some j, Some l2)"
        "lru_fh_del (c\<lparr>lru_ll := l2\<rparr>) (lp_key (s_payload (ll_slots l2 j))) = Some (rc, c2)"
        "lru_drop c2 j = Some c3" "lru_state c3 [j] ys" "items_at c3 ys = items_at c ys"
        "lru_conf c3 = lru_conf c" by auto
    have "ll_slot_new (Some (lru_ll c)) = Some (None, Some (lru_ll c))"
      using lru_state_ll [OF s] Nil ll_slot_new_empty by blast
    then have "lru_take_slot c = lru_take_slot c3"
      using e(1-3) by (subst lru_take_slot.simps) simp
    moreover have "items_at c ys = tl (items_at c xs)" by (simp add: xs items_at_def)
    moreover have "Suc (length ys) = nat (lru_size c)" using all Nil xs by simp
    moreover from free [OF e(4)] obtain c1 where
      "lru_take_slot c3 = Some (Some j, c1)" "lru_state c1 [] ys"
      "j \<notin> set ys" "int j < ll_size (lru_ll c1)"
      "nx (lru_ll c1) j = None" "pv (lru_ll c1) j = None" "lru_conf c1 = lru_conf c3"
      "items_at c1 ys = items_at c3 ys" by blast
    ultimately show ?thesis using e(5,6) xs
      by (intro exI [of _ j] exI [of _ c1] exI [of _ "[]"] exI [of _ ys]) simp
  qed
qed

lemma lru_clear_loop_spec:
  "lru_state c fs xs \<Longrightarrow>
     \<exists>c1. lru_clear_loop c = Some (LRU_OK, c1) \<and> lru_state c1 (rev xs @ fs) [] \<and> lru_conf c1 = lru_conf c"
proof (induction xs arbitrary: c fs)
  case Nil
  then have "ll_remove_last (Some (lru_ll c)) = Some (None, Some (lru_ll c))"
    using lru_state_ll ll_remove_last_empty by blast
  with Nil show ?case by (subst lru_clear_loop.simps) simp
next
  case (Cons j xs)
  from lru_evict_spec [OF Cons.prems] obtain l2 rc c2 c3 where
    e: "ll_remove_last (Some (lru_ll c)) = Some (Some j, Some l2)"
      "lru_fh_del (c\<lparr>lru_ll := l2\<rparr>) (lp_key (s_payload (ll_slots l2 j))) = Some (rc, c2)" "0 \<le> rc"
      "lru_drop c2 j = Some c3" "lru_state c3 (j # fs) xs" "lru_conf c3 = lru_conf c" by blast
  have "lru_clear_loop c = lru_clear_loop c3"
    using e(1-4) by (subst lru_clear_loop.simps) simp
  with Cons.IH [OF e(5)] e(6) show ?case by simp
qed

end
