(* ===== verification/LruThreadsInv.thy ===== *)
theory LruThreadsInv
  imports LruThreads LruInv FhHeld
begin

text \<open>
  The invariant of the cache under several threads: each slot is in the free list, in the list or
  in the hands of one frame; the table maps the keys of the slots of the list, and of those on
  their way into or out of it, to these slots; the locks held are those of the lookups under way;
  and what the steps have shown so far is a run of a map.
\<close>

section \<open>What frames own\<close>

fun fr_slots :: "'v lru_frame \<Rightarrow> nat multiset" where
  "fr_slots (DelOld k v i) = {#i#}"
| "fr_slots (FreeOld k v i) = {#i#}"
| "fr_slots (FillNew k v i) = {#i#}"
| "fr_slots (InsertNew k v i) = {#i#}"
| "fr_slots (DropNew i rc) = {#i#}"
| "fr_slots (TopNew i) = {#i#}"
| "fr_slots (DelAll i) = {#i#}"
| "fr_slots (FreeAll i) = {#i#}"
| "fr_slots fr = {#}"

text \<open>Slots that are not in the list while the table has their key.\<close>

fun fr_known :: "'v lru_frame \<Rightarrow> nat set" where
  "fr_known (DelOld k v i) = {i}"
| "fr_known (TopNew i) = {i}"
| "fr_known (DelAll i) = {i}"
| "fr_known fr = {}"

text \<open>The key whose lock a frame holds.\<close>

fun fr_key :: "'v lru_frame \<Rightarrow> cstr option" where
  "fr_key (ReadHit k i s) = Some k"
| "fr_key (MoveTop k v i s) = Some k"
| "fr_key (Release k v s) = Some k"
| "fr_key fr = None"

definition slots_of :: "'v lru_frame multiset \<Rightarrow> nat multiset" where
  "slots_of M = (\<Sum>fr \<in># M. fr_slots fr)"

definition known_of :: "'v lru_frame multiset \<Rightarrow> nat set" where
  "known_of M = (\<Union>fr \<in> set_mset M. fr_known fr)"

lemma of_simps [simp]:
  "slots_of {#} = {#}" "slots_of (add_mset fr M) = fr_slots fr + slots_of M" "slots_of (M + N) = slots_of M + slots_of N"
  "known_of {#} = {}" "known_of (add_mset fr M) = fr_known fr \<union> known_of M" "known_of (M + N) = known_of M \<union> known_of N"
  by (simp_all add: slots_of_def known_of_def)

lemma fr_known_slots: "i \<in> fr_known fr \<Longrightarrow> i \<in># fr_slots fr"
  by (cases fr) auto

lemma known_slots: "i \<in> known_of M \<Longrightarrow> i \<in># slots_of M"
  by (induction M) (auto dest: fr_known_slots)

lemma member_slots: "fr \<in># M \<Longrightarrow> i \<in># fr_slots fr \<Longrightarrow> i \<in># slots_of M"
  by (induction M) auto

section \<open>The specification\<close>

text \<open>A map from keys to payloads, and what each event requires of it and does to it.\<close>

fun cache_event :: "(cstr \<rightharpoonup> 'v) \<Rightarrow> 'v lru_event \<Rightarrow> (cstr \<rightharpoonup> 'v) option" where
  "cache_event m (Inserted k v) = (if m k = None then Some (m(k \<mapsto> v)) else None)"
| "cache_event m (Removed k) = (if m k \<noteq> None then Some (m(k := None)) else None)"
| "cache_event m (Present k) = (if m k \<noteq> None then Some m else None)"
| "cache_event m (Hit k v) = (if m k = Some v then Some m else None)"
| "cache_event m (Missed k) = (if m k = None then Some m else None)"
| "cache_event m ev = Some m"

fun cache_replay :: "(cstr \<rightharpoonup> 'v) \<Rightarrow> 'v lru_event list \<Rightarrow> (cstr \<rightharpoonup> 'v) option" where
  "cache_replay m [] = Some m"
| "cache_replay m (ev # evs) = do { m1 \<leftarrow> cache_event m ev; cache_replay m1 evs }"

lemma cache_replay_snoc:
  "cache_replay m (evs @ [ev]) = Option.bind (cache_replay m evs) (\<lambda>m1. cache_event m1 ev)"
  by (induction evs arbitrary: m) (simp_all add: Option.bind_assoc)

definition lru_contents :: "'v lru \<Rightarrow> cstr \<rightharpoonup> 'v" where
  "lru_contents c k =
     (case fh_map (lru_fh c) k of Some (Some (OPtr i)) \<Rightarrow> Some (lp_payload (pl (lru_ll c) i)) | _ \<Rightarrow> None)"

text \<open>What a call returns: the codes of a call that has its arguments, and payloads that were read.\<close>

fun event_ok :: "'v lru_event list \<Rightarrow> 'v lru_event \<Rightarrow> bool" where
  "event_ok evs (Returned rc) = (rc \<in> {LRU_OK, LRU_NO_MEMORY, LRU_DUPLICATED_ELEMENT})"
| "event_ok evs (Found k v) = (Hit k v \<in> set evs)"
| "event_ok evs ev = True"

lemma event_ok_more: "event_ok evs ev \<Longrightarrow> event_ok (evs @ [ev']) ev"
  by (cases ev) auto

section \<open>The invariant\<close>

text \<open>What a frame has done to its slot, or knows under its lock.\<close>

fun fr_ok :: "'v lru \<Rightarrow> 'v lru_event list \<Rightarrow> 'v lru_frame \<Rightarrow> bool" where
  "fr_ok c evs (FreeOld k v i) = (\<exists>k'. lp_key (pl (lru_ll c) i) = KStr k')"
| "fr_ok c evs (FreeAll i) = (\<exists>k'. lp_key (pl (lru_ll c) i) = KStr k')"
| "fr_ok c evs (DropNew i rc) = ((\<exists>k'. lp_key (pl (lru_ll c) i) = KStr k') \<and> rc \<in> {LRU_NO_MEMORY, LRU_DUPLICATED_ELEMENT})"
| "fr_ok c evs (FillNew k v i) = (nx (lru_ll c) i = None \<and> pv (lru_ll c) i = None)"
| "fr_ok c evs (InsertNew k v i) =
     (nx (lru_ll c) i = None \<and> pv (lru_ll c) i = None \<and> pl (lru_ll c) i = \<lparr>lp_payload = v, lp_slot = i, lp_key = KStr k\<rparr>)"
| "fr_ok c evs (TopNew i) = (nx (lru_ll c) i = None \<and> pv (lru_ll c) i = None)"
| "fr_ok c evs (ReadHit k i s) = (s = fh_key_index (lru_fh c) k \<and> fh_map (lru_fh c) k = Some (Some (OPtr i)))"
| "fr_ok c evs (MoveTop k v i s) =
     (s = fh_key_index (lru_fh c) k \<and> fh_map (lru_fh c) k = Some (Some (OPtr i)) \<and> Hit k v \<in> set evs)"
| "fr_ok c evs (Release k v s) = (s = fh_key_index (lru_fh c) k \<and> Hit k v \<in> set evs)"
| "fr_ok c evs fr = True"

definition lt_slots :: "'v lru \<Rightarrow> nat list \<Rightarrow> nat list \<Rightarrow> 'v lru_frame multiset \<Rightarrow> bool" where
  "lt_slots c fs xs M \<longleftrightarrow>
     lru_magic c = LRU_MAGIC_ID \<and> lru_size c = ll_size (lru_ll c) \<and> 0 < lru_size c \<and>
     fh_inv (lru_fh c) \<and> h_datalen (lru_fh c) = FH_DATALEN_VOIDP \<and> dont_copy_key (lru_fh c) \<and>
     ll_inv (lru_ll c) fs xs \<and>
     mset fs + mset xs + slots_of M = mset_set {..<nat (lru_size c)}"

definition lt_map :: "'v lru \<Rightarrow> nat set \<Rightarrow> bool" where
  "lt_map c P \<longleftrightarrow>
     (\<forall>i \<in> P. lp_slot (pl (lru_ll c) i) = i \<and> lp_key (pl (lru_ll c) i) = KStr (key_at c i)) \<and>
     (\<forall>k x. fh_map (lru_fh c) k = Some x \<longleftrightarrow> (\<exists>i \<in> P. key_at c i = k \<and> x = Some (OPtr i)))"

definition lt_inv :: "nat list \<Rightarrow> nat list \<Rightarrow> 'v lru \<Rightarrow> 'v lru \<Rightarrow> 'v lru_frame multiset \<Rightarrow> 'v lru_event list \<Rightarrow> bool" where
  "lt_inv fs xs c0 c M evs \<longleftrightarrow>
     lt_slots c fs xs M \<and> lt_map c (set xs \<union> known_of M) \<and> locks_ok fr_key (lru_fh c) M \<and> (\<forall>fr \<in># M. fr_ok c evs fr) \<and>
     lru_conf c = lru_conf c0 \<and> cache_replay (lru_contents c0) evs = Some (lru_contents c) \<and>
     (\<forall>ev \<in> set evs. event_ok evs ev)"

definition lt_ok :: "'v lru \<Rightarrow> 'v lru \<Rightarrow> 'v lru_frame multiset \<Rightarrow> 'v lru_event list \<Rightarrow> bool" where
  "lt_ok c0 c M evs \<longleftrightarrow> (\<exists>fs xs. lt_inv fs xs c0 c M evs)"

section \<open>Consequences\<close>

lemma mset_set_disjoint:
  assumes "A + B = mset_set D" and "i \<in># A"
  shows "i \<notin># B" and "finite D \<Longrightarrow> i \<in> D"
proof -
  have le: "count (A + B) i \<le> 1" unfolding assms(1) by (cases "finite D") (simp_all add: count_mset_set')
  moreover have "1 \<le> count A i" using assms(2) by (simp add: Suc_le_eq)
  ultimately have "count B i = 0" unfolding count_union by linarith
  then show "i \<notin># B" by (simp add: not_in_iff)
  show "finite D \<Longrightarrow> i \<in> D" using assms by (metis elem_mset_set union_iff)
qed

lemma lt_own:
  assumes "lt_slots c fs xs (add_mset fr N)" and "i \<in># fr_slots fr"
  shows "int i < ll_size (lru_ll c)" and "i \<notin> set fs" and "i \<notin> set xs" and "i \<notin># slots_of N"
proof -
  from assms(1) have e: "fr_slots fr + (mset fs + mset xs + slots_of N) = mset_set {..<nat (lru_size c)}"
    and z: "lru_size c = ll_size (lru_ll c)"
    by (simp_all add: lt_slots_def ac_simps)
  from mset_set_disjoint [OF e assms(2)] show "i \<notin> set fs" "i \<notin> set xs" "i \<notin># slots_of N" by simp_all
  from mset_set_disjoint(2) [OF e assms(2)] z show "int i < ll_size (lru_ll c)" by (simp add: zless_nat_eq_int_zless)
qed

lemma lt_listed:
  assumes "lt_slots c fs xs M" and "i \<in> set fs \<union> set xs"
  shows "i \<notin># slots_of M"
proof -
  from assms(1) have e: "(mset fs + mset xs) + slots_of M = mset_set {..<nat (lru_size c)}"
    by (simp add: lt_slots_def)
  show ?thesis by (rule mset_set_disjoint(1) [OF e]) (use assms(2) in auto)
qed

text \<open>The key of a slot that the table knows.\<close>

lemma lt_known:
  assumes "lt_map c P" and "i \<in> P"
  shows "slot_key c i = KStr (key_at c i)" and "fh_map (lru_fh c) (key_at c i) = Some (Some (OPtr i))"
  using assms by (auto simp: lt_map_def slot_key_def pl_def)

lemma lt_key_inj:
  assumes "\<And>i. i \<in> P \<Longrightarrow> fh_map (lru_fh c) (key_at c i) = Some (Some (OPtr i))"
    and "i \<in> P" and "j \<in> P" and "key_at c i = key_at c j"
  shows "i = j"
proof -
  have "Some (Some (OPtr i)) = fh_map (lru_fh c) (key_at c j)" 
    using assms(1) [OF assms(2)] unfolding assms(4) by (rule sym)
  also have "\<dots> = Some (Some (OPtr j))" using assms(1) [OF assms(3)] .
  finally show ?thesis by simp
qed

lemma lt_map_cong:
  assumes "lt_map c P" and "fh_map (lru_fh c') = fh_map (lru_fh c)" and "\<And>i. i \<in> P \<Longrightarrow> pl (lru_ll c') i = pl (lru_ll c) i"
    and "P' = P"
  shows "lt_map c' P'" and "lru_contents c' = lru_contents c"
proof -
  have "key_at c' i = key_at c i" if "i \<in> P" for i using assms(3) [OF that] by (rule key_at_cong)
  with assms show "lt_map c' P'" unfolding lt_map_def by (metis (no_types, lifting))
  have "i \<in> P" if "fh_map (lru_fh c) k = Some (Some (OPtr i))" for k i
    using assms(1) that by (auto simp: lt_map_def)
  with assms(2,3) show "lru_contents c' = lru_contents c"
    by (auto simp: lru_contents_def fun_eq_iff split: option.split obj.split)
qed

text \<open>Other frames are not concerned by a step that leaves alone the slots and the locks they have.\<close>

lemma fr_ok_keep:
  assumes "fr_ok c evs fr" and "fh_conf (lru_fh c') = fh_conf (lru_fh c)"
    and "\<And>k. fr_key fr = Some k \<Longrightarrow> fh_map (lru_fh c') k = fh_map (lru_fh c) k"
    and "\<And>i. i \<in># fr_slots fr \<Longrightarrow> pl (lru_ll c') i = pl (lru_ll c) i \<and> nx (lru_ll c') i = nx (lru_ll c) i \<and> pv (lru_ll c') i = pv (lru_ll c) i"
  shows "fr_ok c' (evs @ [ev]) fr"
  using assms by (cases fr) (simp_all add: conf_key_index [OF assms(2)])

lemma fr_ok_more: "fr_ok c evs fr \<Longrightarrow> fr_ok c (evs @ [ev]) fr"
  by (rule fr_ok_keep) simp_all

end
