(* ===== verification/LruThreadsSteps.thy ===== *)
theory LruThreadsSteps
  imports LruThreadsInv
begin

text \<open>
  The steps of the cache under several threads: each keeps the invariant, and has a result unless
  it needs a lock that is held.
\<close>

section \<open>What a step needs to keep the invariant\<close>

lemma lt_step:
  assumes inv: "lt_inv fs xs c0 c (add_mset fr N) evs"
    and conf: "lru_conf c' = lru_conf c" "ll_size (lru_ll c') = ll_size (lru_ll c)" "fh_conf (lru_fh c') = fh_conf (lru_fh c)"
    and f: "fh_inv (lru_fh c')" and ll: "ll_inv (lru_ll c') fs' xs'"
    and slots: "mset fs' + mset xs' + slots_of (mset new) = mset fs + mset xs + fr_slots fr"
    and map: "lt_map c' (set xs' \<union> known_of (mset new) \<union> known_of N)"
    and held: "locks_ok fr_key (lru_fh c') (mset new + N)"
    and keep: "\<And>i. i \<in># slots_of N \<Longrightarrow>
      pl (lru_ll c') i = pl (lru_ll c) i \<and> nx (lru_ll c') i = nx (lru_ll c) i \<and> pv (lru_ll c') i = pv (lru_ll c) i"
    and maps: "\<And>fr' k. fr' \<in># N \<Longrightarrow> fr_key fr' = Some k \<Longrightarrow> fh_map (lru_fh c') k = fh_map (lru_fh c) k"
    and new: "\<And>fr'. fr' \<in> set new \<Longrightarrow> fr_ok c' (evs @ [ev]) fr'"
    and event: "cache_event (lru_contents c) ev = Some (lru_contents c')"
    and result: "event_ok evs ev"
  shows "lt_inv fs' xs' c0 c' (mset new + N) (evs @ [ev])"
proof -
  have "h_datalen (lru_fh c') = h_datalen (lru_fh c)" "dont_copy_key (lru_fh c') = dont_copy_key (lru_fh c)"
    using conf(3) by (simp_all add: fh_conf_def dont_copy_key_def)
  moreover have "mset fs' + mset xs' + slots_of (mset new + N) = mset fs + mset xs + fr_slots fr + slots_of N"
    using slots by (simp add: ac_simps)
  ultimately have "lt_slots c' fs' xs' (mset new + N)"
    using inv conf(1,2) f ll by (simp add: lt_inv_def lt_slots_def lru_conf_def ac_simps)
  moreover have "fr_ok c' (evs @ [ev]) fr'" if "fr' \<in># N" for fr'
    using inv that member_slots [OF that] keep maps [OF that]
    by (intro fr_ok_keep [OF _ conf(3)]) (auto simp: lt_inv_def)
  ultimately show ?thesis
    using inv conf(1) map held new event result by (auto simp: lt_inv_def cache_replay_snoc Un_assoc intro: event_ok_more)
qed

text \<open>The facts that the invariant gives about a frame and its slots.\<close>

lemma lt_inv_facts:
  assumes "lt_inv fs xs c0 c (add_mset fr N) evs"
  shows "ll_inv (lru_ll c) fs xs" and "fh_inv (lru_fh c)" and "lt_map c (set xs \<union> fr_known fr \<union> known_of N)"
    and "locks_ok fr_key (lru_fh c) (add_mset fr N)" and "fr_ok c evs fr" and "lt_slots c fs xs (add_mset fr N)"
    and "dont_copy_key (lru_fh c)" and "h_datalen (lru_fh c) = FH_DATALEN_VOIDP"
    and "lru_size c = ll_size (lru_ll c)"
  using assms by (simp_all add: lt_inv_def lt_slots_def Un_assoc)

text \<open>A step of the list: the table and the entries are as before.\<close>

lemma lt_step_list:
  assumes inv: "lt_inv fs xs c0 c (add_mset fr N) evs"
    and ll: "ll_inv l fs' xs'" "ll_size l = ll_size (lru_ll c)"
    and slots: "mset fs' + mset xs' + slots_of (mset new) = mset fs + mset xs + fr_slots fr"
    and known: "set xs' \<union> known_of (mset new) = set xs \<union> fr_known fr"
    and pls: "\<And>i. i \<notin># fr_slots fr - mset_set (fr_known fr) \<Longrightarrow> pl l i = pl (lru_ll c) i"
    and links: "\<And>i. i \<in># slots_of N \<Longrightarrow> nx l i = nx (lru_ll c) i \<and> pv l i = pv (lru_ll c) i"
    and held: "\<And>n. lock_holders fr_key (lru_fh c) n (mset new) = lock_holders fr_key (lru_fh c) n {#fr#}"
    and new: "\<And>fr'. fr' \<in> set new \<Longrightarrow> fr_ok (c\<lparr>lru_ll := l\<rparr>) (evs @ [ev]) fr'"
    and event: "cache_event (lru_contents c) ev = Some (lru_contents c)"
    and result: "event_ok evs ev"
  shows "lt_inv fs' xs' c0 (c\<lparr>lru_ll := l\<rparr>) (mset new + N) (evs @ [ev])"
proof -
  note F = lt_inv_facts [OF inv]
  let ?c = "c\<lparr>lru_ll := l\<rparr>" and ?P = "set xs \<union> fr_known fr \<union> known_of N"
  have P: "pl l i = pl (lru_ll c) i" if "i \<in> ?P" for i
  proof (rule pls, rule notI)
    assume m: "i \<in># fr_slots fr - mset_set (fr_known fr)"
    then have s: "i \<in># fr_slots fr" by (rule in_diffD)
    with lt_own [OF F(6) s] that known_slots have "i \<in> fr_known fr" by blast
    with m show False by (cases fr) auto
  qed
  have m: "lt_map ?c (set xs' \<union> known_of (mset new) \<union> known_of N)" and e: "lru_contents ?c = lru_contents c"
    by (rule lt_map_cong [OF F(3)]; use P known in simp)+
  have own: "i \<notin># fr_slots fr - mset_set (fr_known fr)" if "i \<in># slots_of N" for i
    using lt_own(4) [OF F(6)] that by (meson in_diffD)
  have "locks_ok fr_key (lru_fh ?c) (mset new + N)" by (rule locks_ok_same [OF F(4)]) (simp_all add: held)
  then show ?thesis
    by (intro lt_step [OF inv _ _ _ _ _ slots m])
      (use ll F(2) links pls own new event result e in \<open>auto simp: lru_conf_def\<close>)
qed

text \<open>A step of the table: the slots are as before.\<close>

lemma lt_step_table:
  assumes inv: "lt_inv fs xs c0 c (add_mset fr N) evs"
    and f: "fh_inv f" "fh_conf f = fh_conf (lru_fh c)"
    and slots: "slots_of (mset new) = fr_slots fr"
    and map: "lt_map (c\<lparr>lru_fh := f\<rparr>) (set xs \<union> known_of (mset new) \<union> known_of N)"
    and held: "locks_ok fr_key f (mset new + N)"
    and maps: "\<And>k'. fh_map f k' \<noteq> fh_map (lru_fh c) k' \<Longrightarrow> \<not> h_held (lru_fh c) ! key_lock (lru_fh c) k'"
    and new: "\<And>fr'. fr' \<in> set new \<Longrightarrow> fr_ok (c\<lparr>lru_fh := f\<rparr>) (evs @ [ev]) fr'"
    and event: "cache_event (lru_contents c) ev = Some (lru_contents (c\<lparr>lru_fh := f\<rparr>))"
    and result: "event_ok evs ev"
  shows "lt_inv fs xs c0 (c\<lparr>lru_fh := f\<rparr>) (mset new + N) (evs @ [ev])"
proof -
  note F = lt_inv_facts [OF inv]
  have "fh_map f k' = fh_map (lru_fh c) k'" if "fr' \<in># N" "fr_key fr' = Some k'" for fr' k'
    using locks_ok_held [OF F(4) _ that(2)] F(2) maps [of k'] that(1) by (auto simp: fh_inv_def)
  then show ?thesis
    by (intro lt_step [OF inv]) (use slots map held new event result F(1) f in \<open>auto simp: lru_conf_def\<close>)
qed

section \<open>The cost of a call\<close>

text \<open>The steps that a frame can still make; an entry of the list pays for its removal.\<close>

fun fr_cost :: "'v lru_frame \<Rightarrow> nat" where
  "fr_cost (NewSlot k v) = 8"
| "fr_cost (TakeLast k v) = 7"
| "fr_cost (DelOld k v i) = 10"
| "fr_cost (FreeOld k v i) = 9"
| "fr_cost (FillNew k v i) = 7"
| "fr_cost (InsertNew k v i) = 6"
| "fr_cost (DropNew i rc) = 1"
| "fr_cost (TopNew i) = 5"
| "fr_cost (Search k) = 4"
| "fr_cost (ReadHit k i s) = 3"
| "fr_cost (MoveTop k v i s) = 2"
| "fr_cost (Release k v s) = 1"
| "fr_cost TakeAll = 1"
| "fr_cost (DelAll i) = 3"
| "fr_cost (FreeAll i) = 2"

text \<open>A good step.\<close>

definition lt_good ::
  "nat list \<Rightarrow> 'v lru \<Rightarrow> 'v lru_frame \<Rightarrow> 'v lru_frame multiset \<Rightarrow> 'v lru_event list \<Rightarrow> 'v lru_result option \<Rightarrow> bool" where
  "lt_good xs c0 fr N evs r \<longleftrightarrow> (\<exists>c' new ev fs' xs'. r = Some (c', new, ev) \<and>
     lt_inv fs' xs' c0 c' (mset new + N) (evs @ [ev]) \<and> length new \<le> 1 \<and>
     4 * length xs' + sum_list (map fr_cost new) < 4 * length xs + fr_cost fr)"

lemma lt_goodI:
  assumes "r = Some (c', new, ev)" and "lt_inv fs' xs' c0 c' (mset new + N) (evs @ [ev])" and "length new \<le> 1"
    and "4 * length xs' + sum_list (map fr_cost new) < 4 * length xs + fr_cost fr"
  shows "lt_good xs c0 fr N evs r"
  using assms unfolding lt_good_def by blast

section \<open>Steps of the list\<close>

lemma lt_slot_bound:
  assumes "lt_slots c fs xs M" and "i \<in> set xs \<or> i \<in># slots_of M"
  shows "int i < ll_size (lru_ll c)"
proof -
  from assms(1) have e: "(mset fs + mset xs + slots_of M) + {#} = mset_set {..<nat (lru_size c)}"
    and z: "lru_size c = ll_size (lru_ll c)"
    by (simp_all add: lt_slots_def)
  from mset_set_disjoint(2) [OF e, of i] assms(2) z show ?thesis by (auto simp: zless_nat_eq_int_zless)
qed

text \<open>A slot that is not in the free list goes to the top of the list, or stays outside it.\<close>

lemma ll_slot_move_to_top_any:
  assumes inv: "ll_inv l fs xs" and i: "int i < ll_size l"
  shows "\<exists>l' ys. ll_slot_move_to_top (Some l) (Some i) = Some (Some l') \<and> ll_inv l' fs ys \<and> mset ys = mset xs \<and>
    pl l' = pl l \<and> ll_size l' = ll_size l"
proof (cases "i \<in> set xs")
  case True
  then obtain as bs where xs: "xs = as @ i # bs" by (meson split_list)
  with ll_slot_move_to_top_spec [of l fs as i bs] inv obtain l' where
    "ll_slot_move_to_top (Some l) (Some i) = Some (Some l')" "ll_inv l' fs (as @ bs @ [i])" "pl l' = pl l"
    "ll_size l' = ll_size l" by blast
  then show ?thesis by (intro exI [of _ l'] exI [of _ "as @ bs @ [i]"]) (simp add: xs)
next
  case False
  with ll_slot_move_to_top_stays [OF inv i] inv show ?thesis by blast
qed

text \<open>A slot leaves the end of the list.\<close>

lemma lt_take:
  assumes inv: "lt_inv fs (j # ys) c0 c (add_mset fr N) evs"
    and fr: "fr_slots fr = {#}" "fr_known fr = {}" "fr_key fr = None"
    and nf: "fr_slots nf = {#j#}" "fr_known nf = {j}" "fr_key nf = None" "\<And>c evs. fr_ok c evs nf"
  shows "\<exists>l. ll_remove_last (Some (lru_ll c)) = Some (Some j, Some l) \<and> pl l = pl (lru_ll c) \<and>
    lt_inv fs ys c0 (c\<lparr>lru_ll := l\<rparr>) (mset [nf] + N) (evs @ [Silent])"
proof -
  note F = lt_inv_facts [OF inv]
  from ll_remove_last_spec [OF F(1)] obtain l where
    l: "ll_remove_last (Some (lru_ll c)) = Some (Some j, Some l)" "ll_inv l fs ys" "pl l = pl (lru_ll c)"
      "ll_size l = ll_size (lru_ll c)" by blast
  have "i \<notin> set ys" if "i \<in># slots_of N" for i using lt_listed [OF F(6), of i] that fr(1) by auto
  then have "nx l i = nx (lru_ll c) i \<and> pv l i = pv (lru_ll c) i" if "i \<in># slots_of N" for i
    using ll_remove_last_links [OF F(1) l(1)] that by blast
  then have "lt_inv fs ys c0 (c\<lparr>lru_ll := l\<rparr>) (mset [nf] + N) (evs @ [Silent])"
    by (intro lt_step_list [OF inv l(2,4)]) (use l fr nf in auto)
  with l show ?thesis by blast
qed

text \<open>A slot whose key the table does not have goes to the free list, with its key or without one.\<close>

lemma lt_give:
  assumes inv: "lt_inv fs xs c0 c (add_mset fr N) evs"
    and fr: "fr_slots fr = {#i#}" "fr_known fr = {}" "fr_key fr = None"
    and new: "slots_of (mset new) = {#}" "known_of (mset new) = {}" "\<And>fr'. fr' \<in> set new \<Longrightarrow> fr_key fr' = None"
      "\<And>fr' c. fr' \<in> set new \<Longrightarrow> fr_ok c (evs @ [ev]) fr'"
    and ev: "\<And>m :: cstr \<rightharpoonup> 'v. cache_event m ev = Some m" "event_ok evs ev"
  shows "\<exists>l. ll_slot_free (Some (set_payload (lru_ll c) i p)) (Some i) = Some (Some l) \<and>
    lt_inv (i # fs) xs c0 (c\<lparr>lru_ll := l\<rparr>) (mset new + N) (evs @ [ev])"
proof -
  note F = lt_inv_facts [OF inv]
  let ?l = "set_payload (lru_ll c) i p"
  have i: "int i < ll_size (lru_ll c)" "i \<notin> set fs" "i \<notin> set xs" "i \<notin># slots_of N"
    using lt_own [OF F(6), of i] fr(1) by simp_all
  have "ll_inv ?l fs xs" using F(1) by simp
  from ll_slot_free_spec [OF this, of i] i obtain l where
    l: "ll_slot_free (Some ?l) (Some i) = Some (Some l)" "ll_inv l (i # fs) xs" "pl l = pl ?l" "ll_size l = ll_size ?l"
    by auto
  have links: "nx l j = nx (lru_ll c) j \<and> pv l j = pv (lru_ll c) j" if "j \<in># slots_of N" for j
    using ll_slot_free_links [OF l(1), of j] that i(4) by auto
  have h: "lock_holders fr_key (lru_fh c) k (mset new) = 0" for k
    using new(3) by (intro lock_holders_none) simp
  have "lt_inv (i # fs) xs c0 (c\<lparr>lru_ll := l\<rparr>) (mset new + N) (evs @ [ev])"
    by (rule lt_step_list [OF inv l(2)]) (use l fr new ev links h in auto)
  with l(1) show ?thesis by blast
qed

lemma lt_drop:
  assumes "lt_inv fs xs c0 c (add_mset fr N) evs"
    and "fr_slots fr = {#i#}" "fr_known fr = {}" "fr_key fr = None" "\<exists>k'. lp_key (pl (lru_ll c) i) = KStr k'"
    and "slots_of (mset new) = {#}" "known_of (mset new) = {}" "\<And>fr'. fr' \<in> set new \<Longrightarrow> fr_key fr' = None"
      "\<And>fr' c. fr' \<in> set new \<Longrightarrow> fr_ok c (evs @ [ev]) fr'"
    and "\<And>m :: cstr \<rightharpoonup> 'v. cache_event m ev = Some m" "event_ok evs ev"
  shows "\<exists>l. lru_drop c i = Some (c\<lparr>lru_ll := l\<rparr>) \<and>
    lt_inv (i # fs) xs c0 (c\<lparr>lru_ll := l\<rparr>) (mset new + N) (evs @ [ev])"
  using lt_give [OF assms(1-4,6-11), of "(pl (lru_ll c) i)\<lparr>lp_key := KFreed\<rparr>"] assms(5)
  by (auto simp: lru_drop_def lru_free_key_def Let_def s_payload_pl)

section \<open>The steps of an insertion\<close>

lemma good_new_slot:
  assumes inv: "lt_inv fs xs c0 c (add_mset (NewSlot k v) N) evs"
  shows "lt_good xs c0 (NewSlot k v) N evs (step_new_slot c k v)"
proof (cases fs)
  case Nil
  note F = lt_inv_facts [OF inv]
  have "step_new_slot c k v = Some (c\<lparr>lru_ll := lru_ll c\<rparr>, [TakeLast k v], Silent)"
    using ll_slot_new_empty [of "lru_ll c" xs] F(1) Nil by (simp add: step_new_slot_def)
  moreover have "lt_inv fs xs c0 (c\<lparr>lru_ll := lru_ll c\<rparr>) (mset [TakeLast k v] + N) (evs @ [Silent])"
    by (rule lt_step_list [OF inv F(1)]) simp_all
  ultimately show ?thesis by (rule lt_goodI) simp_all
next
  case (Cons i gs)
  note F = lt_inv_facts [OF inv]
  from F(1) Cons have "ll_inv (lru_ll c) (i # gs) xs" by simp
  from ll_slot_new_spec [OF this] obtain l where
    l: "ll_slot_new (Some (lru_ll c)) = Some (Some i, Some l)" "ll_inv l gs xs" "nx l i = None" "pv l i = None"
      "pl l = pl (lru_ll c)" "ll_size l = ll_size (lru_ll c)" by blast
  have "i \<notin># slots_of N" using lt_listed [OF F(6), of i] Cons by simp
  then have links: "nx l j = nx (lru_ll c) j \<and> pv l j = pv (lru_ll c) j" if "j \<in># slots_of N" for j
    using ll_slot_new_links [OF l(1), of j] that by auto
  have "step_new_slot c k v = Some (c\<lparr>lru_ll := l\<rparr>, [FillNew k v i], Silent)"
    using l(1) by (simp add: step_new_slot_def)
  moreover have "lt_inv gs xs c0 (c\<lparr>lru_ll := l\<rparr>) (mset [FillNew k v i] + N) (evs @ [Silent])"
    by (rule lt_step_list [OF inv l(2,6)]) (use l Cons links in simp_all)
  ultimately show ?thesis by (rule lt_goodI) simp_all
qed

lemma good_take_last:
  assumes inv: "lt_inv fs xs c0 c (add_mset (TakeLast k v) N) evs"
  shows "lt_good xs c0 (TakeLast k v) N evs (step_take_last c k v)"
proof (cases xs)
  case Nil
  note F = lt_inv_facts [OF inv]
  have "step_take_last c k v = Some (c\<lparr>lru_ll := lru_ll c\<rparr>, [], Returned LRU_NO_MEMORY)"
    using ll_remove_last_empty [of "lru_ll c" fs] F(1) Nil by (simp add: step_take_last_def)
  moreover have "lt_inv fs xs c0 (c\<lparr>lru_ll := lru_ll c\<rparr>) (mset [] + N) (evs @ [Returned LRU_NO_MEMORY])"
    by (rule lt_step_list [OF inv F(1)]) simp_all
  ultimately show ?thesis by (rule lt_goodI) simp_all
next
  case (Cons j ys)
  with lt_take [of fs j ys c0 c "TakeLast k v" N evs "DelOld k v j"] inv obtain l where
    "ll_remove_last (Some (lru_ll c)) = Some (Some j, Some l)"
    "lt_inv fs ys c0 (c\<lparr>lru_ll := l\<rparr>) (mset [DelOld k v j] + N) (evs @ [Silent])" by auto
  then show ?thesis by (intro lt_goodI) (auto simp: step_take_last_def Cons)
qed

lemma good_take_all:
  assumes inv: "lt_inv fs xs c0 c (add_mset TakeAll N) evs"
  shows "lt_good xs c0 TakeAll N evs (step_take_all c)"
proof (cases xs)
  case Nil
  note F = lt_inv_facts [OF inv]
  have "step_take_all c = Some (c\<lparr>lru_ll := lru_ll c\<rparr>, [], Returned LRU_OK)"
    using ll_remove_last_empty [of "lru_ll c" fs] F(1) Nil by (simp add: step_take_all_def)
  moreover have "lt_inv fs xs c0 (c\<lparr>lru_ll := lru_ll c\<rparr>) (mset [] + N) (evs @ [Returned LRU_OK])"
    by (rule lt_step_list [OF inv F(1)]) simp_all
  ultimately show ?thesis by (rule lt_goodI) simp_all
next
  case (Cons j ys)
  with lt_take [of fs j ys c0 c TakeAll N evs "DelAll j"] inv obtain l where
    "ll_remove_last (Some (lru_ll c)) = Some (Some j, Some l)"
    "lt_inv fs ys c0 (c\<lparr>lru_ll := l\<rparr>) (mset [DelAll j] + N) (evs @ [Silent])" by auto
  then show ?thesis by (intro lt_goodI) (auto simp: step_take_all_def Cons)
qed

lemma good_free_old:
  assumes inv: "lt_inv fs xs c0 c (add_mset (FreeOld k v j) N) evs"
  shows "lt_good xs c0 (FreeOld k v j) N evs (step_free_old c k v j)"
proof -
  from lt_drop [OF inv, of j "[NewSlot k v]" Silent] lt_inv_facts(5) [OF inv] obtain l where
    "lru_drop c j = Some (c\<lparr>lru_ll := l\<rparr>)"
    "lt_inv (j # fs) xs c0 (c\<lparr>lru_ll := l\<rparr>) (mset [NewSlot k v] + N) (evs @ [Silent])" by auto
  then show ?thesis by (intro lt_goodI) (auto simp: step_free_old_def)
qed

lemma good_free_all:
  assumes inv: "lt_inv fs xs c0 c (add_mset (FreeAll j) N) evs"
  shows "lt_good xs c0 (FreeAll j) N evs (step_free_all c j)"
proof -
  from lt_drop [OF inv, of j "[TakeAll]" Silent] lt_inv_facts(5) [OF inv] obtain l where
    "lru_drop c j = Some (c\<lparr>lru_ll := l\<rparr>)"
    "lt_inv (j # fs) xs c0 (c\<lparr>lru_ll := l\<rparr>) (mset [TakeAll] + N) (evs @ [Silent])" by auto
  then show ?thesis by (intro lt_goodI) (auto simp: step_free_all_def)
qed

lemma good_drop_new:
  assumes inv: "lt_inv fs xs c0 c (add_mset (DropNew i rc) N) evs"
  shows "lt_good xs c0 (DropNew i rc) N evs (step_drop_new c i rc)"
proof -
  from lt_drop [OF inv, of i "[]" "Returned rc"] lt_inv_facts(5) [OF inv] obtain l where
    "lru_drop c i = Some (c\<lparr>lru_ll := l\<rparr>)"
    "lt_inv (i # fs) xs c0 (c\<lparr>lru_ll := l\<rparr>) (mset [] + N) (evs @ [Returned rc])" by auto
  then show ?thesis by (intro lt_goodI) (auto simp: step_drop_new_def)
qed

lemma good_fill_new:
  assumes inv: "lt_inv fs xs c0 c (add_mset (FillNew k v i) N) evs"
  shows "lt_good xs c0 (FillNew k v i) N evs (step_fill_new kok c k v i)"
proof (cases kok)
  case False
  let ?p = "(s_payload (ll_slots (lru_ll c) i))\<lparr>lp_payload := v, lp_slot := i, lp_key := KNull\<rparr>"
  from lt_give [OF inv, of i "[]" "Returned LRU_NO_MEMORY" ?p] obtain l where
    "ll_slot_free (Some (set_payload (lru_ll c) i ?p)) (Some i) = Some (Some l)"
    "lt_inv (i # fs) xs c0 (c\<lparr>lru_ll := l\<rparr>) (mset [] + N) (evs @ [Returned LRU_NO_MEMORY])" by auto
  then show ?thesis using False by (intro lt_goodI) (auto simp: step_fill_new_def)
next
  case True
  note F = lt_inv_facts [OF inv]
  let ?l = "set_payload (lru_ll c) i \<lparr>lp_payload = v, lp_slot = i, lp_key = KStr k\<rparr>"
  have "step_fill_new kok c k v i = Some (c\<lparr>lru_ll := ?l\<rparr>, [InsertNew k v i], Silent)"
    using True by (cases "s_payload (ll_slots (lru_ll c) i)") (simp add: step_fill_new_def)
  moreover have "lt_inv fs xs c0 (c\<lparr>lru_ll := ?l\<rparr>) (mset [InsertNew k v i] + N) (evs @ [Silent])"
    by (rule lt_step_list [OF inv]) (use F(1,5) in auto)
  ultimately show ?thesis by (rule lt_goodI) simp_all
qed

lemma good_top_new:
  assumes inv: "lt_inv fs xs c0 c (add_mset (TopNew i) N) evs"
  shows "lt_good xs c0 (TopNew i) N evs (step_top_new c i)"
proof -
  note F = lt_inv_facts [OF inv]
  have i: "int i < ll_size (lru_ll c)" "i \<notin> set fs" "i \<notin> set xs" "i \<notin># slots_of N"
    using lt_own [OF F(6), of i] by simp_all
  from ll_slot_add_to_top_spec [OF F(1) i(1-3)] F(5) obtain l where
    l: "ll_slot_add_to_top (Some (lru_ll c)) (Some i) = Some (Some l)" "ll_inv l fs (xs @ [i])" "pl l = pl (lru_ll c)"
      "ll_size l = ll_size (lru_ll c)" by auto
  have links: "nx l j = nx (lru_ll c) j \<and> pv l j = pv (lru_ll c) j" if "j \<in># slots_of N" for j
    using ll_slot_add_to_top_links [OF F(1) l(1), of j] that i(4) lt_listed [OF F(6), of j] by auto
  have "step_top_new c i = Some (c\<lparr>lru_ll := l\<rparr>, [], Returned LRU_OK)" using l(1) by (simp add: step_top_new_def)
  moreover have "lt_inv fs (xs @ [i]) c0 (c\<lparr>lru_ll := l\<rparr>) (mset [] + N) (evs @ [Returned LRU_OK])"
    by (rule lt_step_list [OF inv l(2,4)]) (use l links in auto)
  ultimately show ?thesis by (rule lt_goodI) simp_all
qed

section \<open>Steps of the table\<close>

lemma lt_contents_dom:
  assumes "lt_map c P"
  shows "dom (lru_contents c) = dom (fh_map (lru_fh c))"
proof -
  have "(lru_contents c k = None) = (fh_map (lru_fh c) k = None)" for k
  proof (cases "fh_map (lru_fh c) k")
    case (Some x)
    with assms obtain i where "x = Some (OPtr i)" by (auto simp: lt_map_def)
    with Some show ?thesis by (simp add: lru_contents_def)
  qed (simp add: lru_contents_def)
  then show ?thesis by (simp add: dom_def)
qed

lemma lru_contents_table:
  "lru_contents (c\<lparr>lru_fh := f\<rparr>) k =
     (case fh_map f k of Some (Some (OPtr i)) \<Rightarrow> Some (lp_payload (pl (lru_ll c) i)) | _ \<Rightarrow> None)"
  by (simp add: lru_contents_def split: option.split obj.split)

text \<open>The key of a slot on its way out of the list is deleted.\<close>

lemma lt_delete:
  assumes inv: "lt_inv fs xs c0 c (add_mset fr N) evs"
    and fr: "fr_slots fr = {#j#}" "fr_known fr = {j}" "fr_key fr = None"
    and nf: "fr_slots nf = {#j#}" "fr_known nf = {}" "fr_key nf = None"
      "\<And>c evs. fr_ok c evs nf = (\<exists>k'. lp_key (pl (lru_ll c) j) = KStr k')"
    and free: "\<not> h_held (lru_fh c) ! key_lock (lru_fh c) (key_at c j)"
  shows "slot_key c j = KStr (key_at c j) \<and>
    (\<exists>rc f. lru_fh_del c (slot_key c j) = Some (rc, c\<lparr>lru_fh := f\<rparr>) \<and> 0 \<le> rc \<and>
      lt_inv fs xs c0 (c\<lparr>lru_fh := f\<rparr>) (mset [nf] + N) (evs @ [Removed (key_at c j)]))"
proof -
  note F = lt_inv_facts [OF inv]
  let ?k = "key_at c j" and ?P = "set xs \<union> known_of N"
  have P: "lt_map c (insert j ?P)" using F(3) fr(2) by simp
  note kn = lt_known [OF P, of j, simplified]
  have notin: "j \<notin> ?P" using lt_own [OF F(6), of j] fr(1) known_slots by auto
  have ok: "fh_table_ok (lru_fh c)" using F(2) by (simp add: fh_inv_def)
  from fh_del_shared [OF F(2) free] kn(2) obtain f where
    f: "fh_del (Some (lru_fh c)) (Some ?k) = Some (fh_key_index (lru_fh c) ?k, Some f)" "fh_inv f"
      "fh_conf f = fh_conf (lru_fh c)" "h_held f = h_held (lru_fh c)" "fh_map f = (fh_map (lru_fh c))(?k := None)"
    by (auto simp: domIff)
  let ?c = "c\<lparr>lru_fh := f\<rparr>"
  have ka: "key_at ?c i = key_at c i" for i by (rule key_at_cong) simp
  have other: "key_at c i \<noteq> ?k" if "i \<in> ?P" for i
    using lt_key_inj [of "insert j ?P" c i j] lt_known(2) [OF P] that notin by blast
  have "lt_map ?c (set xs \<union> known_of (mset [nf]) \<union> known_of N)"
    unfolding lt_map_def
  proof (intro conjI ballI allI)
    fix k x
    show "fh_map (lru_fh ?c) k = Some x \<longleftrightarrow>
      (\<exists>i \<in> set xs \<union> known_of (mset [nf]) \<union> known_of N. key_at ?c i = k \<and> x = Some (OPtr i))"
    proof (cases "k = ?k")
      case True
      with other show ?thesis by (auto simp: f(5) ka nf(2))
    next
      case False
      with P show ?thesis by (auto simp: f(5) ka nf(2) lt_map_def)
    qed
  qed (use P in \<open>auto simp: lt_map_def nf(2) ka\<close>)
  moreover have "locks_ok fr_key f (mset [nf] + N)"
    by (rule locks_ok_same [OF F(4) f(3,4)]) (simp add: fr(3) nf(3))
  moreover have "lru_contents c ?k \<noteq> None" "lru_contents ?c = (lru_contents c)(?k := None)"
    using kn(2) by (auto simp: lru_contents_table lru_contents_def [of c] f(5) fun_eq_iff)
  ultimately have "lt_inv fs xs c0 ?c (mset [nf] + N) (evs @ [Removed ?k])"
    by (intro lt_step_table [OF inv f(2,3)])
      (use fr(1) nf kn(1) free in \<open>auto simp: f(5) slot_key_def s_payload_pl split: if_splits\<close>)
  moreover have "lru_fh_del c (slot_key c j) = Some (fh_key_index (lru_fh c) ?k, ?c)"
    using f(1) kn(1) by (simp add: lru_fh_del_def)
  ultimately show ?thesis using kn(1) fh_index_range(1) [OF ok, of ?k] by blast
qed

lemma good_del_old:
  assumes inv: "lt_inv fs xs c0 c (add_mset (DelOld k v j) N) evs"
    and "\<not> h_held (lru_fh c) ! key_lock (lru_fh c) (key_at c j)"
  shows "lt_good xs c0 (DelOld k v j) N evs (step_del_old c k v j)"
proof -
  from lt_delete [OF inv _ _ _ _ _ _ _ assms(2), of "FreeOld k v j"] obtain rc f where
    "slot_key c j = KStr (key_at c j)" "lru_fh_del c (slot_key c j) = Some (rc, c\<lparr>lru_fh := f\<rparr>)" "0 \<le> rc"
    "lt_inv fs xs c0 (c\<lparr>lru_fh := f\<rparr>) (mset [FreeOld k v j] + N) (evs @ [Removed (key_at c j)])" by auto
  then show ?thesis by (intro lt_goodI) (auto simp: step_del_old_def del_event_def)
qed

lemma good_del_all:
  assumes inv: "lt_inv fs xs c0 c (add_mset (DelAll j) N) evs"
    and "\<not> h_held (lru_fh c) ! key_lock (lru_fh c) (key_at c j)"
  shows "lt_good xs c0 (DelAll j) N evs (step_del_all c j)"
proof -
  from lt_delete [OF inv _ _ _ _ _ _ _ assms(2), of "FreeAll j"] obtain rc f where
    "slot_key c j = KStr (key_at c j)" "lru_fh_del c (slot_key c j) = Some (rc, c\<lparr>lru_fh := f\<rparr>)" "0 \<le> rc"
    "lt_inv fs xs c0 (c\<lparr>lru_fh := f\<rparr>) (mset [FreeAll j] + N) (evs @ [Removed (key_at c j)])" by auto
  then show ?thesis by (intro lt_goodI) (auto simp: step_del_all_def del_event_def)
qed

text \<open>The new key is inserted, unless it is there or there is no memory.\<close>

lemma good_insert_new:
  assumes inv: "lt_inv fs xs c0 c (add_mset (InsertNew k v i) N) evs"
    and free: "\<not> h_held (lru_fh c) ! key_lock (lru_fh c) k"
  shows "lt_good xs c0 (InsertNew k v i) N evs (step_insert_new al c k v i)"
proof -
  note F = lt_inv_facts [OF inv]
  let ?f = "lru_fh c" and ?P = "set xs \<union> known_of N"
  have P: "lt_map c ?P" using F(3) by simp
  have i: "i \<notin> ?P" using lt_own [OF F(6), of i] known_slots by auto
  from F(5) have p: "pl (lru_ll c) i = \<lparr>lp_payload = v, lp_slot = i, lp_key = KStr k\<rparr>"
    "nx (lru_ll c) i = None" "pv (lru_ll c) i = None" by simp_all
  have "dont_copy_key (fh_free ?f)" "h_datalen (fh_free ?f) = FH_DATALEN_VOIDP" using F(7,8) by simp_all
  from fh_insert_ptr_spec [OF fh_free_ready [OF F(2)] this, of k i al, unfolded fh_free_simps(1,2)] obtain rc g where
    g: "fh_insert (Some (fh_free ?f)) (Some k) (Some (i, [])) al = Some (rc, Some g)" "fh_ready g" "fh_conf g = fh_conf ?f"
      "if k \<in> dom (fh_map ?f) then rc = FH_DUPLICATED_ELEMENT \<and> fh_map g = fh_map ?f
       else rc = FH_NO_MEMORY \<and> \<not> (a_bucket al \<and> a_chain al) \<and> fh_map g = fh_map ?f \<or>
         0 \<le> rc \<and> fh_map g = (fh_map ?f)(k \<mapsto> Some (OPtr i))"
    by blast
  define f where "f = g\<lparr>h_held := h_held ?f\<rparr>"
  note h = fh_insert_held [OF F(2) free g(1), folded f_def]
  have f: "fh_inv f" "fh_conf f = fh_conf ?f" "fh_map f = fh_map g" "h_held f = h_held ?f"
    using g(2,3) fh_inv_held [OF h(2) [symmetric]] by (simp_all add: fh_ready_def f_def)
  let ?c = "c\<lparr>lru_fh := f\<rparr>"
  have ka: "key_at ?c j = key_at c j" for j by (rule key_at_cong) simp
  have locks: "locks_ok fr_key f (mset [nf] + N)" if "fr_key nf = None" for nf
    by (rule locks_ok_same [OF F(4) f(2,4)]) (simp add: that)
  have same: "lt_inv fs xs c0 ?c (mset [DropNew i rc'] + N) (evs @ [ev])"
    if "fh_map g = fh_map ?f" "cache_event (lru_contents c) ev = Some (lru_contents c)" "event_ok evs ev"
      "rc' \<in> {LRU_NO_MEMORY, LRU_DUPLICATED_ELEMENT}" for rc' ev
  proof -
    have m: "lt_map ?c ?P" "lru_contents ?c = lru_contents c"
      using lt_map_cong [OF P, of ?c ?P] that(1) f(3) by simp_all
    show ?thesis
      by (rule lt_step_table [OF inv f(1,2)]) (use m that f(3) p locks in auto)
  qed
  consider (dup) "k \<in> dom (fh_map ?f)" "rc = FH_DUPLICATED_ELEMENT" "fh_map g = fh_map ?f"
    | (mem) "rc = FH_NO_MEMORY" "fh_map g = fh_map ?f"
    | (ok) "k \<notin> dom (fh_map ?f)" "0 \<le> rc" "fh_map g = (fh_map ?f)(k \<mapsto> Some (OPtr i))"
    using g(4) by (auto split: if_splits)
  then show ?thesis
  proof cases
    case dup
    from dup(1) have "lru_contents c k \<noteq> None" using lt_contents_dom [OF P] by blast
    then have "cache_event (lru_contents c) (Present k) = Some (lru_contents c)" by simp
    from same [OF dup(3) this, of LRU_DUPLICATED_ELEMENT] have s: "lt_inv fs xs c0 ?c (mset [DropNew i LRU_DUPLICATED_ELEMENT] + N) (evs @ [Present k])" by simp
    have "step_insert_new al c k v i = Some (?c, [DropNew i LRU_DUPLICATED_ELEMENT], Present k)"
      using h(1) dup(2) by (simp add: step_insert_new_def FH_DUPLICATED_ELEMENT_def LRU_OK_def)
    then show ?thesis using s by (rule lt_goodI) simp_all
  next
    case mem
    have s: "lt_inv fs xs c0 ?c (mset [DropNew i LRU_NO_MEMORY] + N) (evs @ [Silent])"
      by (rule same [OF mem(2)]) simp_all
    have "step_insert_new al c k v i = Some (?c, [DropNew i LRU_NO_MEMORY], Silent)"
      using h(1) mem(1) by (simp add: step_insert_new_def FH_DUPLICATED_ELEMENT_def FH_NO_MEMORY_def LRU_OK_def)
    then show ?thesis using s by (rule lt_goodI) simp_all
  next
    case ok
    have ki: "key_at c i = k" by (simp add: key_at_def p(1))
    have e: "lru_contents c k = None" "lru_contents ?c = (lru_contents c)(k \<mapsto> v)"
      using ok(1,3) f(3) p(1) by (auto simp: lru_contents_table lru_contents_def [of c] fun_eq_iff domIff)
    have "lt_map ?c (insert i ?P)"
      unfolding lt_map_def
    proof (intro conjI ballI allI)
      fix k' x
      have "key_at c j \<noteq> k" if "j \<in> ?P" for j using lt_known(2) [OF P that] ok(1) by auto
      then show "fh_map (lru_fh ?c) k' = Some x \<longleftrightarrow> (\<exists>j \<in> insert i ?P. key_at ?c j = k' \<and> x = Some (OPtr j))"
        using P by (cases "k' = k") (auto simp: f(3) ok(3) ka ki lt_map_def)
    qed (use P p(1) ki in \<open>auto simp: lt_map_def ka\<close>)
    then have s: "lt_inv fs xs c0 ?c (mset [TopNew i] + N) (evs @ [Inserted k v])"
      by (intro lt_step_table [OF inv f(1,2)])
        (use e ok(3) f(3) p locks free in \<open>auto split: if_splits\<close>)
    have "step_insert_new al c k v i = Some (?c, [TopNew i], Inserted k v)"
      using h(1) ok(2) by (simp add: step_insert_new_def FH_DUPLICATED_ELEMENT_def FH_NO_MEMORY_def LRU_OK_def)
    then show ?thesis using s by (rule lt_goodI) simp_all
  qed
qed

section \<open>The steps of a lookup\<close>

lemma held_key [simp]:
  "fh_key_index (f\<lparr>h_held := hs\<rparr>) k = fh_key_index f k" "key_lock (f\<lparr>h_held := hs\<rparr>) k = key_lock f k"
  using conf_key_index [of "f\<lparr>h_held := hs\<rparr>" f k] conf_key_lock [of "f\<lparr>h_held := hs\<rparr>" f k] by simp_all

lemma good_search:
  assumes inv: "lt_inv fs xs c0 c (add_mset (Search k) N) evs"
    and free: "\<not> h_held (lru_fh c) ! key_lock (lru_fh c) k"
  shows "lt_good xs c0 (Search k) N evs (step_search c k)"
proof -
  note F = lt_inv_facts [OF inv]
  let ?f = "lru_fh c"
  have P: "lt_map c (set xs \<union> known_of N)" using F(3) by simp
  note srch = fh_searchlock_held [OF F(2) free]
  have ok: "fh_table_ok ?f" using F(2) by (simp add: fh_inv_def)
  show ?thesis
  proof (cases "fh_map ?f k")
    case None
    then have "lru_contents c k = None" by (simp add: lru_contents_def)
    moreover have "locks_ok fr_key ?f (mset [] + N)" by (rule locks_ok_same [OF F(4)]) simp_all
    ultimately have "lt_inv fs xs c0 (c\<lparr>lru_fh := ?f\<rparr>) (mset [] + N) (evs @ [Missed k])"
      by (intro lt_step_table [OF inv F(2)]) (use P in auto)
    moreover have "step_search c k = Some (c\<lparr>lru_fh := ?f\<rparr>, [], Missed k)"
      using None srch by (simp add: step_search_def)
    ultimately show ?thesis by (intro lt_goodI) auto
  next
    case (Some x)
    then obtain i where x: "x = Some (OPtr i)" using P by (auto simp: lt_map_def)
    let ?g = "?f\<lparr>h_held := (h_held ?f)[key_lock ?f k := True]\<rparr>"
    let ?c = "c\<lparr>lru_fh := ?g\<rparr>" and ?fr = "ReadHit k i (fh_key_index ?f k)"
    have g: "fh_conf ?g = fh_conf ?f" "fh_inv ?g" using fh_inv_held [of _ ?f] F(2) by simp_all
    have "locks_ok fr_key ?g (mset [?fr] + N)"
      by (rule locks_ok_take [OF F(4) g(1) _ _ _ free ok]) simp_all
    moreover have "lt_map ?c (set xs \<union> known_of N)" "lru_contents ?c = lru_contents c"
      by (rule lt_map_cong [OF P]; simp)+
    moreover have "fr_ok ?c (evs @ [Silent]) ?fr" using conf_key_index [OF g(1), of k] Some x by simp
    ultimately have "lt_inv fs xs c0 ?c (mset [?fr] + N) (evs @ [Silent])"
      by (intro lt_step_table [OF inv g(2,1)]) auto
    moreover have "step_search c k = Some (?c, [?fr], Silent)"
      using Some x srch by (simp add: step_search_def)
    ultimately show ?thesis by (intro lt_goodI) auto
  qed
qed

lemma good_read_hit:
  assumes inv: "lt_inv fs xs c0 c (add_mset (ReadHit k i s) N) evs"
  shows "lt_good xs c0 (ReadHit k i s) N evs (step_read_hit c k i s)"
proof -
  note F = lt_inv_facts [OF inv]
  have P: "lt_map c (set xs \<union> known_of N)" using F(3) by simp
  from F(5) have s: "s = fh_key_index (lru_fh c) k" "fh_map (lru_fh c) k = Some (Some (OPtr i))" by simp_all
  with P have slot: "lp_slot (pl (lru_ll c) i) = i" by (auto simp: lt_map_def)
  let ?v = "lp_payload (pl (lru_ll c) i)"
  have hit: "lru_contents c k = Some ?v" using s(2) by (simp add: lru_contents_def)
  have "step_read_hit c k i s = Some (c\<lparr>lru_ll := lru_ll c\<rparr>, [MoveTop k ?v i s], Hit k ?v)"
    using slot by (simp add: step_read_hit_def s_payload_pl Let_def)
  moreover have "lt_inv fs xs c0 (c\<lparr>lru_ll := lru_ll c\<rparr>) (mset [MoveTop k ?v i s] + N) (evs @ [Hit k ?v])"
    by (rule lt_step_list [OF inv F(1)]) (use s hit in auto)
  ultimately show ?thesis by (rule lt_goodI) simp_all
qed

lemma good_move_top:
  assumes inv: "lt_inv fs xs c0 c (add_mset (MoveTop k v i s) N) evs"
  shows "lt_good xs c0 (MoveTop k v i s) N evs (step_move_top c k v i s)"
proof -
  note F = lt_inv_facts [OF inv]
  have P: "lt_map c (set xs \<union> known_of N)" using F(3) by simp
  from F(5) have "fh_map (lru_fh c) k = Some (Some (OPtr i))" by simp
  with P have "i \<in> set xs \<union> known_of N" by (auto simp: lt_map_def)
  then have i: "int i < ll_size (lru_ll c)"
    using lt_slot_bound [OF F(6)] known_slots [of i N] by auto
  obtain l ys where
    l: "ll_slot_move_to_top (Some (lru_ll c)) (Some i) = Some (Some l)" "ll_inv l fs ys" "mset ys = mset xs"
      "pl l = pl (lru_ll c)" "ll_size l = ll_size (lru_ll c)"
    using ll_slot_move_to_top_any [OF F(1) i] by blast
  have links: "nx l j = nx (lru_ll c) j \<and> pv l j = pv (lru_ll c) j" if "j \<in># slots_of N" for j
    using ll_slot_move_to_top_links [OF F(1) l(1) i, of j] that lt_listed [OF F(6), of j] by auto
  have "step_move_top c k v i s = Some (c\<lparr>lru_ll := l\<rparr>, [Release k v s], Silent)" using l(1) by (simp add: step_move_top_def)
  moreover have "lt_inv fs ys c0 (c\<lparr>lru_ll := l\<rparr>) (mset [Release k v s] + N) (evs @ [Silent])"
    by (rule lt_step_list [OF inv l(2,5)]) (use l(3,4) mset_eq_setD [OF l(3)] links F(5) in auto)
  ultimately show ?thesis using mset_eq_length [OF l(3)] by (intro lt_goodI) auto
qed

lemma good_release:
  assumes inv: "lt_inv fs xs c0 c (add_mset (Release k v s) N) evs"
  shows "lt_good xs c0 (Release k v s) N evs (step_release c k v s)"
proof -
  note F = lt_inv_facts [OF inv]
  let ?f = "lru_fh c"
  have P: "lt_map c (set xs \<union> known_of N)" using F(3) by simp
  have ok: "fh_table_ok ?f" using F(2) by (simp add: fh_inv_def)
  have held: "h_held ?f ! key_lock ?f k" by (rule locks_ok_held [OF F(4) _ _ ok]) auto
  let ?g = "?f\<lparr>h_held := (h_held ?f)[key_lock ?f k := False]\<rparr>"
  let ?c = "c\<lparr>lru_fh := ?g\<rparr>"
  have g: "fh_conf ?g = fh_conf ?f" "fh_inv ?g" using fh_inv_held [of _ ?f] F(2) by simp_all
  have "locks_ok fr_key ?g (mset [] + N)"
    by (rule locks_ok_drop [OF F(4) g(1) _ _ _ ok, of k]) simp_all
  moreover have "lt_map ?c (set xs \<union> known_of N)" "lru_contents ?c = lru_contents c"
    by (rule lt_map_cong [OF P]; simp)+
  ultimately have "lt_inv fs xs c0 ?c (mset [] + N) (evs @ [Found k v])"
    by (intro lt_step_table [OF inv g(2,1)]) (use F(5) in auto)
  moreover have "step_release c k v s = Some (?c, [], Found k v)"
    using F(5) fh_releaselock_held [OF F(2) held] by (simp add: step_release_def)
  ultimately show ?thesis by (intro lt_goodI) auto
qed

section \<open>Every step\<close>

text \<open>The key whose lock a step needs.\<close>

fun fr_needs :: "'v lru \<Rightarrow> 'v lru_frame \<Rightarrow> cstr option" where
  "fr_needs c (DelOld k v j) = Some (key_at c j)"
| "fr_needs c (InsertNew k v i) = Some k"
| "fr_needs c (Search k) = Some k"
| "fr_needs c (DelAll j) = Some (key_at c j)"
| "fr_needs c fr = None"

lemmas good_steps =
  good_new_slot good_take_last good_del_old good_free_old good_fill_new good_insert_new good_drop_new good_top_new
  good_search good_read_hit good_move_top good_release good_take_all good_del_all good_free_all

lemma good_step:
  assumes "lt_inv fs xs c0 c (add_mset fr N) evs"
    and "\<And>k. fr_needs c fr = Some k \<Longrightarrow> \<not> h_held (lru_fh c) ! key_lock (lru_fh c) k"
  shows "lt_good xs c0 fr N evs (lru_act a c fr)"
  using assms by (cases fr) (simp_all add: good_steps)

lemma blocked_step:
  assumes "lt_inv fs xs c0 c (add_mset fr N) evs" and "fr_needs c fr = Some k"
    and "h_held (lru_fh c) ! key_lock (lru_fh c) k"
  shows "lru_act a c fr = None"
proof -
  note F = lt_inv_facts [OF assms(1)]
  note b = fh_held_blocks [OF F(2) assms(3)]
  have "slot_key c j = KStr (key_at c j)" if "j \<in> fr_known fr" for j
    using lt_known(1) [OF F(3), of j] that by simp
  with assms(2) b show ?thesis
    by (cases fr) (auto simp: step_del_old_def step_del_all_def step_insert_new_def step_search_def lru_fh_del_def)
qed

text \<open>Who holds the lock can go on.\<close>

lemma lt_holder:
  assumes inv: "lt_inv fs xs c0 c (add_mset fr N) evs" and needs: "fr_needs c fr = Some k"
    and held: "h_held (lru_fh c) ! key_lock (lru_fh c) k"
  shows "\<exists>fr' \<in># N. map_option (key_lock (lru_fh c)) (fr_key fr') = Some (key_lock (lru_fh c) k)"
proof -
  note F = lt_inv_facts [OF inv]
  have "fr_key fr = None" using needs by (cases fr) auto
  from locks_ok_holder [OF F(4) this held] F(2) show ?thesis by (simp add: fh_inv_def)
qed

lemma lt_holder_runs:
  assumes inv: "lt_inv fs xs c0 c M evs" and "fr' \<in># M" and "fr_key fr' \<noteq> None"
  shows "\<not> fr_start fr'" and "lru_act b c fr' \<noteq> None"
proof -
  from assms(2) obtain M' where M: "M = add_mset fr' M'" by (rule mset_add)
  have "fr_needs c fr' = None" using assms(3) by (cases fr') auto
  with good_step [of fs xs c0 c fr' M' evs b] inv M show "lru_act b c fr' \<noteq> None" by (auto simp: lt_good_def)
  show "\<not> fr_start fr'" using assms(3) by (cases fr') auto
qed

definition lru_weight :: "'v lru \<Rightarrow> nat" where
  "lru_weight c = 4 * length (lru_slots c)"

lemma lt_inv_weight:
  assumes "lt_inv fs xs c0 c M evs"
  shows "lru_weight c = 4 * length xs"
  using assms ll_inv_slots [of c fs xs] by (simp add: lt_inv_def lt_slots_def lru_weight_def)

lemma lt_ok_step:
  assumes "lt_ok c0 c (add_mset fr M) evs" and "lru_act a c fr = Some (c', new, ev)"
  shows "lt_ok c0 c' (mset new + M) (evs @ [ev])"
    and "lru_weight c' + sum_list (map fr_cost new) < lru_weight c + fr_cost fr" and "length new \<le> 1"
proof -
  from assms(1) obtain fs xs where inv: "lt_inv fs xs c0 c (add_mset fr M) evs" by (auto simp: lt_ok_def)
  have "lt_good xs c0 fr M evs (lru_act a c fr)"
  proof (rule good_step [OF inv], rule notI)
    fix k assume "fr_needs c fr = Some k" "h_held (lru_fh c) ! key_lock (lru_fh c) k"
    from blocked_step [OF inv this, of a] assms(2) show False by simp
  qed
  with assms(2) obtain fs' xs' where g: "lt_inv fs' xs' c0 c' (mset new + M) (evs @ [ev])" "length new \<le> 1"
    "4 * length xs' + sum_list (map fr_cost new) < 4 * length xs + fr_cost fr" by (auto simp: lt_good_def)
  then show "lt_ok c0 c' (mset new + M) (evs @ [ev])" "length new \<le> 1" by (auto simp: lt_ok_def)
  from g lt_inv_weight [OF g(1)] lt_inv_weight [OF inv]
  show "lru_weight c' + sum_list (map fr_cost new) < lru_weight c + fr_cost fr" by simp
qed

lemma lt_ok_waits:
  assumes "lt_ok c0 c (add_mset fr M) evs" and "lru_act a c fr = None"
  shows "\<exists>fr' \<in># M. \<not> fr_start fr' \<and> (\<forall>b. lru_act b c fr' \<noteq> None)"
proof -
  from assms(1) obtain fs xs where inv: "lt_inv fs xs c0 c (add_mset fr M) evs" by (auto simp: lt_ok_def)
  from good_step [OF inv, of a] assms(2) obtain k where
    "fr_needs c fr = Some k" "h_held (lru_fh c) ! key_lock (lru_fh c) k" by (auto simp: lt_good_def)
  from lt_holder [OF inv this] obtain fr' where "fr' \<in># M" "fr_key fr' \<noteq> None" by fastforce
  with lt_holder_runs [OF inv, of fr'] show ?thesis by auto
qed

interpretation lt: live_threads lru_act "lt_ok c0" lru_weight fr_cost fr_start for c0
proof unfold_locales
qed (fact lt_ok_step lt_ok_waits)+

end
