(* ===== verification/LruSpec.thy ===== *)
theory LruSpec
  imports LruInv FhEnumSpec
begin

text \<open>
  The contract of the LRU cache: each operation against the list of its entries, least recently
  used first, the refinement of whole sequences of calls, and the properties.
\<close>

section \<open>The operations\<close>

lemma lru_invE:
  assumes "lru_inv c"
  obtains fs xs where "lru_state c fs xs" and "length fs + length xs = nat (lru_size c)"
    and "lru_items c = items_at c xs"
proof -
  from assms obtain fs xs where "lru_state c fs xs" "length fs + length xs = nat (lru_size c)"
    by (auto simp: lru_inv_def)
  then show ?thesis using lru_state_items by (intro that) blast+
qed

lemma lru_invI:
  "lru_state c fs xs \<Longrightarrow> length fs + length xs = nat (lru_size c) \<Longrightarrow> lru_inv c"
  by (auto simp: lru_inv_def)

lemma lru_state_bad: "lru_state c fs xs \<Longrightarrow> \<not> lru_bad (Some c)"
  by (simp add: lru_bad_def lru_state_def)

lemma lru_conf_size: "lru_conf c' = lru_conf c \<Longrightarrow> lru_size c' = lru_size c"
  by (simp add: lru_conf_def)

text \<open>What is left after the eviction that makes room.\<close>

definition lru_room :: "nat \<Rightarrow> 'a list \<Rightarrow> 'a list" where
  "lru_room cap its = (if length its = cap then tl its else its)"

lemma map_of_snoc: "k \<notin> fst ` set xs \<Longrightarrow> map_of (xs @ [(k, v)]) = (map_of xs)(k \<mapsto> v)"
proof -
  assume "k \<notin> fst ` set xs"
  then have "map_of xs k = None" by (simp add: map_of_eq_None_iff)
  then show ?thesis by (auto simp: map_add_def fun_eq_iff split: option.split)
qed

lemma lru_drop_new:
  assumes s: "lru_state c fs xs" and i: "i \<notin> set fs" "i \<notin> set xs" "int i < ll_size (lru_ll c)"
    and f: "fh_ready f2" "fh_conf f2 = fh_conf (lru_fh c)" "fh_map f2 = fh_map (lru_fh c)"
    and k: "lp_key p \<noteq> KFreed"
  shows "\<exists>c2. lru_drop (c\<lparr>lru_fh := f2, lru_ll := set_payload (lru_ll c) i p\<rparr>) i = Some c2 \<and>
    lru_state c2 (i # fs) xs \<and> lru_conf c2 = lru_conf c \<and> items_at c2 xs = items_at c xs"
proof -
  let ?c1 = "c\<lparr>lru_fh := f2, lru_ll := set_payload (lru_ll c) i p\<rparr>"
  from lru_drop_spec [of ?c1 fs xs i] lru_state_ll [OF s] i k obtain l where
    l: "lru_drop ?c1 i = Some (c\<lparr>lru_fh := f2, lru_ll := l\<rparr>)" "ll_inv l (i # fs) xs"
      "\<forall>j. j \<noteq> i \<longrightarrow> pl l j = pl (lru_ll c) j" "ll_size l = ll_size (lru_ll c)" by auto
  let ?c2 = "c\<lparr>lru_fh := f2, lru_ll := l\<rparr>"
  have pls: "pl (lru_ll ?c2) j = pl (lru_ll c) j" if "j \<in> set xs" for j using that i(2) l(3) by auto
  have "lru_state ?c2 (i # fs) xs" "items_at ?c2 xs = items_at c xs"
    using l f pls by (intro lru_state_same [OF s]; simp add: lru_conf_def)+
  with l(1) show ?thesis by (simp add: lru_conf_def)
qed

lemma lru_add_spec:
  assumes inv: "lru_inv c"
  defines "its \<equiv> lru_room (nat (lru_size c)) (lru_items c)"
  shows "\<exists>rc c'. lru_add (Some c) (Some k) v kok al = Some (rc, Some c') \<and> lru_inv c' \<and>
    lru_size c' = lru_size c \<and>
    (if \<not> kok then rc = LRU_NO_MEMORY \<and> lru_items c' = its
     else if k \<in> fst ` set its then rc = LRU_DUPLICATED_ELEMENT \<and> lru_items c' = its
     else rc = LRU_NO_MEMORY \<and> \<not> (a_bucket al \<and> a_chain al) \<and> lru_items c' = its \<or>
       rc = LRU_OK \<and> lru_items c' = its @ [(k, v)])"
proof -
  obtain fs0 xs0 where s0: "lru_state c fs0 xs0" "length fs0 + length xs0 = nat (lru_size c)"
    "lru_items c = items_at c xs0" by (rule lru_invE [OF inv])
  from lru_take_slot_spec [OF s0(1,2)] obtain i c1 fs xs where
    t: "lru_take_slot c = Some (Some i, c1)" "lru_state c1 fs xs" "i \<notin> set fs" "i \<notin> set xs"
      "int i < ll_size (lru_ll c1)" "nx (lru_ll c1) i = None" "pv (lru_ll c1) i = None"
      "Suc (length fs + length xs) = nat (lru_size c)" "lru_conf c1 = lru_conf c"
      "items_at c1 xs = (if length xs0 = nat (lru_size c) then tl (items_at c xs0) else items_at c xs0)"
    by blast
  have its: "its = items_at c1 xs" by (simp add: its_def lru_room_def s0(3) t(10))
  have keys: "fst ` set its = dom (fh_map (lru_fh c1))"
    unfolding its lru_state_dom [OF t(2)] by (metis items_keys(1) list.set_map)
  have size: "lru_size c1 = lru_size c" using t(9) by (rule lru_conf_size)
  note bad = lru_state_bad [OF s0(1)]
  let ?new = "(s_payload (ll_slots (lru_ll c1) i))\<lparr>lp_payload := v, lp_slot := i\<rparr>"
  let ?p = "?new\<lparr>lp_key := KStr k\<rparr>"
  let ?l2 = "set_payload (lru_ll c1) i ?p"
  show ?thesis
  proof (cases kok)
    case False
    let ?l = "set_payload (lru_ll c1) i (?new\<lparr>lp_key := KNull\<rparr>)"
    from ll_slot_free_spec [of ?l fs xs i] lru_state_ll [OF t(2)] t(3,4,5) obtain l where
      l: "ll_slot_free (Some ?l) (Some i) = Some (Some l)" "ll_inv l (i # fs) xs" "pl l = pl ?l"
        "ll_size l = ll_size ?l" by auto
    let ?c2 = "c1\<lparr>lru_ll := l\<rparr>"
    have "lru_state ?c2 (i # fs) xs" "items_at ?c2 xs = items_at c1 xs"
      using l t(2,4) by (intro lru_state_same [OF t(2)]; auto simp: lru_conf_def lru_state_def)+
    moreover have "lru_add (Some c) (Some k) v kok al = Some (LRU_NO_MEMORY, Some ?c2)"
      using False t(1) l(1) bad by (simp add: lru_add_def Let_def)
    ultimately show ?thesis
      using False t(8) size lru_state_items [of ?c2] by (auto simp: its intro!: lru_invI)
  next
    case True
    have fh: "fh_ready (lru_fh c1)" "dont_copy_key (lru_fh c1)" "h_datalen (lru_fh c1) = FH_DATALEN_VOIDP"
      using t(2) by (simp_all add: lru_state_def)
    from fh_insert_ptr_spec [OF fh, of k i al] obtain rc f2 where
      ins: "fh_insert (Some (lru_fh c1)) (Some k) (Some (i, [])) al = Some (rc, Some f2)"
        "fh_ready f2" "fh_conf f2 = fh_conf (lru_fh c1)"
        "if k \<in> dom (fh_map (lru_fh c1)) then rc = FH_DUPLICATED_ELEMENT \<and> fh_map f2 = fh_map (lru_fh c1)
         else rc = FH_NO_MEMORY \<and> \<not> (a_bucket al \<and> a_chain al) \<and> fh_map f2 = fh_map (lru_fh c1) \<or>
           0 \<le> rc \<and> fh_map f2 = (fh_map (lru_fh c1))(k \<mapsto> Some (OPtr i))"
      by blast
    note unf = lru_add_def Let_def t(1) ins(1)
    have dropped: "\<exists>c2. lru_drop (c1\<lparr>lru_fh := f2, lru_ll := ?l2\<rparr>) i = Some c2 \<and> lru_inv c2 \<and>
        lru_size c2 = lru_size c \<and> lru_items c2 = its"
      if "fh_map f2 = fh_map (lru_fh c1)"
    proof -
      have "lp_key ?p \<noteq> KFreed" by simp
      from lru_drop_new [OF t(2,3,4,5) ins(2,3) that this] obtain c2 where
        c2: "lru_drop (c1\<lparr>lru_fh := f2, lru_ll := ?l2\<rparr>) i = Some c2" "lru_state c2 (i # fs) xs"
          "lru_conf c2 = lru_conf c1" "items_at c2 xs = items_at c1 xs" by blast
      then show ?thesis
        using t(8) size lru_conf_size [OF c2(3)] lru_state_items [OF c2(2)]
        by (auto simp: its intro: lru_invI)
    qed
    consider (dup) "k \<in> dom (fh_map (lru_fh c1))" "rc = FH_DUPLICATED_ELEMENT" "fh_map f2 = fh_map (lru_fh c1)"
      | (mem) "k \<notin> dom (fh_map (lru_fh c1))" "rc = FH_NO_MEMORY" "\<not> (a_bucket al \<and> a_chain al)"
          "fh_map f2 = fh_map (lru_fh c1)"
      | (ok) "k \<notin> dom (fh_map (lru_fh c1))" "0 \<le> rc"
          "fh_map f2 = (fh_map (lru_fh c1))(k \<mapsto> Some (OPtr i))"
      using ins(4) by (auto split: if_splits)
    then show ?thesis
    proof cases
      case dup
      from dropped [OF dup(3)] obtain c2 where
        c2: "lru_drop (c1\<lparr>lru_fh := f2, lru_ll := ?l2\<rparr>) i = Some c2" "lru_inv c2"
          "lru_size c2 = lru_size c" "lru_items c2 = its" by blast
      then have "lru_add (Some c) (Some k) v kok al = Some (LRU_DUPLICATED_ELEMENT, Some c2)"
        using True bad dup(2)
        by (simp add: unf LRU_OK_def FH_DUPLICATED_ELEMENT_def)
      with c2 True dup(1) keys show ?thesis by auto
    next
      case mem
      from dropped [OF mem(4)] obtain c2 where
        c2: "lru_drop (c1\<lparr>lru_fh := f2, lru_ll := ?l2\<rparr>) i = Some c2" "lru_inv c2"
          "lru_size c2 = lru_size c" "lru_items c2 = its" by blast
      then have "lru_add (Some c) (Some k) v kok al = Some (LRU_NO_MEMORY, Some c2)"
        using True bad mem(2)
        by (simp add: unf LRU_OK_def FH_DUPLICATED_ELEMENT_def FH_NO_MEMORY_def)
      with c2 True mem(1,3) keys show ?thesis by auto
    next
      case ok
      have "ll_inv ?l2 fs xs" "nx ?l2 i = None" "pv ?l2 i = None"
        using lru_state_ll [OF t(2)] t(6,7) by simp_all
      from ll_slot_add_to_top_spec [OF this(1) _ t(3,4) this(2,3)] t(5) obtain l3 where
        l3: "ll_slot_add_to_top (Some ?l2) (Some i) = Some (Some l3)" "ll_inv l3 fs (xs @ [i])"
          "pl l3 = pl ?l2" "ll_size l3 = ll_size ?l2" by auto
      let ?c3 = "c1\<lparr>lru_fh := f2, lru_ll := l3\<rparr>"
      have add: "lru_add (Some c) (Some k) v kok al = Some (LRU_OK, Some ?c3)"
        using True bad ok(2) l3(1)
        by (simp add: unf FH_DUPLICATED_ELEMENT_def FH_NO_MEMORY_def)
      have pls: "pl (lru_ll ?c3) j = pl (lru_ll c1) j" if "j \<in> set xs" for j
        using that t(4) l3(3) by auto
      have kj: "key_at ?c3 j = key_at c1 j" if "j \<in> set xs" for j using pls [OF that] by (rule key_at_cong)
      have ki: "key_at ?c3 i = k" "pl (lru_ll ?c3) i = ?p" using l3(3) by (simp_all add: key_at_def)
      have m: "map (key_at ?c3) (xs @ [i]) = map (key_at c1) xs @ [k]"
        "map (\<lambda>i. (key_at ?c3 i, Some (OPtr i))) (xs @ [i]) =
          map (\<lambda>i. (key_at c1 i, Some (OPtr i))) xs @ [(k, Some (OPtr i))]"
        using kj ki(1) by simp_all
      have nk: "k \<notin> key_at c1 ` set xs" using ok(1) lru_state_dom [OF t(2)] by simp
      have "lru_state ?c3 fs (xs @ [i])"
      proof (rule lru_state_change [OF t(2)])
        show "distinct (map (key_at ?c3) (xs @ [i]))"
          unfolding m using t(2) nk by (simp add: lru_state_def)
        show "fh_map (lru_fh ?c3) = map_of (map (\<lambda>i. (key_at ?c3 i, Some (OPtr i))) (xs @ [i]))"
        proof -
          have "k \<notin> fst ` set (map (\<lambda>i. (key_at c1 i, Some (OPtr i :: nat obj))) xs)"
            using nk by (auto simp: image_image)
          from map_of_snoc [OF this] show ?thesis
            unfolding m using t(2) ok(3) by (simp add: lru_state_def)
        qed
        show "lp_slot (pl (lru_ll ?c3) j) = j \<and> lp_key (pl (lru_ll ?c3) j) = KStr (key_at ?c3 j)"
          if "j \<in> set (xs @ [i])" for j
        proof (cases "j = i")
          case True
          with ki show ?thesis by simp
        next
          case False
          with that have "j \<in> set xs" by simp
          with t(2) pls kj show ?thesis by (simp add: lru_state_def)
        qed
      qed (use l3 ins(2,3) in \<open>simp_all add: lru_conf_def\<close>)
      moreover have "items_at ?c3 (xs @ [i]) = its @ [(k, v)]"
        using kj ki pls by (simp add: its items_at_def)
      ultimately show ?thesis
        using add True ok(1) keys t(8) size lru_state_items [of ?c3 fs "xs @ [i]"]
        by (auto intro: lru_invI)
    qed
  qed
qed

lemma items_filter:
  assumes "distinct (map (key_at c) (as @ i # bs))"
  shows "filter (\<lambda>p. fst p \<noteq> key_at c i) (items_at c (as @ i # bs)) = items_at c (as @ bs)"
proof -
  have "filter (\<lambda>p. fst p \<noteq> key_at c i) (items_at c xs) = items_at c xs" if "key_at c i \<notin> key_at c ` set xs" for xs
  proof -
    have "key_at c j \<noteq> key_at c i" if "j \<in> set xs" for j
      using that \<open>key_at c i \<notin> key_at c ` set xs\<close> by (metis imageI)
    then show ?thesis by (auto simp: items_at_def filter_id_conv)
  qed
  moreover have "key_at c i \<notin> key_at c ` set as" "key_at c i \<notin> key_at c ` set bs" using assms by auto
  ultimately show ?thesis by (simp add: items_at_def)
qed

lemma lru_check_spec:
  assumes inv: "lru_inv c"
  shows "case map_of (lru_items c) k of
      None \<Rightarrow> lru_check (Some c) (Some k) = Some (LRU_ELEMENT_NOT_FOUND, None, Some c)
    | Some v \<Rightarrow> \<exists>c'. lru_check (Some c) (Some k) = Some (LRU_OK, Some v, Some c') \<and> lru_inv c' \<and>
        lru_size c' = lru_size c \<and>
        lru_items c' = filter (\<lambda>p. fst p \<noteq> k) (lru_items c) @ [(k, v)]"
proof -
  obtain fs xs where s: "lru_state c fs xs" "length fs + length xs = nat (lru_size c)"
    "lru_items c = items_at c xs" by (rule lru_invE [OF inv])
  note bad = lru_state_bad [OF s(1)]
  from s(1) have r: "fh_ready (lru_fh c)" and dist: "distinct (map (key_at c) xs)" by (simp_all add: lru_state_def)
  show ?thesis
  proof (cases "k \<in> key_at c ` set xs")
    case False
    then have "fh_map (lru_fh c) k = None" using lru_state_dom [OF s(1)] by auto
    from fh_searchlock_absent [OF r this] bad
    have "lru_check (Some c) (Some k) = Some (LRU_ELEMENT_NOT_FOUND, None, Some c)"
      by (simp add: lru_check_def)
    moreover have "map_of (lru_items c) k = None"
      using False by (auto simp: s(3) map_of_eq_None_iff items_at_def)
    ultimately show ?thesis by simp
  next
    case True
    then obtain i where i: "i \<in> set xs" "k = key_at c i" by auto
    then obtain as bs where xs: "xs = as @ i # bs" by (meson split_list)
    let ?v = "lp_payload (pl (lru_ll c) i)"
    have m: "map_of (lru_items c) k = Some ?v"
      unfolding s(3) using i dist by (intro map_of_is_SomeI) (auto simp: items_at_def comp_def)
    have "fh_map (lru_fh c) k = Some (Some (OPtr i))" using lru_state_map [OF s(1) i(1)] i(2) by simp
    then obtain l where
      l: "fh_searchlock (Some (lru_fh c)) (Some k) = Some (FH_OK, Some (OPtr i), Some (fh_key_index (lru_fh c) k),
          Some ((lru_fh c)\<lparr>h_held := (h_held (lru_fh c))[l := True]\<rparr>))"
        "fh_releaselock (Some ((lru_fh c)\<lparr>h_held := (h_held (lru_fh c))[l := True]\<rparr>)) (fh_key_index (lru_fh c) k) =
          Some (FH_OK, Some (lru_fh c))"
      by (rule fh_searchlock_spec [OF r]) (rule that)
    have slot: "lp_slot (pl (lru_ll c) i) = i" using s(1) i(1) by (simp add: lru_state_def)
    from ll_slot_move_to_top_spec [of "lru_ll c" fs as i bs] lru_state_ll [OF s(1)] xs obtain l2 where
      l2: "ll_slot_move_to_top (Some (lru_ll c)) (Some i) = Some (Some l2)" "ll_inv l2 fs (as @ bs @ [i])"
        "pl l2 = pl (lru_ll c)" "ll_size l2 = ll_size (lru_ll c)" by blast
    let ?c2 = "c\<lparr>lru_ll := l2\<rparr>"
    have chk: "lru_check (Some c) (Some k) = Some (LRU_OK, Some ?v, Some ?c2)"
      using l l2(1) slot bad by (simp add: lru_check_def Let_def s_payload_pl)
    have key: "key_at ?c2 = key_at c" by (rule ext, rule key_at_cong) (simp add: l2(3))
    have items: "items_at ?c2 ys = items_at c ys" for ys by (rule items_at_cong) (simp add: l2(3))
    have st: "lru_state ?c2 fs (as @ bs @ [i])"
    proof (rule lru_state_change [OF s(1)])
      show "distinct (map (key_at ?c2) (as @ bs @ [i]))" using dist by (auto simp: key xs)
      show "fh_map (lru_fh ?c2) = map_of (map (\<lambda>i. (key_at ?c2 i, Some (OPtr i))) (as @ bs @ [i]))"
      proof -
        let ?f = "\<lambda>i. (key_at c i, Some (OPtr i :: nat obj))"
        have d: "distinct (map fst (map ?f as @ map ?f bs))" "key_at c i \<notin> fst ` set (map ?f as @ map ?f bs)"
          using dist by (auto simp: xs comp_def)
        have "fh_map (lru_fh c) = map_of (map ?f as @ ?f i # map ?f bs)"
          using s(1) by (simp add: lru_state_def xs)
        also have "\<dots> = map_of ((map ?f as @ map ?f bs) @ [?f i])"
          using map_of_insert [OF d, of "Some (OPtr i)"] map_of_snoc [OF d(2), of "Some (OPtr i)"] by simp
        finally show ?thesis by (simp add: key)
      qed
      show "lp_slot (pl (lru_ll ?c2) j) = j \<and> lp_key (pl (lru_ll ?c2) j) = KStr (key_at ?c2 j)"
        if "j \<in> set (as @ bs @ [i])" for j
      proof -
        from that have "j \<in> set xs" by (auto simp: xs)
        with s(1) show ?thesis by (simp add: key l2(3) lru_state_def)
      qed
    qed (use l2 r in \<open>simp_all add: lru_conf_def\<close>)
    have "lru_items ?c2 = items_at c (as @ bs) @ [(k, ?v)]"
      using lru_state_items [OF st] i(2) by (simp add: items) (simp add: items_at_def)
    moreover have "items_at c (as @ bs) = filter (\<lambda>p. fst p \<noteq> k) (lru_items c)"
      using items_filter [of c as i bs] dist i(2) by (simp add: s(3) xs)
    moreover have "length fs + length (as @ bs @ [i]) = nat (lru_size ?c2)" using s(2) by (simp add: xs)
    then have "lru_inv ?c2" by (rule lru_invI [OF st])
    ultimately show ?thesis using m chk by auto
  qed
qed

lemma lru_clear_spec:
  assumes inv: "lru_inv c"
  shows "\<exists>c'. lru_clear (Some c) = Some (LRU_OK, Some c') \<and> lru_inv c' \<and> lru_size c' = lru_size c \<and>
    lru_items c' = [] \<and> fh_map (lru_fh c') = Map.empty"
proof -
  obtain fs xs where s: "lru_state c fs xs" "length fs + length xs = nat (lru_size c)"
    "lru_items c = items_at c xs" by (rule lru_invE [OF inv])
  from lru_clear_loop_spec [OF s(1)] obtain c1 where
    c1: "lru_clear_loop c = Some (LRU_OK, c1)" "lru_state c1 (rev xs @ fs) []" "lru_conf c1 = lru_conf c"
    by blast
  have "lru_clear (Some c) = Some (LRU_OK, Some c1)"
    using c1(1) lru_state_bad [OF s(1)] by (simp add: lru_clear_def)
  moreover have "lru_items c1 = []" using lru_state_items [OF c1(2)] by (simp add: items_at_def)
  moreover have "fh_map (lru_fh c1) = Map.empty" using c1(2) by (simp add: lru_state_def)
  moreover have "lru_inv c1" "lru_size c1 = lru_size c"
    using c1(2) s(2) lru_conf_size [OF c1(3)] by (auto intro: lru_invI)
  ultimately show ?thesis by blast
qed

lemma lru_payload_spec:
  assumes inv: "lru_inv c" and ne: "lru_items c \<noteq> []"
  shows "if nat idx < length (lru_items c)
    then \<exists>i. ll_get_payload (lru_ll c) idx = Some (LL_OK, Some i) \<and>
      lp_key (s_payload (ll_slots (lru_ll c) i)) = KStr (fst (rev (lru_items c) ! nat idx)) \<and>
      lp_payload (s_payload (ll_slots (lru_ll c) i)) = snd (rev (lru_items c) ! nat idx)
    else ll_get_payload (lru_ll c) idx = Some (LL_ERROR_INDEX_OUT_OF_RANGE, None)"
proof -
  obtain fs xs where s: "lru_state c fs xs" "lru_items c = items_at c xs" by (rule lru_invE [OF inv])
  have "xs \<noteq> []" using ne by (auto simp: s(2) items_at_def)
  note g = ll_get_payload_spec [OF lru_state_ll [OF s(1)] this, of idx]
  show ?thesis
  proof (cases "nat idx < length xs")
    case True
    let ?i = "rev xs ! nat idx"
    have "?i \<in> set xs" using True nth_mem [of "nat idx" "rev xs"] by simp
    then have "lp_key (pl (lru_ll c) ?i) = KStr (key_at c ?i)" using s(1) by (simp add: lru_state_def)
    moreover have "rev (lru_items c) ! nat idx = (key_at c ?i, lp_payload (pl (lru_ll c) ?i))"
      using True by (simp add: s(2) items_at_def rev_map)
    ultimately show ?thesis using g True by (simp add: s(2) s_payload_pl)
  next
    case False
    with g show ?thesis by (simp add: s(2))
  qed
qed

text \<open>The index of a key among those from the most recently used entry on.\<close>

primrec position_from :: "cstr \<Rightarrow> cstr list \<Rightarrow> int \<Rightarrow> int" where
  "position_from k [] n = -1"
| "position_from k (x # xs) n = (if x = k then n else position_from k xs (n + 1))"

lemma lru_position_loop_spec:
  assumes inv: "lru_inv c" and ne: "lru_items c \<noteq> []"
  shows "n \<le> length (lru_items c) \<Longrightarrow>
    lru_position_loop c k (int n) = Some (position_from k (drop n (map fst (rev (lru_items c)))) (int n))"
proof (induction "length (lru_items c) - n" arbitrary: n)
  case 0
  with lru_payload_spec [OF inv ne, of "int n"] show ?case
    by (subst lru_position_loop.simps) (simp add: LL_OK_def LL_ERROR_INDEX_OUT_OF_RANGE_def)
next
  case (Suc d)
  then have n: "n < length (lru_items c)" by simp
  then have d: "drop n (map fst (rev (lru_items c))) =
      fst (rev (lru_items c) ! n) # drop (Suc n) (map fst (rev (lru_items c)))"
    by (simp add: Cons_nth_drop_Suc [symmetric])
  from lru_payload_spec [OF inv ne, of "int n"] n obtain i where
    i: "ll_get_payload (lru_ll c) (int n) = Some (LL_OK, Some i)"
      "lp_key (s_payload (ll_slots (lru_ll c) i)) = KStr (fst (rev (lru_items c) ! n))" by auto
  have "lru_position_loop c k (int (Suc n)) =
      Some (position_from k (drop (Suc n) (map fst (rev (lru_items c)))) (int (Suc n)))"
    using Suc n by (intro Suc.hyps(1)) simp_all
  with i d show ?case
    by (subst lru_position_loop.simps) (auto simp: add.commute)
qed

lemma lru_inv_bad: "lru_inv c \<Longrightarrow> \<not> lru_bad (Some c)"
  using lru_state_bad by (auto simp: lru_inv_def)

lemma lru_position_spec:
  assumes "lru_inv c" and "lru_items c \<noteq> []"
  shows "lru_get_ll_key_position (Some c) k = Some (position_from k (map fst (rev (lru_items c))) 0)"
  using lru_position_loop_spec [OF assms, of 0 k] lru_inv_bad [OF assms(1)]
  by (simp add: lru_get_ll_key_position_def)

lemma lru_payload_empty:
  assumes "lru_inv c" and "lru_items c = []"
  shows "ll_get_payload (lru_ll c) idx = None"
proof -
  obtain fs xs where s: "lru_state c fs xs" "lru_items c = items_at c xs" by (rule lru_invE [OF assms(1)])
  with assms(2) have "xs = []" by (simp add: items_at_def)
  with lru_state_ll [OF s(1)] show ?thesis by (simp add: ll_get_payload_def ll_inv_def ll_core_def)
qed

section \<open>Creation and destruction\<close>

lemma attr_upd:
  "fh_ready f \<Longrightarrow> fh_ready (f\<lparr>h_attr := a\<rparr>)" "fh_map (f\<lparr>h_attr := a\<rparr>) = fh_map f"
proof -
  have i: "fh_key_index (f\<lparr>h_attr := a\<rparr>) k = fh_key_index f k" for k
    by (simp add: fh_key_index_def fh_index_def)
  show "fh_map (f\<lparr>h_attr := a\<rparr>) = fh_map f" by (rule ext) (simp add: fh_map_def i)
  show "fh_ready f \<Longrightarrow> fh_ready (f\<lparr>h_attr := a\<rparr>)"
    by (simp add: fh_ready_def fh_inv_def fh_table_ok_def fh_unlocked_def fh_size_def i)
qed

lemma lru_create_ready:
  assumes "0 < dim" and "dim + dim div 2 \<le> 2 ^ 30"
  shows "\<exists>r lost. lru_create wy dim al = Some (r, lost) \<and>
    (if al_handle al \<and> al_table al \<and> al_fh al \<and> al_locks al \<and> al_ll al \<and> al_slots al \<and>
        (\<forall>i < nat dim. al_payload al i)
     then lost = [] \<and> (\<exists>c. r = Some c \<and> lru_inv c \<and> lru_items c = [] \<and> lru_size c = dim)
     else r = None \<and> (lost = [] \<longleftrightarrow> \<not> al_handle al))"
proof -
  let ?mk = "fh_create wy dim FH_DATALEN_VOIDP None"
  obtain f :: "nat fh" where
    f: "?mk True True True = Some (Some f)" "fh_ready f" "fh_map f = Map.empty" "h_datalen f = FH_DATALEN_VOIDP"
    using fh_create_ready [of dim wy FH_DATALEN_VOIDP None] assms by auto
  show ?thesis
  proof (cases "al_handle al \<and> al_table al \<and> al_fh al \<and> al_locks al")
    case False
    show ?thesis
    proof (cases "al_handle al")
      case False2: False
      with assms(1) show ?thesis by (simp add: lru_create_def)
    next
      case h: True
      with False have "?mk (al_table al) (al_fh al) (al_locks al) = Some (None :: nat fh option)"
        by (intro fh_create_fails [OF f(1)]) blast
      then have "lru_create wy dim al = Some (None, [LostHandle])"
        using h assms(1) by (simp add: lru_create_def)
      with False h show ?thesis by auto
    qed
  next
    case True
    let ?f1 = "f\<lparr>h_attr := h_attr f OR word_of_int FH_SETATTR_DONTCOPYKEY\<rparr>"
    have ok: "fh_table_ok f" "h_elements f = int (fh_size f)" using f(2) by (simp_all add: fh_ready_def fh_inv_def)
    then have "h_elements f = 0" using fh_size_0 [OF ok(1)] f(3) by simp
    then have set: "fh_setattr (Some f) FH_SETATTR_DONTCOPYKEY 0 True = Some (FH_OK, Some ?f1)"
      using fh_ready_bad [OF f(2)] by (simp add: fh_setattr_def)
    have dc: "dont_copy_key ?f1"
      by (simp add: dont_copy_key_def FH_SETATTR_DONTCOPYKEY_def bit.conj_disj_distrib2)
    note unf = lru_create_def f(1) set
    consider (none) "\<not> (al_ll al \<and> al_slots al)"
        "ll_create dim (al_ll al) (al_slots al) (al_payload al) (al_garbage al) = (None, 0)"
      | (part) i where "i < nat dim" "\<not> al_payload al i"
        "ll_create dim (al_ll al) (al_slots al) (al_payload al) (al_garbage al) = (None, Suc i)"
      | (ok) l where "ll_create dim (al_ll al) (al_slots al) (al_payload al) (al_garbage al) = (Some l, 0)"
        "al_ll al" "al_slots al" "\<forall>i < nat dim. al_payload al i" "ll_inv l [0..<nat dim] []" "ll_size l = dim"
      using ll_create_spec [OF assms(1), of "al_ll al" "al_slots al" "al_payload al" "al_garbage al"] by blast
    then show ?thesis
    proof cases
      case none
      with True assms(1) show ?thesis by (auto simp: unf)
    next
      case part
      with True assms(1) show ?thesis by (auto simp: unf)
    next
      case ok
      let ?c = "\<lparr>lru_magic = LRU_MAGIC_ID, lru_size = dim, lru_fh = ?f1, lru_ll = l\<rparr>"
      have st: "lru_state ?c [0..<nat dim] []"
        using ok(5,6) assms(1) attr_upd(1) [OF f(2)] f(3,4) dc by (simp add: lru_state_def attr_upd(2))
      moreover have "lru_create wy dim al = Some (Some ?c, [])"
        using True assms(1) ok(1) by (simp add: unf)
      moreover have "lru_inv ?c" using st by (rule lru_invI) simp
      moreover have "lru_items ?c = []" using lru_state_items [OF st] by (simp add: items_at_def)
      ultimately show ?thesis using True ok(2-4) by auto
    qed
  qed
qed

lemma lru_destroy_spec:
  assumes "lru_inv c"
  shows "lru_destroy (Some c) eok lok = Some (1, [], None)"
proof -
  from lru_clear_spec [OF assms] obtain c1 where
    c1: "lru_clear (Some c) = Some (LRU_OK, Some c1)" "lru_inv c1" "fh_map (lru_fh c1) = Map.empty" by blast
  then have r: "fh_ready (lru_fh c1)" and ll: "\<not> ll_locked (lru_ll c1)"
    by (auto simp: lru_inv_def lru_state_def ll_inv_def)
  then have ok: "fh_table_ok (lru_fh c1)" and un: "fh_unlocked (lru_fh c1)"
    by (simp_all add: fh_ready_def fh_inv_def)
  have "concat (map chain_elems (hash_table (lru_fh c1))) = []"
    using fh_empty_chains [OF ok c1(3)] by (auto simp: chain_elems_def)
  moreover have "fh_clean (Some (lru_fh c1)) False eok lok = Some (FH_EMPTY_HASHTABLE, [], Some (lru_fh c1))"
    using fh_size_0 [OF ok] c1(3) by (intro fh_clean_empty [OF r]) simp_all
  ultimately have "fh_destroy (Some (lru_fh c1)) eok lok = Some (FH_OK, [], None)"
    using un fh_ready_bad [OF r] by (simp add: fh_destroy_def fh_unlocked_def)
  with c1(1) ll lru_inv_bad [OF assms] show ?thesis
    by (simp add: lru_destroy_def ll_destroy_def)
qed

section \<open>Sequences of calls\<close>

datatype 'v lru_call =
    LAdd cstr 'v
  | LCheck cstr
  | LClear
  | LPosition cstr
  | LData int

datatype 'v lru_result = LCode int | LFound int "'v option" | LEntry int "(key_ptr \<times> 'v) option"

definition lru_step :: "'v lru \<Rightarrow> 'v lru_call \<Rightarrow> ('v lru_result \<times> 'v lru) option" where
  "lru_step c call =
     (case call of
        LAdd k v \<Rightarrow> do { (rc, r) \<leftarrow> lru_add (Some c) (Some k) v True all_ok; c1 \<leftarrow> r; Some (LCode rc, c1) }
      | LCheck k \<Rightarrow> do { (rc, v, r) \<leftarrow> lru_check (Some c) (Some k); c1 \<leftarrow> r; Some (LFound rc v, c1) }
      | LClear \<Rightarrow> do { (rc, r) \<leftarrow> lru_clear (Some c); c1 \<leftarrow> r; Some (LCode rc, c1) }
      | LPosition k \<Rightarrow> do { n \<leftarrow> lru_get_ll_key_position (Some c) k; Some (LCode n, c) }
      | LData i \<Rightarrow>
          do { (rc, p) \<leftarrow> lru_get_ll_data (Some c) i;
               Some (LEntry rc (map_option (\<lambda>x. (lp_key x, lp_payload x)) p), c) })"

text \<open>The specification: a list of at most \<open>cap\<close> entries, least recently used first.\<close>

definition recency_step ::
  "nat \<times> (cstr \<times> 'v) list \<Rightarrow> 'v lru_call \<Rightarrow> 'v lru_result \<times> nat \<times> (cstr \<times> 'v) list" where
  "recency_step s call =
     (let (cap, its) = s in
      case call of
        LAdd k v \<Rightarrow>
          (let its1 = lru_room cap its in
           if k \<in> fst ` set its1 then (LCode LRU_DUPLICATED_ELEMENT, cap, its1)
           else (LCode LRU_OK, cap, its1 @ [(k, v)]))
      | LCheck k \<Rightarrow>
          (case map_of its k of
             None \<Rightarrow> (LFound LRU_ELEMENT_NOT_FOUND None, cap, its)
           | Some v \<Rightarrow> (LFound LRU_OK (Some v), cap, filter (\<lambda>p. fst p \<noteq> k) its @ [(k, v)]))
      | LClear \<Rightarrow> (LCode LRU_OK, cap, [])
      | LPosition k \<Rightarrow> (LCode (position_from k (map fst (rev its)) 0), cap, its)
      | LData i \<Rightarrow>
          (if nat i < length its
           then LEntry LRU_OK (Some (KStr (fst (rev its ! nat i)), snd (rev its ! nat i)))
           else LEntry LL_ERROR_INDEX_OUT_OF_RANGE None, cap, its))"

definition recency_ok :: "nat \<times> (cstr \<times> 'v) list \<Rightarrow> 'v lru_call \<Rightarrow> bool" where
  "recency_ok s call = (case call of LPosition k \<Rightarrow> snd s \<noteq> [] | LData i \<Rightarrow> snd s \<noteq> [] | _ \<Rightarrow> True)"

definition lru_abs :: "'v lru \<Rightarrow> nat \<times> (cstr \<times> 'v) list" where
  "lru_abs c = (nat (lru_size c), lru_items c)"

lemma lru_step_simulates:
  assumes inv: "lru_inv c" and ok: "recency_ok (lru_abs c) call"
  shows "\<exists>c'. lru_step c call = Some (fst (recency_step (lru_abs c) call), c') \<and> lru_inv c' \<and>
    lru_abs c' = snd (recency_step (lru_abs c) call)"
proof (cases call)
  case (LAdd k v)
  let ?its = "lru_room (nat (lru_size c)) (lru_items c)"
  have "a_bucket all_ok" "a_chain all_ok" by (simp_all add: all_ok_def)
  with lru_add_spec [OF inv, of k v True all_ok] obtain rc c' where
    c': "lru_add (Some c) (Some k) v True all_ok = Some (rc, Some c')" "lru_inv c'" "lru_size c' = lru_size c"
      "if k \<in> fst ` set ?its then rc = LRU_DUPLICATED_ELEMENT \<and> lru_items c' = ?its
       else rc = LRU_OK \<and> lru_items c' = ?its @ [(k, v)]"
    by (smt (verit))
  then show ?thesis
    by (cases "k \<in> fst ` set ?its") (simp_all add: LAdd lru_step_def recency_step_def lru_abs_def Let_def)
next
  case (LCheck k)
  from lru_check_spec [OF inv, of k] inv show ?thesis
    by (cases "map_of (lru_items c) k") (auto simp: LCheck lru_step_def recency_step_def lru_abs_def)
next
  case LClear
  from lru_clear_spec [OF inv] show ?thesis
    by (auto simp: LClear lru_step_def recency_step_def lru_abs_def)
next
  case (LPosition k)
  with ok have "lru_items c \<noteq> []" by (simp add: recency_ok_def lru_abs_def)
  from lru_position_spec [OF inv this] inv show ?thesis
    by (simp add: LPosition lru_step_def recency_step_def lru_abs_def)
next
  case (LData i)
  with ok have "lru_items c \<noteq> []" by (simp add: recency_ok_def lru_abs_def)
  from lru_payload_spec [OF inv this, of i] inv lru_inv_bad [OF inv] show ?thesis
    by (auto simp: LData lru_step_def recency_step_def lru_abs_def lru_get_ll_data_def LL_OK_def
        LL_ERROR_INDEX_OUT_OF_RANGE_def)
qed

interpretation lru_sim: simulation lru_step recency_step recency_ok lru_abs lru_inv
  by unfold_locales (rule lru_step_simulates)

end
