(* ===== verification/LruProps.thy ===== *)
theory LruProps
  imports LruSpec
begin

text \<open>
  The properties of the LRU cache and of the list under it, with the witnesses that apply them.
\<close>

section \<open>More on the list\<close>

text \<open>\<open>ll_remove_last\<close> leaves \<open>s_next\<close> of the slot it hands out. When the slot is put on top of the
  list again without passing through the free list, the top has a successor.\<close>

lemma ll_recycled_top:
  assumes inv: "ll_inv l fs (i # j # xs)"
  shows "\<exists>l1 l2. ll_remove_last (Some l) = Some (Some i, Some l1) \<and>
    ll_slot_add_to_top (Some l1) (Some i) = Some (Some l2) \<and> ll_top l2 = Some i \<and>
    ll_last l2 = Some j \<and> nx l2 i = Some j \<and> pv l2 j = None \<and> int j < ll_size l2 \<and> int i < ll_size l2"
proof -
  from ll_remove_last_spec [OF inv] obtain l1 where
    l1: "ll_remove_last (Some l) = Some (Some i, Some l1)" "ll_inv l1 fs (j # xs)" "nx l1 i = Some j"
      "ll_size l1 = ll_size l" by auto
  from inv have i: "int i < ll_size l1" "i \<notin> set fs" "i \<notin> set (j # xs)"
    using l1(4) by (auto simp: ll_inv_def ll_core_def)
  let ?top = "last (j # xs)"
  from l1(2) have c: "ll_core l1 fs (j # xs)" by (simp add: ll_inv_def)
  then have t: "ll_top l1 = Some ?top" "int ?top < ll_size l1" "ll_last l1 = Some j" "pv l1 j = None"
    "int j < ll_size l1"
    by (auto simp: ll_core_def last_or_def)
  from c i have s: "s_status (ll_slots l1 i) = LL_SLOT_DANGLING"
    by (simp add: ll_core_def flip: st_def)
  have ne: "i \<noteq> ?top" "i \<noteq> j" using i(3) by (auto dest: last_in_set)
  let ?l2 = "set_prev (set_next ((set_status (l1\<lparr>ll_locked := True\<rparr>) i 0)\<lparr>ll_top := Some i\<rparr>) ?top (Some i)) i
    (Some ?top)"
  have "ll_slot_add_to_top (Some l1) (Some i) = Some (Some (ll_unlock ?l2))"
    using s i(1) t ll_inv_lock [OF l1(2)]
    by (simp add: ll_slot_add_to_top_def ll_attach_def Let_def)
  moreover have "nx (ll_unlock ?l2) i = Some j" "pv (ll_unlock ?l2) j = None"
    using l1(3) ne t by simp_all
  ultimately show ?thesis using l1(1) i(1) t by (auto simp: ll_unlock_def)
qed

lemma ll_payload_bad_top:
  assumes "ll_last l = Some j" and "pv l j = None" and "int j < ll_size l"
    and "ll_top l = Some i" and "nx l i \<noteq> None" and "int i < ll_size l"
  shows "ll_get_payload l idx = Some (LL_ERROR_TOP_SLOT_INCONSISTENCY, None)"
  using assms by (simp add: ll_get_payload_def nx_def pv_def)

section \<open>More on the cache\<close>

lemma lru_take_slot_total:
  assumes s: "lru_state c fs xs"
  shows "\<exists>r c1. lru_take_slot c = Some (r, c1) \<and> (r = None \<longleftrightarrow> fs = [] \<and> xs = [])"
proof -
  have free: "\<exists>c1. lru_take_slot c = Some (Some i, c1)" if s: "lru_state c (i # fs) xs" for c :: "'a lru" and i fs xs
  proof -
    from ll_slot_new_spec [OF lru_state_ll [OF s]] show ?thesis
      by (subst lru_take_slot.simps) auto
  qed
  show ?thesis
  proof (cases fs)
    case (Cons i fs1)
    with s free show ?thesis by blast
  next
    case Nil
    with s have inv: "ll_inv (lru_ll c) [] xs" using lru_state_ll by blast
    note new = ll_slot_new_empty [OF inv]
    show ?thesis
    proof (cases xs)
      case Nil2: Nil
      then show ?thesis
        using Nil new ll_remove_last_empty [of "lru_ll c" "[]"] inv
        by (subst lru_take_slot.simps) simp
    next
      case (Cons j xs1)
      with s Nil lru_evict_spec [of c "[]" j xs1] obtain l2 rc c2 c3 where
        e: "ll_remove_last (Some (lru_ll c)) = Some (Some j, Some l2)"
          "lru_fh_del (c\<lparr>lru_ll := l2\<rparr>) (lp_key (s_payload (ll_slots l2 j))) = Some (rc, c2)"
          "lru_drop c2 j = Some c3" "lru_state c3 [j] xs1" by blast
      then have "lru_take_slot c = lru_take_slot c3"
        using new by (subst lru_take_slot.simps) simp
      with free [OF e(4)] Cons show ?thesis by auto
    qed
  qed
qed

lemma lru_items_bounded:
  assumes "lru_inv c"
  shows "distinct (map fst (lru_items c))" and "length (lru_items c) \<le> nat (lru_size c)"
proof -
  obtain fs xs where s: "lru_state c fs xs" "length fs + length xs = nat (lru_size c)"
    "lru_items c = items_at c xs" by (rule lru_invE [OF assms])
  then show "distinct (map fst (lru_items c))" "length (lru_items c) \<le> nat (lru_size c)"
    by (auto simp: lru_state_def items_at_def o_def)
qed

definition lru_allocs_ok :: "int \<Rightarrow> 'v lru_allocs \<Rightarrow> bool" where
  "lru_allocs_ok dim al \<longleftrightarrow>
     al_handle al \<and> al_table al \<and> al_fh al \<and> al_locks al \<and> al_ll al \<and> al_slots al \<and>
     (\<forall>i < nat dim. al_payload al i)"


lemma lru_created:
  assumes "0 < dim" and "dim + dim div 2 \<le> 2 ^ 30" and "lru_allocs_ok dim al"
  shows "\<exists>c. lru_create wy dim al = Some (Some c, []) \<and> lru_inv c \<and> lru_items c = [] \<and> lru_size c = dim"
proof -
  obtain r lost where "lru_create wy dim al = Some (r, lost)"
    "if lru_allocs_ok dim al then lost = [] \<and> (\<exists>c. r = Some c \<and> lru_inv c \<and> lru_items c = [] \<and> lru_size c = dim)
     else r = None \<and> (lost = [] \<longleftrightarrow> \<not> al_handle al)"
    using lru_create_ready [OF assms(1,2), of wy al] by (auto simp only: lru_allocs_ok_def)
  with assms(3) show ?thesis by auto
qed

section \<open>Properties\<close>


text \<open>C11: an addition to a valid cache always returns, whatever the allocator does, and leaves a
  valid cache. A full cache loses its least recently used entry first, even when the addition then
  fails for want of memory or because the key is there already; only then the new entry, if all
  is well, becomes the most recently used one.\<close>

theorem lru_add_correct:
  assumes "lru_inv c"
  shows "\<exists>rc c'. lru_add (Some c) (Some k) v kok al = Some (rc, Some c') \<and> lru_inv c' \<and>
    (let its = (if length (lru_items c) = nat (lru_size c) then tl (lru_items c) else lru_items c) in
     if \<not> kok then rc = LRU_NO_MEMORY \<and> lru_items c' = its
     else if k \<in> fst ` set its then rc = LRU_DUPLICATED_ELEMENT \<and> lru_items c' = its
     else rc = LRU_NO_MEMORY \<and> \<not> (a_bucket al \<and> a_chain al) \<and> lru_items c' = its \<or>
       rc = LRU_OK \<and> lru_items c' = its @ [(k, v)])"
  using lru_add_spec [OF assms, of k v kok al] unfolding lru_room_def Let_def by blast

text \<open>The loop that finds a slot for a new entry ends in every consistent state of the list,
  also when slots are in the hands of other callers: it fails only if the free list and the list
  are both empty, that is, if every slot is taken by an addition under way.\<close>

theorem lru_take_slot_returns:
  assumes "lru_state c fs xs"
  shows "\<exists>r c1. lru_take_slot c = Some (r, c1) \<and> (r = None \<longleftrightarrow> fs = [] \<and> xs = [])"
  using assms by (rule lru_take_slot_total)

text \<open>Creating a cache returns an empty valid one, or null if any of the allocations fails;
  in that case the blocks already allocated are lost, that is, always but when the first one
  fails.\<close>

theorem lru_create_correct:
  assumes "0 < dim" and "dim + dim div 2 \<le> 2 ^ 30"
  shows "\<exists>r lost. lru_create wy dim al = Some (r, lost) \<and>
    (if al_handle al \<and> al_table al \<and> al_fh al \<and> al_locks al \<and> al_ll al \<and> al_slots al \<and>
        (\<forall>i < nat dim. al_payload al i)
     then lost = [] \<and> (\<exists>c. r = Some c \<and> lru_inv c \<and> lru_items c = [] \<and> lru_size c = dim)
     else r = None \<and> (lost = [] \<longleftrightarrow> \<not> al_handle al))"
  using assms by (rule lru_create_ready)

text \<open>\<open>lru_destroy\<close> of a valid cache empties the table before it destroys it, so that, whatever
  becomes of the enumerator that \<open>fh_destroy\<close> allocates, no entry is lost; a destroyed handle is
  gone. \<open>lru_clear\<close> leaves an empty cache of the same size.\<close>

theorem lru_destroy_complete:
  assumes "lru_inv c"
  shows "lru_destroy (Some c) eok lok = Some (1, [], None) \<and>
    (\<exists>c'. lru_clear (Some c) = Some (LRU_OK, Some c') \<and> lru_inv c' \<and> lru_size c' = lru_size c \<and> lru_items c' = [])"
  using lru_destroy_spec [OF assms] lru_clear_spec [OF assms] by blast

text \<open>Asking an empty cache for the data at an index or for the position of a key dereferences
  the null pointer to its last slot.\<close>

theorem lru_inspect_empty_crashes:
  assumes "lru_inv c" and "lru_items c = []"
  shows "lru_get_ll_data (Some c) idx = None \<and> lru_get_ll_key_position (Some c) k = None"
  using lru_payload_empty [OF assms] lru_inv_bad [OF assms(1)]
  by (simp add: lru_get_ll_data_def lru_get_ll_key_position_def lru_position_loop.simps)

text \<open>Moving a slot of the list to its top keeps the others in their order and the payloads in
  their slots, wherever the slot is in the list; a slot that is not in the list stays where it is.\<close>

theorem ll_slot_move_to_top_correct:
  assumes "ll_inv l fs xs" and "int i < ll_size l"
  shows "\<exists>l'. ll_slot_move_to_top (Some l) (Some i) = Some (Some l') \<and>
    ll_inv l' fs (if i \<in> set xs then remove1 i xs @ [i] else xs) \<and>
    (\<forall>j. s_payload (ll_slots l' j) = s_payload (ll_slots l j)) \<and> ll_size l' = ll_size l"
proof (cases "i \<in> set xs")
  case True
  then obtain as bs where xs: "xs = as @ i # bs" "i \<notin> set as" by (meson split_list_first)
  with ll_slot_move_to_top_spec [of l fs as i bs] assms(1) obtain l' where
    "ll_slot_move_to_top (Some l) (Some i) = Some (Some l')" "ll_inv l' fs (as @ bs @ [i])"
    "pl l' = pl l" "ll_size l' = ll_size l" by blast
  with xs show ?thesis by (auto simp: remove1_append fun_eq_iff pl_def)
next
  case False
  with ll_slot_move_to_top_stays [OF assms] assms(1) show ?thesis by auto
qed

text \<open>A slot that \<open>ll_remove_last\<close> hands out and that goes back with \<open>ll_slot_add_to_top\<close> keeps
  its old successor, so that the top of the list points on to its last slot and each
  \<open>ll_get_payload\<close> reports an inconsistent top. The cache is safe only because it passes such
  slots through the free list.\<close>

theorem ll_recycled_slot_breaks_list:
  assumes "ll_inv l fs (i # j # xs)"
  shows "\<exists>l1 l2. ll_remove_last (Some l) = Some (Some i, Some l1) \<and>
    ll_slot_add_to_top (Some l1) (Some i) = Some (Some l2) \<and>
    ll_last l2 = Some j \<and> ll_top l2 = Some i \<and> s_next (ll_slots l2 i) = Some j \<and>
    (\<forall>idx. ll_get_payload l2 idx = Some (LL_ERROR_TOP_SLOT_INCONSISTENCY, None))"
  using ll_recycled_top [OF assms] ll_payload_bad_top by (metis nx_def option.distinct(1))


section \<open>Concrete caches\<close>

definition k3 :: cstr where "k3 = CStr [98]"

definition ex_allocs :: "nat lru_allocs" where
  "ex_allocs = \<lparr>al_handle = True, al_table = True, al_fh = True, al_locks = True, al_ll = True,
     al_slots = True, al_payload = (\<lambda>i. True),
     al_garbage = (\<lambda>i. \<lparr>lp_payload = 0, lp_slot = 0, lp_key = KNull\<rparr>)\<rparr>"

lemma ex_allocs_ok: "lru_allocs_ok dim ex_allocs"
  by (simp add: lru_allocs_ok_def ex_allocs_def)

lemma ex_keys_differ [simp]: "k1 \<noteq> k2" "k2 \<noteq> k1" "k1 \<noteq> k3" "k3 \<noteq> k1" "k2 \<noteq> k3" "k3 \<noteq> k2"
  by (simp_all add: k1_def k2_def k3_def)

text \<open>A full cache of two entries.\<close>

lemma ex_cache: "\<exists>c :: nat lru. lru_inv c \<and> lru_size c = 2 \<and> lru_items c = [(k1, 1), (k2, 2)]"
proof -
  let ?calls = "[LAdd k1 1, LAdd k2 2] :: nat lru_call list"
  from lru_created [of 2 ex_allocs "\<lambda>k. 0"] ex_allocs_ok obtain c :: "nat lru" where
    c: "lru_inv c" "lru_items c = []" "lru_size c = 2" by auto
  have "guarded recency_ok recency_step (lru_abs c) ?calls" by (simp add: recency_ok_def)
  from lru_sim.run_simulates [OF c(1) this] obtain c' where
    "lru_inv c'" "lru_abs c' = snd (spec_run recency_step (lru_abs c) ?calls)" by blast
  then show ?thesis
    using c by (intro exI [of _ c']) (auto simp: lru_abs_def recency_step_def lru_room_def Let_def)
qed

definition ex_ll :: "nat ll" where
  "ex_ll = \<lparr>ll_magic = LL_MAGIC_ID, ll_size = 3, ll_top = Some 1, ll_last = Some 0, freelist = Some 2,
     ll_slots = (\<lambda>i. if i = 0 then \<lparr>s_next = Some 1, s_prev = None, s_payload = 7, s_status = 0\<rparr>
       else if i = 1 then \<lparr>s_next = None, s_prev = Some 0, s_payload = 8, s_status = 0\<rparr>
       else \<lparr>s_next = None, s_prev = None, s_payload = 9, s_status = LL_SLOT_IN_FREELIST\<rparr>),
     ll_locked = False\<rparr>"

lemma ex_ll_inv: "ll_inv ex_ll [2] [0, 1]"
proof -
  have "\<forall>i. int i < 3 \<longrightarrow> i = 0 \<or> i = 1 \<or> i = 2" by auto
  then show ?thesis
    by (auto simp: ll_inv_def ll_core_def ex_ll_def nx_def pv_def st_def last_or_def)
qed

section \<open>Witnesses\<close>


theorem lru_add_correct_witness:
  "\<exists>c c' :: nat lru. lru_items c = [(k1, 1), (k2, 2)] \<and>
    lru_add (Some c) (Some k2) 3 True all_ok = Some (LRU_DUPLICATED_ELEMENT, Some c') \<and>
    lru_items c' = [(k2, 2)]"
proof -
  from ex_cache obtain c :: "nat lru" where
    c: "lru_inv c" "lru_size c = 2" "lru_items c = [(k1, 1), (k2, 2)]" by blast
  with lru_add_correct [OF c(1), of k2 3 True all_ok] show ?thesis by (auto simp: Let_def)
qed

theorem lru_take_slot_returns_witness:
  "\<exists>(c :: nat lru) r c1. lru_items c = [(k1, 1), (k2, 2)] \<and> lru_take_slot c = Some (Some r, c1)"
proof -
  from ex_cache obtain c :: "nat lru" where
    c: "lru_inv c" "lru_size c = 2" "lru_items c = [(k1, 1), (k2, 2)]" by blast
  obtain fs xs where s: "lru_state c fs xs" "lru_items c = items_at c xs" by (rule lru_invE [OF c(1)])
  with c(3) have "xs \<noteq> []" by (auto simp: items_at_def)
  with lru_take_slot_returns [OF s(1)] c(3) show ?thesis by auto
qed

theorem lru_create_correct_witness:
  "lru_create (\<lambda>k. 0) 10 (ex_allocs\<lparr>al_payload := (\<lambda>i. i \<noteq> 4)\<rparr>) \<noteq> None \<and>
    fst (the (lru_create (\<lambda>k. 0) 10 (ex_allocs\<lparr>al_payload := (\<lambda>i. i \<noteq> 4)\<rparr>))) = None \<and>
    snd (the (lru_create (\<lambda>k. 0) 10 (ex_allocs\<lparr>al_payload := (\<lambda>i. i \<noteq> 4)\<rparr>))) \<noteq> []"
proof -
  have "\<not> (\<forall>i < nat 10. i \<noteq> 4)" by auto
  with lru_create_correct [of 10 "\<lambda>k. 0" "ex_allocs\<lparr>al_payload := (\<lambda>i. i \<noteq> 4)\<rparr>"] show ?thesis
    by (auto simp: ex_allocs_def)
qed

theorem lru_destroy_complete_witness:
  "\<exists>c :: nat lru. lru_items c = [(k1, 1), (k2, 2)] \<and> lru_destroy (Some c) False True = Some (1, [], None)"
proof -
  from ex_cache obtain c :: "nat lru" where
    c: "lru_inv c" "lru_size c = 2" "lru_items c = [(k1, 1), (k2, 2)]" by blast
  with lru_destroy_complete [OF c(1), of False True] show ?thesis by blast
qed

theorem lru_inspect_empty_crashes_witness:
  "\<exists>c :: nat lru. lru_create (\<lambda>k. 0) 5 ex_allocs = Some (Some c, []) \<and>
    lru_get_ll_data (Some c) 0 = None \<and> lru_get_ll_key_position (Some c) k1 = None"
proof -
  from lru_created [of 5 ex_allocs "\<lambda>k. 0"] ex_allocs_ok obtain c :: "nat lru" where
    c: "lru_create (\<lambda>k. 0) 5 ex_allocs = Some (Some c, [])" "lru_inv c" "lru_items c = []" by auto
  with lru_inspect_empty_crashes [OF c(2,3), of 0 k1] show ?thesis by blast
qed

theorem ll_slot_move_to_top_correct_witness:
  "\<exists>l. ll_slot_move_to_top (Some ex_ll) (Some 0) = Some (Some l) \<and> ll_inv l [2] [1, 0] \<and>
    s_payload (ll_slots l 0) = 7"
proof -
  have "int 0 < ll_size ex_ll" "s_payload (ll_slots ex_ll 0) = 7" by (simp_all add: ex_ll_def)
  with ll_slot_move_to_top_correct [OF ex_ll_inv, of 0] show ?thesis by auto
qed

theorem ll_recycled_slot_breaks_list_witness:
  "\<exists>l1 l2. ll_remove_last (Some ex_ll) = Some (Some 0, Some l1) \<and>
    ll_slot_add_to_top (Some l1) (Some 0) = Some (Some l2) \<and>
    ll_get_payload l2 0 = Some (LL_ERROR_TOP_SLOT_INCONSISTENCY, None)"
  using ll_recycled_slot_breaks_list [OF ex_ll_inv] by blast

end
