(* ===== verification/LruThreadsSpec.thy ===== *)
theory LruThreadsSpec
  imports LruThreadsSteps LruProps
begin

text \<open>
  The properties of the cache used by several threads, with the witnesses that apply them.
\<close>

section \<open>A call without interruption is the call of the sequential model\<close>

lemmas lru_solo_step = solo_step [where act = lru_act]
lemmas lru_solo_end = solo_end [where act = lru_act]
lemmas lru_solo_run = solo_run [where act = lru_act, folded lru_run_def]

lemma solo_take_slot:
  "lru_take_slot c = Some p \<Longrightarrow> case fst p of None \<Rightarrow> sys_solo lru_act a c (NewSlot k v) (snd p) (Returned LRU_NO_MEMORY)
    | Some i \<Rightarrow> (\<forall>c' ev. sys_solo lru_act a (snd p) (FillNew k v i) c' ev \<longrightarrow> sys_solo lru_act a c (NewSlot k v) c' ev)"
proof (induction rule: lru_take_slot.raw_induct [rotated, consumes 1, case_names step])
  case (step take c p)
  from step(2) obtain s l1 where new: "ll_slot_new (Some (lru_ll c)) = Some (s, Some l1)"
    by (auto simp: bind_Some_iff)
  show ?case
  proof (cases s)
    case (Some i)
    with step(2) new have p: "p = (Some i, c\<lparr>lru_ll := l1\<rparr>)" by simp
    have "lru_act a c (NewSlot k v) = Some (c\<lparr>lru_ll := l1\<rparr>, [FillNew k v i], Silent)"
      using new Some by (simp add: step_new_slot_def)
    from lru_solo_step [OF this] p show ?thesis by simp
  next
    case None
    let ?c1 = "c\<lparr>lru_ll := l1\<rparr>"
    have n: "lru_act a c (NewSlot k v) = Some (?c1, [TakeLast k v], Silent)"
      using new None by (simp add: step_new_slot_def)
    from step(2) new None obtain r l2 where rem: "ll_remove_last (Some l1) = Some (r, Some l2)"
      by (auto simp: bind_Some_iff)
    show ?thesis
    proof (cases r)
      case None2: None
      with step(2) new None rem have p: "p = (None, c\<lparr>lru_ll := l2\<rparr>)" by simp
      have "lru_act a ?c1 (TakeLast k v) = Some (c\<lparr>lru_ll := l2\<rparr>, [], Returned LRU_NO_MEMORY)"
        using rem None2 by (simp add: step_take_last_def)
      from lru_solo_step [OF n lru_solo_end [OF this]] p show ?thesis by simp
    next
      case (Some j)
      let ?c2 = "c\<lparr>lru_ll := l2\<rparr>"
      from step(2) new None rem Some obtain rc c3 c4 where
        c: "lru_fh_del ?c2 (lp_key (s_payload (ll_slots l2 j))) = Some (rc, c3)" "lru_drop c3 j = Some c4" "take c4 = Some p"
        by (auto simp: bind_Some_iff)
      have t: "lru_act a ?c1 (TakeLast k v) = Some (?c2, [DelOld k v j], Silent)"
        using rem Some by (simp add: step_take_last_def)
      have d: "lru_act a ?c2 (DelOld k v j) = Some (c3, [FreeOld k v j], del_event rc (slot_key ?c2 j))"
        using c(1) by (simp add: step_del_old_def slot_key_def)
      have f: "lru_act a c3 (FreeOld k v j) = Some (c4, [NewSlot k v], Silent)"
        using c(2) by (simp add: step_free_old_def)
      have "sys_solo lru_act a c (NewSlot k v) c' ev" if "sys_solo lru_act a c4 (NewSlot k v) c' ev" for c' ev
        using lru_solo_step [OF n lru_solo_step [OF t lru_solo_step [OF d lru_solo_step [OF f that]]]] .
      with step(1) [OF c(3)] show ?thesis by (auto split: option.splits)
    qed
  qed
qed

lemma solo_add:
  assumes ok: "\<not> lru_bad (Some c)" and add: "lru_add (Some c) (Some k) v kok al = Some (rc, Some c')"
  shows "sys_solo lru_act (kok, al) c (NewSlot k v) c' (Returned rc)"
proof -
  from ok add obtain slot c1 where take: "lru_take_slot c = Some (slot, c1)"
    by (auto simp: lru_add_def bind_Some_iff)
  note s = solo_take_slot [OF take, of "(kok, al)" k v, simplified]
  show ?thesis
  proof (cases slot)
    case None
    with s ok add take show ?thesis by (simp add: lru_add_def)
  next
    case (Some i)
    let ?new = "(s_payload (ll_slots (lru_ll c1) i))\<lparr>lp_payload := v, lp_slot := i\<rparr>"
    have "sys_solo lru_act (kok, al) c1 (FillNew k v i) c' (Returned rc)"
    proof (cases kok)
      case False
      with Some ok add take show ?thesis
        by (intro lru_solo_end) (auto simp: lru_add_def step_fill_new_def bind_Some_iff)
    next
      case True
      let ?c2 = "c1\<lparr>lru_ll := set_payload (lru_ll c1) i (?new\<lparr>lp_key := KStr k\<rparr>)\<rparr>"
      have fill: "lru_act (kok, al) c1 (FillNew k v i) = Some (?c2, [InsertNew k v i], Silent)"
        using True by (simp add: step_fill_new_def Let_def)
      from True Some ok add take obtain rc' f2 where
        ins: "fh_insert (Some (lru_fh c1)) (Some k) (Some (i, [])) al = Some (rc', Some f2)"
        by (auto simp: lru_add_def bind_Some_iff Let_def)
      let ?c3 = "c1\<lparr>lru_fh := f2, lru_ll := set_payload (lru_ll c1) i (?new\<lparr>lp_key := KStr k\<rparr>)\<rparr>"
      have c3: "?c2\<lparr>lru_fh := f2\<rparr> = ?c3" by simp
      consider (dup) "lru_drop ?c3 i = Some c'" "rc = LRU_DUPLICATED_ELEMENT" "rc' \<noteq> LRU_OK \<and> rc' = FH_DUPLICATED_ELEMENT"
        | (mem) "lru_drop ?c3 i = Some c'" "rc = LRU_NO_MEMORY" "\<not> (rc' \<noteq> LRU_OK \<and> rc' = FH_DUPLICATED_ELEMENT)"
            "rc' \<noteq> LRU_OK \<and> rc' = FH_NO_MEMORY"
        | (top) l3 where "ll_slot_add_to_top (Some (lru_ll ?c3)) (Some i) = Some (Some l3)" "c' = ?c3\<lparr>lru_ll := l3\<rparr>"
            "rc = LRU_OK" "\<not> (rc' \<noteq> LRU_OK \<and> rc' = FH_DUPLICATED_ELEMENT)" "\<not> (rc' \<noteq> LRU_OK \<and> rc' = FH_NO_MEMORY)"
        using True Some ok add take ins
        by (auto simp: lru_add_def bind_Some_iff Let_def split: if_splits)
      then show ?thesis
      proof cases
        case dup
        with ins have "lru_act (kok, al) ?c2 (InsertNew k v i) = Some (?c3, [DropNew i rc], Present k)"
          by (simp add: step_insert_new_def flip: c3)
        moreover have "lru_act (kok, al) ?c3 (DropNew i rc) = Some (c', [], Returned rc)"
          using dup(1) by (simp add: step_drop_new_def)
        ultimately show ?thesis by (intro lru_solo_step [OF fill]) (blast intro: lru_solo_step lru_solo_end)
      next
        case mem
        with ins have "lru_act (kok, al) ?c2 (InsertNew k v i) = Some (?c3, [DropNew i rc], Silent)"
          by (simp add: step_insert_new_def flip: c3)
        moreover have "lru_act (kok, al) ?c3 (DropNew i rc) = Some (c', [], Returned rc)"
          using mem(1) by (simp add: step_drop_new_def)
        ultimately show ?thesis by (intro lru_solo_step [OF fill]) (blast intro: lru_solo_step lru_solo_end)
      next
        case top
        with ins have "lru_act (kok, al) ?c2 (InsertNew k v i) = Some (?c3, [TopNew i], Inserted k v)"
          by (simp add: step_insert_new_def flip: c3)
        moreover have "lru_act (kok, al) ?c3 (TopNew i) = Some (c', [], Returned rc)"
          using top(1-3) by (simp add: step_top_new_def)
        ultimately show ?thesis by (intro lru_solo_step [OF fill]) (blast intro: lru_solo_step lru_solo_end)
      qed
    qed
    with s Some show ?thesis by simp
  qed
qed

lemma solo_check:
  assumes ok: "\<not> lru_bad (Some c)" and check: "lru_check (Some c) (Some k) = Some (rc, r, Some c')"
  shows "sys_solo lru_act a c (Search k) c' (case r of None \<Rightarrow> Missed k | Some v \<Rightarrow> Found k v)"
proof -
  from ok check obtain rc1 obj slot f1 where
    srch: "fh_searchlock (Some (lru_fh c)) (Some k) = Some (rc1, obj, slot, Some f1)"
    by (auto simp: lru_check_def bind_Some_iff)
  show ?thesis
  proof (cases obj)
    case None
    with ok check srch show ?thesis
      by (intro lru_solo_end) (auto simp: lru_check_def step_search_def)
  next
    case (Some x)
    with ok check srch obtain i where x: "x = OPtr i" by (cases x) (auto simp: lru_check_def)
    let ?p = "s_payload (ll_slots (lru_ll c) i)" and ?c1 = "c\<lparr>lru_fh := f1\<rparr>"
    from ok check srch Some x obtain l2 s rc2 f3 where
      c: "ll_slot_move_to_top (Some (lru_ll c)) (Some (lp_slot ?p)) = Some (Some l2)" "slot = Some s"
        "fh_releaselock (Some f1) s = Some (rc2, Some f3)" "r = Some (lp_payload ?p)" "c' = c\<lparr>lru_fh := f3, lru_ll := l2\<rparr>"
      by (auto simp: lru_check_def bind_Some_iff Let_def)
    have "lru_act a c (Search k) = Some (?c1, [ReadHit k i s], Silent)"
      using srch Some x c(2) by (simp add: step_search_def)
    moreover have "lru_act a ?c1 (ReadHit k i s) = Some (?c1, [MoveTop k (lp_payload ?p) (lp_slot ?p) s], Hit k (lp_payload ?p))"
      by (simp add: step_read_hit_def Let_def)
    moreover have "lru_act a ?c1 (MoveTop k (lp_payload ?p) (lp_slot ?p) s) =
        Some (?c1\<lparr>lru_ll := l2\<rparr>, [Release k (lp_payload ?p) s], Silent)"
      using c(1) by (simp add: step_move_top_def)
    moreover have "lru_act a (?c1\<lparr>lru_ll := l2\<rparr>) (Release k (lp_payload ?p) s) = Some (c', [], Found k (lp_payload ?p))"
      using c(3,5) by (simp add: step_release_def)
    ultimately have "sys_solo lru_act a c (Search k) c' (Found k (lp_payload ?p))" by (blast intro: lru_solo_step lru_solo_end)
    then show ?thesis using c(4) by simp
  qed
qed

lemma solo_clear_loop:
  "lru_clear_loop c = Some p \<Longrightarrow> sys_solo lru_act a c TakeAll (snd p) (Returned (fst p))"
proof (induction rule: lru_clear_loop.raw_induct [rotated, consumes 1, case_names step])
  case (step clear c p)
  from step(2) obtain r l1 where rem: "ll_remove_last (Some (lru_ll c)) = Some (r, Some l1)"
    by (auto simp: bind_Some_iff)
  show ?case
  proof (cases r)
    case None
    with step(2) rem have p: "p = (LRU_OK, c\<lparr>lru_ll := l1\<rparr>)" by simp
    have "lru_act a c TakeAll = Some (c\<lparr>lru_ll := l1\<rparr>, [], Returned LRU_OK)"
      using None rem by (simp add: step_take_all_def)
    from lru_solo_end [OF this] show ?thesis by (simp add: p)
  next
    case (Some j)
    let ?c1 = "c\<lparr>lru_ll := l1\<rparr>"
    have t: "lru_act a c TakeAll = Some (?c1, [DelAll j], Silent)" using rem Some by (simp add: step_take_all_def)
    from step(2) rem Some obtain rc c2 where del: "lru_fh_del ?c1 (lp_key (s_payload (ll_slots l1 j))) = Some (rc, c2)"
      by (auto simp: bind_Some_iff)
    show ?thesis
    proof (cases "rc < 0")
      case True
      with step(2) rem Some del show ?thesis
        by (intro lru_solo_step [OF t] lru_solo_end) (auto simp: step_del_all_def slot_key_def)
    next
      case False
      with step(2) rem Some del obtain c3 where c3: "lru_drop c2 j = Some c3" "clear c3 = Some p"
        by (auto simp: bind_Some_iff)
      have "lru_act a ?c1 (DelAll j) = Some (c2, [FreeAll j], del_event rc (slot_key ?c1 j))"
        using False del by (simp add: step_del_all_def slot_key_def)
      moreover have "lru_act a c2 (FreeAll j) = Some (c3, [TakeAll], Silent)"
        using c3(1) by (simp add: step_free_all_def)
      ultimately show ?thesis using step(1) [OF c3(2)] by (intro lru_solo_step [OF t]) (blast intro: lru_solo_step)
    qed
  qed
qed

section \<open>Runs from a valid cache\<close>

lemma mset_set_members:
  assumes "distinct xs" and "set xs = A"
  shows "mset xs = mset_set A"
  using assms mset_set_set [of xs] by simp

lemma lru_inv_contents:
  assumes "lru_inv c"
  shows "lru_contents c = map_of (lru_items c)"
proof -
  obtain fs xs where s: "lru_state c fs xs" "lru_items c = items_at c xs" by (rule lru_invE [OF assms])
  have "lru_contents c k = map_of (items_at c xs) k" for k
  proof (cases "k \<in> key_at c ` set xs")
    case True
    then obtain i where i: "i \<in> set xs" "k = key_at c i" by blast
    have "map_of (items_at c xs) k = Some (lp_payload (pl (lru_ll c) i))"
      using s(1) i by (intro map_of_is_SomeI) (auto simp: lru_state_def items_at_def comp_def)
    with lru_state_map [OF s(1) i(1)] i(2) show ?thesis by (simp add: lru_contents_def)
  next
    case False
    then have "fh_map (lru_fh c) k = None" using lru_state_dom [OF s(1)] by blast
    moreover have "map_of (items_at c xs) k = None" using False by (force simp: map_of_eq_None_iff items_at_def)
    ultimately show ?thesis by (simp add: lru_contents_def)
  qed
  then show ?thesis by (simp add: s(2) fun_eq_iff)
qed

lemma lt_ok_start:
  assumes "lru_inv c" and starts: "\<forall>fr \<in># M. fr_start fr"
  shows "lt_ok c c M []"
proof -
  from assms(1) obtain fs xs where s: "lru_state c fs xs" and n: "length fs + length xs = nat (lru_size c)"
    by (auto simp: lru_inv_def)
  have none: "fr_slots fr = {#}" "fr_known fr = {}" "fr_key fr = None" "fr_ok c [] fr" if "fr_start fr" for fr :: "'a lru_frame"
    using that by (cases fr; simp)+
  with starts have M: "slots_of M = {#}" "known_of M = {}" "lock_holders fr_key (lru_fh c) l M = 0" "\<forall>fr \<in># M. fr_ok c [] fr" for l
    by (auto simp: slots_of_def known_of_def sum_mset.neutral intro: lock_holders_none)
  note inv = lru_state_ll [OF s]
  from s have z: "lru_size c = ll_size (lru_ll c)" by (simp add: lru_state_def)
  have "set fs \<union> set xs = {..<nat (lru_size c)}"
  proof
    show "set fs \<union> set xs \<subseteq> {..<nat (lru_size c)}"
      using inv z by (auto simp: ll_inv_def ll_core_def zless_nat_eq_int_zless)
    show "{..<nat (lru_size c)} \<subseteq> set fs \<union> set xs"
    proof
      fix i assume "i \<in> {..<nat (lru_size c)}"
      then have "int i < ll_size (lru_ll c)" by (simp add: z zless_nat_eq_int_zless)
      with ll_inv_card(2) [OF inv n [unfolded z]] show "i \<in> set fs \<union> set xs" .
    qed
  qed
  moreover have "distinct (fs @ xs)" using inv by (simp add: ll_inv_def ll_core_def)
  ultimately have "mset fs + mset xs = mset_set {..<nat (lru_size c)}"
    using mset_set_members [of "fs @ xs"] by simp
  then have "lt_slots c fs xs M" using s M(1) by (simp add: lt_slots_def lru_state_def fh_ready_def)
  moreover have "lt_map c (set xs \<union> known_of M)"
  proof -
    have "fh_map (lru_fh c) k = Some x \<longleftrightarrow> (\<exists>i \<in> set xs. key_at c i = k \<and> x = Some (OPtr i))" for k x
    proof
      assume e: "fh_map (lru_fh c) k = Some x"
      with lru_state_dom [OF s] obtain i where "i \<in> set xs" "k = key_at c i" by blast
      with e lru_state_map [OF s] show "\<exists>i \<in> set xs. key_at c i = k \<and> x = Some (OPtr i)" by auto
    qed (use lru_state_map [OF s] in auto)
    then show ?thesis using s M(2) by (simp add: lt_map_def lru_state_def)
  qed
  moreover have "\<not> h_held (lru_fh c) ! l" if "l < length (h_held (lru_fh c))" for l
  proof -
    from s have "True \<notin> set (h_held (lru_fh c))" by (simp add: lru_state_def fh_ready_def fh_unlocked_def)
    with nth_mem [OF that] show ?thesis by (metis (full_types))
  qed
  then have "locks_ok fr_key (lru_fh c) M" using M(3) by (simp add: locks_ok_def)
  ultimately show ?thesis using M(4) by (auto simp: lt_ok_def lt_inv_def)
qed

text \<open>When all calls have returned, the cache is one of the sequential model again.\<close>

lemma lt_ok_end:
  fixes c :: "'v lru"
  assumes "lt_ok c0 c {#} evs"
  shows "lru_inv c"
proof -
  from assms obtain fs xs where inv: "lt_inv fs xs c0 c {#} evs" by (auto simp: lt_ok_def)
  then have sl: "lt_slots c fs xs {#}" and m: "lt_map c (set xs)" and lk: "locks_ok fr_key (lru_fh c) ({#} :: 'v lru_frame multiset)" by (simp_all add: lt_inv_def)
  have key: "fh_map (lru_fh c) (key_at c i) = Some (Some (OPtr i))" if "i \<in> set xs" for i
    by (rule lt_known(2) [OF m that])
  have inj: "inj_on (key_at c) (set xs)"
    by (rule inj_onI) (rule lt_key_inj [OF key])
  have d: "distinct xs" using sl by (simp add: lt_slots_def ll_inv_def ll_core_def)
  with inj have dist: "distinct (map (key_at c) xs)" by (simp add: distinct_map)
  have "fh_map (lru_fh c) k = map_of (map (\<lambda>i. (key_at c i, Some (OPtr i))) xs) k" for k
  proof (cases "k \<in> key_at c ` set xs")
    case True
    then obtain i where i: "i \<in> set xs" "k = key_at c i" by blast
    then have "map_of (map (\<lambda>i. (key_at c i, Some (OPtr i))) xs) k = Some (Some (OPtr i))"
      using dist by (intro map_of_is_SomeI) (auto simp: comp_def)
    with key i show ?thesis by simp
  next
    case False
    then have "fh_map (lru_fh c) k = None" using m by (cases "fh_map (lru_fh c) k") (auto simp: lt_map_def)
    moreover from False have "map_of (map (\<lambda>i. (key_at c i, Some (OPtr i))) xs) k = None"
      by (force simp: map_of_eq_None_iff)
    ultimately show ?thesis by simp
  qed
  then have mp: "fh_map (lru_fh c) = map_of (map (\<lambda>i. (key_at c i, Some (OPtr i))) xs)" by (rule ext)
  have "fh_unlocked (lru_fh c)"
    using lk by (auto simp: locks_ok_def fh_unlocked_def in_set_conv_nth split: if_splits)
  with sl m dist mp have "lru_state c fs xs"
    by (simp add: lru_state_def lt_slots_def fh_ready_def lt_map_def)
  moreover have "length fs + length xs = nat (lru_size c)"
  proof -
    from sl have "mset fs + mset xs = mset_set {..<nat (lru_size c)}" by (simp add: lt_slots_def)
    from arg_cong [OF this, of size] show ?thesis by simp
  qed
  ultimately show ?thesis by (auto simp: lru_inv_def)
qed

text \<open>All that a run can reach.\<close>

lemma lt_run:
  assumes "lru_inv c" and starts: "\<forall>fr \<in> set (concat progs). fr_start fr"
    and run: "lru_run (lru_start c progs) as = Some s"
  shows "lt_ok c (shared s) (frames s) (trace s)" and "lt.stacked s"
    and "length as \<le> 4 * length (lru_items c) + sum_list (map fr_cost (concat progs))"
    and "(\<forall>a. sys_exec lru_act s a = None) \<longleftrightarrow> ended s"
proof -
  obtain fs xs where s: "lru_state c fs xs" "lru_items c = items_at c xs" by (rule lru_invE [OF assms(1)])
  then have w: "lru_weight c = 4 * length (lru_items c)" by (simp add: lru_weight_def lru_state_slots)
  have "lt_ok c c (mset (concat progs)) []" using lt_ok_start [OF assms(1)] starts by simp
  from lt.run_from_start [OF this starts run [unfolded lru_run_def lru_start_def], unfolded w]
  show "lt_ok c (shared s) (frames s) (trace s)" "lt.stacked s"
    "length as \<le> 4 * length (lru_items c) + sum_list (map fr_cost (concat progs))"
    "(\<forall>a. sys_exec lru_act s a = None) \<longleftrightarrow> ended s" .
qed

section \<open>Properties\<close>


text \<open>C5: Any number of threads may call \<open>lru_add\<close>, \<open>lru_check\<close> and \<open>lru_clear\<close> on one cache: whatever
  the order of their steps, and whichever allocations fail, what they see of the entries is a run
  of one map. A key is inserted when it is absent, removed when it is present, reported as a
  duplicate when it is present, and a lookup reads the payload that is stored under its key at that
  moment. At no moment are there more entries than the size of the cache.\<close>

theorem lru_threads_refine:
  assumes "lru_inv c" and "\<forall>fr \<in> set (concat progs). fr_start fr" and "lru_run (lru_start c progs) as = Some s"
  shows "cache_replay (map_of (lru_items c)) (trace s) = Some (lru_contents (shared s)) \<and>
    card (dom (lru_contents (shared s))) \<le> nat (lru_size c)"
proof -
  from lt_run(1) [OF assms] obtain fs xs where inv: "lt_inv fs xs c (shared s) (frames s) (trace s)"
    by (auto simp: lt_ok_def)
  let ?P = "set xs \<union> known_of (frames s)"
  from inv have m: "lt_map (shared s) ?P" and sl: "lt_slots (shared s) fs xs (frames s)" by (simp_all add: lt_inv_def)
  have "int i < ll_size (lru_ll (shared s))" if "i \<in> ?P" for i
    using lt_slot_bound [OF sl] that known_slots by blast
  then have P: "?P \<subseteq> {..<nat (lru_size c)}"
    using inv sl by (auto simp: lt_inv_def lt_slots_def lru_conf_def zless_nat_eq_int_zless)
  have "dom (lru_contents (shared s)) \<subseteq> key_at (shared s) ` ?P"
    using m by (auto simp: lt_contents_dom [OF m] lt_map_def)
  then have "card (dom (lru_contents (shared s))) \<le> card {..<nat (lru_size c)}"
    using P by (meson card_image_le card_mono finite_imageI finite_lessThan finite_subset le_trans)
  with inv show ?thesis by (simp add: lt_inv_def lru_inv_contents [OF assms(1)])
qed


text \<open>C6: The threads do not wait for each other for good, and none runs on for ever. A run makes at
  most four steps for each entry at the start, eight for each \<open>lru_add\<close>, four for each \<open>lru_check\<close> and
  one for each \<open>lru_clear\<close>; it can go on until all calls have returned; and then the cache is a valid
  one again, with every lock released, every slot in one of the two lists, and the entries that the
  steps have left.\<close>

theorem lru_threads_end:
  assumes "lru_inv c" and "\<forall>fr \<in> set (concat progs). fr_start fr" and "lru_run (lru_start c progs) as = Some s"
  shows "length as \<le> 4 * length (lru_items c) + sum_list (map fr_cost (concat progs)) \<and>
    ((\<forall>a. sys_exec lru_act s a = None) \<longleftrightarrow> ended s) \<and>
    (ended s \<longrightarrow> lru_inv (shared s) \<and> lru_size (shared s) = lru_size c \<and>
      cache_replay (map_of (lru_items c)) (trace s) = Some (map_of (lru_items (shared s))))"
proof -
  note R = lt_run [OF assms]
  have "lru_inv (shared s) \<and> lru_size (shared s) = lru_size c \<and>
      cache_replay (map_of (lru_items c)) (trace s) = Some (map_of (lru_items (shared s)))" if "ended s"
  proof -
    from that have "frames s = {#}" by (simp add: frames_def ended_def)
    with R(1) have ok: "lt_ok c (shared s) {#} (trace s)" by simp
    from lt_ok_end [OF ok] have "lru_inv (shared s)" .
    with ok show ?thesis
      by (auto simp: lt_ok_def lt_inv_def lru_conf_def lru_inv_contents [OF assms(1)] simp flip: lru_inv_contents)
  qed
  then show ?thesis using R(3,4) by blast
qed


text \<open>C27: An addition to a full cache while another thread clears it can fail for want of memory
  although no allocation fails and, in the end, every slot of the cache is free: the loop of
  \<open>lru_add\<close> takes an empty list for a cache without slots and does not look at the free list again.\<close>

theorem lru_add_fails_during_clear:
  assumes inv: "lru_inv c" and full: "length (lru_items c) = nat (lru_size c)"
  shows "\<exists>as s. lru_run (lru_start c [[NewSlot k v], [TakeAll]]) as = Some s \<and>
    set as \<subseteq> {0, 1} \<times> {(True, all_ok)} \<and> ended s \<and> last (trace s) = Returned LRU_NO_MEMORY \<and>
    lru_inv (shared s) \<and> lru_size (shared s) = lru_size c \<and> lru_items (shared s) = []"
proof -
  let ?a = "(True, all_ok)"
  obtain fs xs where s: "lru_state c fs xs" "length fs + length xs = nat (lru_size c)" "lru_items c = items_at c xs"
    by (rule lru_invE [OF inv])
  with full have ll: "ll_inv (lru_ll c) [] xs" using lru_state_ll [OF s(1)] by simp
  have "lru_act ?a c (NewSlot k v) = Some (c, [TakeLast k v], Silent)"
    using ll_slot_new_empty [OF ll] by (simp add: step_new_slot_def)
  then have r1: "lru_run (lru_start c [[NewSlot k v], [TakeAll]]) [(0, ?a)] =
      Some \<lparr>shared = c, todo = [[TakeLast k v], [TakeAll]], trace = [Silent]\<rparr>"
    by (simp add: lru_run_def lru_start_def sys_exec_def)
  from lru_clear_spec [OF inv] obtain c1 where
    c1: "lru_clear (Some c) = Some (LRU_OK, Some c1)" "lru_inv c1" "lru_size c1 = lru_size c" "lru_items c1 = []" by auto
  with lru_inv_bad [OF inv] have "lru_clear_loop c = Some (LRU_OK, c1)" by (auto simp: lru_clear_def bind_Some_iff)
  from lru_solo_run [OF solo_clear_loop [OF this], of 1 "[[TakeLast k v], [TakeAll]]" "[]" "[Silent]" ?a] obtain n evs where
    r2: "lru_run \<lparr>shared = c, todo = [[TakeLast k v], [TakeAll]], trace = [Silent]\<rparr> (replicate n (1, ?a)) =
      Some \<lparr>shared = c1, todo = [[TakeLast k v], []], trace = [Silent] @ evs @ [Returned LRU_OK]\<rparr>" by auto
  obtain fs1 xs1 where s1: "lru_state c1 fs1 xs1" "lru_items c1 = items_at c1 xs1" by (rule lru_invE [OF c1(2)])
  with c1(4) have "xs1 = []" by (simp add: items_at_def)
  with lru_state_ll [OF s1(1)] have "ll_remove_last (Some (lru_ll c1)) = Some (None, Some (lru_ll c1))"
    by (intro ll_remove_last_empty) simp
  then have "lru_act ?a c1 (TakeLast k v) = Some (c1, [], Returned LRU_NO_MEMORY)" by (simp add: step_take_last_def)
  then have r3: "lru_run \<lparr>shared = c1, todo = [[TakeLast k v], []], trace = [Silent] @ evs @ [Returned LRU_OK]\<rparr> [(0, ?a)] =
      Some \<lparr>shared = c1, todo = [[], []], trace = [Silent] @ evs @ [Returned LRU_OK] @ [Returned LRU_NO_MEMORY]\<rparr>"
    by (simp add: lru_run_def sys_exec_def)
  let ?s = "\<lparr>shared = c1, todo = [[], []], trace = [Silent] @ evs @ [Returned LRU_OK] @ [Returned LRU_NO_MEMORY]\<rparr>"
  from r1 r2 r3 have "lru_run (lru_start c [[NewSlot k v], [TakeAll]]) ([(0, ?a)] @ replicate n (1, ?a) @ [(0, ?a)]) = Some ?s"
    by (simp only: lru_run_def sys_run_append Option.bind.simps)
  with c1 show ?thesis by (intro exI [of _ "[(0, ?a)] @ replicate n (1, ?a) @ [(0, ?a)]"] exI [of _ ?s]) (auto simp: ended_def)
qed

section \<open>Witnesses\<close>

text \<open>Two threads on a full cache of two entries: one looks up \<open>k1\<close>, the other adds \<open>k3\<close>.\<close>

definition ex_progs :: "nat lru_frame list list" where
  "ex_progs = [[NewSlot k3 3], [Search k1]]"

lemma ex_progs_start: "\<forall>fr \<in> set (concat ex_progs). fr_start fr"
  by (simp add: ex_progs_def)

lemma ex_threads_run:
  "\<exists>c as s. lru_inv c \<and> lru_size c = 2 \<and> lru_items c = [(k1, 1), (k2, 2)] \<and>
    lru_run (lru_start c ex_progs) as = Some s \<and> ended s \<and> Found k1 1 \<in> set (trace s) \<and>
    Returned LRU_OK \<in> set (trace s)"
proof -
  from ex_cache obtain c :: "nat lru" where
    c: "lru_inv c" "lru_size c = 2" "lru_items c = [(k1, 1), (k2, 2)]" by blast
  from lru_check_spec [OF c(1), of k1] c obtain c1 where
    c1: "lru_check (Some c) (Some k1) = Some (LRU_OK, Some 1, Some c1)" "lru_inv c1" "lru_size c1 = 2"
      "lru_items c1 = [(k2, 2), (k1, 1)]" by auto
  from lru_add_spec [OF c1(2), of k3 3 True all_ok] c1 obtain c2 where
    c2: "lru_add (Some c1) (Some k3) 3 True all_ok = Some (LRU_OK, Some c2)"
    by (auto simp: lru_room_def all_ok_def)
  from lru_solo_run [OF solo_check [OF lru_inv_bad [OF c(1)] c1(1)], of 1 ex_progs "[]" "[]" "(True, all_ok)"]
  obtain n1 evs1 where r1: "lru_run (lru_start c ex_progs) (replicate n1 (1, True, all_ok)) =
      Some \<lparr>shared = c1, todo = [[NewSlot k3 3], []], trace = evs1 @ [Found k1 1]\<rparr>"
    by (auto simp: lru_start_def ex_progs_def)
  from lru_solo_run [OF solo_add [OF lru_inv_bad [OF c1(2)] c2], of 0 "[[NewSlot k3 3], []]" "[]" "evs1 @ [Found k1 1]"]
  obtain n2 evs2 where
    r2: "lru_run \<lparr>shared = c1, todo = [[NewSlot k3 3], []], trace = evs1 @ [Found k1 1]\<rparr> (replicate n2 (0, True, all_ok)) =
      Some \<lparr>shared = c2, todo = [[], []], trace = evs1 @ [Found k1 1] @ evs2 @ [Returned LRU_OK]\<rparr>"
    by auto
  from r1 r2 have "lru_run (lru_start c ex_progs) (replicate n1 (1, True, all_ok) @ replicate n2 (0, True, all_ok)) =
      Some \<lparr>shared = c2, todo = [[], []], trace = evs1 @ [Found k1 1] @ evs2 @ [Returned LRU_OK]\<rparr>"
    by (simp add: lru_run_def sys_run_append)
  with c show ?thesis by (intro exI conjI) (assumption | simp add: ended_def)+
qed


theorem lru_threads_refine_witness:
  "\<exists>c as s. lru_items c = [(k1, 1), (k2, 2)] \<and> lru_run (lru_start c ex_progs) as = Some s \<and>
    Found k1 1 \<in> set (trace s) \<and> cache_replay (map_of [(k1, 1), (k2, 2)]) (trace s) = Some (lru_contents (shared s)) \<and>
    card (dom (lru_contents (shared s))) \<le> 2"
proof -
  from ex_threads_run obtain c as s where r: "lru_inv c" "lru_size c = 2" "lru_items c = [(k1, 1), (k2, 2)]"
    "lru_run (lru_start c ex_progs) as = Some s" "Found k1 1 \<in> set (trace s)" by blast
  with lru_threads_refine [OF r(1) ex_progs_start r(4)] show ?thesis by auto
qed

theorem lru_threads_end_witness:
  "\<exists>c as s. lru_items c = [(k1, 1), (k2, 2)] \<and> lru_run (lru_start c ex_progs) as = Some s \<and>
    length as \<le> 20 \<and> ended s \<and> lru_inv (shared s)"
proof -
  from ex_threads_run obtain c as s where r: "lru_inv c" "lru_size c = 2" "lru_items c = [(k1, 1), (k2, 2)]"
    "lru_run (lru_start c ex_progs) as = Some s" "ended s" by blast
  with lru_threads_end [OF r(1) ex_progs_start r(4)] have "length as \<le> 20" "lru_inv (shared s)"
    by (simp_all add: ex_progs_def)
  with r show ?thesis by blast
qed


theorem lru_add_fails_during_clear_witness:
  "\<exists>c as s. lru_items c = [(k1, 1), (k2, 2)] \<and>
    lru_run (lru_start c [[NewSlot k3 (3 :: nat)], [TakeAll]]) as = Some s \<and>
    last (trace s) = Returned LRU_NO_MEMORY \<and> lru_items (shared s) = []"
proof -
  from ex_cache obtain c :: "nat lru" where
    c: "lru_inv c" "lru_size c = 2" "lru_items c = [(k1, 1), (k2, 2)]" by blast
  with lru_add_fails_during_clear [OF c(1), of k3 3] show ?thesis by auto
qed


end
