(* ===== verification/Timing.thy ===== *)
theory Timing
  imports Prelude
begin

text \<open>
  The timers of libtiming/timing.c on Linux. The readings of the two clocks, seconds and a
  fraction (nanoseconds of the monotonic clock, microseconds of the time of day), are arguments;
  a field of the timer that has not been written holds what was in its memory. The result of
  \<open>timing_end\<close> is the integer that the code converts to a \<open>double\<close>.
\<close>

type_synonym reading = "int \<times> int"

record timing_data =
  tm_start :: reading
  tm_end :: reading
  nano_start :: reading
  nano_end :: reading
  nano :: int

text \<open>The arithmetic is that of \<open>long\<close>; an overflow has no defined result.\<close>

definition long_ok :: "int \<Rightarrow> bool" where
  "long_ok x \<longleftrightarrow> - 9223372036854775808 \<le> x \<and> x \<le> 9223372036854775807"

definition ticks :: "int \<Rightarrow> reading \<Rightarrow> int option" where
  "ticks unit r =
     do { assert_opt (long_ok (fst r * unit));
          assert_opt (long_ok (fst r * unit + snd r));
          Some (fst r * unit + snd r) }"

definition ticks_between :: "int \<Rightarrow> reading \<Rightarrow> reading \<Rightarrow> int option" where
  "ticks_between unit e s =
     do { x \<leftarrow> ticks unit e; y \<leftarrow> ticks unit s; assert_opt (long_ok (x - y)); Some (x - y) }"

text \<open>\<open>junk\<close> is what the allocated block holds; a failed allocation stops at the assertion.\<close>

definition timing_new_timer :: "int \<Rightarrow> bool \<Rightarrow> timing_data \<Rightarrow> timing_data option" where
  "timing_new_timer nanoprecision ok junk =
     do { assert_opt ok; Some (junk\<lparr>nano := nanoprecision\<rparr>) }"

definition timing_delete_timer :: "timing_data option \<Rightarrow> timing_data option" where
  "timing_delete_timer t = None"

definition timing_start :: "timing_data \<Rightarrow> reading \<Rightarrow> reading \<Rightarrow> timing_data" where
  "timing_start tt mclk dclk = (if nano tt \<noteq> 0 then tt\<lparr>nano_start := mclk\<rparr> else tt\<lparr>tm_start := dclk\<rparr>)"

definition timing_end :: "timing_data \<Rightarrow> reading \<Rightarrow> reading \<Rightarrow> (int \<times> timing_data) option" where
  "timing_end tt mclk dclk =
     (if nano tt \<noteq> 0 then
        do { d \<leftarrow> ticks_between 1000000000 mclk (nano_start tt); Some (d, tt\<lparr>nano_end := mclk\<rparr>) }
      else
        do { d \<leftarrow> ticks_between 1000000 dclk (tm_start tt); Some (d, tt\<lparr>tm_end := dclk\<rparr>) })"

text \<open>A reading that a clock can give for the next 292 years.\<close>

definition reading_ok :: "int \<Rightarrow> reading \<Rightarrow> bool" where
  "reading_ok unit r \<longleftrightarrow> 0 \<le> fst r \<and> fst r < 9223372036 \<and> 0 \<le> snd r \<and> snd r < unit"

lemma ticks_between_ok:
  assumes "reading_ok unit e" and "reading_ok unit s" and "0 < unit" and "unit \<le> 1000000000"
  shows "ticks_between unit e s = Some ((fst e - fst s) * unit + (snd e - snd s))"
proof -
  have b: "0 \<le> fst r * unit \<and> fst r * unit + snd r \<le> 9223372036 * 1000000000 \<and> 0 \<le> snd r" if "reading_ok unit r" for r
  proof -
    from that have r: "0 \<le> fst r" "fst r + 1 \<le> 9223372036" "0 \<le> snd r" "snd r < unit"
      by (auto simp: reading_ok_def)
    have "fst r * unit + snd r \<le> (fst r + 1) * unit" using r by (simp add: distrib_right)
    also have "\<dots> \<le> 9223372036 * 1000000000" using r assms(3,4) by (intro mult_mono) auto
    finally show ?thesis using r assms(3) by simp
  qed
  have t: "ticks unit r = Some (fst r * unit + snd r)" if "reading_ok unit r" for r
    using b [OF that] by (simp add: ticks_def long_ok_def)
  have "long_ok (fst e * unit + snd e - (fst s * unit + snd s))"
    using b [OF assms(1)] b [OF assms(2)] by (simp add: long_ok_def)
  with t [OF assms(1)] t [OF assms(2)] show ?thesis
    by (simp add: ticks_between_def algebra_simps)
qed

section \<open>Properties\<close>



end
