(* ===== verification/SelfTests.thy ===== *)
theory SelfTests
  imports Vector LruProps Timing
begin

text \<open>
  The test programs that libvector/vector.c, liblru/lru.c and libtiming/timing.c hold under
  \<open>TEST\<close>, run on the models of the libraries. A program gives the lines that it prints and its
  exit status; a failing assertion gives no result. The outcomes of the allocations, the numbers
  of \<open>rand\<close> and the readings of the clocks are arguments.
\<close>

section \<open>Decimal numbers\<close>

text \<open>What \<open>sprintf\<close> writes for \<open>%d\<close> and a number that is not negative.\<close>

fun dec :: "nat \<Rightarrow> byte list" where
  "dec n = (if n < 10 then [of_nat (48 + n)] else dec (n div 10) @ [of_nat (48 + n mod 10)])"

declare dec.simps [simp del]

lemma digit_eq: "m < 10 \<Longrightarrow> n < 10 \<Longrightarrow> (of_nat (48 + m) :: byte) = of_nat (48 + n) \<longleftrightarrow> m = n"
  by (subst word_unat_eq_iff) (simp add: unat_of_nat take_bit_eq_mod del: of_nat_add)

lemma dec_nonempty: "dec n \<noteq> []"
  by (subst dec.simps) simp

lemma dec_inject: "dec m = dec n \<longleftrightarrow> m = n"
proof (induction m arbitrary: n rule: less_induct)
  case (less m)
  have m: "dec m = (if m < 10 then [of_nat (48 + m)] else dec (m div 10) @ [of_nat (48 + m mod 10)])"
    and n: "dec n = (if n < 10 then [of_nat (48 + n)] else dec (n div 10) @ [of_nat (48 + n mod 10)])"
    by (rule dec.simps)+
  consider "m < 10" "n < 10" | "m < 10" "10 \<le> n" | "10 \<le> m" "n < 10" | "10 \<le> m" "10 \<le> n" by linarith
  then show ?case
  proof cases
    case 1
    with m n show ?thesis by (simp add: digit_eq del: of_nat_add)
  next
    case 4
    then have "dec (m div 10) = dec (n div 10) \<longleftrightarrow> m div 10 = n div 10" by (intro less.IH) simp
    with m n 4 have "dec m = dec n \<longleftrightarrow> m div 10 = n div 10 \<and> m mod 10 = n mod 10"
      by (simp add: digit_eq del: of_nat_add)
    also have "\<dots> \<longleftrightarrow> m = n" by (metis mult_div_mod_eq)
    finally show ?thesis .
  qed (use m n dec_nonempty dec_nonempty [symmetric] in \<open>auto simp del: of_nat_add\<close>)
qed

definition dec_str :: "nat \<Rightarrow> cstr" where
  "dec_str n = CStr (dec n)"

lemma dec_str_eq [simp]: "dec_str m = dec_str n \<longleftrightarrow> m = n"
  by (simp add: dec_str_def dec_inject)

section \<open>The test of the vector\<close>

text \<open>\<open>Ptr i\<close> is the address of \<open>s_numbers[i]\<close>, which holds \<open>i\<close> in decimal; \<open>aok\<close> and \<open>dok\<close> are
  the outcomes of the reallocations of \<open>v_add\<close> and \<open>v_delete\<close>.\<close>

datatype test_line = Say string | NotSame cstr cstr

definition s_number :: "nat ptr \<Rightarrow> cstr option" where
  "s_number p = (case p of Null \<Rightarrow> None | Ptr i \<Rightarrow> if i < 100 then Some (dec_str i) else None)"

primrec vector_test_fill :: "(nat \<Rightarrow> bool) \<Rightarrow> nat vec \<Rightarrow> nat list \<Rightarrow> nat vec option" where
  "vector_test_fill aok v [] = Some v"
| "vector_test_fill aok v (i # is) = do { v1 \<leftarrow> v_add v (Ptr i) (aok i); vector_test_fill aok v1 is }"

primrec vector_test_check :: "nat vec \<Rightarrow> nat list \<Rightarrow> (test_line list \<times> nat vec) option" where
  "vector_test_check v [] = Some ([], v)"
| "vector_test_check v (i # is) =
     do { (s, v1) \<leftarrow> v_get v (int i);
          out \<leftarrow> (if s \<noteq> Ptr i then do { a \<leftarrow> s_number s; b \<leftarrow> s_number (Ptr i); Some [NotSame a b] } else Some []);
          assert_opt (s = Ptr i);
          (out2, v2) \<leftarrow> vector_test_check v1 is;
          Some (out @ out2, v2) }"

definition vector_test_main :: "nat vec \<Rightarrow> bool \<Rightarrow> (nat \<Rightarrow> bool) \<Rightarrow> bool \<Rightarrow> (test_line list \<times> int) option" where
  "vector_test_main v0 iok aok dok =
     do { v1 \<leftarrow> v_create (Some v0) 100 True iok;
          v2 \<leftarrow> vector_test_fill aok v1 [0..<100];
          (out1, v3) \<leftarrow> vector_test_check v2 [0..<100];
          v4 \<leftarrow> v_delete v3 2 dok;
          (s, v5) \<leftarrow> v_get v4 2;
          assert_opt (s \<noteq> Null);
          out2 \<leftarrow> (if s \<noteq> Ptr 3 then do { a \<leftarrow> s_number s; b \<leftarrow> s_number (Ptr 3); Some [NotSame a b] } else Some []);
          Some ([Say ''Test start!'', Say ''Vector filled!''] @ out1 @ [Say ''Check executed!''] @ out2 @
            [Say ''End of test!''], 0) }"

section \<open>The test of the cache\<close>

text \<open>The payload \<open>j\<close> stands for the address of \<open>payloads[j]\<close>, which holds \<open>j\<close> in decimal. What the
  program needs of its surroundings: for each of its two caches the hash function and the
  outcomes of the allocations of \<open>lru_create\<close> and \<open>lru_destroy\<close>, for each round of its loops those
  of \<open>lru_add\<close>, and the numbers that \<open>rand\<close> returns.\<close>

definition MAXSIZE :: int where "MAXSIZE = 100000"

record test_env =
  te_wy :: "bool \<Rightarrow> cstr \<Rightarrow> u64"
  te_create :: "bool \<Rightarrow> nat lru_allocs"
  te_destroy :: "bool \<Rightarrow> bool \<times> bool"
  te_add :: "nat \<Rightarrow> nat \<Rightarrow> bool \<times> fh_allocs"
  te_rand :: "nat \<Rightarrow> nat"

datatype lru_test_end = Done "nat lru option" | Ouch cstr cstr

text \<open>The body that two of the loops share: the entry \<open>j\<close> is looked up, and added if it is not there;
  \<open>bad\<close> says whether an entry that is found ends the program.\<close>

definition lru_test_step ::
  "(cstr \<Rightarrow> cstr \<Rightarrow> bool) \<Rightarrow> bool \<times> fh_allocs \<Rightarrow> nat lru option \<Rightarrow> nat \<Rightarrow> lru_test_end option" where
  "lru_test_step bad al l j =
     do { (rc, str, l1) \<leftarrow> lru_check l (Some (dec_str j));
          if rc = LRU_OK then
            do { s \<leftarrow> str; if bad (dec_str j) (dec_str s) then Some (Ouch (dec_str j) (dec_str s)) else Some (Done l1) }
          else
            do { (rc2, l2) \<leftarrow> lru_add l1 (Some (dec_str j)) j (fst al) (snd al); Some (Done l2) } }"

primrec lru_test_loop ::
  "(cstr \<Rightarrow> cstr \<Rightarrow> bool) \<Rightarrow> (nat \<Rightarrow> nat) \<Rightarrow> (nat \<Rightarrow> bool \<times> fh_allocs) \<Rightarrow> nat lru option \<Rightarrow> nat list \<Rightarrow>
    lru_test_end option" where
  "lru_test_loop bad entry al l [] = Some (Done l)"
| "lru_test_loop bad entry al l (i # is) =
     do { r \<leftarrow> lru_test_step bad (al i) l (entry i);
          case r of Done l1 \<Rightarrow> lru_test_loop bad entry al l1 is | Ouch a b \<Rightarrow> Some (Ouch a b) }"

primrec lru_test_fill :: "(nat \<Rightarrow> bool \<times> fh_allocs) \<Rightarrow> nat lru option \<Rightarrow> nat list \<Rightarrow> nat lru option option" where
  "lru_test_fill al l [] = Some l"
| "lru_test_fill al l (i # is) =
     do { (rc, l1) \<leftarrow> lru_add l (Some (dec_str i)) i (fst (al i)) (snd (al i)); lru_test_fill al l1 is }"

text \<open>\<open>arg\<close> is the first argument of the program as \<open>atoi\<close> reads it; without one the program passes
  the null pointer to \<open>atoi\<close>. Division rounds towards zero.\<close>

datatype test_output = TooMany | Differ cstr cstr | Unexpected cstr cstr

definition lru_test_main :: "test_env \<Rightarrow> int option \<Rightarrow> (test_output list \<times> int) option" where
  "lru_test_main env arg =
     do { howmany \<leftarrow> arg;
          if MAXSIZE < howmany then Some ([TooMany], 1)
          else
            do { (l, lost) \<leftarrow> lru_create (te_wy env False) howmany (te_create env False);
                 assert_opt (int_ok (howmany * 1000));
                 r \<leftarrow> lru_test_loop (\<lambda>a b. strcmp a b \<noteq> 0) (\<lambda>i. te_rand env i mod nat howmany) (te_add env 0) l
                   [0..<nat (howmany * 1000)];
                 case r of
                   Ouch a b \<Rightarrow> Some ([Differ a b], 1)
                 | Done l1 \<Rightarrow>
                     do { (rc, lost1, l2) \<leftarrow> lru_destroy l1 (fst (te_destroy env False)) (snd (te_destroy env False));
                          let tenth = (if howmany < 0 then - (- howmany div 10) else howmany div 10);
                          (l3, lost3) \<leftarrow> lru_create (te_wy env True) tenth (te_create env True);
                          l4 \<leftarrow> lru_test_fill (te_add env 1) l3 [0..<nat tenth];
                          r2 \<leftarrow> lru_test_loop (\<lambda>a b. True) id (te_add env 2) l4 [nat tenth..<nat (tenth + tenth)];
                          case r2 of
                            Ouch a b \<Rightarrow> Some ([Unexpected a b], 1)
                          | Done l5 \<Rightarrow>
                              do { (rc5, lost5, l6) \<leftarrow>
                                     lru_destroy l5 (fst (te_destroy env True)) (snd (te_destroy env True));
                                   Some ([], 0) } } } }"

section \<open>The test of the timers\<close>

definition the_foo_function :: "int \<Rightarrow> int option" where
  "the_foo_function p = do { assert_opt (int_ok (p - 1)); Some (p - 1) }"

text \<open>The times printed, each with the number beside it; \<open>clk i\<close> is the reading \<open>i\<close> of the monotonic
  clock.\<close>

definition timing_test_main :: "bool \<Rightarrow> timing_data \<Rightarrow> (nat \<Rightarrow> reading) \<Rightarrow> int \<Rightarrow> ((int \<times> int) list \<times> int) option" where
  "timing_test_main ok junk clk pid =
     do { t \<leftarrow> timing_new_timer 1 ok junk;
          (d1, t1) \<leftarrow> timing_end (timing_start t (clk 0) (0, 0)) (clk 1) (0, 0);
          let a = pid;
          (d2, t2) \<leftarrow> timing_end (timing_start t1 (clk 2) (0, 0)) (clk 3) (0, 0);
          b \<leftarrow> the_foo_function pid;
          (d3, t3) \<leftarrow> timing_end (timing_start t2 (clk 4) (0, 0)) (clk 5) (0, 0);
          Some ([(d1, pid), (d2, a), (d3, b)], 0) }"

section \<open>The test of the vector passes\<close>

lemma v_add_room: "total v < capacity v \<Longrightarrow> v_add v x ok = v_add v x True"
  by (simp add: v_add_def v_lock_def)

lemma v_add_capacity_room: "total v < capacity v \<Longrightarrow> v_add v x ok = Some v' \<Longrightarrow> capacity v' = capacity v"
  by (auto simp: v_add_def v_lock_def v_unlock_def cell_write_def bind_Some_iff split: option.splits if_splits)

lemma vector_test_fill_spec:
  "vec_inv v \<Longrightarrow> total v + int (length is) \<le> capacity v \<Longrightarrow>
    \<exists>v'. vector_test_fill aok v is = Some v' \<and> vec_inv v' \<and> v_items v' = v_items v @ map Ptr is"
proof (induction "is" arbitrary: v)
  case (Cons i "is")
  then have room: "total v < capacity v" by simp
  from v_add_spec [OF Cons.prems(1)] room obtain v1 where
    v1: "v_add v (Ptr i) (aok i) = Some v1" "vec_inv v1" "v_items v1 = v_items v @ [Ptr i]"
    by (metis v_add_room)
  have "total v1 = total v + 1"
    using v_items_length [OF v1(2)] v_items_length [OF Cons.prems(1)] v1(3) by simp
  with Cons.IH [OF v1(2)] Cons.prems(2) v_add_capacity_room [OF room v1(1)] v1 show ?case by auto
qed simp

lemma vector_test_check_spec:
  "vec_inv v \<Longrightarrow> (\<forall>i \<in> set is. int i < total v \<and> v_items v ! i = Ptr i) \<Longrightarrow>
    vector_test_check v is = Some ([], v)"
  by (induction "is") (auto simp: v_get_spec)

lemma vector_test_runs:
  "vector_test_main v0 True aok dok =
    Some ([Say ''Test start!'', Say ''Vector filled!'', Say ''Check executed!'', Say ''End of test!''], 0)"
proof -
  obtain v1 where v1: "v_create (Some v0) 100 True True = Some v1" "capacity v1 = 100" "total v1 = 0"
    by (simp add: v_create_def VECTOR_INIT_CAPACITY_def)
  then have i1: "vec_inv v1" "v_items v1 = []"
    using v_create_inv [OF v1(1)] by (simp_all add: int_ok_def)
  from vector_test_fill_spec [OF i1(1), of "[0..<100]" aok] v1 i1(2) obtain v2 where
    v2: "vector_test_fill aok v1 [0..<100] = Some v2" "vec_inv v2" "v_items v2 = map Ptr [0..<100]" by auto
  have t2: "total v2 = 100" using v_items_length [OF v2(2)] v2(3) by simp
  with v2 have c: "vector_test_check v2 [0..<100] = Some ([], v2)" by (intro vector_test_check_spec) auto
  from v_delete_spec [OF v2(2), of 2 dok] t2 obtain v4 where
    v4: "v_delete v2 2 dok = Some v4" "vec_inv v4" "v_items v4 = take 2 (v_items v2) @ drop 3 (v_items v2)"
    by (auto simp: numeral_3_eq_3)
  have "total v4 = 99" using v_items_length [OF v4(2)] v4(3) v2(3) by simp
  moreover have "v_items v4 ! 2 = Ptr 3" using v4(3) v2(3) by (simp add: nth_append)
  ultimately have "v_get v4 2 = Some (Ptr 3, v4)" using v_get_spec [OF v4(2), of 2] by simp
  with v1(1) v2(1) c v4(1) show ?thesis by (simp add: vector_test_main_def)
qed

section \<open>The test of the cache passes\<close>

text \<open>What holds of the cache throughout: it is null or valid, and holds entries below \<open>n\<close>, each under
  its own number.\<close>

definition test_inv :: "nat \<Rightarrow> nat lru option \<Rightarrow> bool" where
  "test_inv n l = (case l of None \<Rightarrow> True
     | Some c \<Rightarrow> lru_inv c \<and> (\<forall>(k, v) \<in> set (lru_items c). k = dec_str v \<and> v < n))"

lemma lru_found_codes: "LRU_BAD_HANDLE \<noteq> LRU_OK" "LRU_ELEMENT_NOT_FOUND \<noteq> LRU_OK"
  unfolding codes by linarith+

lemma test_inv_mono: "test_inv m l \<Longrightarrow> m \<le> n \<Longrightarrow> test_inv n l"
  by (fastforce simp: test_inv_def split: option.splits)

lemma test_add:
  assumes "test_inv n l" and "j < n"
  shows "\<exists>rc l'. lru_add l (Some (dec_str j)) j kok al = Some (rc, l') \<and> test_inv n l'"
proof (cases l)
  case None
  then show ?thesis by (simp add: lru_add_def lru_bad_def test_inv_def)
next
  case (Some c)
  with assms have c: "lru_inv c" "\<forall>(k, v) \<in> set (lru_items c). k = dec_str v \<and> v < n"
    by (simp_all add: test_inv_def)
  let ?its = "lru_room (nat (lru_size c)) (lru_items c)"
  from lru_add_spec [OF c(1), of "dec_str j" j kok al] obtain rc c' where
    a: "lru_add (Some c) (Some (dec_str j)) j kok al = Some (rc, Some c')" "lru_inv c'"
      "lru_items c' = ?its \<or> lru_items c' = ?its @ [(dec_str j, j)]" by metis
  have "set ?its \<subseteq> set (lru_items c)" by (cases "lru_items c") (auto simp: lru_room_def)
  with a(3) c(2) assms(2) have "\<forall>(k, v) \<in> set (lru_items c'). k = dec_str v \<and> v < n" by auto
  with a(1,2) Some show ?thesis by (simp add: test_inv_def)
qed

lemma test_step:
  assumes inv: "test_inv n l" and j: "j < m" "n \<le> m" and good: "j < n \<Longrightarrow> \<not> bad (dec_str j) (dec_str j)"
  shows "\<exists>l'. lru_test_step bad al l j = Some (Done l') \<and> test_inv m l'"
proof -
  note m = test_inv_mono [OF inv j(2)]
  have add: "\<exists>l'. lru_test_step bad al l j = Some (Done l') \<and> test_inv m l'"
    if "lru_check l (Some (dec_str j)) = Some (rc, str, l)" "rc \<noteq> LRU_OK" for rc str
    using test_add [OF m j(1), of "fst al" "snd al"] that by (auto simp: lru_test_step_def)
  show ?thesis
  proof (cases l)
    case None
    then show ?thesis using lru_found_codes by (intro add [of LRU_BAD_HANDLE None]) (simp_all add: lru_check_def lru_bad_def)
  next
    case (Some c)
    with inv have c: "lru_inv c" "\<forall>(k, v) \<in> set (lru_items c). k = dec_str v \<and> v < n"
      by (simp_all add: test_inv_def)
    show ?thesis
    proof (cases "map_of (lru_items c) (dec_str j)")
      case None
      with lru_check_spec [OF c(1), of "dec_str j"] Some show ?thesis
        using lru_found_codes by (intro add [of LRU_ELEMENT_NOT_FOUND None]) simp_all
    next
      case found: (Some v)
      with c(2) have v: "v = j" "j < n" by (fastforce dest: map_of_SomeD)+
      from lru_check_spec [OF c(1), of "dec_str j"] found obtain c' where
        c': "lru_check (Some c) (Some (dec_str j)) = Some (LRU_OK, Some v, Some c')" "lru_inv c'"
          "lru_items c' = filter (\<lambda>p. fst p \<noteq> dec_str j) (lru_items c) @ [(dec_str j, v)]" by auto
      have "\<forall>(k, v) \<in> set (lru_items c'). k = dec_str v \<and> v < m"
        using c'(3) c(2) v j by fastforce
      with c'(1,2) Some good v show ?thesis by (simp add: lru_test_step_def test_inv_def)
    qed
  qed
qed

text \<open>The loop over random entries, and the one over entries that are not there yet.\<close>

lemma test_random:
  assumes "\<And>j. \<not> bad (dec_str j) (dec_str j)" and "\<And>i. entry i < n"
  shows "test_inv n l \<Longrightarrow> \<exists>l'. lru_test_loop bad entry al l is = Some (Done l') \<and> test_inv n l'"
proof (induction "is" arbitrary: l)
  case (Cons i "is")
  from test_step [OF Cons.prems assms(2) order_refl, where bad = bad and al = "al i"] assms(1) obtain l1 where
    "lru_test_step bad (al i) l (entry i) = Some (Done l1)" "test_inv n l1" by blast
  with Cons.IH show ?case by simp
qed simp

lemma test_absent:
  "test_inv m l \<Longrightarrow> m \<le> n \<Longrightarrow> \<exists>l'. lru_test_loop bad id al l [m..<n] = Some (Done l') \<and> test_inv n l'"
proof (induction "n - m" arbitrary: m l)
  case (Suc k)
  then have "m < n" by simp
  from test_step [OF Suc.prems(1), of m "Suc m" bad "al m"] obtain l1 where
    "lru_test_step bad (al m) l m = Some (Done l1)" "test_inv (Suc m) l1" by auto
  with Suc.hyps(1) [of "Suc m" l1] Suc.hyps(2) \<open>m < n\<close> show ?case by (simp add: upt_conv_Cons)
qed simp

lemma test_fill:
  "test_inv n l \<Longrightarrow> (\<forall>i \<in> set is. i < n) \<Longrightarrow> \<exists>l'. lru_test_fill al l is = Some l' \<and> test_inv n l'"
proof (induction "is" arbitrary: l)
  case (Cons i "is")
  from test_add [OF Cons.prems(1), of i "fst (al i)" "snd (al i)"] Cons.prems(2) obtain rc l1 where
    "lru_add l (Some (dec_str i)) i (fst (al i)) (snd (al i)) = Some (rc, l1)" "test_inv n l1" by auto
  with Cons show ?case by simp
qed simp

lemma test_create:
  assumes "dim \<le> MAXSIZE"
  shows "\<exists>l lost. lru_create wy dim al = Some (l, lost) \<and> test_inv 0 l"
proof (cases "0 < dim")
  case True
  moreover have "dim + dim div 2 \<le> 2 ^ 30" using assms by (simp add: MAXSIZE_def)
  ultimately obtain r lost where
    r: "lru_create wy dim al = Some (r, lost)"
      "if lru_allocs_ok dim al then lost = [] \<and> (\<exists>c. r = Some c \<and> lru_inv c \<and> lru_items c = [] \<and> lru_size c = dim)
       else r = None \<and> (lost = [] \<longleftrightarrow> \<not> al_handle al)"
    using lru_create_ready [of dim wy al] unfolding lru_allocs_ok_def by blast
  from r(2) have "test_inv 0 r" by (auto simp: test_inv_def split: if_splits)
  with r(1) show ?thesis by blast
next
  case False
  then show ?thesis by (simp add: lru_create_def test_inv_def)
qed

lemma test_destroy: "test_inv n l \<Longrightarrow> \<exists>rc l'. lru_destroy l eok lok = Some (rc, [], l')"
proof (cases l)
  case None
  then show ?thesis by (simp add: lru_destroy_def lru_bad_def)
next
  case (Some c)
  assume "test_inv n l"
  with Some show ?thesis using lru_destroy_spec [of c eok lok] by (simp add: test_inv_def)
qed

lemma lru_test_runs:
  assumes "howmany \<le> MAXSIZE" and "int_ok (howmany * 1000)"
  shows "lru_test_main env (Some howmany) = Some ([], 0)"
proof -
  obtain l lost where l: "lru_create (te_wy env False) howmany (te_create env False) = Some (l, lost)" "test_inv 0 l"
    using test_create [OF assms(1)] by blast
  have "\<exists>l'. lru_test_loop (\<lambda>a b. strcmp a b \<noteq> 0) (\<lambda>i. te_rand env i mod nat howmany) (te_add env 0) l
      [0..<nat (howmany * 1000)] = Some (Done l') \<and> test_inv (nat howmany) l'"
  proof (cases "0 < howmany")
    case True
    then show ?thesis using test_inv_mono [OF l(2)] by (intro test_random) simp_all
  next
    case False
    then have "nat (howmany * 1000) = 0" by simp
    then show ?thesis using test_inv_mono [OF l(2), of "nat howmany"] by simp
  qed
  then obtain l1 where l1: "lru_test_loop (\<lambda>a b. strcmp a b \<noteq> 0) (\<lambda>i. te_rand env i mod nat howmany) (te_add env 0) l
      [0..<nat (howmany * 1000)] = Some (Done l1)" "test_inv (nat howmany) l1" by blast
  obtain rc l2 where d1: "lru_destroy l1 (fst (te_destroy env False)) (snd (te_destroy env False)) = Some (rc, [], l2)"
    using test_destroy [OF l1(2)] by blast
  define tenth where "tenth = (if howmany < 0 then - (- howmany div 10) else howmany div 10)"
  have t: "tenth \<le> MAXSIZE" "nat tenth \<le> nat (tenth + tenth) \<or> nat (tenth + tenth) \<le> nat tenth"
    using assms(1) by (auto simp: tenth_def MAXSIZE_def)
  obtain l3 lost3 where l3: "lru_create (te_wy env True) tenth (te_create env True) = Some (l3, lost3)" "test_inv 0 l3"
    using test_create [OF t(1)] by blast
  obtain l4 where l4: "lru_test_fill (te_add env 1) l3 [0..<nat tenth] = Some l4" "test_inv (nat tenth) l4"
    using test_fill [OF test_inv_mono [OF l3(2), of "nat tenth"], of "[0..<nat tenth]" "te_add env 1"] by auto
  have "nat tenth \<le> nat (tenth + tenth)" by (cases "0 \<le> tenth") simp_all
  with test_absent [OF l4(2)] obtain l5 where
    l5: "lru_test_loop (\<lambda>a b. True) id (te_add env 2) l4 [nat tenth..<nat (tenth + tenth)] = Some (Done l5)"
      "test_inv (nat (tenth + tenth)) l5" by blast
  obtain rc5 l6 where d5: "lru_destroy l5 (fst (te_destroy env True)) (snd (te_destroy env True)) = Some (rc5, [], l6)"
    using test_destroy [OF l5(2)] by blast
  show ?thesis
    using assms l(1) l1(1) d1 l3(1) l4(1) l5(1) d5
    by (simp add: lru_test_main_def Let_def flip: tenth_def)
qed

section \<open>Properties\<close>

text \<open>C26: the test of the cache reports no error, for every size that it accepts, every sequence of
  random numbers and every failure of an allocation: an entry that is found holds the payload it
  was added with, and an entry not added yet is not found.\<close>

theorem lru_test_passes:
  assumes "howmany \<le> 100000" and "int_ok (howmany * 1000)"
  shows "lru_test_main env (Some howmany) = Some ([], 0)"
  using assms by (intro lru_test_runs) (simp_all add: MAXSIZE_def)

text \<open>The test of the vector passes, whatever becomes of the reallocations, if the first block is
  allocated; if it is not, \<open>v_add\<close> writes through the null pointer.\<close>

theorem vector_test_passes:
  "vector_test_main v0 iok aok dok =
    (if iok then Some ([Say ''Test start!'', Say ''Vector filled!'', Say ''Check executed!'', Say ''End of test!''], 0)
     else None)"
proof (cases iok)
  case True
  then show ?thesis by (simp add: vector_test_runs)
next
  case False
  define rest where "rest = [Suc 0..<100]"
  have "[0..<100] = 0 # rest" unfolding rest_def by (rule upt_conv_Cons) simp
  with False have "vector_test_main v0 iok aok dok = None"
    by (simp add: vector_test_main_def v_create_def VECTOR_INIT_CAPACITY_def v_add_def v_lock_def cell_write_def)
  with False show ?thesis by simp
qed

text \<open>The times that the test of the timers prints are the distances of the readings around each of
  the three pieces of code.\<close>

theorem timing_test_measures:
  assumes "\<And>i. reading_ok 1000000000 (clk i)" and "int_ok (pid - 1)"
  shows "timing_test_main True junk clk pid =
    Some (map (\<lambda>(i, n). ((fst (clk (i + 1)) - fst (clk i)) * 1000000000 + (snd (clk (i + 1)) - snd (clk i)), n))
      [(0, pid), (2, pid), (4, pid - 1)], 0)"
proof -
  have t: "ticks_between 1000000000 (clk i) (clk j) =
      Some ((fst (clk i) - fst (clk j)) * 1000000000 + (snd (clk i) - snd (clk j)))" for i j
    using ticks_between_ok [OF assms(1) assms(1)] by simp
  have "timing_end (timing_start tm (clk i) (0, 0)) (clk j) (0, 0) =
      Some ((fst (clk j) - fst (clk i)) * 1000000000 + (snd (clk j) - snd (clk i)),
        tm\<lparr>nano_start := clk i, nano_end := clk j\<rparr>)" if "nano tm = 1" for i j tm
    using that by (simp add: timing_end_def timing_start_def t del: distrib_right_numeral)
  then show ?thesis
    using assms(2) by (simp add: timing_test_main_def timing_new_timer_def the_foo_function_def)
qed

section \<open>Witnesses\<close>

definition ex_env :: test_env where
  "ex_env = \<lparr>te_wy = (\<lambda>b k. 0), te_create = (\<lambda>b. ex_allocs\<lparr>al_ll := b\<rparr>), te_destroy = (\<lambda>b. (b, True)),
     te_add = (\<lambda>phase i. (i \<noteq> 7, all_ok)), te_rand = (\<lambda>i. i * i)\<rparr>"

theorem lru_test_passes_witness: "lru_test_main ex_env (Some 20) = Some ([], 0)"
  by (rule lru_test_passes) (simp_all add: int_ok_def)

theorem timing_test_measures_witness:
  "timing_test_main True \<lparr>tm_start = (0, 0), tm_end = (0, 0), nano_start = (0, 0), nano_end = (0, 0), nano = 7\<rparr>
    (\<lambda>i. (5, int i mod 100)) 42 = Some ([(1, 42), (1, 42), (1, 41)], 0)"
  using timing_test_measures [of "\<lambda>i. (5, int i mod 100)" 42] by (simp add: reading_ok_def int_ok_def)

end
