(* ===== verification/Spec2Isabelle.thy ===== *)
theory Spec2Isabelle
  imports Vector AvlSpec ChannelThreads FhEnumSpec WyhashCount ThpEnds FhAtomic LruThreadsSpec SelfTests
begin

text \<open>
  A verification library for clibs, a collection of small C libraries: a growable vector
  (libvector), an AVL tree (libavl), a channel between threads (libchannel), a hash table with
  its hash function (libfh), an LRU cache (liblru), a thread pool (libthp) and timers
  (libtiming). The cache is built on the hash table and on a list of its own; the pool is built
  on the channel; the other libraries stand alone.

  \<^bold>\<open>Conventions.\<close> A C function is a function of the same name on the state of its library,
  which it returns updated. A result of type \<open>option\<close> is \<open>None\<close> when the C code has no defined
  result: a dereference of a null, freed or uninitialised pointer, an access out of bounds, a
  failed \<open>assert\<close>, an overflow of a signed integer, or a call that never returns. A handle or
  pointer argument that can be null is an \<open>option\<close> as well, and then \<open>None\<close> is the null
  pointer. The outcome of an allocation is a boolean argument. A mutex is a flag, and taking it
  while it is held never returns. Return codes, attributes and magic numbers are constants of the
  names they have in the headers.

  \<^bold>\<open>Theories.\<close>

  \<^item> \<open>Prelude\<close>: machine integers, C strings and \<open>strcmp\<close> with the order it gives, linked lists, and
    the locale \<open>simulation\<close>: an implementation whose calls return what a specification returns
    does so over any sequence of calls. The collection \<open>codes\<close> has the values of the constants.
  \<^item> \<open>Vector\<close>: libvector/vector.c. A block of cells, of which the first ones are written; growth and
    shrinking; the simulation of a list. A failed \<open>realloc\<close> when growing is not noticed.
  \<^item> \<open>StrMem\<close>, \<open>Dictionary\<close>: a heap of strings that may be freed, and the contract of dictionaries
    as a locale.
  \<^item> \<open>Avl\<close>, \<open>AvlInsert\<close>, \<open>AvlDelete\<close>, \<open>AvlSpec\<close>: libavl/avl.c and avl_internal.c. Keys are addresses
    of strings in the heap, so that the strings a deletion frees or loses are visible. Order and
    balance are kept by insertion and, when it is harmless, by deletion; the tree is a map;
    height is logarithmic; a deletion of a node with one child frees a key still in use.
  \<^item> \<open>Channel\<close>, \<open>ChannelInv\<close>, \<open>Fifo\<close>, \<open>ChannelSpec\<close>: libchannel/ch.c for one thread, on the linked
    elements; invariant; the simulation of a bounded queue; the locale \<open>fifo\<close>, interpreted on
    channels of pointers.
  \<^item> \<open>ChannelThreads\<close>: \<open>_ch_put\<close> and \<open>ch_get\<close> of any number of threads as a step relation, with the
    condition variables. No signal is lost, no thread waits while it could go on, elements come
    out in the order they were linked in, the bound is kept.
  \<^item> \<open>PtrQueue\<close>: channels of pointers as the thread pool uses them.
  \<^item> \<open>Fh\<close>, \<open>FhEnum\<close>: libfh/fh.c: chains of buckets, minihashes, the pool of locks, the calls that
    leave a lock held, the enumerator, cleaning and destruction.
    \<open>FhInv\<close>, \<open>FhSize\<close>, \<open>FhSpec\<close>, \<open>FhProps\<close>, \<open>FhEnumSpec\<close>: its invariant, the size computed at
    creation, the simulation of a map, locks, enumeration, and what failed allocations leave.
  \<^item> \<open>FhThreads\<close>, \<open>FhThreadsInv\<close>, \<open>FhThreadsSpec\<close>: \<open>fh_insert\<close>, \<open>fh_del\<close> and \<open>fh_get\<close> of any number of threads,
    cut at their locks and before they count, and sessions, in which \<open>fh_searchlock\<close> or
    \<open>fh_insertlock\<close> leaves a thread the lock of its key until \<open>fh_releaselock\<close>. Every run is one of a
    map, ends, and leaves a table that counts its entries; a session has its key for itself.
    \<open>FhAtomic\<close>: what callers do to an object in sessions is never lost.
  \<^item> \<open>FhHeld\<close>: the table while some of its locks are held: what a call does to its chain, that calls for
    keys of different locks commute, and the contract of the calls under \<open>fh_inv\<close>, which holds
    whatever locks are held.
  \<^item> \<open>Wyhash\<close>, \<open>WyhashSpec\<close>, \<open>WyhashCount\<close>: libfh/wyhash.h and its use in fh.c. The portable
    multiplication, the reads of big-endian machines and the count of bits without a built-in
    function are equal to the others; no read leaves the key; the secrets; the ranges of numbers.
  \<^item> \<open>Ll\<close>, \<open>LlInv\<close>: liblru/ll.c, slots that are in the free list, in the list or dangling; the
    invariant gives both lists.
  \<^item> \<open>Lru\<close>, \<open>LruInv\<close>, \<open>LruSpec\<close>, \<open>LruProps\<close>: liblru/lru.c over the models of the table and of the
    list: each entry of the table points to the slot of the list that has its key. The cache
    simulates a list of entries in the order of their use.
  \<^item> \<open>Threads\<close>: threads with stacks of frames over a shared state, and two locales: an invariant with
    a bound for the steps of every run, and progress of threads that wait for each other. They are
    interpreted on the hash table and on the cache.
  \<^item> \<open>LruThreads\<close>, \<open>LruThreadsInv\<close>, \<open>LruThreadsSteps\<close>, \<open>LruThreadsSpec\<close>: \<open>lru_add\<close>, \<open>lru_check\<close> and \<open>lru_clear\<close>
    of any number of threads as steps, one for each call of the table or of the list. Each slot is
    in one of the two lists or in the hands of one frame; the table has the keys of the list and
    of the frames that are about to add or delete theirs; a lock is held by the lookup that took it.
    Every run is one of a map, ends within a number of steps that is known at its start, and
    leaves a valid cache. A call that is not interrupted is that of \<open>Lru\<close>.
  \<^item> \<open>Thp\<close>, \<open>ThpInv\<close>, \<open>ThpSpec\<close>, \<open>ThpProps\<close>, \<open>ThpEnds\<close>: libthp/thp.c, whose functions run as frames on the stacks
    of threads. The invariant, over the multiset of all frames, says who holds the mutex, what the
    counters count and where each job is; from it follow that \<open>thp_wait\<close> returns when all jobs
    have ended, that it can return, and the deadlocks; \<open>ThpEnds\<close> shows that threads that only add
    jobs and wait all come to their end, with a bound on their steps and every job run.
  \<^item> \<open>Timing\<close>: libtiming/timing.c with the readings of the clocks as arguments.
  \<^item> \<open>SelfTests\<close>: the test programs at the end of vector.c, lru.c and timing.c, run on the models:
    they pass for all random numbers and outcomes of allocations, but for a null pointer in one.

  \<^bold>\<open>Loops and bounds.\<close> No model has fuel. Loops that end by the size of their data are structural
  or have a measure. Loops that need an invariant to end (\<open>fh_hash_size\<close>, \<open>ch_clean\<close>, the
  eviction and clearing loops of the cache, \<open>make_secret\<close>) are partial functions of the option
  monad, so that a loop that does not end is \<open>None\<close>, and the theorems say when they
  return.
  Integers are words or are checked against their range where the code can overflow them; the
  count of entries of the hash table is not bounded. The two bounds that show are those of the
  code: a table can be created for up to 2/3 of 2^30 entries, a channel counts to 2^31 - 1.

  \<^bold>\<open>Interleaving.\<close> The threads of the channel are modelled at its mutex and condition variables.
  The threads of the pool are modelled at its mutex and at the calls of the channel, which are
  atomic by the results about the channel. The threads of the cache are modelled at the calls of
  the list, which hold its mutex, and of the hash table, which are atomic by the results about the
  hash table: \<open>FhThreads\<close> cuts its calls at the locks and before the change of the count, which has
  a mutex of its own, and \<open>FhHeld\<close> has that calls for keys of different locks commute.
  A thread has at most one session of the table at a time; threads that nest sessions, whose locks
  can be those of each other, are not modelled. The enumerator of the table and its attributes,
  \<open>lru_destroy\<close> and the inspection of the list are modelled for one thread, as is the vector, whose
  calls hold its mutex; \<open>fh_searchlock\<close> and \<open>fh_releaselock\<close> occur among the steps of the cache.

  \<^bold>\<open>Not modelled.\<close> Formatted output, apart from which slots are printed and what the test programs
  report; the code of wyhash.h for the intrinsics of the Microsoft compiler; the checks of ll.c
  under \<open>INTEGRITY_CHECKS\<close> and \<open>MUTEX_CHECKS\<close>, which no build sets; the simulators and tests in the
  directories named test. libnlru has no code. googletest and googlebenchmark are vendored test frameworks
  that the libraries do not use.
\<close>

end
